(* ===== verification/CMem.thy ===== *)
theory CMem
  imports Main "HOL-Library.Word"
begin

text \<open>
  Shared prelude: the part of C that every component of the chat program rests on.

  \<^item> \<open>fault\<close> names the ways in which a C step has no defined result (or aborts); a program step is a
    function from the state to \<open>fault + value \<times> state\<close> (\<open>ret\<close>, \<open>fail\<close>, \<open>chain\<close>).
  \<^item> \<open>bmem\<close> is the byte memory (strings, buffers, character arrays inside structs) with the
    end of the address space in use; \<open>cmem\<close> adds the environment of \<open>malloc\<close>: which call
    fails and what a fresh object contains. Address 0 is \<open>NULL\<close>. Every block is followed by
    one unmapped address, so a write past a block is a fault and never hits another block.
  \<^item> \<open>strlen\<close>, \<open>strcmp\<close> and \<open>strcpy\<close> of the C library over that memory.

  The collections \<open>c_unfold\<close> (definitions to unfold when a step is executed symbolically)
  and \<open>c_step\<close> (equations of executed steps) are used by all component theories.
\<close>

named_theorems c_unfold
named_theorems c_step

section \<open>Faults and program steps\<close>

datatype fault = NullDeref | BadAddress | BadFree | DivByZero | Overflow | Diverges | Aborted

type_synonym addr = nat
type_synonym u8 = "8 word"
type_synonym i32 = "32 word"
type_synonym u64 = "64 word"
type_synonym ('s, 'a) prog = "'s \<Rightarrow> fault + 'a \<times> 's"

abbreviation NULL :: addr where "NULL \<equiv> 0"

definition ret :: "'a \<Rightarrow> ('s, 'a) prog" where
  "ret a = (\<lambda>s. Inr (a, s))"

definition fail :: "fault \<Rightarrow> ('s, 'a) prog" where
  "fail e = (\<lambda>s. Inl e)"

definition chain :: "('s, 'a) prog \<Rightarrow> ('a \<Rightarrow> ('s, 'b) prog) \<Rightarrow> ('s, 'b) prog" where
  "chain m f = (\<lambda>s. case m s of Inl e \<Rightarrow> Inl e | Inr (a, s') \<Rightarrow> f a s')"

lemma ret_apply [simp]: "ret a s = Inr (a, s)"
  by (simp add: ret_def)

lemma fail_apply [simp]: "fail e s = Inl e"
  by (simp add: fail_def)

lemma chain_Inr [simp]: "m s = Inr (a, s') \<Longrightarrow> chain m f s = f a s'"
  by (simp add: chain_def)

lemma chain_Inl [simp]: "m s = Inl e \<Longrightarrow> chain m f s = Inl e"
  by (simp add: chain_def)

lemma chain_ret [simp]: "chain (ret a) f = f a"
  by (simp add: chain_def ret_def)

lemma chain_assoc: "chain (chain m f) g = chain m (\<lambda>a. chain (f a) g)"
  by (auto simp: chain_def fun_eq_iff split: sum.splits)

lemma chain_eq_Inr:
  "chain m f s = Inr r \<longleftrightarrow> (\<exists>a s'. m s = Inr (a, s') \<and> f a s' = Inr r)"
  by (auto simp: chain_def split: sum.splits)

lemma if_apply: "(if c then f else g) s = (if c then f s else g s)"
  by simp

lemma case_option_apply:
  "(case x of None \<Rightarrow> f | Some y \<Rightarrow> g y) s = (case x of None \<Rightarrow> f s | Some y \<Rightarrow> g y s)"
  by (cases x) auto

text \<open>Lifting a computation that only reads the state.\<close>

definition reads :: "('s \<Rightarrow> fault + 'a) \<Rightarrow> ('s, 'a) prog" where
  "reads f = (\<lambda>s. case f s of Inl e \<Rightarrow> Inl e | Inr a \<Rightarrow> Inr (a, s))"

definition modify :: "('s \<Rightarrow> 's) \<Rightarrow> ('s, unit) prog" where
  "modify f = (\<lambda>s. Inr ((), f s))"

lemma reads_Inr [simp]: "f s = Inr a \<Longrightarrow> reads f s = Inr (a, s)"
  by (simp add: reads_def)

lemma reads_Inl [simp]: "f s = Inl e \<Longrightarrow> reads f s = Inl e"
  by (simp add: reads_def)

lemma modify_apply [simp]: "modify f s = Inr ((), f s)"
  by (simp add: modify_def)

text \<open>
  C \<open>int\<close> values are integers; arithmetic that leaves the 32-bit range is undefined
  (\<open>Overflow\<close>).
\<close>

definition int_ok :: "int \<Rightarrow> bool" where
  "int_ok i \<longleftrightarrow> - (2 ^ 31) \<le> i \<and> i < 2 ^ 31"

definition int_val :: "int \<Rightarrow> fault + int" where
  "int_val i = (if int_ok i then Inr i else Inl Overflow)"

section \<open>Memory and allocation\<close>

record bmem =
  brk :: addr
  bytes :: "addr \<Rightarrow> u8 option"

record cmem = bmem +
  oom :: "addr \<Rightarrow> bool"
  junk :: "addr \<Rightarrow> nat \<Rightarrow> nat"

text \<open>
  \<open>malloc\<close> hands out addresses in increasing order and never reuses one; \<open>oom\<close> decides,
  per call, whether it returns \<open>NULL\<close>. \<open>junk a i\<close> is what an uninitialised field \<open>i\<close> of
  the object at \<open>a\<close> holds.
\<close>

definition malloc :: "nat \<Rightarrow> ('a cmem_scheme, addr) prog" where
  "malloc n = (\<lambda>s. if oom s (brk s) then Inr (NULL, s\<lparr>brk := brk s + 1\<rparr>)
                    else Inr (brk s, s\<lparr>brk := brk s + n + 1\<rparr>))"

text \<open>A block of \<open>n\<close> bytes at \<open>a\<close>, with the given contents.\<close>

definition map_bytes :: "addr \<Rightarrow> u8 list \<Rightarrow> (addr \<Rightarrow> u8 option) \<Rightarrow> addr \<Rightarrow> u8 option" where
  "map_bytes a xs h = (\<lambda>p. if a \<le> p \<and> p < a + length xs then Some (xs ! (p - a)) else h p)"

definition unmap_bytes :: "addr \<Rightarrow> nat \<Rightarrow> (addr \<Rightarrow> u8 option) \<Rightarrow> addr \<Rightarrow> u8 option" where
  "unmap_bytes a n h = (\<lambda>p. if a \<le> p \<and> p < a + n then None else h p)"

definition junk_bytes :: "(addr \<Rightarrow> nat \<Rightarrow> nat) \<Rightarrow> addr \<Rightarrow> nat \<Rightarrow> u8 list" where
  "junk_bytes j a n = map (\<lambda>i. of_nat (j a i)) [0..<n]"

lemma length_junk_bytes [simp]: "length (junk_bytes j a n) = n"
  by (simp add: junk_bytes_def)

definition malloc_bytes :: "nat \<Rightarrow> ('a cmem_scheme, addr) prog" where
  "malloc_bytes n = chain (malloc n) (\<lambda>p s.
     if p = NULL then Inr (NULL, s)
     else Inr (p, s\<lparr>bytes := map_bytes p (junk_bytes (junk s) p n) (bytes s)\<rparr>))"

lemma malloc_bytes_step [c_step]:
  "\<not> oom s (brk s) \<Longrightarrow> 0 < brk s \<Longrightarrow> malloc_bytes n s =
   Inr (brk s, s\<lparr>brk := brk s + n + 1,
     bytes := map_bytes (brk s) (junk_bytes (junk s) (brk s) n) (bytes s)\<rparr>)"
  by (simp add: malloc_bytes_def malloc_def)

lemma malloc_bytes_oom [c_step]:
  "oom s (brk s) \<Longrightarrow> malloc_bytes n s = Inr (NULL, s\<lparr>brk := brk s + 1\<rparr>)"
  by (simp add: malloc_bytes_def malloc_def)

text \<open>
  \<open>free\<close> of a block of bytes: blocks are separated by unmapped addresses, so a block starts
  where the byte before is unmapped and ends at the next unmapped address.
\<close>

function block_len :: "'a bmem_scheme \<Rightarrow> addr \<Rightarrow> nat" where
  "block_len s p = (if p < brk s \<and> bytes s p \<noteq> None then Suc (block_len s (Suc p)) else 0)"
  by pat_completeness auto
termination
  by (relation "measure (\<lambda>(s, p). brk s - p)") auto

declare block_len.simps [simp del]

definition free_block :: "addr \<Rightarrow> ('a bmem_scheme, unit) prog" where
  "free_block p = (\<lambda>s. if p = NULL then Inr ((), s)
     else if bytes s p = None \<or> bytes s (p - 1) \<noteq> None then Inl BadFree
     else Inr ((), s\<lparr>bytes := unmap_bytes p (block_len s p) (bytes s)\<rparr>))"

definition wf_bytes :: "'a cmem_scheme \<Rightarrow> bool" where
  "wf_bytes s \<longleftrightarrow> 0 < brk s \<and> (\<forall>a \<ge> brk s. bytes s a = None)"

section \<open>Strings\<close>

text \<open>The bytes of the C string at \<open>a\<close>, without the terminating 0.\<close>

function c_str :: "'a bmem_scheme \<Rightarrow> addr \<Rightarrow> fault + u8 list" where
  "c_str m a =
     (if a = NULL then Inl NullDeref
      else if a < brk m then
        (case bytes m a of
           None \<Rightarrow> Inl BadAddress
         | Some c \<Rightarrow> if c = 0 then Inr []
                     else (case c_str m (Suc a) of Inl e \<Rightarrow> Inl e | Inr cs \<Rightarrow> Inr (c # cs)))
      else Inl BadAddress)"
  by pat_completeness auto
termination
  by (relation "measure (\<lambda>(m, a). brk m - a)") auto

declare c_str.simps [simp del]

definition strlen :: "'a bmem_scheme \<Rightarrow> addr \<Rightarrow> fault + nat" where
  "strlen m a = (case c_str m a of Inl e \<Rightarrow> Inl e | Inr cs \<Rightarrow> Inr (length cs))"

text \<open>
  \<open>strcmp\<close> compares byte by byte as unsigned characters and stops at the first difference
  or at the end of both strings.
\<close>

function strcmp :: "'a bmem_scheme \<Rightarrow> addr \<Rightarrow> addr \<Rightarrow> fault + int" where
  "strcmp m a b =
     (if a = NULL \<or> b = NULL then Inl NullDeref
      else if a < brk m \<and> b < brk m then
        (case (bytes m a, bytes m b) of
           (Some c, Some d) \<Rightarrow>
             if c \<noteq> d then Inr (uint c - uint d)
             else if c = 0 then Inr 0
             else strcmp m (Suc a) (Suc b)
         | _ \<Rightarrow> Inl BadAddress)
      else Inl BadAddress)"
  by pat_completeness auto
termination
  by (relation "measure (\<lambda>(m, a, b). brk m - a)") auto

declare strcmp.simps [simp del]

text \<open>Storing bytes: every address written must be mapped.\<close>

fun put_bytes :: "addr \<Rightarrow> u8 list \<Rightarrow> ('a bmem_scheme, unit) prog" where
  "put_bytes a [] s = Inr ((), s)"
| "put_bytes a (c # cs) s =
     (if a = NULL then Inl NullDeref
      else if bytes s a = None then Inl BadAddress
      else put_bytes (Suc a) cs (s\<lparr>bytes := (bytes s)(a \<mapsto> c)\<rparr>))"

definition strcpy :: "addr \<Rightarrow> addr \<Rightarrow> ('a bmem_scheme, unit) prog" where
  "strcpy d a = (\<lambda>s. case c_str s a of Inl e \<Rightarrow> Inl e | Inr cs \<Rightarrow> put_bytes d (cs @ [0]) s)"

subsection \<open>Lemmas on strings\<close>

text \<open>\<open>str_at m a xs\<close>: the C string \<open>xs\<close> (no zero byte) lies at \<open>a\<close>, terminated.\<close>

definition str_at :: "'a bmem_scheme \<Rightarrow> addr \<Rightarrow> u8 list \<Rightarrow> bool" where
  "str_at m a xs \<longleftrightarrow> a \<noteq> NULL \<and> 0 \<notin> set xs \<and> a + length xs < brk m \<and>
     (\<forall>i < length xs. bytes m (a + i) = Some (xs ! i)) \<and> bytes m (a + length xs) = Some 0"

lemma str_at_Nil: "str_at m a [] \<longleftrightarrow> a \<noteq> NULL \<and> a < brk m \<and> bytes m a = Some 0"
  by (auto simp: str_at_def)

lemma str_at_Cons:
  "str_at m a (c # cs) \<longleftrightarrow> a \<noteq> NULL \<and> c \<noteq> 0 \<and> bytes m a = Some c \<and> str_at m (Suc a) cs"
  by (auto simp: str_at_def nth_Cons split: nat.splits)

lemma str_at_c_str: "str_at m a xs \<Longrightarrow> c_str m a = Inr xs"
proof (induction xs arbitrary: a)
  case Nil
  then show ?case by (subst c_str.simps) (simp add: str_at_Nil)
next
  case (Cons c cs)
  then have "a < brk m" by (simp add: str_at_def)
  with Cons show ?case by (subst c_str.simps) (simp add: str_at_Cons)
qed

lemma c_str_str_at: "c_str m a = Inr xs \<Longrightarrow> str_at m a xs"
proof (induction m a arbitrary: xs rule: c_str.induct)
  case (1 m a)
  from "1.prems" obtain c where a: "a \<noteq> NULL" "a < brk m" "bytes m a = Some c"
    by (subst (asm) c_str.simps) (auto split: if_splits option.splits)
  show ?case
  proof (cases "c = 0")
    case True
    with a "1.prems" show ?thesis by (subst (asm) c_str.simps) (simp add: str_at_Nil)
  next
    case False
    with a "1.prems" obtain cs where cs: "c_str m (Suc a) = Inr cs" "xs = c # cs"
      by (subst (asm) c_str.simps) (auto split: sum.splits)
    with "1.IH" a False have "str_at m (Suc a) cs" by simp
    with a False cs show ?thesis by (simp add: str_at_Cons)
  qed
qed

lemma c_str_iff: "c_str m a = Inr xs \<longleftrightarrow> str_at m a xs"
  by (blast intro: str_at_c_str c_str_str_at)

lemma str_at_unique: "str_at m a xs \<Longrightarrow> str_at m a ys \<Longrightarrow> xs = ys"
  by (metis str_at_c_str sum.inject(2))

lemma strlen_str_at: "str_at m a xs \<Longrightarrow> strlen m a = Inr (length xs)"
  by (simp add: strlen_def str_at_c_str)

lemma strcmp_str_at:
  assumes "str_at m a xs" and "str_at m b ys"
  shows "\<exists>r. strcmp m a b = Inr r \<and> (r = 0 \<longleftrightarrow> xs = ys)"
  using assms
proof (induction xs arbitrary: a b ys)
  case Nil
  then have b: "b \<noteq> NULL" "b < brk m" by (auto simp: str_at_def)
  show ?case using Nil b
    by (cases ys; subst strcmp.simps) (auto simp: str_at_Nil str_at_Cons uint_0_iff)
next
  case (Cons c cs)
  then have ab: "a \<noteq> NULL" "a < brk m" "b \<noteq> NULL" "b < brk m" by (auto simp: str_at_def)
  show ?case
  proof (cases ys)
    case Nil
    with Cons.prems ab show ?thesis
      by (subst strcmp.simps) (auto simp: str_at_Nil str_at_Cons uint_0_iff)
  next
    case (Cons d ds)
    with Cons.prems ab Cons.IH [of "Suc a" "Suc b" ds] show ?thesis
      by (subst strcmp.simps) (auto simp: str_at_Cons simp flip: word_uint_eq_iff)
  qed
qed

lemma strcmp_self: "str_at m a xs \<Longrightarrow> strcmp m a a = Inr 0"
  using strcmp_str_at [of m a xs a xs] by auto

lemma str_at_cong:
  "str_at m a xs \<Longrightarrow> brk m \<le> brk m' \<Longrightarrow>
   (\<And>i. i \<le> length xs \<Longrightarrow> bytes m' (a + i) = bytes m (a + i)) \<Longrightarrow> str_at m' a xs"
  by (auto simp: str_at_def)

lemma put_bytes_ok:
  "\<lbrakk>d \<noteq> NULL; \<And>i. i < length cs \<Longrightarrow> bytes s (d + i) \<noteq> None\<rbrakk> \<Longrightarrow>
   put_bytes d cs s = Inr ((), s\<lparr>bytes := map_bytes d cs (bytes s)\<rparr>)"
proof (induction cs arbitrary: d s)
  case Nil
  have "map_bytes d [] (bytes s) = bytes s" by (rule ext) (auto simp: map_bytes_def)
  then show ?case by simp
next
  case (Cons c cs)
  have d: "bytes s d \<noteq> None" using Cons.prems(2) [of 0] by simp
  let ?s = "s\<lparr>bytes := (bytes s)(d \<mapsto> c)\<rparr>"
  have "bytes ?s (Suc d + i) \<noteq> None" if "i < length cs" for i
    using Cons.prems(2) [of "Suc i"] that by simp
  then have "put_bytes (Suc d) cs ?s = Inr ((), ?s\<lparr>bytes := map_bytes (Suc d) cs (bytes ?s)\<rparr>)"
    by (intro Cons.IH) simp_all
  moreover have mb: "map_bytes (Suc d) cs (bytes ?s) = map_bytes d (c # cs) (bytes s)"
    by (rule ext) (auto simp: map_bytes_def nth_Cons')
  moreover have "put_bytes d (c # cs) s = put_bytes (Suc d) cs ?s"
    using Cons.prems(1) d by auto
  ultimately show ?case by (simp only: mb) auto
qed

lemma strcpy_ok:
  "\<lbrakk>str_at s a xs; d \<noteq> NULL; \<And>i. i \<le> length xs \<Longrightarrow> bytes s (d + i) \<noteq> None\<rbrakk> \<Longrightarrow>
   strcpy d a s = Inr ((), s\<lparr>bytes := map_bytes d (xs @ [0]) (bytes s)\<rparr>)"
  unfolding strcpy_def by (simp only: str_at_c_str sum.case) (rule put_bytes_ok; simp)

lemma map_bytes_in: "i < length xs \<Longrightarrow> map_bytes a xs h (a + i) = Some (xs ! i)"
  by (simp add: map_bytes_def)

lemma map_bytes_out: "p < a \<or> a + length xs \<le> p \<Longrightarrow> map_bytes a xs h p = h p"
  by (auto simp: map_bytes_def)

lemma str_at_map_bytes:
  "\<lbrakk>a \<noteq> NULL; 0 \<notin> set xs; a + length xs < brk m; bytes m = map_bytes a (xs @ [0]) h\<rbrakk> \<Longrightarrow>
   str_at m a xs"
  by (auto simp: str_at_def map_bytes_def nth_append)

lemma put_bytes_fault:
  "\<lbrakk>d \<noteq> NULL; i < length cs; bytes s (d + i) = None\<rbrakk> \<Longrightarrow> put_bytes d cs s = Inl BadAddress"
proof (induction cs arbitrary: d s i)
  case Nil
  then show ?case by simp
next
  case (Cons c cs)
  show ?case
  proof (cases i)
    case 0
    with Cons.prems show ?thesis by simp
  next
    case (Suc j)
    then show ?thesis
      using Cons.prems Cons.IH [of "Suc d" j "s\<lparr>bytes := (bytes s)(d \<mapsto> c)\<rparr>"] by simp
  qed
qed

section \<open>Lists of lists\<close>

text \<open>Replacing one list in a list of lists, as a map operation does with one bucket.\<close>

lemma concat_add:
  assumes "i < length xss"
  shows "set (concat (xss[i := x # xss ! i])) = insert x (set (concat xss))"
    "length (concat (xss[i := x # xss ! i])) = Suc (length (concat xss))"
    "distinct (concat (xss[i := x # xss ! i])) \<longleftrightarrow> x \<notin> set (concat xss) \<and> distinct (concat xss)"
proof -
  have u: "xss[i := x # xss ! i] = take i xss @ (x # xss ! i) # drop (Suc i) xss"
    using assms by (simp add: upd_conv_take_nth_drop)
  have c: "concat xss = concat (take i xss) @ xss ! i @ concat (drop (Suc i) xss)"
    using assms by (subst id_take_nth_drop [OF assms]) simp
  show "set (concat (xss[i := x # xss ! i])) = insert x (set (concat xss))"
    "length (concat (xss[i := x # xss ! i])) = Suc (length (concat xss))"
    "distinct (concat (xss[i := x # xss ! i])) \<longleftrightarrow> x \<notin> set (concat xss) \<and> distinct (concat xss)"
    unfolding u c by auto
qed

lemma concat_del:
  assumes "i < length xss" and "xss ! i = us @ x # vs"
  shows "insert x (set (concat (xss[i := us @ vs]))) = set (concat xss)"
    "Suc (length (concat (xss[i := us @ vs]))) = length (concat xss)"
    "distinct (concat xss) \<longleftrightarrow>
       x \<notin> set (concat (xss[i := us @ vs])) \<and> distinct (concat (xss[i := us @ vs]))"
proof -
  have u: "xss[i := us @ vs] = take i xss @ (us @ vs) # drop (Suc i) xss"
    using assms by (simp add: upd_conv_take_nth_drop)
  have c: "concat xss = concat (take i xss) @ (us @ x # vs) @ concat (drop (Suc i) xss)"
    using assms by (subst id_take_nth_drop [OF assms(1)]) simp
  show "insert x (set (concat (xss[i := us @ vs]))) = set (concat xss)"
    "Suc (length (concat (xss[i := us @ vs]))) = length (concat xss)"
    "distinct (concat xss) \<longleftrightarrow>
       x \<notin> set (concat (xss[i := us @ vs])) \<and> distinct (concat (xss[i := us @ vs]))"
    unfolding u c by auto
qed

lemma nth_in_concat: "i < length xss \<Longrightarrow> set (xss ! i) \<subseteq> set (concat xss)"
  using nth_mem by fastforce

end
