(* ===== verification/LinkedList.thy ===== *)
theory LinkedList
  imports CMem
begin

text \<open>
  The doubly linked list of \<^verbatim>\<open>src/GenericDLinkedList/LinkedListGeneric.c\<close>: struct
  \<open>Node\<close>, the sentinels \<open>head\<close> and \<open>tail\<close> of struct \<open>List\<close>, and its seven operations, over
  a heap of nodes. A list pointer is the address of its \<open>head\<close> sentinel; the \<open>tail\<close>
  sentinel is the next node of the same block (\<open>tail_of\<close>).

  \<open>dlist h l cs\<close> is the representation invariant: the cells \<open>cs\<close> are linked in both
  directions between the sentinels of the list \<open>l\<close>. Each operation is executed under it
  and shown to be the list operation on \<open>cs\<close> and on the stored items.
\<close>

section \<open>Nodes\<close>

record node =
  m_data :: addr
  m_next :: addr
  m_prev :: addr

record list_mem = cmem +
  nodes :: "addr \<Rightarrow> node option"

datatype List_Result =
  LIST_SUCCESS | LIST_UNINITIALIZED_ERROR | LIST_ALLOCATION_ERROR
| LIST_NULL_ELEMENT_ERROR | LIST_IS_EMPTY

definition tail_of :: "addr \<Rightarrow> addr" where
  "tail_of l = Suc l"

text \<open>Reading a node through a pointer, and assigning to its fields.\<close>

definition rd_node :: "addr \<Rightarrow> ('a list_mem_scheme, node) prog" where
  "rd_node p = (\<lambda>s. if p = NULL then Inl NullDeref
                     else case nodes s p of None \<Rightarrow> Inl BadAddress | Some n \<Rightarrow> Inr (n, s))"

definition wr_node :: "addr \<Rightarrow> (node \<Rightarrow> node) \<Rightarrow> ('a list_mem_scheme, unit) prog" where
  "wr_node p f = chain (rd_node p) (\<lambda>n s. Inr ((), s\<lparr>nodes := (nodes s)(p \<mapsto> f n)\<rparr>))"

definition get_data :: "addr \<Rightarrow> ('a list_mem_scheme, addr) prog" where
  "get_data p = chain (rd_node p) (\<lambda>n. ret (m_data n))"

definition get_next :: "addr \<Rightarrow> ('a list_mem_scheme, addr) prog" where
  "get_next p = chain (rd_node p) (\<lambda>n. ret (m_next n))"

definition get_prev :: "addr \<Rightarrow> ('a list_mem_scheme, addr) prog" where
  "get_prev p = chain (rd_node p) (\<lambda>n. ret (m_prev n))"

definition set_data :: "addr \<Rightarrow> addr \<Rightarrow> ('a list_mem_scheme, unit) prog" where
  "set_data p v = wr_node p (\<lambda>n. n\<lparr>m_data := v\<rparr>)"

definition set_next :: "addr \<Rightarrow> addr \<Rightarrow> ('a list_mem_scheme, unit) prog" where
  "set_next p v = wr_node p (\<lambda>n. n\<lparr>m_next := v\<rparr>)"

definition set_prev :: "addr \<Rightarrow> addr \<Rightarrow> ('a list_mem_scheme, unit) prog" where
  "set_prev p v = wr_node p (\<lambda>n. n\<lparr>m_prev := v\<rparr>)"

text \<open>
  A freshly allocated node has arbitrary contents. \<open>free\<close> of a node unmaps it, so that any
  later access through an old pointer is a \<open>BadAddress\<close>.
\<close>

definition junk_node :: "(addr \<Rightarrow> nat \<Rightarrow> nat) \<Rightarrow> addr \<Rightarrow> node" where
  "junk_node j p = \<lparr>m_data = j p 0, m_next = j p 1, m_prev = j p 2\<rparr>"

definition malloc_nodes :: "nat \<Rightarrow> ('a list_mem_scheme, addr) prog" where
  "malloc_nodes k = chain (malloc k) (\<lambda>p s.
     if p = NULL then Inr (NULL, s)
     else Inr (p, s\<lparr>nodes := (\<lambda>a. if p \<le> a \<and> a < p + k then Some (junk_node (junk s) a)
                                  else nodes s a)\<rparr>))"

definition free_nodes :: "addr \<Rightarrow> nat \<Rightarrow> ('a list_mem_scheme, unit) prog" where
  "free_nodes p k = (\<lambda>s.
     if p = NULL then Inr ((), s)
     else if \<exists>i < k. nodes s (p + i) = None then Inl BadFree
     else Inr ((), s\<lparr>nodes := (\<lambda>a. if p \<le> a \<and> a < p + k then None else nodes s a)\<rparr>))"

section \<open>The operations\<close>

definition List_Create :: "('a list_mem_scheme, addr) prog" where
  "List_Create =
     chain (malloc_nodes 2) (\<lambda>mylist.
     if mylist = NULL then ret NULL
     else
       chain (set_next mylist (tail_of mylist)) (\<lambda>_.
       chain (set_prev mylist NULL) (\<lambda>_.
       chain (set_prev (tail_of mylist) mylist) (\<lambda>_.
       chain (set_next (tail_of mylist) (tail_of mylist)) (\<lambda>_.
       ret mylist)))))"

text \<open>
  \<open>List_Destroy\<close>: the loop moves to the next node and frees the previous one. The step
  count \<open>k\<close> bounds the loop; more steps than the heap has addresses means it never ends.
  \<open>_elementDestroy\<close> is a step of the caller's program (\<open>None\<close> for a \<open>NULL\<close> function
  pointer); the result is the new value of \<open>*_pList\<close>.
\<close>

fun destroy_loop ::
  "nat \<Rightarrow> addr \<Rightarrow> addr \<Rightarrow> (addr \<Rightarrow> ('a list_mem_scheme, unit) prog) option
   \<Rightarrow> ('a list_mem_scheme, unit) prog" where
  "destroy_loop 0 l it dest = fail Diverges"
| "destroy_loop (Suc k) l it dest =
     (if it = tail_of l then ret ()
      else
        chain (case dest of None \<Rightarrow> ret () | Some f \<Rightarrow> chain (get_data it) f) (\<lambda>_.
        chain (get_next it) (\<lambda>it'.
        chain (get_prev it') (\<lambda>p.
        chain (free_nodes p 1) (\<lambda>_.
        destroy_loop k l it' dest)))))"

definition List_Destroy ::
  "addr \<Rightarrow> (addr \<Rightarrow> ('a list_mem_scheme, unit) prog) option \<Rightarrow> ('a list_mem_scheme, addr) prog"
where
  "List_Destroy l dest =
     (if l = NULL then ret l
      else
        chain (get_next l) (\<lambda>it.
        chain (\<lambda>s. destroy_loop (brk s) l it dest s) (\<lambda>_.
        chain (free_nodes l 2) (\<lambda>_.
        ret NULL))))"

definition List_PushHead :: "addr \<Rightarrow> addr \<Rightarrow> ('a list_mem_scheme, List_Result) prog" where
  "List_PushHead l item =
     (if l = NULL then ret LIST_UNINITIALIZED_ERROR
      else if item = NULL then ret LIST_NULL_ELEMENT_ERROR
      else
        chain (malloc_nodes 1) (\<lambda>newNode.
        if newNode = NULL then ret LIST_ALLOCATION_ERROR
        else
          chain (get_next l) (\<lambda>n.
          chain (set_next newNode n) (\<lambda>_.
          chain (set_prev newNode l) (\<lambda>_.
          chain (set_next l newNode) (\<lambda>_.
          chain (get_next newNode) (\<lambda>n'.
          chain (set_prev n' newNode) (\<lambda>_.
          chain (set_data newNode item) (\<lambda>_.
          ret LIST_SUCCESS)))))))))"

text \<open>\<open>List_PushTail\<close> does not test the result of \<open>malloc\<close>.\<close>

definition List_PushTail :: "addr \<Rightarrow> addr \<Rightarrow> ('a list_mem_scheme, List_Result) prog" where
  "List_PushTail l item =
     (if l = NULL then ret LIST_UNINITIALIZED_ERROR
      else if item = NULL then ret LIST_NULL_ELEMENT_ERROR
      else
        chain (malloc_nodes 1) (\<lambda>newNode.
        chain (get_prev (tail_of l)) (\<lambda>p.
        chain (set_prev newNode p) (\<lambda>_.
        chain (set_next newNode (tail_of l)) (\<lambda>_.
        chain (get_prev (tail_of l)) (\<lambda>p'.
        chain (set_next p' newNode) (\<lambda>_.
        chain (get_next newNode) (\<lambda>n.
        chain (set_prev n newNode) (\<lambda>_.
        chain (set_data newNode item) (\<lambda>_.
        ret LIST_SUCCESS))))))))))"

text \<open>
  The out parameter \<open>void** _pItem\<close>: \<open>out\<close> says whether the pointer is non-null, and the
  second result is what was stored through it (\<open>None\<close>: nothing).
\<close>

definition List_PopHead ::
  "addr \<Rightarrow> bool \<Rightarrow> ('a list_mem_scheme, List_Result \<times> addr option) prog" where
  "List_PopHead l out =
     (if l = NULL \<or> \<not> out then ret (LIST_UNINITIALIZED_ERROR, None)
      else
        chain (get_next l) (\<lambda>n.
        if n = tail_of l then ret (LIST_IS_EMPTY, None)
        else
          chain (get_data n) (\<lambda>d.
          chain (get_next n) (\<lambda>nn.
          chain (set_next l nn) (\<lambda>_.
          chain (get_next l) (\<lambda>n'.
          chain (set_prev n' l) (\<lambda>_.
          chain (free_nodes n 1) (\<lambda>_.
          ret (LIST_SUCCESS, Some d)))))))))"

definition List_PopTail ::
  "addr \<Rightarrow> bool \<Rightarrow> ('a list_mem_scheme, List_Result \<times> addr option) prog" where
  "List_PopTail l out =
     (if l = NULL \<or> \<not> out then ret (LIST_UNINITIALIZED_ERROR, None)
      else
        chain (get_next l) (\<lambda>n.
        if n = tail_of l then ret (LIST_IS_EMPTY, None)
        else
          chain (get_prev (tail_of l)) (\<lambda>r.
          chain (get_data r) (\<lambda>d.
          chain (get_prev r) (\<lambda>p.
          chain (set_next p (tail_of l)) (\<lambda>_.
          chain (get_prev r) (\<lambda>p'.
          chain (set_prev (tail_of l) p') (\<lambda>_.
          chain (free_nodes r 1) (\<lambda>_.
          ret (LIST_SUCCESS, Some d))))))))))"

text \<open>\<open>List_Size\<close> counts in an \<open>int\<close>, which is converted to \<open>size_t\<close> on return.\<close>

fun size_loop :: "nat \<Rightarrow> addr \<Rightarrow> addr \<Rightarrow> int \<Rightarrow> ('a list_mem_scheme, int) prog" where
  "size_loop 0 l it counter = fail Diverges"
| "size_loop (Suc k) l it counter =
     (if it = tail_of l then ret counter
      else chain (reads (\<lambda>_. int_val (counter + 1))) (\<lambda>counter'.
           chain (get_next it) (\<lambda>it'. size_loop k l it' counter')))"

definition List_Size :: "addr \<Rightarrow> ('a list_mem_scheme, u64) prog" where
  "List_Size l =
     (if l = NULL then ret 0
      else chain (get_next l) (\<lambda>it.
           chain (\<lambda>s. size_loop (brk s) l it 0 s) (\<lambda>counter. ret (word_of_int counter))))"

section \<open>The representation invariant\<close>

fun links :: "(addr \<Rightarrow> node option) \<Rightarrow> addr list \<Rightarrow> bool" where
  "links h (a # b # as) \<longleftrightarrow>
     (\<exists>n. h a = Some n \<and> m_next n = b) \<and> (\<exists>n. h b = Some n \<and> m_prev n = a) \<and>
     links h (b # as)"
| "links h _ \<longleftrightarrow> True"

definition dlist :: "(addr \<Rightarrow> node option) \<Rightarrow> addr \<Rightarrow> addr list \<Rightarrow> bool" where
  "dlist h l cs \<longleftrightarrow> l \<noteq> NULL \<and> NULL \<notin> set cs \<and> distinct (l # cs @ [tail_of l]) \<and>
     links h (l # cs @ [tail_of l]) \<and>
     (\<exists>n. h l = Some n \<and> m_prev n = NULL) \<and>
     (\<exists>n. h (tail_of l) = Some n \<and> m_next n = tail_of l)"

text \<open>The items stored in the cells.\<close>

definition item_at :: "(addr \<Rightarrow> node option) \<Rightarrow> addr \<Rightarrow> addr" where
  "item_at h c = (case h c of None \<Rightarrow> NULL | Some n \<Rightarrow> m_data n)"

definition items :: "(addr \<Rightarrow> node option) \<Rightarrow> addr list \<Rightarrow> addr list" where
  "items h cs = map (item_at h) cs"

text \<open>Addresses at and above \<open>brk\<close> are not in use.\<close>

definition wf_list_mem :: "'a list_mem_scheme \<Rightarrow> bool" where
  "wf_list_mem s \<longleftrightarrow> 0 < brk s \<and> (\<forall>a \<ge> brk s. nodes s a = None)"

lemma tail_of_simps [simp]: "tail_of l \<noteq> l" "l \<noteq> tail_of l" "tail_of l \<noteq> NULL"
  by (simp_all add: tail_of_def)

lemma links_split:
  "links h (xs @ a # ys) \<longleftrightarrow> links h (xs @ [a]) \<and> links h (a # ys)"
proof (induction xs)
  case Nil
  show ?case by simp
next
  case (Cons x xs)
  then show ?case by (cases xs) auto
qed

lemma links_cong:
  "(\<And>a. a \<in> set xs \<Longrightarrow> h' a = h a) \<Longrightarrow> links h' xs = links h xs"
  by (induction h xs rule: links.induct) auto

text \<open>The last node of a segment may change but for \<open>m_prev\<close>, the first but for \<open>m_next\<close>.\<close>

lemma links_change_last:
  assumes "links h (xs @ [a])" and "a \<notin> set xs"
    and "\<And>x. x \<in> set xs \<Longrightarrow> h' x = h x"
    and "xs \<noteq> [] \<Longrightarrow> \<exists>n n'. h a = Some n \<and> h' a = Some n' \<and> m_prev n' = m_prev n"
  shows "links h' (xs @ [a])"
  using assms
proof (induction xs)
  case Nil
  then show ?case by simp
next
  case (Cons x xs)
  then show ?case
  proof (cases xs)
    case Nil
    with Cons.prems show ?thesis by fastforce
  next
    case (Cons y ys)
    with Cons.prems Cons.IH show ?thesis by fastforce
  qed
qed

lemma links_change_first:
  assumes "links h (a # ys)" and "a \<notin> set ys"
    and "\<And>x. x \<in> set ys \<Longrightarrow> h' x = h x"
    and "ys \<noteq> [] \<Longrightarrow> \<exists>n n'. h a = Some n \<and> h' a = Some n' \<and> m_next n' = m_next n"
  shows "links h' (a # ys)"
proof (cases ys)
  case Nil
  then show ?thesis by simp
next
  case (Cons y zs)
  have "links h' ys = links h ys" by (rule links_cong) (rule assms(3))
  with assms Cons show ?thesis by fastforce
qed

lemma links_nth:
  "links h xs \<Longrightarrow> Suc i < length xs \<Longrightarrow>
   (\<exists>n. h (xs ! i) = Some n \<and> m_next n = xs ! Suc i) \<and>
   (\<exists>n. h (xs ! Suc i) = Some n \<and> m_prev n = xs ! i)"
proof (induction h xs arbitrary: i rule: links.induct)
  case (1 h a b as)
  then show ?case by (cases i) auto
qed auto

lemma links_mapped: "links h xs \<Longrightarrow> 2 \<le> length xs \<Longrightarrow> x \<in> set xs \<Longrightarrow> h x \<noteq> None"
proof (induction h xs rule: links.induct)
  case (1 h a b as)
  then show ?case by (cases as) auto
qed auto

lemma dlist_mapped: "dlist h l cs \<Longrightarrow> x \<in> set (l # cs @ [tail_of l]) \<Longrightarrow> h x \<noteq> None"
  by (rule links_mapped [of h "l # cs @ [tail_of l]"]) (auto simp: dlist_def)

lemma dlist_nz: "dlist h l cs \<Longrightarrow> x \<in> set (l # cs @ [tail_of l]) \<Longrightarrow> x \<noteq> NULL"
  by (cases x) (auto simp: dlist_def)

text \<open>Two nodes that follow each other in a list, and the cut of the list between them.\<close>

lemma dlist_cut:
  assumes "dlist h l (xs @ ys)"
  obtains us a b vs where
    "l # xs = us @ [a]" "ys @ [tail_of l] = b # vs"
    "links h (us @ [a])" "links h (b # vs)" "distinct (us @ a # b # vs)"
    "\<exists>n. h a = Some n \<and> m_next n = b" "\<exists>n. h b = Some n \<and> m_prev n = a"
    "set (us @ a # b # vs) = set (l # xs @ ys @ [tail_of l])"
proof -
  define us a b vs where "us = butlast (l # xs)" and "a = last (l # xs)"
    and "b = hd (ys @ [tail_of l])" and "vs = tl (ys @ [tail_of l])"
  have 1: "l # xs = us @ [a]" unfolding us_def a_def by simp
  have 2: "ys @ [tail_of l] = b # vs" unfolding b_def vs_def by (cases ys) auto
  have seq: "l # (xs @ ys) @ [tail_of l] = us @ a # b # vs"
    using 1 2 by (metis append.assoc append_Cons append_Nil)
  then have "links h (us @ a # b # vs)" and d: "distinct (us @ a # b # vs)"
    using assms by (simp_all add: dlist_def)
  then have "links h (us @ [a])" "links h (a # b # vs)"
    using links_split by blast+
  then show ?thesis using that 1 2 d seq by (metis append_assoc links.simps(1))
qed

lemma dlist_insert:
  assumes dl: "dlist h l (xs @ ys)"
    and ab: "a = last (l # xs)" "b = hd (ys @ [tail_of l])"
    and p: "p \<noteq> NULL" "p \<notin> set (l # xs @ ys @ [tail_of l])"
    and hp: "\<exists>n. h' p = Some n \<and> m_next n = b \<and> m_prev n = a"
    and ha: "\<exists>n n'. h a = Some n \<and> h' a = Some n' \<and> m_next n' = p \<and> m_prev n' = m_prev n"
    and hb: "\<exists>n n'. h b = Some n \<and> h' b = Some n' \<and> m_prev n' = p \<and> m_next n' = m_next n"
    and fr: "\<And>c. c \<noteq> a \<Longrightarrow> c \<noteq> b \<Longrightarrow> c \<noteq> p \<Longrightarrow> h' c = h c"
  shows "dlist h' l (xs @ p # ys)"
proof -
  obtain us a' b' vs where c: "l # xs = us @ [a']" "ys @ [tail_of l] = b' # vs"
    "links h (us @ [a'])" "links h (b' # vs)" "distinct (us @ a' # b' # vs)"
    "set (us @ a' # b' # vs) = set (l # xs @ ys @ [tail_of l])"
    using dlist_cut [OF dl] by metis
  from c ab have e: "a' = a" "b' = b" by auto
  have pn: "p \<notin> set (us @ a # b # vs)" using p c(6) e by simp
  have fu: "h' x = h x" if "x \<in> set us" for x using that c(5) e pn by (intro fr) auto
  have fv: "h' x = h x" if "x \<in> set vs" for x using that c(5) e pn by (intro fr) auto
  have ha': "\<exists>n n'. h a = Some n \<and> h' a = Some n' \<and> m_prev n' = m_prev n" using ha by blast
  have hb': "\<exists>n n'. h b = Some n \<and> h' b = Some n' \<and> m_next n' = m_next n" using hb by blast
  have "links h' (us @ [a])"
    by (rule links_change_last [of h]) (use c(3,5) e ha' fu in simp_all)
  moreover have "links h' (b # vs)"
    by (rule links_change_first [of h]) (use c(4,5) e hb' fv in simp_all)
  ultimately have L: "links h' (us @ a # p # b # vs)"
    using hp ha hb links_split [of h' us a "p # b # vs"] by auto
  have S: "l # (xs @ p # ys) @ [tail_of l] = us @ a # p # b # vs"
    using c(1,2) e by (metis append.assoc append_Cons append_Nil)
  have D: "distinct (us @ a # p # b # vs)" using c(5) e pn by auto
  have H: "\<exists>n. h' l = Some n \<and> m_prev n = NULL"
  proof (cases us)
    case Nil
    with c(1) e have "l = a" by simp
    with dl ha show ?thesis by (auto simp: dlist_def)
  next
    case (Cons u us')
    with c e pn have "l \<noteq> a" "l \<noteq> b" "l \<noteq> p" by auto
    with dl fr show ?thesis by (auto simp: dlist_def)
  qed
  have T: "\<exists>n. h' (tail_of l) = Some n \<and> m_next n = tail_of l"
  proof (cases vs)
    case Nil
    with c(2) e have "tail_of l = b" by (cases ys) auto
    with dl hb show ?thesis by (auto simp: dlist_def)
  next
    case (Cons v vs')
    with c(2) e have "tail_of l \<in> set vs"
      by (metis last_ConsR last_in_set last_snoc list.distinct(1))
    with c(5) e pn have "tail_of l \<noteq> a" "tail_of l \<noteq> b" "tail_of l \<noteq> p" by auto
    with dl fr show ?thesis by (auto simp: dlist_def)
  qed
  show ?thesis unfolding dlist_def
    using dl p(1) S L D H T by (simp add: dlist_def)
qed

lemma dlist_remove:
  assumes dl: "dlist h l (xs @ p # ys)"
    and ab: "a = last (l # xs)" "b = hd (ys @ [tail_of l])"
    and ha: "\<exists>n n'. h a = Some n \<and> h' a = Some n' \<and> m_next n' = b \<and> m_prev n' = m_prev n"
    and hb: "\<exists>n n'. h b = Some n \<and> h' b = Some n' \<and> m_prev n' = a \<and> m_next n' = m_next n"
    and fr: "\<And>c. c \<noteq> a \<Longrightarrow> c \<noteq> b \<Longrightarrow> c \<noteq> p \<Longrightarrow> h' c = h c"
  shows "dlist h' l (xs @ ys)"
proof -
  have "dlist h l ((xs @ [p]) @ ys)" using dl by simp
  then obtain us0 p' b' vs where c: "l # xs @ [p] = us0 @ [p']" "ys @ [tail_of l] = b' # vs"
    "links h (us0 @ [p'])" "links h (b' # vs)" "distinct (us0 @ p' # b' # vs)"
    using dlist_cut [of h l "xs @ [p]" ys] by metis
  from c(1) have p': "p' = p" "us0 = l # xs" by (metis append_Cons butlast_snoc last_snoc)+
  define us where "us = butlast (l # xs)"
  have us: "us0 = us @ [a]" "l # xs = us @ [a]" using p' ab unfolding us_def by simp_all
  have b': "b' = b" using c(2) ab by simp
  have la: "links h (us @ [a])" using c(3) p' us links_split [of h us a "[p]"] by simp
  have dis: "distinct (us @ [a, p, b] @ vs)" using c(5) p' us b' by simp
  have fu: "h' x = h x" if "x \<in> set us" for x using that dis by (intro fr) auto
  have fv: "h' x = h x" if "x \<in> set vs" for x using that dis by (intro fr) auto
  have ha': "\<exists>n n'. h a = Some n \<and> h' a = Some n' \<and> m_prev n' = m_prev n" using ha by blast
  have hb': "\<exists>n n'. h b = Some n \<and> h' b = Some n' \<and> m_next n' = m_next n" using hb by blast
  have "links h' (us @ [a])"
    by (rule links_change_last [of h, OF la]) (use dis ha' fu in simp_all)
  moreover have "links h' (b # vs)"
    by (rule links_change_first [of h]) (use c(4) b' dis hb' fv in simp_all)
  ultimately have L: "links h' (us @ a # b # vs)"
    using ha hb links_split [of h' us a "b # vs"] by auto
  have S: "l # (xs @ ys) @ [tail_of l] = us @ a # b # vs"
    using c(2) us b' by (metis append.assoc append_Cons append_Nil)
  have H: "\<exists>n. h' l = Some n \<and> m_prev n = NULL"
  proof (cases us)
    case Nil
    with us(2) have "l = a" by simp
    with dl ha show ?thesis by (auto simp: dlist_def)
  next
    case (Cons u us')
    with us(2) dis have "l \<noteq> a" "l \<noteq> b" "l \<noteq> p" by auto
    with dl fr show ?thesis by (auto simp: dlist_def)
  qed
  have T: "\<exists>n. h' (tail_of l) = Some n \<and> m_next n = tail_of l"
  proof (cases vs)
    case Nil
    with c(2) b' have "tail_of l = b" by (cases ys) auto
    with dl hb show ?thesis by (auto simp: dlist_def)
  next
    case (Cons v vs')
    with c(2) b' have "tail_of l \<in> set vs"
      by (metis last_ConsR last_in_set last_snoc list.distinct(1))
    with dis have "tail_of l \<noteq> a" "tail_of l \<noteq> b" "tail_of l \<noteq> p" by auto
    with dl fr show ?thesis by (auto simp: dlist_def)
  qed
  show ?thesis unfolding dlist_def
    using dl S L dis H T by (simp add: dlist_def)
qed

text \<open>Two lists with different sentinels share no node.\<close>

lemma dlist_prev:
  assumes dl: "dlist h l cs" and i: "i < length (l # cs @ [tail_of l])"
  shows "\<exists>n. h ((l # cs @ [tail_of l]) ! i) = Some n \<and>
             m_prev n = (case i of 0 \<Rightarrow> NULL | Suc j \<Rightarrow> (l # cs @ [tail_of l]) ! j)"
proof (cases i)
  case 0
  with dl show ?thesis by (auto simp: dlist_def)
next
  case (Suc j)
  have "links h (l # cs @ [tail_of l])" using dl by (simp add: dlist_def)
  from links_nth [OF this, of j] Suc i show ?thesis by auto
qed

lemma dlist_share:
  assumes "dlist h l cs" and "dlist h l' cs'"
    and "i < length (l # cs @ [tail_of l])" and "j < length (l' # cs' @ [tail_of l'])"
    and "(l # cs @ [tail_of l]) ! i = (l' # cs' @ [tail_of l']) ! j"
  shows "l = l'"
  using assms(3-)
proof (induction i arbitrary: j)
  case 0
  show ?case
  proof (cases j)
    case 0
    with "0.prems" show ?thesis by simp
  next
    case (Suc k)
    from "0.prems"(2) Suc have "k < length (l' # cs' @ [tail_of l'])" by simp
    from dlist_nz [OF assms(2) nth_mem [OF this]]
    have "(l' # cs' @ [tail_of l']) ! k \<noteq> NULL" .
    with dlist_prev [OF assms(1) "0.prems"(1)] dlist_prev [OF assms(2) "0.prems"(2)] "0.prems"(3) Suc
    show ?thesis by auto
  qed
next
  case (Suc i)
  from Suc.prems(1) have "i < length (l # cs @ [tail_of l])" by simp
  from dlist_nz [OF assms(1) nth_mem [OF this]]
  have nz: "(l # cs @ [tail_of l]) ! i \<noteq> NULL" .
  from dlist_prev [OF assms(1) Suc.prems(1)] dlist_prev [OF assms(2) Suc.prems(2)] Suc.prems(3) nz
  obtain k where k: "j = Suc k" "(l # cs @ [tail_of l]) ! i = (l' # cs' @ [tail_of l']) ! k"
    by (cases j) auto
  show ?case by (rule Suc.IH [OF _ _ k(2)]) (use Suc.prems k(1) in simp_all)
qed

lemma dlist_disjoint:
  assumes "dlist h l cs" and "dlist h l' cs'" and "l \<noteq> l'"
  shows "set (l # cs @ [tail_of l]) \<inter> set (l' # cs' @ [tail_of l']) = {}"
proof (rule ccontr)
  assume "\<not> ?thesis"
  then obtain x where "x \<in> set (l # cs @ [tail_of l])" "x \<in> set (l' # cs' @ [tail_of l'])"
    by blast
  then obtain i j where "i < length (l # cs @ [tail_of l])" "j < length (l' # cs' @ [tail_of l'])"
    "(l # cs @ [tail_of l]) ! i = (l' # cs' @ [tail_of l']) ! j"
    by (metis in_set_conv_nth)
  with assms dlist_share show False by metis
qed

lemma dlist_cong:
  assumes "dlist h l cs" and "\<And>a. a \<in> set (l # cs @ [tail_of l]) \<Longrightarrow> h' a = h a"
  shows "dlist h' l cs"
proof -
  have "links h' (l # cs @ [tail_of l]) = links h (l # cs @ [tail_of l])"
    by (rule links_cong) (rule assms(2))
  with assms show ?thesis by (simp add: dlist_def)
qed

lemma items_cong: "(\<And>a. a \<in> set cs \<Longrightarrow> h' a = h a) \<Longrightarrow> items h' cs = items h cs"
  by (simp add: items_def item_at_def)

lemma items_simps [simp]:
  "items h [] = []" "items h (c # cs) = item_at h c # items h cs"
  "items h (cs @ ds) = items h cs @ items h ds" "length (items h cs) = length cs"
  by (simp_all add: items_def)

text \<open>
  \<open>node_frame A s s'\<close>: a step changed the allocator and the nodes only, and of the nodes that
  existed before only those in \<open>A\<close>.
\<close>

definition node_frame :: "addr set \<Rightarrow> 'a list_mem_scheme \<Rightarrow> 'a list_mem_scheme \<Rightarrow> bool" where
  "node_frame A s s' \<longleftrightarrow> s' = s\<lparr>brk := brk s', nodes := nodes s'\<rparr> \<and> brk s \<le> brk s' \<and>
     (\<forall>a. a \<notin> A \<longrightarrow> a < brk s \<longrightarrow> nodes s' a = nodes s a)"

lemma node_frame_refl [simp]: "node_frame A s s"
  by (simp add: node_frame_def)

lemma node_frame_oom: "node_frame A s s' \<Longrightarrow> oom s' = oom s"
proof -
  assume "node_frame A s s'"
  then have "s' = s\<lparr>brk := brk s', nodes := nodes s'\<rparr>" by (simp add: node_frame_def)
  from arg_cong [OF this, of oom] show ?thesis by simp
qed

lemma wf_list_mem_dlist:
  assumes "wf_list_mem s" and "dlist (nodes s) l cs" and "x \<in> set (l # cs @ [tail_of l])"
  shows "x < brk s"
proof (rule ccontr)
  assume "\<not> x < brk s"
  with assms(1) have "nodes s x = None" by (simp add: wf_list_mem_def)
  with dlist_mapped [OF assms(2,3)] show False by simp
qed

lemma node_frame_dlist:
  assumes fr: "node_frame (set (l # cs @ [tail_of l])) s s'" and wf: "wf_list_mem s"
    and dl: "dlist (nodes s) l cs" and dl': "dlist (nodes s) l' cs'" and ne: "l' \<noteq> l"
  shows "dlist (nodes s') l' cs' \<and> items (nodes s') cs' = items (nodes s) cs' \<and>
         item_at (nodes s') (tail_of l') = item_at (nodes s) (tail_of l')"
proof -
  have eq: "nodes s' x = nodes s x" if x: "x \<in> set (l' # cs' @ [tail_of l'])" for x
  proof -
    have "x \<notin> set (l # cs @ [tail_of l])" using dlist_disjoint [OF dl' dl ne] x by blast
    moreover have "x < brk s" by (rule wf_list_mem_dlist [OF wf dl' x])
    ultimately show ?thesis using fr unfolding node_frame_def by blast
  qed
  then have "dlist (nodes s') l' cs'" by (rule dlist_cong [OF dl'])
  moreover have "items (nodes s') cs' = items (nodes s) cs'"
    by (rule items_cong, rule eq) simp
  moreover have "nodes s' (tail_of l') = nodes s (tail_of l')" by (rule eq) simp
  ultimately show ?thesis by (simp add: item_at_def)
qed

section \<open>Executing the operations\<close>

lemma rd_node_step [c_step]: "p \<noteq> NULL \<Longrightarrow> nodes s p = Some n \<Longrightarrow> rd_node p s = Inr (n, s)"
  by (simp add: rd_node_def)

lemma rd_node_null [c_step]: "rd_node NULL s = Inl NullDeref"
  by (simp add: rd_node_def)

lemma rd_node_bad [c_step]: "p \<noteq> NULL \<Longrightarrow> nodes s p = None \<Longrightarrow> rd_node p s = Inl BadAddress"
  by (simp add: rd_node_def)

lemma get_step [c_step]:
  assumes "p \<noteq> NULL" and "nodes s p = Some n"
  shows "get_data p s = Inr (m_data n, s)" "get_next p s = Inr (m_next n, s)"
    "get_prev p s = Inr (m_prev n, s)"
  using assms by (simp_all add: get_data_def get_next_def get_prev_def c_step)

lemma set_step [c_step]:
  assumes "p \<noteq> NULL" and "nodes s p = Some n"
  shows "set_data p v s = Inr ((), s\<lparr>nodes := (nodes s)(p \<mapsto> n\<lparr>m_data := v\<rparr>)\<rparr>)"
    "set_next p v s = Inr ((), s\<lparr>nodes := (nodes s)(p \<mapsto> n\<lparr>m_next := v\<rparr>)\<rparr>)"
    "set_prev p v s = Inr ((), s\<lparr>nodes := (nodes s)(p \<mapsto> n\<lparr>m_prev := v\<rparr>)\<rparr>)"
  using assms by (simp_all add: set_data_def set_next_def set_prev_def wr_node_def c_step)

lemma malloc_nodes_fail [c_step]:
  "oom s (brk s) \<Longrightarrow> malloc_nodes k s = Inr (NULL, s\<lparr>brk := brk s + 1\<rparr>)"
  by (simp add: malloc_nodes_def malloc_def)

lemma malloc_node_step [c_step]:
  "\<not> oom s (brk s) \<Longrightarrow> 0 < brk s \<Longrightarrow> malloc_nodes (Suc 0) s =
   Inr (brk s, s\<lparr>brk := brk s + 2, nodes := (nodes s)(brk s \<mapsto> junk_node (junk s) (brk s))\<rparr>)"
  by (auto simp: malloc_nodes_def malloc_def fun_eq_iff)

lemma free_node_step [c_step]:
  "p \<noteq> NULL \<Longrightarrow> nodes s p = Some n \<Longrightarrow>
   free_nodes p (Suc 0) s = Inr ((), s\<lparr>nodes := (nodes s)(p := None)\<rparr>)"
  by (auto simp: free_nodes_def fun_eq_iff intro!: arg_cong [where f = "\<lambda>x. nodes_update (\<lambda>_. x) s"])

lemma free_node_bad [c_step]:
  "p \<noteq> NULL \<Longrightarrow> nodes s p = None \<Longrightarrow> free_nodes p (Suc 0) s = Inl BadFree"
  by (simp add: free_nodes_def)

lemma List_PushHead_run:
  assumes "nodes s l = Some nl" "m_next nl = b" "nodes s b = Some nb" "l \<noteq> b"
    and "brk s \<noteq> l" "brk s \<noteq> b" "l \<noteq> NULL" "b \<noteq> NULL" "0 < brk s"
    and "item \<noteq> NULL" "\<not> oom s (brk s)"
  shows "List_PushHead l item s = Inr (LIST_SUCCESS, s\<lparr>brk := brk s + 2,
    nodes := (nodes s)(brk s \<mapsto> \<lparr>m_data = item, m_next = b, m_prev = l\<rparr>,
      l \<mapsto> nl\<lparr>m_next := brk s\<rparr>, b \<mapsto> nb\<lparr>m_prev := brk s\<rparr>)\<rparr>)"
  using assms
  by (simp add: List_PushHead_def c_step junk_node_def fun_upd_twist)

lemma List_PushTail_run:
  assumes "nodes s (tail_of l) = Some nt" "m_prev nt = a" "nodes s a = Some na" "tail_of l \<noteq> a"
    and "brk s \<noteq> tail_of l" "brk s \<noteq> a" "l \<noteq> NULL" "a \<noteq> NULL" "0 < brk s"
    and "item \<noteq> NULL" "\<not> oom s (brk s)"
  shows "List_PushTail l item s = Inr (LIST_SUCCESS, s\<lparr>brk := brk s + 2,
    nodes := (nodes s)(brk s \<mapsto> \<lparr>m_data = item, m_next = tail_of l, m_prev = a\<rparr>,
      a \<mapsto> na\<lparr>m_next := brk s\<rparr>, tail_of l \<mapsto> nt\<lparr>m_prev := brk s\<rparr>)\<rparr>)"
  using assms
  by (simp add: List_PushTail_def c_step junk_node_def fun_upd_twist)

lemma List_PopHead_run:
  assumes "nodes s l = Some nl" "m_next nl = p" "p \<noteq> tail_of l" "nodes s p = Some np"
    and "m_next np = b" "nodes s b = Some nb" "distinct [l, p, b]" "NULL \<notin> {l, p, b}"
  shows "List_PopHead l True s = Inr ((LIST_SUCCESS, Some (m_data np)), s\<lparr>nodes :=
    (nodes s)(l \<mapsto> nl\<lparr>m_next := b\<rparr>, b \<mapsto> nb\<lparr>m_prev := l\<rparr>, p := None)\<rparr>)"
  using assms by (simp add: List_PopHead_def c_step)

lemma List_PopTail_run:
  assumes "nodes s l = Some nl" "m_next nl \<noteq> tail_of l" "nodes s (tail_of l) = Some nt"
    and "m_prev nt = p" "nodes s p = Some np" "m_prev np = a" "nodes s a = Some na"
    and "distinct [a, p, tail_of l]" "NULL \<notin> {l, p, a}"
  shows "List_PopTail l True s = Inr ((LIST_SUCCESS, Some (m_data np)), s\<lparr>nodes :=
    (nodes s)(a \<mapsto> na\<lparr>m_next := tail_of l\<rparr>, tail_of l \<mapsto> nt\<lparr>m_prev := a\<rparr>, p := None)\<rparr>)"
  using assms by (simp add: List_PopTail_def c_step)

lemma dlist_adj:
  assumes "dlist h l (xs @ ys)"
  shows "\<exists>n. h (last (l # xs)) = Some n \<and> m_next n = hd (ys @ [tail_of l])"
    "\<exists>n. h (hd (ys @ [tail_of l])) = Some n \<and> m_prev n = last (l # xs)"
    "last (l # xs) \<noteq> hd (ys @ [tail_of l])"
    "last (l # xs) \<noteq> NULL" "hd (ys @ [tail_of l]) \<noteq> NULL"
    "last (l # xs) \<in> set (l # (xs @ ys) @ [tail_of l])"
    "hd (ys @ [tail_of l]) \<in> set (l # (xs @ ys) @ [tail_of l])"
proof -
  obtain us a b vs where c: "l # xs = us @ [a]" "ys @ [tail_of l] = b # vs"
    "distinct (us @ a # b # vs)" "\<exists>n. h a = Some n \<and> m_next n = b"
    "\<exists>n. h b = Some n \<and> m_prev n = a"
    using dlist_cut [OF assms] by metis
  have e: "last (l # xs) = a" "hd (ys @ [tail_of l]) = b" using c(1,2) by simp_all
  show "\<exists>n. h (last (l # xs)) = Some n \<and> m_next n = hd (ys @ [tail_of l])"
    "\<exists>n. h (hd (ys @ [tail_of l])) = Some n \<and> m_prev n = last (l # xs)"
    "last (l # xs) \<noteq> hd (ys @ [tail_of l])"
    using c(3-5) unfolding e by auto
  show m: "last (l # xs) \<in> set (l # (xs @ ys) @ [tail_of l])"
    "hd (ys @ [tail_of l]) \<in> set (l # (xs @ ys) @ [tail_of l])"
    by (auto, cases ys, auto)
  show "last (l # xs) \<noteq> NULL" "hd (ys @ [tail_of l]) \<noteq> NULL"
    using dlist_nz [OF assms] m by blast+
qed

lemma dlist_distinct: "dlist h l cs \<Longrightarrow> distinct (l # cs @ [tail_of l])"
  by (simp add: dlist_def)

lemma dlist_sentinels:
  assumes "dlist h l cs"
  shows "\<exists>n. h l = Some n \<and> m_next n = hd (cs @ [tail_of l]) \<and> m_prev n = NULL"
    "\<exists>n. h (tail_of l) = Some n \<and> m_prev n = last (l # cs) \<and> m_next n = tail_of l"
    "l \<noteq> NULL"
  using assms dlist_adj(1) [of h l "[]" cs] dlist_adj(2) [of h l cs "[]"]
  by (auto simp: dlist_def)

lemma dlist_length:
  assumes "wf_list_mem s" and "dlist (nodes s) l cs"
  shows "length cs + 2 < brk s"
proof -
  have "set (l # cs @ [tail_of l]) \<subseteq> {1..<brk s}"
    using wf_list_mem_dlist [OF assms] dlist_nz [OF assms(2)] by (metis One_nat_def
      Suc_le_eq atLeastLessThan_iff neq0_conv subsetI)
  then have "card (set (l # cs @ [tail_of l])) \<le> card {1..<brk s}"
    by (intro card_mono) simp_all
  then show ?thesis using distinct_card [OF dlist_distinct [OF assms(2)]] assms(1)
    by (simp add: wf_list_mem_def)
qed

lemma items_same: "(\<And>c. c \<in> set cs \<Longrightarrow> item_at h' c = item_at h c) \<Longrightarrow> items h' cs = items h cs"
  by (simp add: items_def)

text \<open>What a successful insertion of \<open>item\<close> in a new cell \<open>c\<close> between \<open>xs\<close> and \<open>ys\<close> gives.\<close>

definition inserted ::
  "'a list_mem_scheme \<Rightarrow> 'a list_mem_scheme \<Rightarrow> addr \<Rightarrow> addr list \<Rightarrow> addr list \<Rightarrow> addr \<Rightarrow> bool" where
  "inserted s s' l xs ys item \<longleftrightarrow>
     dlist (nodes s') l (xs @ brk s # ys) \<and> item_at (nodes s') (brk s) = item \<and>
     items (nodes s') (xs @ ys) = items (nodes s) (xs @ ys) \<and>
     item_at (nodes s') (tail_of l) = item_at (nodes s) (tail_of l) \<and>
     node_frame (set (l # (xs @ ys) @ [tail_of l])) s s' \<and> wf_list_mem s' \<and> brk s' = brk s + 2 \<and>
     nodes s' (brk s + 1) = None"

lemma insertedI:
  assumes dl: "dlist (nodes s) l (xs @ ys)" and wf: "wf_list_mem s"
    and ab: "a = last (l # xs)" "b = hd (ys @ [tail_of l])"
    and n: "nodes s a = Some na" "nodes s b = Some nb"
    and s': "s' = s\<lparr>brk := brk s + 2, nodes := (nodes s)(brk s \<mapsto> \<lparr>m_data = item, m_next = b, m_prev = a\<rparr>,
      a \<mapsto> na\<lparr>m_next := brk s\<rparr>, b \<mapsto> nb\<lparr>m_prev := brk s\<rparr>)\<rparr>"
  shows "inserted s s' l xs ys item"
proof -
  let ?S = "set (l # (xs @ ys) @ [tail_of l])"
  note adj = dlist_adj [OF dl, folded ab]
  have lt: "x < brk s" if "x \<in> ?S" for x by (rule wf_list_mem_dlist [OF wf dl that])
  then have fresh: "brk s \<notin> ?S" by blast
  have ne: "brk s \<noteq> a" "brk s \<noteq> b" "a \<noteq> b" using adj fresh by metis+
  have data: "item_at (nodes s') x = item_at (nodes s) x" if "x \<noteq> brk s" for x
    using that n unfolding s' by (auto simp: item_at_def)
  have "dlist (nodes s') l (xs @ brk s # ys)"
    by (rule dlist_insert [OF dl ab]) (use wf fresh n ne in \<open>auto simp: s' wf_list_mem_def\<close>)
  moreover have "item_at (nodes s') (brk s) = item" using ne by (simp add: s' item_at_def)
  moreover have "items (nodes s') (xs @ ys) = items (nodes s) (xs @ ys)"
    by (rule items_same, rule data) (use fresh in auto)
  moreover have "item_at (nodes s') (tail_of l) = item_at (nodes s) (tail_of l)"
    by (rule data) (use fresh in auto)
  moreover have "node_frame ?S s s'"
  proof -
    have "nodes s' x = nodes s x" if "x \<notin> ?S" "x < brk s" for x
    proof -
      have "x \<noteq> a" "x \<noteq> b" using that(1) adj by metis+
      moreover have "x \<noteq> brk s" using that(2) by simp
      ultimately show ?thesis by (simp add: s')
    qed
    then show ?thesis unfolding node_frame_def by (simp add: s')
  qed
  moreover have "wf_list_mem s'"
    using wf lt [OF adj(6)] lt [OF adj(7)] by (auto simp: wf_list_mem_def s')
  moreover have "nodes s' (brk s + 1) = None"
    using wf lt [OF adj(6)] lt [OF adj(7)] by (auto simp: wf_list_mem_def s')
  ultimately show ?thesis unfolding inserted_def by (simp add: s')
qed

lemma List_PushHead_ok:
  assumes "dlist (nodes s) l cs" and "wf_list_mem s" and "item \<noteq> NULL" and "\<not> oom s (brk s)"
  shows "\<exists>s'. List_PushHead l item s = Inr (LIST_SUCCESS, s') \<and> inserted s s' l [] cs item"
proof -
  have "dlist (nodes s) l ([] @ cs)" using assms(1) by simp
  note adj = dlist_adj [OF this, simplified]
  obtain nl nb where n: "nodes s l = Some nl" "m_next nl = hd (cs @ [tail_of l])"
    "nodes s (hd (cs @ [tail_of l])) = Some nb"
    using adj by blast
  have "brk s \<noteq> l" "brk s \<noteq> hd (cs @ [tail_of l])" "0 < brk s"
    using n assms(2) by (auto simp: wf_list_mem_def)
  then show ?thesis
    using List_PushHead_run [OF n(1,2,3)] adj assms insertedI [of s l "[]" cs l _ nl nb _ item] n
    by simp
qed

lemma List_PushTail_ok:
  assumes "dlist (nodes s) l cs" and "wf_list_mem s" and "item \<noteq> NULL" and "\<not> oom s (brk s)"
  shows "\<exists>s'. List_PushTail l item s = Inr (LIST_SUCCESS, s') \<and> inserted s s' l cs [] item"
proof -
  have "dlist (nodes s) l (cs @ [])" using assms(1) by simp
  note adj = dlist_adj [OF this]
  obtain na nt where n: "nodes s (tail_of l) = Some nt" "m_prev nt = last (l # cs)"
    "nodes s (last (l # cs)) = Some na"
    using adj(1,2) by auto
  have "brk s \<noteq> tail_of l" "brk s \<noteq> last (l # cs)" "0 < brk s"
    using n assms(2) by (auto simp: wf_list_mem_def)
  then show ?thesis
    using List_PushTail_run [OF n(1,2,3)] adj assms dlist_sentinels(3) [OF assms(1)]
      insertedI [of s l cs "[]" _ "tail_of l" na nt _ item] n
    by simp
qed

text \<open>What the removal of the cell \<open>c\<close> between \<open>xs\<close> and \<open>ys\<close> gives.\<close>

definition removed ::
  "'a list_mem_scheme \<Rightarrow> 'a list_mem_scheme \<Rightarrow> addr \<Rightarrow> addr list \<Rightarrow> addr \<Rightarrow> addr list \<Rightarrow> bool" where
  "removed s s' l xs c ys \<longleftrightarrow>
     dlist (nodes s') l (xs @ ys) \<and> nodes s' c = None \<and>
     items (nodes s') (xs @ ys) = items (nodes s) (xs @ ys) \<and>
     item_at (nodes s') (tail_of l) = item_at (nodes s) (tail_of l) \<and>
     node_frame (set (l # (xs @ c # ys) @ [tail_of l])) s s' \<and> wf_list_mem s' \<and> brk s' = brk s"

lemma dlist_removal_facts:
  assumes dl: "dlist h l (xs @ c # ys)" and ab: "a = last (l # xs)" "b = hd (ys @ [tail_of l])"
  shows "distinct [a, c, b]" "NULL \<notin> {a, c, b}"
    "\<exists>n. h a = Some n \<and> m_next n = c" "\<exists>n. h b = Some n \<and> m_prev n = c"
    "\<exists>n. h c = Some n \<and> m_next n = b \<and> m_prev n = a"
    "a \<in> set (l # (xs @ c # ys) @ [tail_of l])" "b \<in> set (l # (xs @ c # ys) @ [tail_of l])"
proof -
  have dl': "dlist h l ((xs @ [c]) @ ys)" using dl by simp
  note adj1 = dlist_adj [OF dl] and adj2 = dlist_adj [OF dl']
  show mem: "a \<in> set (l # (xs @ c # ys) @ [tail_of l])" "b \<in> set (l # (xs @ c # ys) @ [tail_of l])"
    using adj1(6) adj2(7) ab by auto
  show "NULL \<notin> {a, c, b}" using adj1(4,5) adj2(5) ab by auto
  have "a \<in> set (l # xs)" unfolding ab by (rule last_in_set) simp
  moreover have "b \<in> set (ys @ [tail_of l])" unfolding ab by (rule hd_in_set) simp
  ultimately have "a \<noteq> b" using dlist_distinct [OF dl] by auto
  with adj1(3) adj2(3) ab show "distinct [a, c, b]" by auto
  show "\<exists>n. h a = Some n \<and> m_next n = c" using adj1(1) ab by simp
  show "\<exists>n. h b = Some n \<and> m_prev n = c" using adj2(2) ab by simp
  show "\<exists>n. h c = Some n \<and> m_next n = b \<and> m_prev n = a"
    using adj1(2) adj2(1) ab by auto
qed

lemma removedI:
  assumes dl: "dlist (nodes s) l (xs @ c # ys)" and wf: "wf_list_mem s"
    and ab: "a = last (l # xs)" "b = hd (ys @ [tail_of l])"
    and n: "nodes s a = Some na" "nodes s b = Some nb"
    and s': "s' = s\<lparr>nodes := (nodes s)(a \<mapsto> na\<lparr>m_next := b\<rparr>, b \<mapsto> nb\<lparr>m_prev := a\<rparr>, c := None)\<rparr>"
  shows "removed s s' l xs c ys"
proof -
  let ?S = "set (l # (xs @ c # ys) @ [tail_of l])"
  note f = dlist_removal_facts [OF dl ab]
  have data: "item_at (nodes s') x = item_at (nodes s) x" if "x \<noteq> c" for x
    using that n unfolding s' by (auto simp: item_at_def)
  have "dlist (nodes s') l (xs @ ys)"
    by (rule dlist_remove [OF dl ab]) (use f(1) n in \<open>auto simp: s'\<close>)
  moreover have "items (nodes s') (xs @ ys) = items (nodes s) (xs @ ys)"
    by (rule items_same, rule data) (use dlist_distinct [OF dl] in auto)
  moreover have "item_at (nodes s') (tail_of l) = item_at (nodes s) (tail_of l)"
    by (rule data) (use dlist_distinct [OF dl] in auto)
  moreover have "node_frame ?S s s'"
  proof -
    have "nodes s' x = nodes s x" if "x \<notin> ?S" for x
    proof -
      have "x \<noteq> a" "x \<noteq> b" "x \<noteq> c" using that f(6,7) by auto
      then show ?thesis by (simp add: s')
    qed
    then show ?thesis unfolding node_frame_def by (simp add: s')
  qed
  moreover have "wf_list_mem s'"
    using wf wf_list_mem_dlist [OF wf dl f(6)] wf_list_mem_dlist [OF wf dl f(7)]
    by (auto simp: wf_list_mem_def s')
  ultimately show ?thesis unfolding removed_def by (simp add: s')
qed

lemma List_PopHead_ok:
  assumes dl: "dlist (nodes s) l (c # cs)" and wf: "wf_list_mem s"
  shows "\<exists>s'. List_PopHead l True s = Inr ((LIST_SUCCESS, Some (item_at (nodes s) c)), s') \<and>
              removed s s' l [] c cs"
proof -
  define b where "b = hd (cs @ [tail_of l])"
  have dl0: "dlist (nodes s) l ([] @ c # cs)" using dl by simp
  note f = dlist_removal_facts [OF dl0 refl b_def, simplified]
  obtain nl nb nc where n: "nodes s l = Some nl" "m_next nl = c" "nodes s b = Some nb"
    "nodes s c = Some nc" "m_next nc = b" using f by blast
  have "c \<noteq> tail_of l" using dlist_distinct [OF dl] by auto
  from List_PopHead_run [OF n(1,2) this n(4,5,3)] f(1,2)
    removedI [OF dl0 wf refl b_def, simplified, OF n(1,3)] n(4)
  show ?thesis by (simp add: item_at_def)
qed

lemma List_PopTail_ok:
  assumes dl: "dlist (nodes s) l (cs @ [c])" and wf: "wf_list_mem s"
  shows "\<exists>s'. List_PopTail l True s = Inr ((LIST_SUCCESS, Some (item_at (nodes s) c)), s') \<and>
              removed s s' l cs c []"
proof -
  define a where "a = last (l # cs)"
  have f: "distinct [a, c, tail_of l]" "NULL \<notin> {a, c, tail_of l}"
    "\<exists>n. nodes s a = Some n \<and> m_next n = c" "\<exists>n. nodes s (tail_of l) = Some n \<and> m_prev n = c"
    "\<exists>n. nodes s c = Some n \<and> m_next n = tail_of l \<and> m_prev n = a"
    using dlist_removal_facts [OF dl a_def refl] by simp_all
  obtain na nt nc where n: "nodes s a = Some na" "nodes s (tail_of l) = Some nt"
    "m_prev nt = c" "nodes s c = Some nc" "m_prev nc = a" using f by blast
  have "hd (cs @ c # [tail_of l]) \<noteq> tail_of l" using dlist_distinct [OF dl] by (cases cs) auto
  with dlist_sentinels [OF dl] obtain nl where l: "nodes s l = Some nl" "m_next nl \<noteq> tail_of l" "l \<noteq> NULL"
    by auto
  from List_PopTail_run [OF l(1,2) n(2,3,4,5,1)] f(1,2) l(3)
    removedI [OF dl wf a_def, of "tail_of l" na nt] n
  show ?thesis by (simp add: item_at_def)
qed

lemma List_Pop_empty:
  assumes "dlist (nodes s) l []"
  shows "List_PopHead l True s = Inr ((LIST_IS_EMPTY, None), s)"
    "List_PopTail l True s = Inr ((LIST_IS_EMPTY, None), s)"
proof -
  obtain n where "nodes s l = Some n" "m_next n = tail_of l" "l \<noteq> NULL"
    using dlist_sentinels [OF assms] by auto
  then show "List_PopHead l True s = Inr ((LIST_IS_EMPTY, None), s)"
    "List_PopTail l True s = Inr ((LIST_IS_EMPTY, None), s)"
    by (simp_all add: List_PopHead_def List_PopTail_def c_step)
qed

text \<open>Error results; none of them changes the state.\<close>

lemma List_errors [c_step]:
  "List_PushHead NULL item s = Inr (LIST_UNINITIALIZED_ERROR, s)"
  "List_PushTail NULL item s = Inr (LIST_UNINITIALIZED_ERROR, s)"
  "l \<noteq> NULL \<Longrightarrow> List_PushHead l NULL s = Inr (LIST_NULL_ELEMENT_ERROR, s)"
  "l \<noteq> NULL \<Longrightarrow> List_PushTail l NULL s = Inr (LIST_NULL_ELEMENT_ERROR, s)"
  "List_PopHead NULL out s = Inr ((LIST_UNINITIALIZED_ERROR, None), s)"
  "List_PopTail NULL out s = Inr ((LIST_UNINITIALIZED_ERROR, None), s)"
  "List_PopHead l False s = Inr ((LIST_UNINITIALIZED_ERROR, None), s)"
  "List_PopTail l False s = Inr ((LIST_UNINITIALIZED_ERROR, None), s)"
  by (simp_all add: List_PushHead_def List_PushTail_def List_PopHead_def List_PopTail_def)

lemma List_PushHead_oom [c_step]:
  "l \<noteq> NULL \<Longrightarrow> item \<noteq> NULL \<Longrightarrow> oom s (brk s) \<Longrightarrow>
   List_PushHead l item s = Inr (LIST_ALLOCATION_ERROR, s\<lparr>brk := brk s + 1\<rparr>)"
  by (simp add: List_PushHead_def c_step)

text \<open>\<open>List_PushTail\<close> writes through the null pointer when \<open>malloc\<close> fails.\<close>

lemma List_PushTail_oom [c_step]:
  assumes "dlist (nodes s) l cs" "item \<noteq> NULL" "oom s (brk s)"
  shows "List_PushTail l item s = Inl NullDeref"
proof -
  obtain n where "nodes s (tail_of l) = Some n" "l \<noteq> NULL"
    using dlist_sentinels [OF assms(1)] by auto
  with assms show ?thesis
    by (simp add: List_PushTail_def c_step set_prev_def wr_node_def)
qed

subsection \<open>Creation, size and destruction\<close>

lemma malloc_list_step [c_step]:
  "\<not> oom s (brk s) \<Longrightarrow> 0 < brk s \<Longrightarrow> malloc_nodes 2 s =
   Inr (brk s, s\<lparr>brk := brk s + 3, nodes := (nodes s)(brk s \<mapsto> junk_node (junk s) (brk s),
     tail_of (brk s) \<mapsto> junk_node (junk s) (tail_of (brk s)))\<rparr>)"
  by (auto simp: malloc_nodes_def malloc_def fun_eq_iff tail_of_def)

lemma List_Create_ok:
  assumes "wf_list_mem s" and "\<not> oom s (brk s)"
  shows "\<exists>s'. List_Create s = Inr (brk s, s') \<and> dlist (nodes s') (brk s) [] \<and>
    item_at (nodes s') (tail_of (brk s)) = junk s (tail_of (brk s)) 0 \<and>
    node_frame {} s s' \<and> wf_list_mem s' \<and> brk s' = brk s + 3 \<and> nodes s' (brk s + 2) = None"
proof -
  let ?l = "brk s" and ?t = "tail_of (brk s)"
  let ?s = "s\<lparr>brk := brk s + 3, nodes := (nodes s)
    (?l \<mapsto> (junk_node (junk s) ?l)\<lparr>m_next := ?t, m_prev := NULL\<rparr>,
     ?t \<mapsto> (junk_node (junk s) ?t)\<lparr>m_prev := ?l, m_next := ?t\<rparr>)\<rparr>"
  have nz: "0 < brk s" using assms(1) by (simp add: wf_list_mem_def)
  then have "List_Create s = Inr (?l, ?s)"
    using assms by (simp add: List_Create_def c_step fun_upd_twist)
  moreover have "dlist (nodes ?s) ?l []" using nz by (simp add: dlist_def)
  moreover have "wf_list_mem ?s" using assms by (auto simp: wf_list_mem_def tail_of_def)
  ultimately show ?thesis
    using assms(1) by (auto simp: node_frame_def item_at_def junk_node_def tail_of_def wf_list_mem_def)
qed

lemma List_Create_oom [c_step]:
  "oom s (brk s) \<Longrightarrow> List_Create s = Inr (NULL, s\<lparr>brk := brk s + 1\<rparr>)"
  by (simp add: List_Create_def c_step)

text \<open>A run of cells up to the tail sentinel, as the loops see it.\<close>

lemma dlist_run:
  assumes "dlist h l (xs @ ys)"
  shows "links h (ys @ [tail_of l])" "distinct (ys @ [tail_of l])" "NULL \<notin> set ys"
    "\<And>x. x \<in> set ys \<Longrightarrow> h x \<noteq> None"
proof -
  obtain us a b vs where c: "ys @ [tail_of l] = b # vs" "links h (b # vs)"
    using dlist_cut [OF assms] by metis
  then show "links h (ys @ [tail_of l])" by simp
  show "distinct (ys @ [tail_of l])" "NULL \<notin> set ys" using assms by (auto simp: dlist_def)
  show "h x \<noteq> None" if "x \<in> set ys" for x using dlist_mapped [OF assms] that by simp
qed

lemma size_loop_ok:
  assumes "links (nodes s) (cs @ [tail_of l])" and "tail_of l \<notin> set cs" and "NULL \<notin> set cs"
    and "length cs < k" and "0 \<le> n" and "n + int (length cs) < 2 ^ 31"
  shows "size_loop k l (hd (cs @ [tail_of l])) n s = Inr (n + int (length cs), s)"
  using assms
proof (induction cs arbitrary: k n)
  case Nil
  then show ?case by (cases k) auto
next
  case (Cons c cs)
  then obtain k' where k: "k = Suc k'" by (cases k) auto
  obtain nc where nc: "nodes s c = Some nc" "m_next nc = hd (cs @ [tail_of l])"
    using Cons.prems(1) by (cases cs) auto
  have "links (nodes s) (cs @ [tail_of l])" using Cons.prems(1) by (cases cs) auto
  then have "size_loop k' l (hd (cs @ [tail_of l])) (n + 1) s = Inr (n + 1 + int (length cs), s)"
    using Cons.prems k by (intro Cons.IH) auto
  with Cons.prems nc k show ?case by (auto simp: c_step int_val_def int_ok_def)
qed

lemma List_Size_ok:
  assumes dl: "dlist (nodes s) l cs" and wf: "wf_list_mem s" and len: "length cs < 2 ^ 31"
  shows "List_Size l s = Inr (of_nat (length cs), s)"
proof -
  obtain n where n: "nodes s l = Some n" "m_next n = hd (cs @ [tail_of l])" "l \<noteq> NULL"
    using dlist_sentinels [OF dl] by auto
  have "size_loop (brk s) l (hd (cs @ [tail_of l])) 0 s = Inr (0 + int (length cs), s)"
    by (rule size_loop_ok)
      (use dlist_run [of "nodes s" l "[]" cs] dl dlist_length [OF wf dl] len in auto)
  with n show ?thesis by (simp add: List_Size_def c_step)
qed

text \<open>
  The loop of \<open>List_Destroy\<close>: every cell is freed and the item of each is passed, in order,
  to the destroy function, here one that does not touch the nodes.
\<close>

definition node_blind :: "(addr \<Rightarrow> 'a list_mem_scheme \<Rightarrow> 'a list_mem_scheme) \<Rightarrow> bool" where
  "node_blind g \<longleftrightarrow> (\<forall>d s. nodes (g d s) = nodes s \<and> (\<forall>N. g d (s\<lparr>nodes := N\<rparr>) = (g d s)\<lparr>nodes := N\<rparr>))"

definition drop_nodes :: "addr set \<Rightarrow> (addr \<Rightarrow> node option) \<Rightarrow> addr \<Rightarrow> node option" where
  "drop_nodes A h = (\<lambda>a. if a \<in> A then None else h a)"

lemma drop_nodes_out: "a \<notin> A \<Longrightarrow> drop_nodes A h a = h a"
  by (simp add: drop_nodes_def)

lemma drop_nodes_empty [simp]: "drop_nodes {} h = h"
  by (simp add: drop_nodes_def)

lemma drop_nodes_drop: "drop_nodes A (drop_nodes B h) = drop_nodes (A \<union> B) h"
  by (auto simp: drop_nodes_def fun_eq_iff)

lemma node_blind_fold:
  assumes "node_blind g"
  shows "nodes (fold g ds s) = nodes s" "fold g ds (s\<lparr>nodes := N\<rparr>) = (fold g ds s)\<lparr>nodes := N\<rparr>"
  using assms by (induction ds arbitrary: s) (simp_all add: node_blind_def)

lemma destroy_loop_ok:
  assumes "node_blind g"
    and "dest = None \<and> g = (\<lambda>d s. s) \<or> dest = Some (\<lambda>d s. Inr ((), g d s))"
    and "links (nodes s) (cs @ [tail_of l])" and "distinct (cs @ [tail_of l])"
    and "NULL \<notin> set cs" and "length cs < k"
  shows "destroy_loop k l (hd (cs @ [tail_of l])) dest s =
    Inr ((), (fold g (items (nodes s) cs) s)\<lparr>nodes := drop_nodes (set cs) (nodes s)\<rparr>)"
  using assms(3-)
proof (induction cs arbitrary: k s)
  case Nil
  then show ?case by (cases k) auto
next
  case (Cons c cs)
  let ?d = "hd (cs @ [tail_of l])"
  obtain k' where k: "k = Suc k'" using Cons.prems(4) by (cases k) auto
  obtain nc nd where n: "nodes s c = Some nc" "m_next nc = ?d" "nodes s ?d = Some nd" "m_prev nd = c"
    using Cons.prems(1) by (cases cs) auto
  have dn: "?d \<noteq> NULL" "c \<noteq> NULL" "c \<noteq> tail_of l" using Cons.prems by (cases cs; auto)+
  let ?s1 = "g (m_data nc) s" and ?h = "drop_nodes {c} (nodes s)"
  have g1: "nodes ?s1 = nodes s" using assms(1) by (simp add: node_blind_def)
  have free: "free_nodes c 1 ?s1 = Inr ((), ?s1\<lparr>nodes := ?h\<rparr>)"
    using n(1) g1 dn by (simp add: free_node_step fun_upd_def drop_nodes_def)
  have ln: "links ?h (cs @ [tail_of l])" using Cons.prems(1,2)
    by (subst links_cong [of _ _ "nodes s"]) (auto simp: drop_nodes_def, cases cs, auto)
  have IH: "destroy_loop k' l ?d dest (?s1\<lparr>nodes := ?h\<rparr>) = Inr ((),
     (fold g (items ?h cs) (?s1\<lparr>nodes := ?h\<rparr>))\<lparr>nodes := drop_nodes (set cs) ?h\<rparr>)"
    using Cons.IH [of "?s1\<lparr>nodes := ?h\<rparr>" k'] ln Cons.prems k by simp
  have it: "items ?h cs = items (nodes s) cs" 
    using Cons.prems(2) by (intro items_cong drop_nodes_out) auto
  have dr: "drop_nodes (set cs) ?h = drop_nodes (set (c # cs)) (nodes s)"
    by (simp add: drop_nodes_drop insert_commute)
  have "destroy_loop k l c dest s = destroy_loop k' l ?d dest (?s1\<lparr>nodes := ?h\<rparr>)"
    using assms(2) n dn k free g1 by (auto simp: get_step)
  then show ?case
    using IH n(1) by (simp add: it dr node_blind_fold [OF assms(1)] item_at_def)
qed

lemma List_Destroy_ok:
  assumes dl: "dlist (nodes s) l cs" and wf: "wf_list_mem s" and g: "node_blind g"
    and dest: "dest = None \<and> g = (\<lambda>d s. s) \<or> dest = Some (\<lambda>d s. Inr ((), g d s))"
  shows "List_Destroy l dest s = Inr (NULL, (fold g (items (nodes s) cs) s)
           \<lparr>nodes := drop_nodes (set (l # cs @ [tail_of l])) (nodes s)\<rparr>)"
proof -
  obtain n nt where n: "nodes s l = Some n" "m_next n = hd (cs @ [tail_of l])" "l \<noteq> NULL"
    "nodes s (tail_of l) = Some nt"
    using dlist_sentinels [OF dl] by auto
  let ?s = "(fold g (items (nodes s) cs) s)\<lparr>nodes := drop_nodes (set cs) (nodes s)\<rparr>"
  have "destroy_loop (brk s) l (hd (cs @ [tail_of l])) dest s = Inr ((), ?s)"
    by (rule destroy_loop_ok [OF g dest])
      (use dlist_run [of "nodes s" l "[]" cs] dl dlist_length [OF wf dl] in auto)
  moreover have "free_nodes l 2 ?s = Inr ((), ?s\<lparr>nodes := drop_nodes (set (l # cs @ [tail_of l])) (nodes s)\<rparr>)"
  proof -
    have "nodes ?s l = Some n" "nodes ?s (Suc l) = Some nt"
      using n dlist_distinct [OF dl] by (simp_all add: drop_nodes_out tail_of_def)
    then have "\<not> (\<exists>i < 2. nodes ?s (l + i) = None)" by (auto simp: less_2_cases_iff)
    moreover have "(\<lambda>a. if l \<le> a \<and> a < l + 2 then None else nodes ?s a) =
        drop_nodes (set (l # cs @ [tail_of l])) (nodes s)"
      by (auto simp: drop_nodes_def fun_eq_iff tail_of_def)
    ultimately show ?thesis using n(3) unfolding free_nodes_def by simp
  qed
  ultimately show ?thesis using n by (simp add: List_Destroy_def get_step)
qed

end
