(* ===== verification/ListIter.thy ===== *)
theory ListIter
  imports LinkedList
begin

text \<open>
  The iterators of \<^verbatim>\<open>src/GeneticListIter/LinkedListGenericIter.c\<close>. An iterator is the address
  of a node. The theory executes every operation on the cells of a list in the sense of
  \<open>dlist\<close>. \<open>ListItr_Equals\<close> compares the items of two nodes, so that a loop from
  \<open>ListItr_Begin\<close> to \<open>ListItr_End\<close> ends before the tail sentinel when an item equals the
  (uninitialised) item of that sentinel.
\<close>

section \<open>The operations\<close>

definition ListItr_Begin :: "addr \<Rightarrow> ('a list_mem_scheme, addr) prog" where
  "ListItr_Begin l = (if l = NULL then ret NULL else get_next l)"

definition ListItr_End :: "addr \<Rightarrow> ('a list_mem_scheme, addr) prog" where
  "ListItr_End l =
     (if l = NULL then ret NULL
      else
        chain (get_prev (tail_of l)) (\<lambda>p.
        if p = l then get_next (tail_of l)
        else get_next (tail_of l)))"

text \<open>Two iterators are equal when their items are, whichever nodes they are.\<close>

definition ListItr_Equals :: "addr \<Rightarrow> addr \<Rightarrow> ('a list_mem_scheme, int) prog" where
  "ListItr_Equals a b =
     (if a = NULL \<or> b = NULL then ret 0
      else
        chain (get_data a) (\<lambda>da.
        chain (get_data b) (\<lambda>db.
        if da = db then ret 1 else ret 0)))"

definition ListItr_Next :: "addr \<Rightarrow> ('a list_mem_scheme, addr) prog" where
  "ListItr_Next it = (if it = NULL then ret NULL else get_next it)"

definition ListItr_Prev :: "addr \<Rightarrow> ('a list_mem_scheme, addr) prog" where
  "ListItr_Prev it =
     (if it = NULL then ret NULL
      else
        chain (get_prev it) (\<lambda>node.
        chain (get_prev node) (\<lambda>p.
        if p = node then ret it
        else get_prev it)))"

definition ListItr_Get :: "addr \<Rightarrow> ('a list_mem_scheme, addr) prog" where
  "ListItr_Get it =
     (if it = NULL then ret NULL
      else
        chain (get_next it) (\<lambda>n.
        if n = it then ret NULL else get_data it))"

definition ListItr_Set :: "addr \<Rightarrow> addr \<Rightarrow> ('a list_mem_scheme, addr) prog" where
  "ListItr_Set it element =
     (if it = NULL \<or> element = NULL then ret NULL
      else
        chain (get_data it) (\<lambda>item.
        chain (set_data it element) (\<lambda>_.
        ret item)))"

text \<open>
  \<open>ListItr_InsertBefore\<close> asks \<open>malloc\<close> for \<open>sizeof(Node*)\<close>, 8 bytes, and then stores the
  three pointers of a \<open>Node\<close> (offsets 0, 8 and 16) into them. The block is therefore
  modelled as 8 bytes of byte memory.
\<close>

definition ptr_bytes :: "addr \<Rightarrow> u8 list" where
  "ptr_bytes v = map (\<lambda>i. of_nat (v div 256 ^ i)) [0..<8]"

definition ListItr_InsertBefore :: "addr \<Rightarrow> addr \<Rightarrow> ('a list_mem_scheme, addr) prog" where
  "ListItr_InsertBefore it element =
     (if element = NULL \<or> it = NULL then ret NULL
      else
        chain (malloc_bytes 8) (\<lambda>newElement.
        if newElement = NULL then ret NULL
        else
          chain (put_bytes newElement (ptr_bytes element)) (\<lambda>_.
          chain (put_bytes (newElement + 8) (ptr_bytes it)) (\<lambda>_.
          chain (get_prev it) (\<lambda>p.
          chain (put_bytes (newElement + 16) (ptr_bytes p)) (\<lambda>_.
          chain (set_prev it newElement) (\<lambda>_.
          chain (set_next p newElement) (\<lambda>_.
          ret newElement))))))))"

definition ListItr_Remove :: "addr \<Rightarrow> ('a list_mem_scheme, addr) prog" where
  "ListItr_Remove it =
     (if it = NULL then ret NULL
      else
        chain (ListItr_Next it) (\<lambda>n.
        if n = it then ret NULL
        else
          chain (get_data it) (\<lambda>d.
          chain (get_next it) (\<lambda>b.
          chain (get_prev it) (\<lambda>a.
          chain (set_prev b a) (\<lambda>_.
          chain (get_prev it) (\<lambda>a'.
          chain (get_next it) (\<lambda>b'.
          chain (set_next a' b') (\<lambda>_.
          chain (free_nodes it 1) (\<lambda>_.
          ret d))))))))))"

section \<open>Execution on the cells of a list\<close>

lemma ListItr_null [c_step]:
  "ListItr_Begin NULL s = Inr (NULL, s)" "ListItr_End NULL s = Inr (NULL, s)"
  "ListItr_Equals NULL b s = Inr (0, s)" "ListItr_Equals a NULL s = Inr (0, s)"
  "ListItr_Next NULL s = Inr (NULL, s)" "ListItr_Prev NULL s = Inr (NULL, s)"
  "ListItr_Get NULL s = Inr (NULL, s)" "ListItr_Set NULL e s = Inr (NULL, s)"
  "ListItr_Set it NULL s = Inr (NULL, s)" "ListItr_Remove NULL s = Inr (NULL, s)"
  "ListItr_InsertBefore NULL e s = Inr (NULL, s)" "ListItr_InsertBefore it NULL s = Inr (NULL, s)"
  by (simp_all add: ListItr_Begin_def ListItr_End_def ListItr_Equals_def ListItr_Next_def
      ListItr_Prev_def ListItr_Get_def ListItr_Set_def ListItr_Remove_def ListItr_InsertBefore_def)

lemma ListItr_Begin_ok [c_step]:
  "dlist (nodes s) l cs \<Longrightarrow> ListItr_Begin l s = Inr (hd (cs @ [tail_of l]), s)"
  using dlist_sentinels [of "nodes s" l cs] by (auto simp: ListItr_Begin_def get_step)

lemma ListItr_End_ok [c_step]:
  "dlist (nodes s) l cs \<Longrightarrow> ListItr_End l s = Inr (tail_of l, s)"
  using dlist_sentinels [of "nodes s" l cs] by (auto simp: ListItr_End_def get_step)

lemma ListItr_Equals_ok [c_step]:
  assumes "a \<noteq> NULL" "b \<noteq> NULL" "nodes s a \<noteq> None" "nodes s b \<noteq> None"
  shows "ListItr_Equals a b s =
    Inr (if item_at (nodes s) a = item_at (nodes s) b then 1 else 0, s)"
  using assms by (auto simp: ListItr_Equals_def get_step item_at_def)

lemma cell_facts:
  assumes "dlist h l (xs @ c # ys)"
  shows "c \<noteq> NULL" "h c \<noteq> None" "c \<noteq> tail_of l" "c \<noteq> l"
    "\<exists>n. h c = Some n \<and> m_next n = hd (ys @ [tail_of l]) \<and> m_prev n = last (l # xs) \<and>
         m_data n = item_at h c"
    "hd (ys @ [tail_of l]) \<noteq> c"
proof -
  note f = dlist_removal_facts [OF assms refl refl]
  show "c \<noteq> NULL" "h c \<noteq> None" "hd (ys @ [tail_of l]) \<noteq> c" using f by auto
  show "c \<noteq> tail_of l" "c \<noteq> l" using dlist_distinct [OF assms] by auto
  show "\<exists>n. h c = Some n \<and> m_next n = hd (ys @ [tail_of l]) \<and> m_prev n = last (l # xs) \<and>
         m_data n = item_at h c"
    using f(5) by (auto simp: item_at_def)
qed

lemma ListItr_Next_ok [c_step]:
  "dlist (nodes s) l (xs @ c # ys) \<Longrightarrow> ListItr_Next c s = Inr (hd (ys @ [tail_of l]), s)"
  using cell_facts [of "nodes s" l xs c ys] by (auto simp: ListItr_Next_def get_step)

lemma ListItr_Next_end [c_step]:
  "dlist (nodes s) l cs \<Longrightarrow> ListItr_Next (tail_of l) s = Inr (tail_of l, s)"
  using dlist_sentinels [of "nodes s" l cs] by (auto simp: ListItr_Next_def get_step)

lemma ListItr_Get_ok [c_step]:
  "dlist (nodes s) l (xs @ c # ys) \<Longrightarrow> ListItr_Get c s = Inr (item_at (nodes s) c, s)"
  using cell_facts [of "nodes s" l xs c ys] by (auto simp: ListItr_Get_def get_step)

lemma ListItr_Get_end [c_step]:
  "dlist (nodes s) l cs \<Longrightarrow> ListItr_Get (tail_of l) s = Inr (NULL, s)"
  using dlist_sentinels [of "nodes s" l cs] by (auto simp: ListItr_Get_def get_step)

text \<open>
  The iterator before the one at \<open>c\<close> or at the end is the previous cell, or the \<open>head\<close>
  sentinel at the beginning of the list.
\<close>

lemma ListItr_Prev_ok [c_step]:
  assumes dl: "dlist (nodes s) l (xs @ ys)" and it: "it = hd (ys @ [tail_of l])"
  shows "ListItr_Prev it s = Inr (last (l # xs), s)"
proof -
  note adj = dlist_adj [OF dl, folded it]
  have p: "\<exists>n. nodes s (last (l # xs)) = Some n \<and> m_prev n \<noteq> last (l # xs)"
  proof (cases xs rule: rev_cases)
    case Nil
    then show ?thesis using dlist_sentinels [OF dl] by auto
  next
    case (snoc zs z)
    with dl have "dlist (nodes s) l (zs @ z # ys)" by simp
    from dlist_removal_facts [OF this refl refl] show ?thesis using snoc by auto
  qed
  with adj show ?thesis by (auto simp: ListItr_Prev_def get_step)
qed

lemma ListItr_Remove_ok:
  assumes dl: "dlist (nodes s) l (xs @ c # ys)" and wf: "wf_list_mem s"
  shows "\<exists>s'. ListItr_Remove c s = Inr (item_at (nodes s) c, s') \<and> removed s s' l xs c ys"
proof -
  define a b where "a = last (l # xs)" and "b = hd (ys @ [tail_of l])"
  note f = dlist_removal_facts [OF dl a_def b_def]
  obtain na nb nc where n: "nodes s a = Some na" "nodes s b = Some nb" "nodes s c = Some nc"
    "m_next nc = b" "m_prev nc = a" using f(3-5) by blast
  let ?s = "s\<lparr>nodes := (nodes s)(a \<mapsto> na\<lparr>m_next := b\<rparr>, b \<mapsto> nb\<lparr>m_prev := a\<rparr>, c := None)\<rparr>"
  have "ListItr_Remove c s = Inr (m_data nc, ?s)"
    using f(1,2) n by (simp add: ListItr_Remove_def ListItr_Next_def c_step fun_upd_twist)
  moreover have "removed s ?s l xs c ys" by (rule removedI [OF dl wf a_def b_def n(1,2) refl])
  ultimately show ?thesis using n(3) by (simp add: item_at_def)
qed

lemma ListItr_Remove_end [c_step]:
  "dlist (nodes s) l cs \<Longrightarrow> ListItr_Remove (tail_of l) s = Inr (NULL, s)"
  by (simp add: ListItr_Remove_def c_step)

lemma dlist_data:
  assumes dl: "dlist h l cs" and it: "h it = Some n"
  shows "dlist (h(it \<mapsto> n\<lparr>m_data := v\<rparr>)) l cs"
proof -
  have "links (h(it \<mapsto> n\<lparr>m_data := v\<rparr>)) xs = links h xs" for xs
    using it by (induction h xs rule: links.induct) auto
  with dl it show ?thesis by (auto simp: dlist_def)
qed

lemma ListItr_Set_ok:
  assumes dl: "dlist (nodes s) l cs" and c: "c \<in> set cs" and e: "e \<noteq> NULL"
  shows "\<exists>s'. ListItr_Set c e s = Inr (item_at (nodes s) c, s') \<and> dlist (nodes s') l cs \<and>
    items (nodes s') cs = map (\<lambda>d. if d = c then e else item_at (nodes s) d) cs \<and>
    node_frame {c} s s'"
proof -
  obtain n where n: "nodes s c = Some n" "c \<noteq> NULL"
    using dlist_mapped [OF dl, of c] dlist_nz [OF dl, of c] c by auto
  let ?s = "s\<lparr>nodes := (nodes s)(c \<mapsto> n\<lparr>m_data := e\<rparr>)\<rparr>"
  have "ListItr_Set c e s = Inr (item_at (nodes s) c, ?s)"
    using n e by (simp add: ListItr_Set_def c_step item_at_def)
  moreover have "dlist (nodes ?s) l cs" using dlist_data [OF dl n(1)] by simp
  moreover have "items (nodes ?s) cs = map (\<lambda>d. if d = c then e else item_at (nodes s) d) cs"
    by (simp add: items_def item_at_def)
  ultimately show ?thesis by (auto simp: node_frame_def)
qed

text \<open>
  With the block of \<open>sizeof(Node*)\<close> bytes, \<open>ListItr_InsertBefore\<close> has no defined result
  whenever it gets as far as storing: the second pointer lies outside the block.
\<close>

lemma length_ptr_bytes [simp]: "length (ptr_bytes v) = 8"
  by (simp add: ptr_bytes_def)

lemma ListItr_InsertBefore_faults:
  assumes "wf_bytes s" and "\<not> oom s (brk s)" and "it \<noteq> NULL" and "e \<noteq> NULL"
  shows "ListItr_InsertBefore it e s = Inl BadAddress"
proof -
  let ?p = "brk s"
  let ?s = "s\<lparr>brk := 9 + ?p, bytes := map_bytes ?p (junk_bytes (junk s) ?p 8) (bytes s)\<rparr>"
  have nz: "0 < ?p" using assms by (simp add: wf_bytes_def)
  let ?t = "?s\<lparr>bytes := map_bytes ?p (ptr_bytes e) (bytes ?s)\<rparr>"
  have put: "put_bytes ?p (ptr_bytes e) ?s = Inr ((), ?t)"
    by (rule put_bytes_ok) (use nz in \<open>auto simp: map_bytes_def\<close>)
  have "bytes ?t (?p + 8 + 0) = None" using assms by (simp add: map_bytes_out wf_bytes_def)
  then have "put_bytes (?p + 8) (ptr_bytes it) ?t = Inl BadAddress"
    by (intro put_bytes_fault [of _ 0]) simp_all
  with put nz assms show ?thesis
    by (simp add: ListItr_InsertBefore_def malloc_bytes_step)
qed

end
