(* ===== verification/HashPrime.thy ===== *)
theory HashPrime
  imports CMem
begin

text \<open>
  The table size of \<^verbatim>\<open>src/GenericHash/GenericHash.c\<close>: \<open>CheckIfPrime\<close> and
  \<open>FindPrimeLargerThan\<close> over \<open>size_t\<close> (64-bit words, wrap-around included). Both loops are
  partial functions into \<open>option\<close>; that they return, and what, is proved for arguments below
  \<open>2 ^ 62\<close>, where no product wraps around.
\<close>

section \<open>The loops\<close>

text \<open>\<open>i\<close> is odd in every call (it starts at 3), so the division is never by zero.\<close>

partial_function (option) prime_loop :: "u64 \<Rightarrow> u64 \<Rightarrow> int option" where
  "prime_loop n i =
     (if i * i \<le> n then (if n mod i = 0 then Some 0 else prime_loop n (i + 2))
      else Some 1)"

definition CheckIfPrime :: "u64 \<Rightarrow> int option" where
  "CheckIfPrime n = (if n = 2 then Some 1 else if n mod 2 = 0 then Some 0 else prime_loop n 3)"

partial_function (option) FindPrimeLargerThan :: "u64 \<Rightarrow> u64 option" where
  "FindPrimeLargerThan n =
     Option.bind (CheckIfPrime n) (\<lambda>r. if r = 0 then FindPrimeLargerThan (n + 1) else Some n)"

section \<open>Specification\<close>

definition is_prime :: "nat \<Rightarrow> bool" where
  "is_prime p \<longleftrightarrow> 2 \<le> p \<and> (\<forall>d \<in> {2..<p}. \<not> d dvd p)"

lemma not_prime_small_divisor:
  fixes d n :: nat
  assumes "d dvd n" "2 \<le> d" "d < n"
  shows "\<exists>e. e dvd n \<and> 2 \<le> e \<and> e * e \<le> n"
proof -
  obtain k where k: "n = d * k" using assms(1) by blast
  have "k \<noteq> 0" "k \<noteq> 1" using k assms(2,3) by auto
  then have k2: "2 \<le> k" by arith
  show ?thesis
  proof (cases "d \<le> k")
    case True
    then show ?thesis using assms k by (intro exI [of _ d]) auto
  next
    case False
    then show ?thesis using k k2 by (intro exI [of _ k]) auto
  qed
qed

lemma is_prime_iff_small:
  "is_prime n \<longleftrightarrow> 2 \<le> n \<and> (\<forall>e. 2 \<le> e \<longrightarrow> e * e \<le> n \<longrightarrow> \<not> e dvd n)"
proof -
  have "e < n" if "2 \<le> e" "e * e \<le> n" for e :: nat
  proof -
    have "e * 2 \<le> e * e" using that(1) by simp
    with that show ?thesis by linarith
  qed
  then show ?thesis
    unfolding is_prime_def using not_prime_small_divisor [of _ n]
    by (metis atLeastLessThan_iff)
qed

lemma unat_square:
  fixes i :: u64
  assumes "unat i < 2 ^ 32"
  shows "unat (i * i) = unat i * unat i"
proof -
  have "unat i * unat i < 2 ^ 32 * 2 ^ 32" using assms by (intro mult_strict_mono) auto
  then show ?thesis by (simp add: unat_word_ariths)
qed

text \<open>The loop searches for an odd divisor from \<open>i\<close> on.\<close>

lemma prime_loop_correct:
  fixes n i :: u64
  assumes n: "unat n < 2 ^ 62" "odd (unat n)"
    and i: "odd (unat i)" "3 \<le> unat i" "unat i < 2 ^ 32"
    and inv: "\<forall>e. 2 \<le> e \<longrightarrow> e < unat i \<longrightarrow> \<not> e dvd unat n"
  shows "\<exists>r. prime_loop n i = Some r \<and>
    (r = 0 \<longleftrightarrow> (\<exists>e. 2 \<le> e \<and> e * e \<le> unat n \<and> e dvd unat n))"
  using i inv
proof (induction "2 ^ 33 - unat i" arbitrary: i rule: less_induct)
  case less
  have le: "i * i \<le> n \<longleftrightarrow> unat i * unat i \<le> unat n"
    using unat_square [OF less.prems(3)] by (simp add: word_le_nat_alt)
  have dv: "n mod i = 0 \<longleftrightarrow> unat i dvd unat n"
    by (simp add: unat_mod dvd_eq_mod_eq_0 flip: unat_eq_zero)
  show ?case
  proof (cases "unat i * unat i \<le> unat n")
    case False
    have "\<not> e dvd unat n" if "2 \<le> e" "e * e \<le> unat n" for e
    proof -
      have "e < unat i" using that(2) False by (metis le_less_trans mult_le_mono not_le)
      with that(1) less.prems(4) show ?thesis by blast
    qed
    with False le show ?thesis by (subst prime_loop.simps) auto
  next
    case sq: True
    show ?thesis
    proof (cases "unat i dvd unat n")
      case True
      with sq le dv less.prems(2) show ?thesis
        by (subst prime_loop.simps) (auto intro!: exI [of _ "unat i"])
    next
      case False
      have small: "unat i < 2 ^ 31"
      proof (rule ccontr)
        assume "\<not> unat i < 2 ^ 31"
        then have "2 ^ 31 * 2 ^ 31 \<le> unat i * unat i" by (intro mult_le_mono) simp_all
        with sq n(1) show False by simp
      qed
      have i2: "unat (i + 2) = unat i + 2" using small by (simp add: unat_word_ariths)
      have inv': "\<forall>e. 2 \<le> e \<longrightarrow> e < unat (i + 2) \<longrightarrow> \<not> e dvd unat n"
      proof (intro allI impI)
        fix e assume e: "2 \<le> e" "e < unat (i + 2)"
        consider "e < unat i" | "e = unat i" | "e = unat i + 1" using e i2 by linarith
        then show "\<not> e dvd unat n"
        proof cases
          case 3
          then have "even e" using less.prems(1) by simp
          with n(2) show ?thesis by (meson dvd_trans)
        qed (use less.prems(4) e(1) False in auto)
      qed
      have "\<exists>r. prime_loop n (i + 2) = Some r \<and>
          (r = 0 \<longleftrightarrow> (\<exists>e. 2 \<le> e \<and> e * e \<le> unat n \<and> e dvd unat n))"
        by (rule less.hyps) (use small i2 inv' less.prems(1,2) in auto)
      with sq le dv False show ?thesis by (subst prime_loop.simps) auto
    qed
  qed
qed

text \<open>\<open>CheckIfPrime\<close> decides primality, but for 1, which it takes for a prime.\<close>

lemma CheckIfPrime_correct:
  assumes "unat n < 2 ^ 62"
  shows "\<exists>r. CheckIfPrime n = Some r \<and> (r \<noteq> 0 \<longleftrightarrow> unat n = 1 \<or> is_prime (unat n))"
proof (cases "even (unat n)")
  case True
  then have mod: "n mod 2 = 0" by (simp add: unat_mod even_iff_mod_2_eq_zero flip: unat_eq_zero)
  have "is_prime (unat n) \<longleftrightarrow> n = 2"
  proof
    assume p: "is_prime (unat n)"
    then have "unat n = 2" using True by (force simp: is_prime_def)
    then show "n = 2" by (simp add: word_unat_eq_iff)
  next
    assume "n = 2"
    then show "is_prime (unat n)" by (simp add: is_prime_def)
  qed
  with mod True show ?thesis by (auto simp: CheckIfPrime_def)
next
  case False
  then have mod: "n mod 2 \<noteq> 0" "n \<noteq> 2"
    by (auto simp: unat_mod odd_iff_mod_2_eq_one simp flip: unat_eq_zero)
  have "\<forall>e. 2 \<le> e \<longrightarrow> e < unat (3 :: u64) \<longrightarrow> \<not> e dvd unat n"
  proof (intro allI impI)
    fix e :: nat assume "2 \<le> e" "e < unat (3 :: u64)"
    then have "e = 2" by simp
    with False show "\<not> e dvd unat n" by simp
  qed
  from prime_loop_correct [OF assms False _ _ _ this]
  obtain r where "prime_loop n 3 = Some r"
    "r = 0 \<longleftrightarrow> (\<exists>e. 2 \<le> e \<and> e * e \<le> unat n \<and> e dvd unat n)" by auto
  moreover have "unat n \<noteq> 0" using False by (metis even_zero)
  then have "unat n = 1 \<or> 2 \<le> unat n" by arith
  moreover have "\<not> e * e \<le> 1" if "2 \<le> e" for e :: nat
    using that mult_le_mono [of 2 e 2 e] by simp
  ultimately show ?thesis using mod by (auto simp: CheckIfPrime_def is_prime_iff_small)
qed

lemma FindPrimeLargerThan_least:
  assumes "is_prime p" and "p < 2 ^ 62" and "2 \<le> unat n" and "unat n \<le> p"
  shows "\<exists>m. FindPrimeLargerThan n = Some m \<and> is_prime (unat m) \<and> unat n \<le> unat m \<and>
    unat m \<le> p \<and> (\<forall>q. unat n \<le> q \<longrightarrow> q < unat m \<longrightarrow> \<not> is_prime q)"
  using assms(3,4)
proof (induction "p - unat n" arbitrary: n rule: less_induct)
  case less
  have lt: "unat n < 2 ^ 62" using less.prems(2) assms(2) by simp
  obtain r where r: "CheckIfPrime n = Some r" "r \<noteq> 0 \<longleftrightarrow> is_prime (unat n)"
    using CheckIfPrime_correct [OF lt] less.prems(1) by auto
  show ?case
  proof (cases "is_prime (unat n)")
    case True
    with r less.prems show ?thesis by (subst FindPrimeLargerThan.simps) auto
  next
    case False
    then have ne: "unat n < p" using less.prems(2) assms(1) by (metis le_neq_implies_less)
    have n1: "unat (n + 1) = unat n + 1" using lt by (simp add: unat_word_ariths)
    have "\<exists>m. FindPrimeLargerThan (n + 1) = Some m \<and> is_prime (unat m) \<and> unat (n + 1) \<le> unat m \<and>
      unat m \<le> p \<and> (\<forall>q. unat (n + 1) \<le> q \<longrightarrow> q < unat m \<longrightarrow> \<not> is_prime q)"
      by (rule less.hyps) (use ne n1 less.prems in auto)
    then obtain m where m: "FindPrimeLargerThan (n + 1) = Some m" "is_prime (unat m)"
      "unat n < unat m" "unat m \<le> p" "\<And>q. unat n < q \<Longrightarrow> q < unat m \<Longrightarrow> \<not> is_prime q"
      using n1 by auto
    have "\<not> is_prime q" if "unat n \<le> q" "q < unat m" for q
      using that m(5) False by (cases "q = unat n") auto
    moreover have "FindPrimeLargerThan n = Some m"
      using r False m(1) by (subst FindPrimeLargerThan.simps) simp
    ultimately show ?thesis using m(2-4) by auto
  qed
qed

end
