(* ===== verification/GenericHash.thy ===== *)
theory GenericHash
  imports ListIter HashPrime
begin

text \<open>
  The hash map of \<^verbatim>\<open>src/GenericHash/GenericHash.c\<close>: a table of lists of \<open>DataItem\<close>s, with the
  hash and equality functions of the client as function pointers that read the byte memory.
  A \<open>HashMap*\<close> is a value of type \<open>hmap option\<close> (\<open>None\<close> is \<open>NULL\<close>) because each map has
  one owner; its lists and items live in the shared heaps.

  \<open>hmap_rep s m dss\<close> is the representation invariant: bucket \<open>i\<close> of \<open>m\<close> holds the items at
  the addresses \<open>dss ! i\<close>. The operations are first executed on that level, for any
  behaviour of the key functions. The locale \<open>key_functions\<close> states what the map relies on
  (the functions agree with an abstract key); inside it the map is shown to be a partial
  function from abstract keys to values.
\<close>

section \<open>Data\<close>

record ditem =
  m_value :: addr
  m_key :: addr

record hash_mem = list_mem +
  ditems :: "addr \<Rightarrow> ditem option"

type_synonym HashFunction = "bmem \<Rightarrow> addr \<Rightarrow> fault + u64"
type_synonym EqualityFunction = "bmem \<Rightarrow> addr \<Rightarrow> addr \<Rightarrow> fault + int"

record hmap =
  hm_data :: "addr list option"
  m_hashSize :: u64
  m_allocSize :: u64
  m_numOfItems :: u64
  hm_magicNum :: u64
  m_hashFunc :: "HashFunction option"
  m_keysEqualFunc :: "EqualityFunction option"

datatype Map_Result =
  MAP_SUCCESS | MAP_UNINITIALIZED_ERROR | MAP_KEY_NULL_ERROR | MAP_KEY_DUPLICATE_ERROR
| MAP_KEY_NOT_FOUND_ERROR | MAP_ALLOCATION_ERROR

definition MAGIC_NUMBER :: u64 where
  "MAGIC_NUMBER = 52214221"

fun HashMapIsValid :: "hmap option \<Rightarrow> bool" where
  "HashMapIsValid None = False"
| "HashMapIsValid (Some m) = (hm_data m \<noteq> None \<and> hm_magicNum m = MAGIC_NUMBER)"

text \<open>Access to a \<open>DataItem\<close>, a table entry and the function pointers.\<close>

definition rd_ditem :: "addr \<Rightarrow> ('a hash_mem_scheme, ditem) prog" where
  "rd_ditem p = (\<lambda>s. if p = NULL then Inl NullDeref
     else case ditems s p of None \<Rightarrow> Inl BadAddress | Some d \<Rightarrow> Inr (d, s))"

definition malloc_ditem :: "('a hash_mem_scheme, addr) prog" where
  "malloc_ditem = chain (malloc 1) (\<lambda>p s.
     if p = NULL then Inr (NULL, s)
     else Inr (p, s\<lparr>ditems := (ditems s)(p \<mapsto> \<lparr>m_value = junk s p 0, m_key = junk s p 1\<rparr>)\<rparr>))"

definition wr_ditem :: "addr \<Rightarrow> (ditem \<Rightarrow> ditem) \<Rightarrow> ('a hash_mem_scheme, unit) prog" where
  "wr_ditem p f = chain (rd_ditem p) (\<lambda>d s. Inr ((), s\<lparr>ditems := (ditems s)(p \<mapsto> f d)\<rparr>))"

definition free_ditem :: "addr \<Rightarrow> ('a hash_mem_scheme, unit) prog" where
  "free_ditem p = (\<lambda>s. if p = NULL then Inr ((), s)
     else if ditems s p = None then Inl BadFree
     else Inr ((), s\<lparr>ditems := (ditems s)(p := None)\<rparr>))"

definition rd_bucket :: "hmap \<Rightarrow> nat \<Rightarrow> ('s, addr) prog" where
  "rd_bucket m i = (case hm_data m of None \<Rightarrow> fail NullDeref
     | Some t \<Rightarrow> if i < length t then ret (t ! i) else fail BadAddress)"

definition wr_bucket :: "nat \<Rightarrow> addr \<Rightarrow> hmap \<Rightarrow> hmap" where
  "wr_bucket i l m = m\<lparr>hm_data := map_option (\<lambda>t. t[i := l]) (hm_data m)\<rparr>"

definition call_hash :: "hmap \<Rightarrow> addr \<Rightarrow> ('a hash_mem_scheme, u64) prog" where
  "call_hash m key = (case m_hashFunc m of None \<Rightarrow> fail NullDeref
     | Some hf \<Rightarrow> reads (\<lambda>s. hf (bmem.truncate s) key))"

definition call_equal :: "hmap \<Rightarrow> addr \<Rightarrow> addr \<Rightarrow> ('a hash_mem_scheme, int) prog" where
  "call_equal m a b = (case m_keysEqualFunc m of None \<Rightarrow> fail NullDeref
     | Some ef \<Rightarrow> reads (\<lambda>s. ef (bmem.truncate s) a b))"

definition hash_index :: "hmap \<Rightarrow> addr \<Rightarrow> ('a hash_mem_scheme, nat) prog" where
  "hash_index m key = chain (call_hash m key) (\<lambda>index.
     if m_allocSize m = 0 then fail DivByZero else ret (unat (index mod m_allocSize m)))"

section \<open>The operations\<close>

definition HashMap_Create ::
  "u64 \<Rightarrow> HashFunction option \<Rightarrow> EqualityFunction option \<Rightarrow> ('a hash_mem_scheme, hmap option) prog"
where
  "HashMap_Create capacity hashFunc keysEqualFunc =
     (if capacity = 0 \<or> hashFunc = None \<or> keysEqualFunc = None then ret None
      else
        chain (malloc 1) (\<lambda>newHash.
        if newHash = NULL then ret None
        else
          (case FindPrimeLargerThan capacity of
             None \<Rightarrow> fail Diverges
           | Some newSize \<Rightarrow>
               chain (malloc (unat newSize)) (\<lambda>hashTableArr.
               if hashTableArr = NULL then ret None
               else ret (Some \<lparr>hm_data = Some (replicate (unat newSize) NULL),
                      m_hashSize = capacity, m_allocSize = newSize, m_numOfItems = 0,
                      hm_magicNum = MAGIC_NUMBER, m_hashFunc = hashFunc,
                      m_keysEqualFunc = keysEqualFunc\<rparr>)))))"

text \<open>
  The search loop shared by the operations: it ends at \<open>endItrator\<close> or at the first item
  whose key equals \<open>key\<close>; \<open>foundData\<close> is the item looked at last.
\<close>

fun find_loop ::
  "nat \<Rightarrow> hmap \<Rightarrow> addr \<Rightarrow> addr \<Rightarrow> addr \<Rightarrow> addr \<Rightarrow> ('a hash_mem_scheme, addr \<times> addr) prog" where
  "find_loop 0 m key e it fd = fail Diverges"
| "find_loop (Suc k) m key e it fd =
     chain (ListItr_Equals it e) (\<lambda>r.
     if r \<noteq> 0 then ret (it, fd)
     else
       chain (ListItr_Get it) (\<lambda>foundData.
       chain (rd_ditem foundData) (\<lambda>d.
       chain (call_equal m (m_key d) key) (\<lambda>b.
       if b = 1 then ret (it, foundData)
       else chain (ListItr_Next it) (\<lambda>it'. find_loop k m key e it' foundData)))))"

text \<open>Begin, end, the loop, and the test after it: the iterator and item found, if any.\<close>

definition search_bucket ::
  "hmap \<Rightarrow> addr \<Rightarrow> addr \<Rightarrow> ('a hash_mem_scheme, (addr \<times> addr) option) prog" where
  "search_bucket m l key =
     chain (ListItr_End l) (\<lambda>endItrator.
     chain (ListItr_Begin l) (\<lambda>it.
     chain (\<lambda>s. find_loop (brk s) m key endItrator it NULL s) (\<lambda>(itrator, foundData).
     chain (ListItr_Equals itrator endItrator) (\<lambda>r.
     ret (if r \<noteq> 0 then None else Some (itrator, foundData))))))"

definition HashMap_Insert ::
  "hmap option \<Rightarrow> addr \<Rightarrow> addr \<Rightarrow> ('a hash_mem_scheme, Map_Result \<times> hmap option) prog" where
  "HashMap_Insert mp key value =
     (if \<not> HashMapIsValid mp then ret (MAP_UNINITIALIZED_ERROR, mp)
      else if key = NULL then ret (MAP_KEY_NULL_ERROR, mp)
      else
        let m = the mp in
        chain (hash_index m key) (\<lambda>index.
        chain (rd_bucket m index) (\<lambda>l.
        chain (if l = NULL
               then chain List_Create (\<lambda>l'. ret (False, wr_bucket index l' m))
               else chain (search_bucket m l key) (\<lambda>found. ret (found \<noteq> None, m)))
          (\<lambda>(duplicate, m').
        if duplicate then ret (MAP_KEY_DUPLICATE_ERROR, Some m')
        else
          chain malloc_ditem (\<lambda>DataItem.
          if DataItem = NULL then ret (MAP_ALLOCATION_ERROR, Some m')
          else
            chain (wr_ditem DataItem (\<lambda>d. d\<lparr>m_value := value\<rparr>)) (\<lambda>_.
            chain (wr_ditem DataItem (\<lambda>d. d\<lparr>m_key := key\<rparr>)) (\<lambda>_.
            chain (rd_bucket m' index) (\<lambda>l'.
            chain (List_PushHead l' DataItem) (\<lambda>err.
            if err = LIST_ALLOCATION_ERROR
            then chain (free_ditem DataItem) (\<lambda>_. ret (MAP_ALLOCATION_ERROR, Some m'))
            else ret (MAP_SUCCESS, Some (m'\<lparr>m_numOfItems := m_numOfItems m' + 1\<rparr>)))))))))))"

text \<open>The out parameters \<open>_pKey\<close> and \<open>_pValue\<close> are the second and third result.\<close>

definition HashMap_Remove ::
  "hmap option \<Rightarrow> addr \<Rightarrow>
   ('a hash_mem_scheme, Map_Result \<times> (addr \<times> addr) option \<times> hmap option) prog" where
  "HashMap_Remove mp searchKey =
     (if \<not> HashMapIsValid mp then ret (MAP_UNINITIALIZED_ERROR, None, mp)
      else if searchKey = NULL then ret (MAP_KEY_NULL_ERROR, None, mp)
      else
        let m = the mp in
        chain (hash_index m searchKey) (\<lambda>index.
        chain (rd_bucket m index) (\<lambda>l.
        if l = NULL then ret (MAP_KEY_NOT_FOUND_ERROR, None, mp)
        else
          chain (search_bucket m l searchKey) (\<lambda>found.
          case found of
            None \<Rightarrow> ret (MAP_KEY_NOT_FOUND_ERROR, None, mp)
          | Some (itrator, fd) \<Rightarrow>
              chain (ListItr_Remove itrator) (\<lambda>foundData.
              chain (rd_ditem foundData) (\<lambda>d.
              chain (free_ditem foundData) (\<lambda>_.
              ret (MAP_SUCCESS, Some (m_key d, m_value d),
                   Some (m\<lparr>m_numOfItems := m_numOfItems m - 1\<rparr>)))))))))"

definition HashMap_Size :: "hmap option \<Rightarrow> u64" where
  "HashMap_Size mp = (if \<not> HashMapIsValid mp then 0 else m_numOfItems (the mp))"

definition HashMap_Find ::
  "hmap option \<Rightarrow> addr \<Rightarrow> ('a hash_mem_scheme, Map_Result \<times> addr option) prog" where
  "HashMap_Find mp searchKey =
     (if \<not> HashMapIsValid mp then ret (MAP_UNINITIALIZED_ERROR, None)
      else if searchKey = NULL then ret (MAP_KEY_NULL_ERROR, None)
      else
        let m = the mp in
        chain (hash_index m searchKey) (\<lambda>index.
        chain (rd_bucket m index) (\<lambda>l.
        if l = NULL then ret (MAP_KEY_NOT_FOUND_ERROR, None)
        else
          chain (search_bucket m l searchKey) (\<lambda>found.
          case found of
            None \<Rightarrow> ret (MAP_KEY_NOT_FOUND_ERROR, None)
          | Some (itrator, foundData) \<Rightarrow>
              chain (rd_ditem foundData) (\<lambda>d. ret (MAP_SUCCESS, Some (m_value d)))))))"

text \<open>
  \<open>HashMap_Destroy\<close>: \<open>while (0 != List_PopHead(...))\<close>, where \<open>LIST_SUCCESS\<close> is 0, so the body
  runs when the pop fails. \<open>foundData\<close> keeps its value from bucket to bucket. The key and
  value functions are steps of the caller's program; the first argument is the \<open>HashMap**\<close>
  (\<open>None\<close> is \<open>NULL\<close>), the result the new value of \<open>*_map\<close>.
\<close>

fun destroy_bucket ::
  "nat \<Rightarrow> addr \<Rightarrow> addr \<Rightarrow> (addr \<Rightarrow> ('a hash_mem_scheme, unit) prog) option \<Rightarrow>
   (addr \<Rightarrow> ('a hash_mem_scheme, unit) prog) option \<Rightarrow> ('a hash_mem_scheme, addr) prog" where
  "destroy_bucket 0 l fd kd vd = fail Diverges"
| "destroy_bucket (Suc k) l fd kd vd =
     chain (List_PopHead l True) (\<lambda>(r, item).
     let foundData = (case item of None \<Rightarrow> fd | Some d \<Rightarrow> d) in
     if r = LIST_SUCCESS then ret foundData
     else
       chain (case kd of None \<Rightarrow> ret ()
              | Some f \<Rightarrow> chain (rd_ditem foundData) (\<lambda>d. f (m_key d))) (\<lambda>_.
       chain (case vd of None \<Rightarrow> ret ()
              | Some f \<Rightarrow> chain (rd_ditem foundData) (\<lambda>d. f (m_value d))) (\<lambda>_.
       chain (free_ditem foundData) (\<lambda>_.
       destroy_bucket k l foundData kd vd))))"

fun destroy_table ::
  "hmap \<Rightarrow> nat list \<Rightarrow> addr \<Rightarrow> (addr \<Rightarrow> ('a hash_mem_scheme, unit) prog) option \<Rightarrow>
   (addr \<Rightarrow> ('a hash_mem_scheme, unit) prog) option \<Rightarrow> ('a hash_mem_scheme, unit) prog" where
  "destroy_table m [] fd kd vd = ret ()"
| "destroy_table m (i # is) fd kd vd =
     chain (rd_bucket m i) (\<lambda>l.
     if l = NULL then destroy_table m is fd kd vd
     else
       chain (\<lambda>s. destroy_bucket (brk s) l fd kd vd s) (\<lambda>fd'.
       chain (List_Destroy l None) (\<lambda>_.
       destroy_table m is fd' kd vd)))"

definition HashMap_Destroy ::
  "hmap option option \<Rightarrow> (addr \<Rightarrow> ('a hash_mem_scheme, unit) prog) option \<Rightarrow>
   (addr \<Rightarrow> ('a hash_mem_scheme, unit) prog) option \<Rightarrow> ('a hash_mem_scheme, hmap option) prog"
where
  "HashMap_Destroy pmap keyDestroy valDestroy =
     (case pmap of None \<Rightarrow> ret None
      | Some mp \<Rightarrow>
          if \<not> HashMapIsValid mp then ret mp
          else
            let m = the mp in
            chain (destroy_table m [0..<unat (m_allocSize m)] NULL keyDestroy valDestroy) (\<lambda>_.
            ret None))"

section \<open>The representation invariant\<close>

definition bucket_rep :: "'a hash_mem_scheme \<Rightarrow> addr \<Rightarrow> addr list \<Rightarrow> bool" where
  "bucket_rep s l ds \<longleftrightarrow>
     (if l = NULL then ds = []
      else item_at (nodes s) (tail_of l) = NULL \<and>
           (\<exists>cs. dlist (nodes s) l cs \<and> items (nodes s) cs = ds))"

lemma bucket_rep_null [simp]: "bucket_rep s NULL ds \<longleftrightarrow> ds = []"
  by (simp add: bucket_rep_def)

lemma bucket_rep_dlist: "bucket_rep s l ds \<Longrightarrow> l \<noteq> NULL \<Longrightarrow> \<exists>cs. dlist (nodes s) l cs"
  by (auto simp: bucket_rep_def)

definition table_rep :: "'a hash_mem_scheme \<Rightarrow> addr list \<Rightarrow> addr list list \<Rightarrow> bool" where
  "table_rep s t dss \<longleftrightarrow> length t = length dss \<and>
     (\<forall>i < length t. bucket_rep s (t ! i) (dss ! i)) \<and>
     (\<forall>i < length t. \<forall>j < length t. t ! i = t ! j \<longrightarrow> t ! i \<noteq> NULL \<longrightarrow> i = j)"

definition hmap_rep :: "'a hash_mem_scheme \<Rightarrow> hmap \<Rightarrow> addr list list \<Rightarrow> bool" where
  "hmap_rep s m dss \<longleftrightarrow> hm_magicNum m = MAGIC_NUMBER \<and>
     (\<exists>t. hm_data m = Some t \<and> table_rep s t dss) \<and>
     unat (m_allocSize m) = length dss \<and> dss \<noteq> [] \<and>
     distinct (concat dss) \<and> (\<forall>d \<in> set (concat dss). d \<noteq> NULL \<and> ditems s d \<noteq> None) \<and>
     m_numOfItems m = of_nat (length (concat dss))"

definition wf_hash_mem :: "'a hash_mem_scheme \<Rightarrow> bool" where
  "wf_hash_mem s \<longleftrightarrow> wf_list_mem s \<and> (\<forall>a \<ge> brk s. ditems s a = None)"

lemma wf_list_mem_ditems [simp]: "wf_list_mem (s\<lparr>ditems := x\<rparr>) = wf_list_mem s"
  by (simp add: wf_list_mem_def)

text \<open>
  The environment in which the map is studied: enough memory, and the uninitialised item of a
  new tail sentinel is a null pointer. (What happens when it is not is stated separately.)
\<close>

definition enough_mem :: "'a cmem_scheme \<Rightarrow> bool" where
  "enough_mem s \<longleftrightarrow> (\<forall>a. \<not> oom s a)"

definition quiet :: "'a cmem_scheme \<Rightarrow> bool" where
  "quiet s \<longleftrightarrow> (\<forall>a. junk s a 0 = NULL)"

text \<open>
  \<open>hash_frame L D s s'\<close>: a step left alone every list that is not in \<open>L\<close> and every existing
  item that is not in \<open>D\<close>, and everything that is not node, item or allocator.
\<close>

definition hash_frame ::
  "addr set \<Rightarrow> addr set \<Rightarrow> 'a hash_mem_scheme \<Rightarrow> 'a hash_mem_scheme \<Rightarrow> bool" where
  "hash_frame L D s s' \<longleftrightarrow>
     s' = s\<lparr>brk := brk s', nodes := nodes s', ditems := ditems s'\<rparr> \<and> brk s \<le> brk s' \<and>
     (\<forall>l cs. l \<notin> L \<longrightarrow> dlist (nodes s) l cs \<longrightarrow>
        dlist (nodes s') l cs \<and> items (nodes s') cs = items (nodes s) cs \<and>
        item_at (nodes s') (tail_of l) = item_at (nodes s) (tail_of l)) \<and>
     (\<forall>d < brk s. d \<notin> D \<longrightarrow> ditems s' d = ditems s d)"

lemma hash_frame_refl [simp]: "hash_frame L D s s"
  by (simp add: hash_frame_def)

lemma hash_frame_trans:
  assumes "hash_frame L D s s'" and "hash_frame L D s' s''"
  shows "hash_frame L D s s''"
proof -
  have "s'' = s\<lparr>brk := brk s'', nodes := nodes s'', ditems := ditems s''\<rparr>"
  proof -
    have "s'' = s'\<lparr>brk := brk s'', nodes := nodes s'', ditems := ditems s''\<rparr>"
      "s' = s\<lparr>brk := brk s', nodes := nodes s', ditems := ditems s'\<rparr>"
      using assms by (auto simp: hash_frame_def)
    then have "s'' = (s\<lparr>brk := brk s', nodes := nodes s', ditems := ditems s'\<rparr>)
        \<lparr>brk := brk s'', nodes := nodes s'', ditems := ditems s''\<rparr>" by metis
    then show ?thesis by simp
  qed
  then show ?thesis using assms unfolding hash_frame_def
    by (metis (no_types, lifting) order_less_le_trans order_trans)
qed

lemma hash_frame_rest:
  assumes "hash_frame L D s s'"
  shows "bytes s' = bytes s" "junk s' = junk s" "oom s' = oom s"
proof -
  obtain b n d where "s' = s\<lparr>brk := b, nodes := n, ditems := d\<rparr>"
    using assms unfolding hash_frame_def by blast
  then show "bytes s' = bytes s" "junk s' = junk s" "oom s' = oom s" by simp_all
qed

text \<open>A step of the map changes nothing but nodes, items and the end of the memory.\<close>

definition hash_only :: "'a hash_mem_scheme \<Rightarrow> 'a hash_mem_scheme \<Rightarrow> bool" where
  "hash_only s s' \<longleftrightarrow> s' = s\<lparr>brk := brk s', nodes := nodes s', ditems := ditems s'\<rparr>"

lemma hash_frame_only: "hash_frame L D s s' \<Longrightarrow> hash_only s s'"
  by (simp add: hash_frame_def hash_only_def)

lemma hash_frame_env:
  "hash_frame L D s s' \<Longrightarrow> enough_mem s' = enough_mem s"
  "hash_frame L D s s' \<Longrightarrow> quiet s' = quiet s"
  by (simp_all add: hash_frame_rest enough_mem_def quiet_def)

lemma node_frame_hash:
  assumes fr: "node_frame (set (l # cs @ [tail_of l])) s s'" and wf: "wf_list_mem s"
    and dl: "dlist (nodes s) l cs" and "l \<in> L"
  shows "hash_frame L D s s'"
proof -
  obtain b n where s': "s' = s\<lparr>brk := b, nodes := n\<rparr>" and "brk s \<le> brk s'"
    using fr unfolding node_frame_def by blast
  moreover have "dlist (nodes s') l' cs' \<and> items (nodes s') cs' = items (nodes s) cs' \<and>
      item_at (nodes s') (tail_of l') = item_at (nodes s) (tail_of l')"
    if "l' \<notin> L" "dlist (nodes s) l' cs'" for l' cs'
    using node_frame_dlist [OF fr wf dl that(2)] that(1) \<open>l \<in> L\<close> by blast
  ultimately show ?thesis by (simp add: hash_frame_def)
qed

lemma bucket_rep_frame:
  assumes "bucket_rep s l ds" and "hash_frame L D s s'" and "l \<notin> L \<or> l = NULL"
  shows "bucket_rep s' l ds"
  using assms unfolding bucket_rep_def hash_frame_def by (auto split: if_splits)

lemma hmap_rep_frame:
  assumes rep: "hmap_rep s m dss" and fr: "hash_frame L D s s'" and wf: "wf_hash_mem s"
    and L: "\<forall>l \<in> set (the (hm_data m)). l \<notin> L \<or> l = NULL"
    and D: "set (concat dss) \<inter> D = {}"
  shows "hmap_rep s' m dss"
proof -
  obtain t where t: "hm_data m = Some t" "table_rep s t dss"
    using rep by (auto simp: hmap_rep_def)
  have "bucket_rep s' (t ! i) (dss ! i)" if "i < length t" for i
    by (rule bucket_rep_frame [OF _ fr]) (use t L that in \<open>auto simp: table_rep_def\<close>)
  then have "table_rep s' t dss" using t(2) by (simp add: table_rep_def)
  moreover have "ditems s' d = ditems s d" if "d \<in> set (concat dss)" for d
  proof -
    have "ditems s d \<noteq> None" using rep that unfolding hmap_rep_def by blast
    then have "d < brk s" using wf unfolding wf_hash_mem_def by (metis not_le)
    moreover have "d \<notin> D" using D that by blast
    ultimately show ?thesis using fr unfolding hash_frame_def by blast
  qed
  ultimately show ?thesis using rep t(1) unfolding hmap_rep_def by simp
qed

lemma bucket_rep_data: "bucket_rep s l ds \<Longrightarrow> bucket_rep (s\<lparr>ditems := x\<rparr>) l ds"
  by (simp add: bucket_rep_def)

section \<open>Searching a bucket\<close>

text \<open>
  \<open>decides s m key ds P\<close>: on every item of \<open>ds\<close> the equality function returns, and returns 1
  exactly on those satisfying \<open>P\<close>.
\<close>

definition decides ::
  "'a hash_mem_scheme \<Rightarrow> hmap \<Rightarrow> addr \<Rightarrow> addr list \<Rightarrow> (addr \<Rightarrow> bool) \<Rightarrow> bool" where
  "decides s m key ds P \<longleftrightarrow> (\<forall>d \<in> set ds. d \<noteq> NULL \<and>
     (\<exists>x b. ditems s d = Some x \<and> call_equal m (m_key x) key s = Inr (b, s) \<and> (b = 1 \<longleftrightarrow> P d)))"

lemma rd_ditem_step [c_step]: "p \<noteq> NULL \<Longrightarrow> ditems s p = Some d \<Longrightarrow> rd_ditem p s = Inr (d, s)"
  by (simp add: rd_ditem_def)

lemma find_loop_ok:
  assumes dl: "dlist (nodes s) l (xs @ ys)" and tl: "item_at (nodes s) (tail_of l) = NULL"
    and dec: "decides s m key (items (nodes s) ys) P" and k: "length ys < k"
  shows "\<exists>fd'. find_loop k m key (tail_of l) (hd (ys @ [tail_of l])) fd s =
    Inr ((case find (\<lambda>c. P (item_at (nodes s) c)) ys of
            None \<Rightarrow> (tail_of l, fd') | Some c \<Rightarrow> (c, item_at (nodes s) c)), s)"
  using dl dec k
proof (induction ys arbitrary: xs k fd)
  case Nil
  have "nodes s (tail_of l) \<noteq> None" using dlist_mapped [OF dl] by simp
  with Nil show ?case by (cases k) (auto simp: ListItr_Equals_ok)
next
  case (Cons c ys)
  obtain k' where k: "k = Suc k'" "length ys < k'" using Cons.prems(3) by (cases k) auto
  note f = cell_facts [OF Cons.prems(1)]
  have t: "nodes s (tail_of l) \<noteq> None" using dlist_mapped [OF Cons.prems(1)] by simp
  let ?d = "item_at (nodes s) c"
  obtain x b where x: "?d \<noteq> NULL" "ditems s ?d = Some x" "call_equal m (m_key x) key s = Inr (b, s)"
    "b = 1 \<longleftrightarrow> P ?d"
    using Cons.prems(2) by (auto simp: decides_def)
  have eq: "ListItr_Equals c (tail_of l) s = Inr (0, s)"
    using f t tl x(1) by (simp add: ListItr_Equals_ok)
  have get: "ListItr_Get c s = Inr (?d, s)" "ListItr_Next c s = Inr (hd (ys @ [tail_of l]), s)"
    using Cons.prems(1) by (rule ListItr_Get_ok, rule ListItr_Next_ok)
  have dl': "dlist (nodes s) l ((xs @ [c]) @ ys)" using Cons.prems(1) by simp
  have dec': "decides s m key (items (nodes s) ys) P" using Cons.prems(2) by (simp add: decides_def)
  show ?case using Cons.IH [OF dl' dec' k(2), of ?d] x eq get k(1)
    by (cases "P ?d") (simp_all add: rd_ditem_step)
qed

lemma find_items:
  "find (\<lambda>c. P (item_at h c)) cs = Some c \<Longrightarrow> find P (items h cs) = Some (item_at h c)"
  "find (\<lambda>c. P (item_at h c)) cs = None \<Longrightarrow> find P (items h cs) = None"
  by (induction cs) (auto split: if_splits)

text \<open>The search finds the first matching item of the bucket, with its cell.\<close>

lemma search_bucket_ok:
  assumes rep: "bucket_rep s l ds" and wf: "wf_hash_mem s" and l: "l \<noteq> NULL"
    and dec: "decides s m key ds P"
  shows "(find P ds = None \<and> search_bucket m l key s = Inr (None, s)) \<or>
    (\<exists>us c vs. dlist (nodes s) l (us @ c # vs) \<and> items (nodes s) (us @ c # vs) = ds \<and>
       find P ds = Some (item_at (nodes s) c) \<and>
       search_bucket m l key s = Inr (Some (c, item_at (nodes s) c), s))"
proof -
  obtain cs where cs: "dlist (nodes s) l cs" "items (nodes s) cs = ds"
    and tl: "item_at (nodes s) (tail_of l) = NULL"
    using rep l by (auto simp: bucket_rep_def)
  have len: "length cs < brk s" using dlist_length [of s l cs] cs wf by (simp add: wf_hash_mem_def)
  have t: "nodes s (tail_of l) \<noteq> None" using dlist_mapped [OF cs(1)] by simp
  from find_loop_ok [of s l "[]" cs m key P "brk s" NULL] cs tl dec len
  obtain fd' where run: "find_loop (brk s) m key (tail_of l) (hd (cs @ [tail_of l])) NULL s =
    Inr ((case find (\<lambda>c. P (item_at (nodes s) c)) cs of
            None \<Rightarrow> (tail_of l, fd') | Some c \<Rightarrow> (c, item_at (nodes s) c)), s)" by auto
  show ?thesis
  proof (cases "find (\<lambda>c. P (item_at (nodes s) c)) cs")
    case None
    then have "find P ds = None" using find_items(2) [of P "nodes s" cs] cs(2) by simp
    moreover have "search_bucket m l key s = Inr (None, s)"
      using run None t cs(1) by (simp add: search_bucket_def ListItr_End_ok ListItr_Begin_ok
        ListItr_Equals_ok)
    ultimately show ?thesis by simp
  next
    case (Some c)
    then have "find P ds = Some (item_at (nodes s) c)" using find_items(1) [of P "nodes s" cs] cs(2) by simp
    moreover have "c \<in> set cs" using Some by (auto simp: find_Some_iff)
    then obtain us vs where split: "cs = us @ c # vs" by (meson split_list)
    note f = cell_facts [OF cs(1) [unfolded split]]
    have "item_at (nodes s) c \<noteq> NULL"
      using dec \<open>c \<in> set cs\<close> cs(2) by (auto simp: decides_def items_def)
    then have "search_bucket m l key s = Inr (Some (c, item_at (nodes s) c), s)"
      using run Some t tl f(1,2) cs(1) by (simp add: search_bucket_def ListItr_End_ok ListItr_Begin_ok
        ListItr_Equals_ok)
    ultimately show ?thesis using cs split by blast
  qed
qed

section \<open>Find\<close>

lemma hmap_rep_valid: "hmap_rep s m dss \<Longrightarrow> HashMapIsValid (Some m)"
  by (auto simp: hmap_rep_def)

lemma hash_index_ok:
  assumes "hmap_rep s m dss" and "call_hash m key s = Inr (h, s)"
  shows "hash_index m key s = Inr (unat (h mod m_allocSize m), s)"
    "unat (h mod m_allocSize m) < length dss"
proof -
  have a: "unat (m_allocSize m) = length dss" "0 < length dss"
    using assms(1) by (auto simp: hmap_rep_def)
  then have "m_allocSize m \<noteq> 0" by auto
  then show "hash_index m key s = Inr (unat (h mod m_allocSize m), s)"
    using assms(2) by (simp add: hash_index_def)
  show "unat (h mod m_allocSize m) < length dss" using a by (simp add: unat_mod)
qed

lemma rd_bucket_step [c_step]: "hm_data m = Some t \<Longrightarrow> i < length t \<Longrightarrow> rd_bucket m i = ret (t ! i)"
  by (simp add: rd_bucket_def)

lemma rd_bucket_ok:
  assumes "hmap_rep s m dss" and "i < length dss"
  obtains t where "hm_data m = Some t" "i < length t" "bucket_rep s (t ! i) (dss ! i)"
  using assms by (auto simp: hmap_rep_def table_rep_def)

lemma HashMap_Find_rep:
  assumes rep: "hmap_rep s m dss" and wf: "wf_hash_mem s" and key: "key \<noteq> NULL"
    and h: "call_hash m key s = Inr (h, s)" and i: "i = unat (h mod m_allocSize m)"
    and dec: "decides s m key (dss ! i) P"
  shows "HashMap_Find (Some m) key s = Inr (case find P (dss ! i) of
     None \<Rightarrow> (MAP_KEY_NOT_FOUND_ERROR, None)
   | Some d \<Rightarrow> (MAP_SUCCESS, Some (m_value (the (ditems s d)))), s)"
proof -
  note ix = hash_index_ok [OF rep h, folded i]
  obtain t where t: "hm_data m = Some t" "i < length t" and l: "bucket_rep s (t ! i) (dss ! i)"
    using rd_bucket_ok [OF rep ix(2)] by metis
  show ?thesis
  proof (cases "t ! i = NULL")
    case True
    with l have "dss ! i = []" by (simp add: bucket_rep_def)
    with True t ix key hmap_rep_valid [OF rep] show ?thesis
      by (simp add: HashMap_Find_def Let_def rd_bucket_step)
  next
    case False
    from search_bucket_ok [OF l wf False dec] show ?thesis
    proof (elim disjE conjE exE)
      assume "find P (dss ! i) = None" "search_bucket m (t ! i) key s = Inr (None, s)"
      with False t ix key hmap_rep_valid [OF rep] show ?thesis
        by (simp add: HashMap_Find_def Let_def rd_bucket_step)
    next
      fix us c vs
      assume f: "find P (dss ! i) = Some (item_at (nodes s) c)"
        "search_bucket m (t ! i) key s = Inr (Some (c, item_at (nodes s) c), s)"
      then have "item_at (nodes s) c \<in> set (dss ! i)" by (auto simp: find_Some_iff)
      with dec obtain x where "item_at (nodes s) c \<noteq> NULL" "ditems s (item_at (nodes s) c) = Some x"
        by (auto simp: decides_def)
      with f False t ix key hmap_rep_valid [OF rep] show ?thesis
        by (simp add: HashMap_Find_def Let_def rd_ditem_step rd_bucket_step)
    qed
  qed
qed

section \<open>Insert\<close>

lemma malloc_ditem_step [c_step]:
  "\<not> oom s (brk s) \<Longrightarrow> 0 < brk s \<Longrightarrow> malloc_ditem s = Inr (brk s,
     s\<lparr>brk := brk s + 2, ditems := (ditems s)(brk s \<mapsto> \<lparr>m_value = junk s (brk s) 0,
       m_key = junk s (brk s) 1\<rparr>)\<rparr>)"
  by (simp add: malloc_ditem_def malloc_def)

lemma wr_ditem_step [c_step]:
  "p \<noteq> NULL \<Longrightarrow> ditems s p = Some d \<Longrightarrow>
   wr_ditem p f s = Inr ((), s\<lparr>ditems := (ditems s)(p \<mapsto> f d)\<rparr>)"
  by (simp add: wr_ditem_def rd_ditem_step)

text \<open>Storing a new item at the head of the chain at \<open>l\<close>: the last steps of \<open>HashMap_Insert\<close>.\<close>

lemma store_item_ok:
  assumes rep: "bucket_rep s l ds" and wf: "wf_hash_mem s" and l: "l \<noteq> NULL"
    and mem: "enough_mem s"
  obtains s1 s2 s3 s' where
    "malloc_ditem s = Inr (brk s, s1)"
    "wr_ditem (brk s) (\<lambda>x. x\<lparr>m_value := value\<rparr>) s1 = Inr ((), s2)"
    "wr_ditem (brk s) (\<lambda>x. x\<lparr>m_key := key\<rparr>) s2 = Inr ((), s3)"
    "List_PushHead l (brk s) s3 = Inr (LIST_SUCCESS, s')"
    "bucket_rep s' l (brk s # ds)" "hash_frame {l} {} s s'" "wf_hash_mem s'"
    "ditems s' (brk s) = Some \<lparr>m_value = value, m_key = key\<rparr>" "brk s < brk s'"
proof -
  let ?d = "brk s"
  let ?item = "\<lambda>v k. s\<lparr>brk := brk s + 2, ditems := (ditems s)(?d \<mapsto> \<lparr>m_value = v, m_key = k\<rparr>)\<rparr>"
  let ?s3 = "?item value key"
  obtain cs where cs: "dlist (nodes s) l cs" "items (nodes s) cs = ds"
    and tl: "item_at (nodes s) (tail_of l) = NULL"
    using rep l by (auto simp: bucket_rep_def)
  have nz: "0 < brk s" using wf by (simp add: wf_hash_mem_def wf_list_mem_def)
  have wf3: "wf_list_mem ?s3" using wf by (simp add: wf_hash_mem_def wf_list_mem_def)
  from List_PushHead_ok [of ?s3 l cs ?d] cs wf3 nz mem
  obtain s' where push: "List_PushHead l ?d ?s3 = Inr (LIST_SUCCESS, s')"
    and ins: "inserted ?s3 s' l [] cs ?d" by (auto simp: enough_mem_def)
  have fr: "node_frame (set (l # cs @ [tail_of l])) ?s3 s'" using ins by (simp add: inserted_def)
  have "hash_frame {l} {} ?s3 s'" by (rule node_frame_hash [OF fr wf3]) (use cs in simp_all)
  moreover have "hash_frame {l} {} s ?s3" by (simp add: hash_frame_def)
  ultimately have hf: "hash_frame {l} {} s s'" by (blast intro: hash_frame_trans)
  obtain b n where "s' = ?s3\<lparr>brk := b, nodes := n\<rparr>" using fr unfolding node_frame_def by blast
  then have d': "ditems s' = ditems ?s3" by simp
  have br: "bucket_rep s' l (?d # ds)"
    using ins l tl cs(2) unfolding bucket_rep_def inserted_def
    by (auto intro!: exI [of _ "Suc (Suc (brk s)) # cs"])
  have "wf_hash_mem s'" using wf ins d' by (auto simp: wf_hash_mem_def inserted_def)
  then show ?thesis
    using that [OF _ _ _ push br hf] nz mem d' ins
    by (simp add: c_step enough_mem_def inserted_def)
qed

lemma hash_frame_new:
  assumes "hash_frame L D s s1" and "hash_frame (insert l L) D s1 s2"
    and "\<And>cs. \<not> dlist (nodes s) l cs"
  shows "hash_frame L D s s2"
proof -
  obtain b1 n1 d1 b2 n2 d2 where
    "s1 = s\<lparr>brk := b1, nodes := n1, ditems := d1\<rparr>" "s2 = s1\<lparr>brk := b2, nodes := n2, ditems := d2\<rparr>"
    using assms(1,2) unfolding hash_frame_def by blast
  then have eq: "s2 = s\<lparr>brk := brk s2, nodes := nodes s2, ditems := ditems s2\<rparr>" by simp
  have lists: "dlist (nodes s2) l' cs \<and> items (nodes s2) cs = items (nodes s) cs \<and>
      item_at (nodes s2) (tail_of l') = item_at (nodes s) (tail_of l')"
    if "l' \<notin> L" "dlist (nodes s) l' cs" for l' cs
  proof -
    have "l' \<noteq> l" using that assms(3) by blast
    then show ?thesis using that assms(1,2) unfolding hash_frame_def by (metis insert_iff)
  qed
  have data: "ditems s2 d = ditems s d" if "d < brk s" "d \<notin> D" for d
    using that assms(1,2) unfolding hash_frame_def by (metis order_less_le_trans)
  show ?thesis
    using eq lists data assms(1,2) unfolding hash_frame_def by (meson order_trans)
qed

definition hmap_like :: "hmap \<Rightarrow> hmap \<Rightarrow> bool" where
  "hmap_like m m' \<longleftrightarrow> m_allocSize m' = m_allocSize m \<and> m_hashFunc m' = m_hashFunc m \<and>
     m_keysEqualFunc m' = m_keysEqualFunc m"

text \<open>The new map: bucket \<open>i\<close> has the list \<open>l'\<close>, with the item \<open>d\<close> in front.\<close>

lemma hmap_rep_insert:
  assumes rep: "hmap_rep s m dss" and wf: "wf_hash_mem s" and i: "i < length dss"
    and t: "hm_data m = Some t" and l: "l' = t ! i \<or> t ! i = NULL \<and> (\<forall>cs. \<not> dlist (nodes s) l' cs)"
    and fr: "hash_frame {l'} {} s s'" and br: "bucket_rep s' l' (d # dss ! i)"
    and d: "d \<noteq> NULL" "ditems s' d \<noteq> None" "brk s \<le> d"
  shows "hmap_rep s' (m\<lparr>hm_data := Some (t[i := l']), m_numOfItems := m_numOfItems m + 1\<rparr>)
           (dss[i := d # dss ! i])"
proof -
  have tr: "table_rep s t dss" using rep t by (auto simp: hmap_rep_def)
  have ne: "t ! j \<noteq> l'" if "j < length t" "j \<noteq> i" "t ! j \<noteq> NULL" for j
  proof -
    have "\<exists>cs. dlist (nodes s) (t ! j) cs"
      using tr that bucket_rep_dlist unfolding table_rep_def by blast
    then show ?thesis using l that tr i by (auto simp: table_rep_def)
  qed
  have "bucket_rep s' (t ! j) (dss ! j)" if "j < length t" "j \<noteq> i" for j
    by (rule bucket_rep_frame [OF _ fr]) (use tr ne that in \<open>auto simp: table_rep_def\<close>)
  then have "table_rep s' (t[i := l']) (dss[i := d # dss ! i])"
    using tr br i ne unfolding table_rep_def by (auto simp: nth_list_update)
  moreover have old: "x < brk s \<and> ditems s' x = ditems s x" if "x \<in> set (concat dss)" for x
  proof -
    have "ditems s x \<noteq> None" using rep that unfolding hmap_rep_def by blast
    then have "x < brk s" using wf unfolding wf_hash_mem_def by (metis not_le)
    then show ?thesis using fr unfolding hash_frame_def by blast
  qed
  then have "d \<notin> set (concat dss)" using d(3) by (meson not_le)
  moreover have "\<forall>x \<in> set (concat (dss[i := d # dss ! i])). x \<noteq> NULL \<and> ditems s' x \<noteq> None"
    unfolding concat_add(1) [OF i] using rep old d by (simp add: hmap_rep_def)
  ultimately show ?thesis
    using rep i unfolding hmap_rep_def by (simp add: concat_add [OF i] del: set_concat)
qed

lemma HashMap_Insert_dup:
  assumes rep: "hmap_rep s m dss" and wf: "wf_hash_mem s" and key: "key \<noteq> NULL"
    and h: "call_hash m key s = Inr (h, s)" and i: "i = unat (h mod m_allocSize m)"
    and dec: "decides s m key (dss ! i) P" and dup: "find P (dss ! i) \<noteq> None"
  shows "HashMap_Insert (Some m) key value s = Inr ((MAP_KEY_DUPLICATE_ERROR, Some m), s)"
proof -
  note ix = hash_index_ok [OF rep h, folded i]
  obtain t where t: "hm_data m = Some t" "i < length t" and l: "bucket_rep s (t ! i) (dss ! i)"
    using rd_bucket_ok [OF rep ix(2)] by metis
  have "t ! i \<noteq> NULL" using l dup by (metis bucket_rep_null find.simps(1))
  with search_bucket_ok [OF l wf _ dec] dup
  obtain r where "search_bucket m (t ! i) key s = Inr (Some r, s)" by auto
  with t ix key hmap_rep_valid [OF rep] \<open>t ! i \<noteq> NULL\<close> show ?thesis
    by (simp add: HashMap_Insert_def Let_def rd_bucket_step)
qed

lemma HashMap_Insert_new:
  assumes rep: "hmap_rep s m dss" and wf: "wf_hash_mem s" and key: "key \<noteq> NULL"
    and h: "call_hash m key s = Inr (h, s)" and i: "i = unat (h mod m_allocSize m)"
    and dec: "decides s m key (dss ! i) P" and new: "find P (dss ! i) = None"
    and env: "enough_mem s" "quiet s"
  obtains s' m' d where
    "HashMap_Insert (Some m) key value s = Inr ((MAP_SUCCESS, Some m'), s')"
    "hmap_rep s' m' (dss[i := d # dss ! i])" "ditems s' d = Some \<lparr>m_value = value, m_key = key\<rparr>"
    "brk s \<le> d" "hash_frame {the (hm_data m) ! i} {} s s'" "wf_hash_mem s'" "hmap_like m m'"
    "\<exists>l. the (hm_data m') = (the (hm_data m))[i := l] \<and>
         (l = the (hm_data m) ! i \<or> brk s \<le> l \<and> l < brk s')"
proof -
  note ix = hash_index_ok [OF rep h, folded i]
  obtain t where t: "hm_data m = Some t" "i < length t" and l: "bucket_rep s (t ! i) (dss ! i)"
    using rd_bucket_ok [OF rep ix(2)] by metis
  let ?m' = "\<lambda>l. m\<lparr>hm_data := Some (t[i := l]), m_numOfItems := m_numOfItems m + 1\<rparr>"
  have like: "hmap_like m (?m' l)" for l by (simp add: hmap_like_def)
  show ?thesis
  proof (cases "t ! i = NULL")
    case False
    have sb: "search_bucket m (t ! i) key s = Inr (None, s)"
      using search_bucket_ok [OF l wf False dec] new by auto
    obtain s1 s2 s3 s' where run: "malloc_ditem s = Inr (brk s, s1)"
      "wr_ditem (brk s) (\<lambda>x. x\<lparr>m_value := value\<rparr>) s1 = Inr ((), s2)"
      "wr_ditem (brk s) (\<lambda>x. x\<lparr>m_key := key\<rparr>) s2 = Inr ((), s3)"
      "List_PushHead (t ! i) (brk s) s3 = Inr (LIST_SUCCESS, s')"
      and st: "bucket_rep s' (t ! i) (brk s # dss ! i)" "hash_frame {t ! i} {} s s'" "wf_hash_mem s'"
      "ditems s' (brk s) = Some \<lparr>m_value = value, m_key = key\<rparr>" "brk s < brk s'"
      using store_item_ok [OF l wf False env(1)] by metis
    have nz: "brk s \<noteq> NULL" using wf by (simp add: wf_hash_mem_def wf_list_mem_def)
    have "t[i := t ! i] = t" by simp
    with t have mm: "?m' (t ! i) = m\<lparr>m_numOfItems := m_numOfItems m + 1\<rparr>"
      by (metis hmap.surjective hmap.update_convs(1))
    have ins: "HashMap_Insert (Some m) key value s = Inr ((MAP_SUCCESS, Some (?m' (t ! i))), s')"
      unfolding mm using t ix key hmap_rep_valid [OF rep] False sb run nz
      by (simp add: HashMap_Insert_def Let_def rd_bucket_step)
    have "hmap_rep s' (?m' (t ! i)) (dss[i := brk s # dss ! i])"
      by (rule hmap_rep_insert [OF rep wf ix(2) t(1) _ st(2,1) nz]) (use st in auto)
    moreover have "\<exists>l. the (hm_data (?m' (t ! i))) = (the (hm_data m))[i := l] \<and>
        (l = the (hm_data m) ! i \<or> brk s \<le> l \<and> l < brk s')"
      using t by (intro exI [of _ "t ! i"]) simp
    ultimately show ?thesis using that [OF ins _ st(4) _ _ st(3) like] st(2) t by auto
  next
    case True
    then have d0: "dss ! i = []" using l by simp
    have wl: "wf_list_mem s" using wf by (simp add: wf_hash_mem_def)
    let ?l = "brk s"
    obtain s0 where cr: "List_Create s = Inr (?l, s0)" "dlist (nodes s0) ?l []"
      "item_at (nodes s0) (tail_of ?l) = junk s (tail_of ?l) 0" "node_frame {} s s0"
      "wf_list_mem s0" "brk s0 = brk s + 3"
      using List_Create_ok [OF wl] env(1) by (auto simp: enough_mem_def)
    have nol: "\<not> dlist (nodes s) ?l cs" for cs
      using wf_list_mem_dlist [OF wl, of ?l cs ?l] by auto
    have nz: "?l \<noteq> NULL" "brk s0 \<noteq> NULL" using cr(2,6) by (auto simp: dlist_def)
    obtain b n where s0: "s0 = s\<lparr>brk := b, nodes := n\<rparr>" using cr(4) unfolding node_frame_def by blast
    have same: "dlist (nodes s0) l' cs \<and> items (nodes s0) cs = items (nodes s) cs \<and>
        item_at (nodes s0) (tail_of l') = item_at (nodes s) (tail_of l')"
      if dl: "dlist (nodes s) l' cs" for l' cs
    proof -
      have eq: "nodes s0 x = nodes s x" if "x \<in> set (l' # cs @ [tail_of l'])" for x
        using cr(4) wf_list_mem_dlist [OF wl dl that] by (simp add: node_frame_def)
      moreover have "dlist (nodes s0) l' cs" by (rule dlist_cong [OF dl]) (rule eq)
      moreover have "items (nodes s0) cs = items (nodes s) cs" by (rule items_cong, rule eq) simp
      ultimately show ?thesis by (simp add: item_at_def)
    qed
    have f0: "hash_frame {t ! i} {} s s0"
      using same s0 cr(6) by (simp add: hash_frame_def)
    have br0: "bucket_rep s0 ?l []"
      using cr(2,3) env(2) by (auto simp: bucket_rep_def quiet_def)
    have wf0: "wf_hash_mem s0" using wf cr(5,6) s0 by (simp add: wf_hash_mem_def)
    have env0: "enough_mem s0" using hash_frame_env(1) [OF f0] env(1) by simp
    obtain s1 s2 s3 s' where run: "malloc_ditem s0 = Inr (brk s0, s1)"
      "wr_ditem (brk s0) (\<lambda>x. x\<lparr>m_value := value\<rparr>) s1 = Inr ((), s2)"
      "wr_ditem (brk s0) (\<lambda>x. x\<lparr>m_key := key\<rparr>) s2 = Inr ((), s3)"
      "List_PushHead ?l (brk s0) s3 = Inr (LIST_SUCCESS, s')"
      and st: "bucket_rep s' ?l (brk s0 # [])" "hash_frame {?l} {} s0 s'" "wf_hash_mem s'"
      "ditems s' (brk s0) = Some \<lparr>m_value = value, m_key = key\<rparr>" "brk s0 < brk s'"
      using store_item_ok [OF br0 wf0 nz(1) env0] by metis
    have wb: "wr_bucket i ?l m = m\<lparr>hm_data := Some (t[i := ?l])\<rparr>" using t by (simp add: wr_bucket_def)
    have ins: "HashMap_Insert (Some m) key value s = Inr ((MAP_SUCCESS, Some (?m' ?l)), s')"
      using t ix key hmap_rep_valid [OF rep] True cr(1) run nz
      by (simp add: HashMap_Insert_def Let_def rd_bucket_step wb)
    have f1: "hash_frame {} {} s s0" using same s0 cr(6) by (simp add: hash_frame_def)
    have fs: "hash_frame {?l} {} s s'"
      by (rule hash_frame_trans [OF _ st(2)]) (use f1 in \<open>auto simp: hash_frame_def\<close>)
    have "hash_frame (insert ?l {t ! i}) {} s0 s'" using st(2) by (auto simp: hash_frame_def)
    from hash_frame_new [OF f0 this nol] have ft: "hash_frame {t ! i} {} s s'" .
    have "hmap_rep s' (?m' ?l) (dss[i := brk s0 # dss ! i])"
      by (rule hmap_rep_insert [OF rep wf ix(2) t(1) _ fs _ nz(2)])
        (use st nol True cr(6) d0 in auto)
    moreover have "\<exists>l. the (hm_data (?m' ?l)) = (the (hm_data m))[i := l] \<and>
        (l = the (hm_data m) ! i \<or> brk s \<le> l \<and> l < brk s')" using t cr(6) st(5) by auto
    ultimately show ?thesis using that [OF ins _ st(4) _ _ st(3) like] ft t cr(6) by auto
  qed
qed

section \<open>Remove\<close>

lemma HashMap_Remove_none:
  assumes rep: "hmap_rep s m dss" and wf: "wf_hash_mem s" and key: "key \<noteq> NULL"
    and h: "call_hash m key s = Inr (h, s)" and i: "i = unat (h mod m_allocSize m)"
    and dec: "decides s m key (dss ! i) P" and none: "find P (dss ! i) = None"
  shows "HashMap_Remove (Some m) key s = Inr ((MAP_KEY_NOT_FOUND_ERROR, None, Some m), s)"
proof -
  note ix = hash_index_ok [OF rep h, folded i]
  obtain t where t: "hm_data m = Some t" "i < length t" and l: "bucket_rep s (t ! i) (dss ! i)"
    using rd_bucket_ok [OF rep ix(2)] by metis
  show ?thesis
  proof (cases "t ! i = NULL")
    case True
    with t ix key hmap_rep_valid [OF rep] show ?thesis
      by (simp add: HashMap_Remove_def Let_def rd_bucket_step)
  next
    case False
    have "search_bucket m (t ! i) key s = Inr (None, s)"
      using search_bucket_ok [OF l wf False dec] none by auto
    with False t ix key hmap_rep_valid [OF rep] show ?thesis
      by (simp add: HashMap_Remove_def Let_def rd_bucket_step)
  qed
qed

lemma HashMap_Remove_some:
  assumes rep: "hmap_rep s m dss" and wf: "wf_hash_mem s" and key: "key \<noteq> NULL"
    and h: "call_hash m key s = Inr (h, s)" and i: "i = unat (h mod m_allocSize m)"
    and dec: "decides s m key (dss ! i) P" and some: "find P (dss ! i) = Some d"
  obtains s' m' us vs where
    "HashMap_Remove (Some m) key s = Inr ((MAP_SUCCESS,
       Some (m_key (the (ditems s d)), m_value (the (ditems s d))), Some m'), s')"
    "dss ! i = us @ d # vs" "hmap_rep s' m' (dss[i := us @ vs])" "ditems s' d = None"
    "hash_frame {the (hm_data m) ! i} {d} s s'" "wf_hash_mem s'" "hmap_like m m'"
    "hm_data m' = hm_data m"
proof -
  note ix = hash_index_ok [OF rep h, folded i]
  obtain t where t: "hm_data m = Some t" "i < length t" and l: "bucket_rep s (t ! i) (dss ! i)"
    using rd_bucket_ok [OF rep ix(2)] by metis
  have l0: "t ! i \<noteq> NULL" using l some by (metis bucket_rep_null find.simps(1) option.distinct(1))
  from search_bucket_ok [OF l wf l0 dec] some
  obtain uc c vc where c: "dlist (nodes s) (t ! i) (uc @ c # vc)"
    "items (nodes s) (uc @ c # vc) = dss ! i" "d = item_at (nodes s) c"
    "search_bucket m (t ! i) key s = Inr (Some (c, d), s)" by auto
  have wl: "wf_list_mem s" using wf by (simp add: wf_hash_mem_def)
  obtain s1 where rm: "ListItr_Remove c s = Inr (d, s1)" "removed s s1 (t ! i) uc c vc"
    using ListItr_Remove_ok [OF c(1) wl] c(3) by auto
  have din: "d \<in> set (dss ! i)" using some by (auto simp: find_Some_iff)
  then obtain x where x: "d \<noteq> NULL" "ditems s d = Some x" using dec by (auto simp: decides_def)
  obtain b n where s1: "s1 = s\<lparr>brk := b, nodes := n\<rparr>"
    using rm(2) unfolding removed_def node_frame_def by blast
  let ?s' = "s1\<lparr>ditems := (ditems s1)(d := None)\<rparr>"
  let ?m' = "m\<lparr>m_numOfItems := m_numOfItems m - 1\<rparr>"
  have run: "HashMap_Remove (Some m) key s = Inr ((MAP_SUCCESS,
      Some (m_key (the (ditems s d)), m_value (the (ditems s d))), Some ?m'), ?s')"
    using t ix key hmap_rep_valid [OF rep] l0 c(4) rm(1) x s1
    by (simp add: HashMap_Remove_def Let_def rd_bucket_step rd_ditem_step free_ditem_def)
  have f1: "hash_frame {t ! i} {d} s s1"
    by (rule node_frame_hash [OF _ wl c(1)]) (use rm(2) in \<open>simp_all add: removed_def\<close>)
  have "hash_frame {t ! i} {d} s1 ?s'" by (simp add: hash_frame_def)
  with f1 have fr: "hash_frame {t ! i} {d} s ?s'" by (rule hash_frame_trans)
  have split: "dss ! i = items (nodes s) uc @ d # items (nodes s) vc" using c(2,3) by simp
  let ?new = "items (nodes s) uc @ items (nodes s) vc"
  have tr: "table_rep s t dss" using rep t by (auto simp: hmap_rep_def)
  have br: "bucket_rep ?s' (t ! i) ?new"
    using rm(2) l l0 by (auto simp: bucket_rep_def removed_def)
  have "bucket_rep ?s' (t ! j) (dss ! j)" if "j < length t" "j \<noteq> i" for j
    by (rule bucket_rep_frame [OF _ fr]) (use tr t(2) l0 that in \<open>auto simp: table_rep_def\<close>)
  then have "table_rep ?s' t (dss[i := ?new])"
    using tr br t(2) unfolding table_rep_def by (auto simp: nth_list_update)
  moreover note cd = concat_del [OF ix(2) split]
  moreover have "y \<noteq> NULL \<and> ditems ?s' y \<noteq> None" if "y \<in> set (concat (dss[i := ?new]))" for y
  proof -
    have "y \<in> set (concat dss)" using cd(1) that by blast
    then have "y \<noteq> NULL \<and> ditems s y \<noteq> None" using rep unfolding hmap_rep_def by blast
    moreover have "y \<noteq> d" using cd(3) that rep by (auto simp: hmap_rep_def)
    ultimately show ?thesis using s1 by simp
  qed
  moreover have "m_numOfItems m - 1 = of_nat (length (concat (dss[i := ?new])))"
  proof -
    have "m_numOfItems m = of_nat (Suc (length (concat (dss[i := ?new]))))"
      using rep cd(2) unfolding hmap_rep_def by metis
    then show ?thesis by simp
  qed
  ultimately have "hmap_rep ?s' ?m' (dss[i := ?new])"
    using rep t(1) unfolding hmap_rep_def by (auto simp del: set_concat length_concat)
  moreover have "wf_hash_mem ?s'" using wf rm(2) s1 by (auto simp: wf_hash_mem_def removed_def)
  ultimately show ?thesis
    using that [OF run split] fr t by (simp add: hmap_like_def)
qed

section \<open>Creation, errors\<close>

lemma HashMap_Create_ok:
  assumes "capacity \<noteq> 0" and "FindPrimeLargerThan capacity = Some n" and "n \<noteq> 0"
    and "wf_hash_mem s" and "enough_mem s"
  shows "\<exists>s' m. HashMap_Create capacity (Some hf) (Some ef) s = Inr (Some m, s') \<and>
    hmap_rep s' m (replicate (unat n) []) \<and> m_hashFunc m = Some hf \<and> m_keysEqualFunc m = Some ef \<and>
    m_allocSize m = n \<and> set (the (hm_data m)) \<subseteq> {NULL} \<and> hash_frame {} {} s s' \<and> wf_hash_mem s'"
proof -
  have "0 < brk s" using assms(4) by (simp add: wf_hash_mem_def wf_list_mem_def)
  moreover have "unat n \<noteq> 0" using assms(3) by (simp add: unat_eq_zero)
  ultimately show ?thesis using assms
    by (simp add: HashMap_Create_def malloc_def enough_mem_def hmap_rep_def table_rep_def
      hash_frame_def wf_hash_mem_def wf_list_mem_def concat_replicate_trivial set_replicate_conv_if)
qed

lemma HashMap_errors [c_step]:
  "HashMap_Create 0 hf ef s = Inr (None, s)"
  "HashMap_Create c None ef s = Inr (None, s)"
  "HashMap_Create c hf None s = Inr (None, s)"
  "\<not> HashMapIsValid mp \<Longrightarrow> HashMap_Insert mp key v s = Inr ((MAP_UNINITIALIZED_ERROR, mp), s)"
  "\<not> HashMapIsValid mp \<Longrightarrow> HashMap_Find mp key s = Inr ((MAP_UNINITIALIZED_ERROR, None), s)"
  "\<not> HashMapIsValid mp \<Longrightarrow> HashMap_Remove mp key s = Inr ((MAP_UNINITIALIZED_ERROR, None, mp), s)"
  "HashMapIsValid mp \<Longrightarrow> HashMap_Insert mp NULL v s = Inr ((MAP_KEY_NULL_ERROR, mp), s)"
  "HashMapIsValid mp \<Longrightarrow> HashMap_Find mp NULL s = Inr ((MAP_KEY_NULL_ERROR, None), s)"
  "HashMapIsValid mp \<Longrightarrow> HashMap_Remove mp NULL s = Inr ((MAP_KEY_NULL_ERROR, None, mp), s)"
  by (simp_all add: HashMap_Create_def HashMap_Insert_def HashMap_Find_def HashMap_Remove_def)

section \<open>The map from keys to values\<close>

text \<open>
  \<open>map_abs hf ef key_at H s m M\<close>: the map \<open>m\<close> in the memory \<open>s\<close> stands for the partial function \<open>M\<close>. Every
  key lies in the bucket of its hash value, no two items have the same key, and \<open>M\<close> gives
  the value of the item with that key.
\<close>

definition map_keys :: "(bmem \<Rightarrow> addr \<Rightarrow> 'k \<Rightarrow> bool) \<Rightarrow> 'a hash_mem_scheme \<Rightarrow> addr list \<Rightarrow> (addr \<Rightarrow> 'k) \<Rightarrow> bool" where
  "map_keys key_at s ds K \<longleftrightarrow>
     (\<forall>d \<in> set ds. \<exists>x. ditems s d = Some x \<and> key_at (bmem.truncate s) (m_key x) (K d))"

definition map_abs ::
  "HashFunction \<Rightarrow> EqualityFunction \<Rightarrow> (bmem \<Rightarrow> addr \<Rightarrow> 'k \<Rightarrow> bool) \<Rightarrow> ('k \<Rightarrow> u64) \<Rightarrow>
   'a hash_mem_scheme \<Rightarrow> hmap \<Rightarrow> ('k \<rightharpoonup> addr) \<Rightarrow> bool" where
  "map_abs hf ef key_at H s m M \<longleftrightarrow> (\<exists>dss K. hmap_rep s m dss \<and> wf_hash_mem s \<and>
     m_hashFunc m = Some hf \<and> m_keysEqualFunc m = Some ef \<and>
     map_keys key_at s (concat dss) K \<and> inj_on K (set (concat dss)) \<and>
     (\<forall>i < length dss. \<forall>d \<in> set (dss ! i). unat (H (K d) mod m_allocSize m) = i) \<and>
     (\<forall>k v. M k = Some v \<longleftrightarrow>
        (\<exists>d \<in> set (concat dss). K d = k \<and> m_value (the (ditems s d)) = v)))"

text \<open>
  What the hash map relies on: \<open>key_at bm a k\<close> says that the pointer \<open>a\<close> denotes the abstract
  key \<open>k\<close> in the byte memory \<open>bm\<close>; the hash function returns \<open>H k\<close>, and the equality function
  returns 1 exactly for pointers that denote the same key.
\<close>

locale key_functions =
  fixes hf :: HashFunction and ef :: EqualityFunction
    and key_at :: "bmem \<Rightarrow> addr \<Rightarrow> 'k \<Rightarrow> bool" and H :: "'k \<Rightarrow> u64"
  assumes hash_key: "key_at bm a k \<Longrightarrow> hf bm a = Inr (H k)"
    and equal_key: "key_at bm a k \<Longrightarrow> key_at bm b k' \<Longrightarrow>
      \<exists>r. ef bm a b = Inr r \<and> (r = 1 \<longleftrightarrow> k = k')"
    and key_unique: "key_at bm a k \<Longrightarrow> key_at bm a k' \<Longrightarrow> k = k'"
    and key_null: "key_at bm a k \<Longrightarrow> a \<noteq> NULL"
    and key_mono: "key_at bm a k \<Longrightarrow> brk bm \<le> brk bm' \<Longrightarrow> bytes bm' = bytes bm \<Longrightarrow> key_at bm' a k"
begin

lemma call_key_functions:
  assumes "m_hashFunc m = Some hf" and "m_keysEqualFunc m = Some ef"
  shows "key_at (bmem.truncate s) a k \<Longrightarrow> call_hash m a s = Inr (H k, s)"
    "key_at (bmem.truncate s) a k \<Longrightarrow> key_at (bmem.truncate s) b k' \<Longrightarrow>
     \<exists>r. call_equal m a b s = Inr (r, s) \<and> (r = 1 \<longleftrightarrow> k = k')"
  using assms hash_key equal_key by (auto simp: call_hash_def call_equal_def) (metis reads_Inr)+

text \<open>The facts about one lookup that all operations share.\<close>

lemma lookup_facts:
  assumes rep: "hmap_rep s m dss" and funs: "m_hashFunc m = Some hf" "m_keysEqualFunc m = Some ef"
    and keys: "map_keys key_at s (concat dss) K"
    and place: "\<forall>i < length dss. \<forall>d \<in> set (dss ! i). unat (H (K d) mod m_allocSize m) = i"
    and M: "\<forall>k v. M k = Some v \<longleftrightarrow>
        (\<exists>d \<in> set (concat dss). K d = k \<and> m_value (the (ditems s d)) = v)"
    and key: "key_at (bmem.truncate s) key k" and i: "i = unat (H k mod m_allocSize m)"
  shows "decides s m key (dss ! i) (\<lambda>d. K d = k)" "i < length dss"
    "find (\<lambda>d. K d = k) (dss ! i) = None \<longleftrightarrow> M k = None"
    "find (\<lambda>d. K d = k) (dss ! i) = Some d \<Longrightarrow> M k = Some (m_value (the (ditems s d)))"
proof -
  show il: "i < length dss"
    using hash_index_ok(2) [OF rep call_key_functions(1) [OF funs key]] i by simp
  have sub: "set (dss ! i) \<subseteq> set (concat dss)" by (rule nth_in_concat [OF il])
  show "decides s m key (dss ! i) (\<lambda>d. K d = k)" unfolding decides_def
  proof
    fix d assume "d \<in> set (dss ! i)"
    then have d: "d \<in> set (concat dss)" using sub by blast
    then obtain x where x: "ditems s d = Some x" "key_at (bmem.truncate s) (m_key x) (K d)"
      using keys by (auto simp: map_keys_def)
    from call_key_functions(2) [OF funs x(2) key] x(1) d rep
    show "d \<noteq> NULL \<and> (\<exists>x b. ditems s d = Some x \<and> call_equal m (m_key x) key s = Inr (b, s) \<and>
        (b = 1) = (K d = k))"
      unfolding hmap_rep_def by blast
  qed
  have bucket: "d \<in> set (dss ! i)" if dc: "d \<in> set (concat dss)" and dk: "K d = k" for d
  proof -
    obtain xs where "xs \<in> set dss" "d \<in> set xs" using dc unfolding set_concat by blast
    then obtain j where "j < length dss" "d \<in> set (dss ! j)" by (metis in_set_conv_nth)
    with place dk i show ?thesis by auto
  qed
  have none: "find (\<lambda>d. K d = k) (dss ! i) = None \<longleftrightarrow> \<not> (\<exists>d \<in> set (concat dss). K d = k)"
    using bucket sub by (auto simp: find_None_iff simp del: set_concat)
  with M show "find (\<lambda>d. K d = k) (dss ! i) = None \<longleftrightarrow> M k = None"
    by (metis not_None_eq)
  show "M k = Some (m_value (the (ditems s d)))" if fd: "find (\<lambda>d. K d = k) (dss ! i) = Some d"
  proof -
    have "d \<in> set (dss ! i)" "K d = k" using fd by (auto simp: find_Some_iff)
    with M sub show ?thesis by blast
  qed
qed

theorem find_refines:
  assumes abs: "map_abs hf ef key_at H s m M" and key: "key_at (bmem.truncate s) key k"
  shows "HashMap_Find (Some m) key s = Inr (case M k of
      None \<Rightarrow> (MAP_KEY_NOT_FOUND_ERROR, None) | Some v \<Rightarrow> (MAP_SUCCESS, Some v), s)"
proof -
  obtain dss K where a: "hmap_rep s m dss" "wf_hash_mem s"
    "m_hashFunc m = Some hf" "m_keysEqualFunc m = Some ef" "map_keys key_at s (concat dss) K"
    "\<forall>i < length dss. \<forall>d \<in> set (dss ! i). unat (H (K d) mod m_allocSize m) = i"
    "\<forall>k v. M k = Some v \<longleftrightarrow> (\<exists>d \<in> set (concat dss). K d = k \<and> m_value (the (ditems s d)) = v)"
    using abs unfolding map_abs_def by blast
  note f = lookup_facts [OF a(1,3-7) key refl]
  from HashMap_Find_rep [OF a(1,2) key_null [OF key] call_key_functions(1) [OF a(3,4) key] refl f(1)]
  show ?thesis using f(3,4) by (auto split: option.splits)
qed

theorem insert_duplicate:
  assumes abs: "map_abs hf ef key_at H s m M" and key: "key_at (bmem.truncate s) key k" and "M k \<noteq> None"
  shows "HashMap_Insert (Some m) key value s = Inr ((MAP_KEY_DUPLICATE_ERROR, Some m), s)"
proof -
  obtain dss K where a: "hmap_rep s m dss" "wf_hash_mem s"
    "m_hashFunc m = Some hf" "m_keysEqualFunc m = Some ef" "map_keys key_at s (concat dss) K"
    "\<forall>i < length dss. \<forall>d \<in> set (dss ! i). unat (H (K d) mod m_allocSize m) = i"
    "\<forall>k v. M k = Some v \<longleftrightarrow> (\<exists>d \<in> set (concat dss). K d = k \<and> m_value (the (ditems s d)) = v)"
    using abs unfolding map_abs_def by blast
  note f = lookup_facts [OF a(1,3-7) key refl]
  from HashMap_Insert_dup [OF a(1,2) key_null [OF key] call_key_functions(1) [OF a(3,4) key] refl f(1)]
  show ?thesis using f(3) assms(3) by simp
qed

theorem insert_refines:
  assumes abs: "map_abs hf ef key_at H s m M" and key: "key_at (bmem.truncate s) key k" and new: "M k = None"
    and env: "enough_mem s" "quiet s"
  shows "\<exists>s' m'. HashMap_Insert (Some m) key value s = Inr ((MAP_SUCCESS, Some m'), s') \<and>
    map_abs hf ef key_at H s' m' (M(k \<mapsto> value)) \<and> HashMap_Size (Some m') = HashMap_Size (Some m) + 1 \<and>
    bytes s' = bytes s \<and> enough_mem s' \<and> quiet s' \<and> brk s \<le> brk s' \<and> hash_only s s'"
proof -
  obtain dss K where a: "hmap_rep s m dss" "wf_hash_mem s"
    "m_hashFunc m = Some hf" "m_keysEqualFunc m = Some ef" "map_keys key_at s (concat dss) K"
    "\<forall>i < length dss. \<forall>d \<in> set (dss ! i). unat (H (K d) mod m_allocSize m) = i"
    "\<forall>k v. M k = Some v \<longleftrightarrow> (\<exists>d \<in> set (concat dss). K d = k \<and> m_value (the (ditems s d)) = v)"
    and inj: "inj_on K (set (concat dss))"
    using abs unfolding map_abs_def by blast
  define i where "i = unat (H k mod m_allocSize m)"
  note f = lookup_facts [OF a(1,3-7) key i_def]
  have none: "find (\<lambda>d. K d = k) (dss ! i) = None" using f(3) new by simp
  obtain s' m' d where r: "HashMap_Insert (Some m) key value s = Inr ((MAP_SUCCESS, Some m'), s')"
    "hmap_rep s' m' (dss[i := d # dss ! i])" "ditems s' d = Some \<lparr>m_value = value, m_key = key\<rparr>"
    "brk s \<le> d" "hash_frame {the (hm_data m) ! i} {} s s'" "wf_hash_mem s'" "hmap_like m m'"
    using HashMap_Insert_new [OF a(1,2) key_null [OF key] call_key_functions(1) [OF a(3,4) key]
      i_def f(1) none env] by metis
  let ?D = "dss[i := d # dss ! i]" and ?K = "K(d := k)"
  note ca = concat_add [OF f(2), of d]
  have fr: "bytes s' = bytes s" "brk s \<le> brk s'"
    using hash_frame_rest(1) [OF r(5)] r(5) by (auto simp: hash_frame_def)
  have mono: "key_at (bmem.truncate s') p q" if "key_at (bmem.truncate s) p q" for p q
    by (rule key_mono [OF that]) (use fr in \<open>simp_all add: bmem.defs\<close>)
  have dn: "d \<notin> set (concat dss)" using r(2) ca(3) by (simp add: hmap_rep_def del: set_concat)
  have old: "ditems s' x = ditems s x" if "x \<in> set (concat dss)" for x
  proof -
    have "ditems s x \<noteq> None" using a(1) that unfolding hmap_rep_def by blast
    then have "x < brk s" using a(2) unfolding wf_hash_mem_def by (metis not_le)
    then show ?thesis using r(5) unfolding hash_frame_def by blast
  qed
  have kk: "?K x = K x" if "x \<in> set (concat dss)" for x using that dn by (metis fun_upd_apply)
  have nk: "K x \<noteq> k" if "x \<in> set (concat dss)" for x
    using a(7) new that by (metis option.distinct(1))
  have "map_keys key_at s' (concat ?D) ?K"
    unfolding map_keys_def ca(1) using a(5) r(3) mono [OF key] mono old kk
    by (auto simp: map_keys_def simp del: set_concat)
  moreover have "inj_on ?K (set (concat ?D))"
  proof -
    have "k \<notin> K ` set (concat dss)" using new a(7) by (auto simp del: set_concat) (metis option.distinct(1))
    moreover have "inj_on ?K (set (concat dss))" using inj kk by (metis inj_on_cong)
    ultimately show ?thesis unfolding ca(1) using dn kk by (auto simp: inj_on_def simp del: set_concat)
  qed
  moreover have al: "m_allocSize m' = m_allocSize m" using r(7) by (simp add: hmap_like_def)
  have "\<forall>j < length ?D. \<forall>x \<in> set (?D ! j). unat (H (?K x) mod m_allocSize m') = j"
  proof (intro allI impI ballI)
    fix j x assume j: "j < length ?D" and x: "x \<in> set (?D ! j)"
    show "unat (H (?K x) mod m_allocSize m') = j"
    proof (cases "x = d")
      case True
      have "j = i"
      proof (rule ccontr)
        assume "j \<noteq> i"
        with x j True have "d \<in> set (dss ! j)" "j < length dss" by simp_all
        with dn nth_in_concat show False by blast
      qed
      with True al i_def show ?thesis by simp
    next
      case False
      with x have "x \<in> set (dss ! j)" using f(2) by (cases "j = i") auto
      with a(6) j False al show ?thesis by simp
    qed
  qed
  moreover have "\<forall>q v. (M(k \<mapsto> value)) q = Some v \<longleftrightarrow>
      (\<exists>x \<in> set (concat ?D). ?K x = q \<and> m_value (the (ditems s' x)) = v)"
  proof (intro allI)
    fix q v
    have "(\<exists>x \<in> set (concat ?D). ?K x = q \<and> m_value (the (ditems s' x)) = v) \<longleftrightarrow>
        (k = q \<and> value = v) \<or> (\<exists>x \<in> set (concat dss). K x = q \<and> m_value (the (ditems s x)) = v)"
      unfolding ca(1) using r(3) kk old by (simp del: set_concat fun_upd_apply) simp
    also have "\<dots> \<longleftrightarrow> (M(k \<mapsto> value)) q = Some v" using a(7) nk by (auto simp del: set_concat)
    finally show "(M(k \<mapsto> value)) q = Some v \<longleftrightarrow>
      (\<exists>x \<in> set (concat ?D). ?K x = q \<and> m_value (the (ditems s' x)) = v)" by simp
  qed
  moreover have "m_hashFunc m' = Some hf" "m_keysEqualFunc m' = Some ef"
    using r(7) a(3,4) by (simp_all add: hmap_like_def)
  ultimately have "map_abs hf ef key_at H s' m' (M(k \<mapsto> value))" unfolding map_abs_def using r(2,6) by blast
  moreover have "m_numOfItems m' = m_numOfItems m + 1"
    using r(2) a(1) ca(2) by (simp add: hmap_rep_def del: length_concat)
  ultimately show ?thesis
    using r(1) fr hash_frame_env [OF r(5)] hash_frame_only [OF r(5)] env hmap_rep_valid [OF r(2)] hmap_rep_valid [OF a(1)]
    by (auto simp: HashMap_Size_def)
qed

theorem remove_absent:
  assumes abs: "map_abs hf ef key_at H s m M" and key: "key_at (bmem.truncate s) key k" and "M k = None"
  shows "HashMap_Remove (Some m) key s = Inr ((MAP_KEY_NOT_FOUND_ERROR, None, Some m), s)"
proof -
  obtain dss K where a: "hmap_rep s m dss" "wf_hash_mem s"
    "m_hashFunc m = Some hf" "m_keysEqualFunc m = Some ef" "map_keys key_at s (concat dss) K"
    "\<forall>i < length dss. \<forall>d \<in> set (dss ! i). unat (H (K d) mod m_allocSize m) = i"
    "\<forall>k v. M k = Some v \<longleftrightarrow> (\<exists>d \<in> set (concat dss). K d = k \<and> m_value (the (ditems s d)) = v)"
    using abs unfolding map_abs_def by blast
  note f = lookup_facts [OF a(1,3-7) key refl]
  from HashMap_Remove_none [OF a(1,2) key_null [OF key] call_key_functions(1) [OF a(3,4) key] refl f(1)]
  show ?thesis using f(3) assms(3) by simp
qed

theorem remove_refines:
  assumes abs: "map_abs hf ef key_at H s m M" and key: "key_at (bmem.truncate s) key k" and some: "M k = Some v"
  shows "\<exists>s' m' pk. HashMap_Remove (Some m) key s = Inr ((MAP_SUCCESS, Some (pk, v), Some m'), s') \<and>
    key_at (bmem.truncate s) pk k \<and> map_abs hf ef key_at H s' m' (M(k := None)) \<and>
    HashMap_Size (Some m') = HashMap_Size (Some m) - 1 \<and> bytes s' = bytes s \<and>
    enough_mem s' = enough_mem s \<and> quiet s' = quiet s \<and> brk s \<le> brk s' \<and> hash_only s s'"
proof -
  obtain dss K where a: "hmap_rep s m dss" "wf_hash_mem s"
    "m_hashFunc m = Some hf" "m_keysEqualFunc m = Some ef" "map_keys key_at s (concat dss) K"
    "\<forall>i < length dss. \<forall>d \<in> set (dss ! i). unat (H (K d) mod m_allocSize m) = i"
    "\<forall>k v. M k = Some v \<longleftrightarrow> (\<exists>d \<in> set (concat dss). K d = k \<and> m_value (the (ditems s d)) = v)"
    and inj: "inj_on K (set (concat dss))"
    using abs unfolding map_abs_def by blast
  define i where "i = unat (H k mod m_allocSize m)"
  note f = lookup_facts [OF a(1,3-7) key i_def]
  obtain d where d: "find (\<lambda>d. K d = k) (dss ! i) = Some d" using f(3) some by fastforce
  then have dk: "K d = k" "d \<in> set (concat dss)"
    using nth_in_concat [OF f(2)] by (auto simp: find_Some_iff simp del: set_concat)
  obtain s' m' us vs where r: "HashMap_Remove (Some m) key s = Inr ((MAP_SUCCESS,
       Some (m_key (the (ditems s d)), m_value (the (ditems s d))), Some m'), s')"
    "dss ! i = us @ d # vs" "hmap_rep s' m' (dss[i := us @ vs])"
    "hash_frame {the (hm_data m) ! i} {d} s s'" "wf_hash_mem s'" "hmap_like m m'"
    using HashMap_Remove_some [OF a(1,2) key_null [OF key] call_key_functions(1) [OF a(3,4) key]
      i_def f(1) d] by metis
  let ?D = "dss[i := us @ vs]"
  note cd = concat_del [OF f(2) r(2)]
  have dD: "d \<notin> set (concat ?D)" using a(1) cd(3) by (simp add: hmap_rep_def del: set_concat)
  have sub: "set (concat dss) = insert d (set (concat ?D))" using cd(1) by simp
  have fr: "bytes s' = bytes s" "brk s \<le> brk s'"
    using hash_frame_rest(1) [OF r(4)] r(4) by (auto simp: hash_frame_def)
  have mono: "key_at (bmem.truncate s') p q" if "key_at (bmem.truncate s) p q" for p q
    by (rule key_mono [OF that]) (use fr in \<open>simp_all add: bmem.defs\<close>)
  have old: "ditems s' x = ditems s x" if "x \<in> set (concat ?D)" for x
  proof -
    have "x \<in> set (concat dss)" using that sub by blast
    then have "ditems s x \<noteq> None" using a(1) unfolding hmap_rep_def by blast
    then have "x < brk s" using a(2) unfolding wf_hash_mem_def by (metis not_le)
    moreover have "x \<noteq> d" using that dD by blast
    ultimately show ?thesis using r(4) unfolding hash_frame_def by blast
  qed
  have "map_keys key_at s' (concat ?D) K"
    using a(5) old mono sub unfolding map_keys_def by (metis insertCI)
  moreover have "inj_on K (set (concat ?D))" using inj sub by (metis inj_on_insert)
  moreover have al: "m_allocSize m' = m_allocSize m" using r(6) by (simp add: hmap_like_def)
  have "\<forall>j < length ?D. \<forall>x \<in> set (?D ! j). unat (H (K x) mod m_allocSize m') = j"
  proof (intro allI impI ballI)
    fix j x assume j: "j < length ?D" and x: "x \<in> set (?D ! j)"
    then have "x \<in> set (dss ! j)" using f(2) r(2) by (cases "j = i") auto
    with a(6) j al show "unat (H (K x) mod m_allocSize m') = j" by simp
  qed
  moreover have "\<forall>q w. (M(k := None)) q = Some w \<longleftrightarrow>
      (\<exists>x \<in> set (concat ?D). K x = q \<and> m_value (the (ditems s' x)) = w)"
  proof (intro allI)
    fix q w
    have nk: "K x \<noteq> k" if "x \<in> set (concat ?D)" for x
      using inj dk that dD sub by (metis inj_on_eq_iff insertCI)
    have "(\<exists>x \<in> set (concat ?D). K x = q \<and> m_value (the (ditems s' x)) = w) \<longleftrightarrow>
        q \<noteq> k \<and> (\<exists>x \<in> set (concat dss). K x = q \<and> m_value (the (ditems s x)) = w)"
      using old nk dk(1) unfolding sub by (auto simp del: set_concat)
    also have "\<dots> \<longleftrightarrow> (M(k := None)) q = Some w" using a(7) by (auto simp del: set_concat)
    finally show "(M(k := None)) q = Some w \<longleftrightarrow>
      (\<exists>x \<in> set (concat ?D). K x = q \<and> m_value (the (ditems s' x)) = w)" by simp
  qed
  moreover have "m_hashFunc m' = Some hf" "m_keysEqualFunc m' = Some ef"
    using r(6) a(3,4) by (simp_all add: hmap_like_def)
  ultimately have "map_abs hf ef key_at H s' m' (M(k := None))" unfolding map_abs_def using r(3,5) by blast
  moreover have "m_numOfItems m' = m_numOfItems m - 1"
  proof -
    have "m_numOfItems m = of_nat (Suc (length (concat ?D)))"
      using a(1) cd(2) unfolding hmap_rep_def by metis
    with r(3) show ?thesis by (simp add: hmap_rep_def del: length_concat)
  qed
  moreover have "m_value (the (ditems s d)) = v" using f(4) [OF d] some by simp
  moreover have "key_at (bmem.truncate s) (m_key (the (ditems s d))) k"
    using a(5) dk by (auto simp: map_keys_def simp del: set_concat)
  ultimately show ?thesis
    using r(1) fr hash_frame_env [OF r(4)] hash_frame_only [OF r(4)] hmap_rep_valid [OF r(3)] hmap_rep_valid [OF a(1)]
    by (auto simp: HashMap_Size_def)
qed

theorem create_refines:
  assumes "capacity \<noteq> 0" and "FindPrimeLargerThan capacity = Some n" and "n \<noteq> 0"
    and "wf_hash_mem s" and "enough_mem s"
  shows "\<exists>s' m. HashMap_Create capacity (Some hf) (Some ef) s = Inr (Some m, s') \<and>
    map_abs hf ef key_at H s' m Map.empty \<and> HashMap_Size (Some m) = 0 \<and> bytes s' = bytes s \<and>
    enough_mem s' \<and> quiet s' = quiet s \<and> brk s \<le> brk s' \<and> hash_only s s'"
proof -
  from HashMap_Create_ok [OF assms] obtain s' m where
    c: "HashMap_Create capacity (Some hf) (Some ef) s = Inr (Some m, s')"
    "hmap_rep s' m (replicate (unat n) [])" "m_hashFunc m = Some hf" "m_keysEqualFunc m = Some ef"
    "hash_frame {} {} s s'" "wf_hash_mem s'" by metis
  have "map_abs hf ef key_at H s' m Map.empty" unfolding map_abs_def
    by (rule exI [of _ "replicate (unat n) []"]) (use c in \<open>auto simp: map_keys_def\<close>)
  moreover have "m_numOfItems m = 0"
    using c(2) by (auto simp: hmap_rep_def sum_list_replicate)
  ultimately show ?thesis
    using c hash_frame_rest [OF c(5)] hash_frame_env [OF c(5)] hash_frame_only [OF c(5)] assms(5) hmap_rep_valid [OF c(2)]
    by (auto simp: HashMap_Size_def hash_frame_def)
qed

end

end
