(* ===== verification/HashDestroy.thy ===== *)
theory HashDestroy
  imports GenericHash
begin

text \<open>
  What \<open>HashMap_Destroy\<close> does. Its loop runs while \<open>List_PopHead\<close> fails, so on a bucket with
  items it pops one item and stops, and on a bucket that was allocated and has become empty
  it goes on for ever with the item of an earlier bucket, or with a null pointer. The map is
  thus released without ever calling the destroy functions, or not at all.
\<close>

lemma hash_frame_mono:
  "hash_frame L D s s' \<Longrightarrow> L \<subseteq> L' \<Longrightarrow> D \<subseteq> D' \<Longrightarrow> hash_frame L' D' s s'"
  unfolding hash_frame_def by blast

text \<open>Releasing the nodes of one list leaves the other lists alone.\<close>

lemma hash_frame_drop:
  assumes "dlist (nodes s) l cs"
  shows "hash_frame {l} {} s (s\<lparr>nodes := drop_nodes (set (l # cs @ [tail_of l])) (nodes s)\<rparr>)"
proof -
  let ?h = "drop_nodes (set (l # cs @ [tail_of l])) (nodes s)"
  have "dlist ?h l' cs' \<and> items ?h cs' = items (nodes s) cs' \<and>
      item_at ?h (tail_of l') = item_at (nodes s) (tail_of l')"
    if dl: "dlist (nodes s) l' cs'" and ne: "l' \<noteq> l" for l' cs'
  proof -
    have out: "?h x = nodes s x" if "x \<in> set (l' # cs' @ [tail_of l'])" for x
      using dlist_disjoint [OF dl assms ne] that by (intro drop_nodes_out) blast
    have "dlist ?h l' cs'" by (rule dlist_cong [OF dl out])
    moreover have "items ?h cs' = items (nodes s) cs'" by (rule items_cong) (rule out, simp)
    moreover have "?h (tail_of l') = nodes s (tail_of l')" by (rule out) simp
    ultimately show ?thesis by (simp add: item_at_def)
  qed
  then show ?thesis by (simp add: hash_frame_def)
qed

lemma fold_idle: "fold (\<lambda>d s. s) ds s = s"
  by (induction ds) simp_all

lemma destroy_nonempty_bucket:
  assumes rep: "bucket_rep s l ds" and l: "l \<noteq> NULL" and ds: "ds \<noteq> []" and wf: "wf_hash_mem s"
  shows "\<exists>s'. chain (\<lambda>s. destroy_bucket (brk s) l fd kd vd s) (\<lambda>fd'.
       chain (List_Destroy l None) (\<lambda>_. f fd')) s = f (hd ds) s' \<and>
     hash_frame {l} {} s s' \<and> ditems s' = ditems s \<and> wf_hash_mem s'"
proof -
  obtain c cs where cs: "dlist (nodes s) l (c # cs)" "items (nodes s) (c # cs) = ds"
    using rep l ds by (auto simp: bucket_rep_def neq_Nil_conv items_def)
  have wl: "wf_list_mem s" using wf by (simp add: wf_hash_mem_def)
  obtain s1 where pop: "List_PopHead l True s = Inr ((LIST_SUCCESS, Some (hd ds)), s1)"
    "removed s s1 l [] c cs"
    using List_PopHead_ok [OF cs(1) wl] cs(2) by auto
  obtain k where k: "brk s = Suc k" using wl by (cases "brk s") (auto simp: wf_list_mem_def)
  have db: "destroy_bucket (brk s) l fd kd vd s = Inr (hd ds, s1)"
    using pop(1) by (simp add: k)
  have dl1: "dlist (nodes s1) l cs" "wf_list_mem s1" using pop(2) by (simp_all add: removed_def)
  let ?s2 = "s1\<lparr>nodes := drop_nodes (set (l # cs @ [tail_of l])) (nodes s1)\<rparr>"
  have ld: "List_Destroy l None s1 = Inr (NULL, ?s2)"
    using List_Destroy_ok [OF dl1, of "\<lambda>d s. s" None] by (simp add: node_blind_def fold_idle)
  have f1: "hash_frame {l} {} s s1"
    by (rule node_frame_hash [OF _ wl cs(1)]) (use pop(2) in \<open>simp_all add: removed_def\<close>)
  have fr: "hash_frame {l} {} s ?s2" by (rule hash_frame_trans [OF f1 hash_frame_drop [OF dl1(1)]])
  obtain b n where s1: "s1 = s\<lparr>brk := b, nodes := n\<rparr>"
    using pop(2) unfolding removed_def node_frame_def by blast
  have "wf_hash_mem ?s2" using wf dl1(2) pop(2) s1
    by (auto simp: wf_hash_mem_def wf_list_mem_def drop_nodes_def removed_def)
  then show ?thesis using db ld fr s1 by (intro exI [of _ ?s2]) simp
qed

lemma destroy_table_leaks:
  assumes "hm_data m = Some t" and "set is \<subseteq> {..<length t}" and "distinct is"
    and "\<forall>i \<in> set is. bucket_rep s (t ! i) (dss ! i) \<and> (t ! i \<noteq> NULL \<longrightarrow> dss ! i \<noteq> [])"
    and "\<forall>i < length t. \<forall>j < length t. t ! i = t ! j \<longrightarrow> t ! i \<noteq> NULL \<longrightarrow> i = j"
    and "wf_hash_mem s"
  shows "\<exists>s'. destroy_table m is fd kd vd s = Inr ((), s') \<and> ditems s' = ditems s \<and>
    hash_frame (set t) {} s s' \<and> wf_hash_mem s'"
  using assms(2-4,6)
proof (induction "is" arbitrary: s fd)
  case Nil
  then show ?case by simp
next
  case (Cons i js)
  have i: "i < length t" using Cons.prems(1) by simp
  note rd = rd_bucket_step [OF assms(1) i]
  show ?case
  proof (cases "t ! i = NULL")
    case True
    with Cons show ?thesis by (simp add: rd)
  next
    case False
    let ?rest = "\<lambda>fd'. destroy_table m js fd' kd vd"
    from destroy_nonempty_bucket [of s "t ! i" "dss ! i" fd kd vd ?rest] False Cons.prems
    obtain s1 where s1: "chain (\<lambda>s. destroy_bucket (brk s) (t ! i) fd kd vd s) (\<lambda>fd'.
       chain (List_Destroy (t ! i) None) (\<lambda>_. ?rest fd')) s = ?rest (hd (dss ! i)) s1"
      "hash_frame {t ! i} {} s s1" "ditems s1 = ditems s" "wf_hash_mem s1" by auto
    have "bucket_rep s1 (t ! j) (dss ! j)" if "j \<in> set js" for j
    proof (rule bucket_rep_frame [OF _ s1(2)])
      show "bucket_rep s (t ! j) (dss ! j)" using Cons.prems(3) that by simp
      have "j < length t" "j \<noteq> i" using Cons.prems(1,2) that by auto
      then show "t ! j \<notin> {t ! i} \<or> t ! j = NULL" using assms(5) i by auto
    qed
    with Cons.IH [of s1 "hd (dss ! i)"] Cons.prems s1(4)
    obtain s2 where s2: "?rest (hd (dss ! i)) s1 = Inr ((), s2)" "ditems s2 = ditems s1"
      "hash_frame (set t) {} s1 s2" "wf_hash_mem s2" by auto
    have "hash_frame (set t) {} s s1"
      by (rule hash_frame_mono [OF s1(2)]) (use i in auto)
    with s2(3) have "hash_frame (set t) {} s s2" by (metis hash_frame_trans)
    with s1 s2 False show ?thesis by (simp add: rd)
  qed
qed

lemma HashMap_Destroy_leaks:
  assumes rep: "hmap_rep s m dss" and wf: "wf_hash_mem s"
    and full: "\<forall>i < length dss. the (hm_data m) ! i \<noteq> NULL \<longrightarrow> dss ! i \<noteq> []"
  shows "\<exists>s'. HashMap_Destroy (Some (Some m)) kd vd s = Inr (None, s') \<and> ditems s' = ditems s \<and>
    wf_hash_mem s'"
proof -
  obtain t where t: "hm_data m = Some t" "table_rep s t dss" "unat (m_allocSize m) = length dss"
    using rep by (auto simp: hmap_rep_def)
  have d: "\<forall>i \<in> set [0..<length dss]. bucket_rep s (t ! i) (dss ! i) \<and> (t ! i \<noteq> NULL \<longrightarrow> dss ! i \<noteq> [])"
    and len: "length t = length dss"
    and inj: "\<forall>i < length t. \<forall>j < length t. t ! i = t ! j \<longrightarrow> t ! i \<noteq> NULL \<longrightarrow> i = j"
    using t full by (auto simp: table_rep_def)
  have "set [0..<length dss] \<subseteq> {..<length t}" using len by auto
  from destroy_table_leaks [OF t(1) this _ d inj wf, of NULL kd vd]
  obtain s' where "destroy_table m [0..<length dss] NULL kd vd s = Inr ((), s')"
    "ditems s' = ditems s" "wf_hash_mem s'" by auto
  with t(3) hmap_rep_valid [OF rep] show ?thesis by (simp add: HashMap_Destroy_def Let_def)
qed

text \<open>The first allocated bucket is empty: the loop dereferences the null pointer.\<close>

lemma destroy_table_skip:
  assumes "hm_data m = Some t" and "\<forall>j \<in> set is. j < length t \<and> t ! j = NULL"
  shows "destroy_table m (is @ js) fd kd vd s = destroy_table m js fd kd vd s"
  using assms(2) by (induction "is") (simp_all add: rd_bucket_step [OF assms(1)])

lemma HashMap_Destroy_crash:
  assumes rep: "hmap_rep s m dss" and wf: "wf_hash_mem s"
    and i: "i < length dss" "the (hm_data m) ! i \<noteq> NULL" "dss ! i = []"
    and first: "\<forall>j < i. the (hm_data m) ! j = NULL"
  shows "HashMap_Destroy (Some (Some m)) (Some f) vd s = Inl NullDeref"
proof -
  obtain t where t: "hm_data m = Some t" "table_rep s t dss" "unat (m_allocSize m) = length dss"
    using rep by (auto simp: hmap_rep_def)
  then have ti: "t ! i \<noteq> NULL" "bucket_rep s (t ! i) []" "i < length t"
    using i by (auto simp: table_rep_def)
  then have "dlist (nodes s) (t ! i) []" by (auto simp: bucket_rep_def items_def)
  note pop = List_Pop_empty(1) [OF this]
  obtain k where k: "brk s = Suc k"
    using wf by (cases "brk s") (auto simp: wf_hash_mem_def wf_list_mem_def)
  have "[0..<length dss] = [0..<i] @ i # [Suc i..<length dss]"
    using i(1) upt_add_eq_append [of 0 i "length dss - i"] by (simp add: upt_conv_Cons)
  moreover have "destroy_table m (i # [Suc i..<length dss]) NULL (Some f) vd s = Inl NullDeref"
    using ti pop by (simp add: rd_bucket_step [OF t(1)] k rd_ditem_def)
  moreover have "destroy_table m ([0..<i] @ i # [Suc i..<length dss]) NULL (Some f) vd s =
      destroy_table m (i # [Suc i..<length dss]) NULL (Some f) vd s"
    by (rule destroy_table_skip [OF t(1)]) (use ti first t(1) in auto)
  ultimately show ?thesis using t(3) hmap_rep_valid [OF rep]
    by (simp add: HashMap_Destroy_def Let_def)
qed

end
