(* ===== verification/ListDeque.thy ===== *)
theory ListDeque
  imports LinkedList GenericHash
begin

text \<open>
  The linked list as a deque: any sequence of operations on a list created by \<open>List_Create\<close>
  gives the results of the same sequence on a list of HOL (\<open>deque_step\<close>), error results
  included, and \<open>List_Destroy\<close> afterwards passes on the remaining items in order and leaves no
  node allocated.
\<close>

section \<open>Sequences of operations\<close>

datatype list_op = PushHead addr | PushTail addr | PopHead | PopTail | CountItems

datatype list_res = Code List_Result | Popped List_Result "addr option" | Counted u64

fun list_step :: "addr \<Rightarrow> list_op \<Rightarrow> ('a list_mem_scheme, list_res) prog" where
  "list_step l (PushHead x) = chain (List_PushHead l x) (\<lambda>r. ret (Code r))"
| "list_step l (PushTail x) = chain (List_PushTail l x) (\<lambda>r. ret (Code r))"
| "list_step l PopHead = chain (List_PopHead l True) (\<lambda>(r, x). ret (Popped r x))"
| "list_step l PopTail = chain (List_PopTail l True) (\<lambda>(r, x). ret (Popped r x))"
| "list_step l CountItems = chain (List_Size l) (\<lambda>n. ret (Counted n))"

fun list_run :: "addr \<Rightarrow> list_op list \<Rightarrow> ('a list_mem_scheme, list_res list) prog" where
  "list_run l [] = ret []"
| "list_run l (p # ps) = chain (list_step l p) (\<lambda>r. chain (list_run l ps) (\<lambda>rs. ret (r # rs)))"

text \<open>The reference: the same operations on a list of items.\<close>

fun deque_step :: "list_op \<Rightarrow> addr list \<Rightarrow> list_res \<times> addr list" where
  "deque_step (PushHead x) xs = (if x = NULL then (Code LIST_NULL_ELEMENT_ERROR, xs) else (Code LIST_SUCCESS, x # xs))"
| "deque_step (PushTail x) xs = (if x = NULL then (Code LIST_NULL_ELEMENT_ERROR, xs) else (Code LIST_SUCCESS, xs @ [x]))"
| "deque_step PopHead xs =
     (case xs of [] \<Rightarrow> (Popped LIST_IS_EMPTY None, []) | x # ys \<Rightarrow> (Popped LIST_SUCCESS (Some x), ys))"
| "deque_step PopTail xs =
     (if xs = [] then (Popped LIST_IS_EMPTY None, []) else (Popped LIST_SUCCESS (Some (last xs)), butlast xs))"
| "deque_step CountItems xs = (Counted (of_nat (length xs)), xs)"

fun deque_run :: "list_op list \<Rightarrow> addr list \<Rightarrow> list_res list \<times> addr list" where
  "deque_run [] xs = ([], xs)"
| "deque_run (p # ps) xs =
     (fst (deque_step p xs) # fst (deque_run ps (snd (deque_step p xs))),
      snd (deque_run ps (snd (deque_step p xs))))"

section \<open>Refinement\<close>

text \<open>
  \<open>list_inv h0 s l xs\<close>: the list at \<open>l\<close> holds the items \<open>xs\<close>, and apart from its nodes the heap
  is still \<open>h0\<close>, in which those addresses are not in use.
\<close>

definition list_inv :: "(addr \<Rightarrow> node option) \<Rightarrow> 'a list_mem_scheme \<Rightarrow> addr \<Rightarrow> addr list \<Rightarrow> bool" where
  "list_inv h0 s l xs \<longleftrightarrow> wf_list_mem s \<and> enough_mem s \<and>
     (\<exists>cs. dlist (nodes s) l cs \<and> items (nodes s) cs = xs \<and>
       (\<forall>a. a \<notin> set (l # cs @ [tail_of l]) \<longrightarrow> nodes s a = h0 a) \<and>
       (\<forall>a \<in> set (l # cs @ [tail_of l]). h0 a = None)) \<and> (\<forall>a \<ge> brk s. h0 a = None)"

lemma list_invI:
  "\<lbrakk>wf_list_mem s; enough_mem s; dlist (nodes s) l cs; items (nodes s) cs = xs;
    \<And>a. a \<notin> set (l # cs @ [tail_of l]) \<Longrightarrow> nodes s a = h0 a;
    \<And>a. a \<in> set (l # cs @ [tail_of l]) \<Longrightarrow> h0 a = None; \<And>a. brk s \<le> a \<Longrightarrow> h0 a = None\<rbrakk>
   \<Longrightarrow> list_inv h0 s l xs"
  unfolding list_inv_def by blast

lemma list_inv_inserted:
  assumes inv: "wf_list_mem s" "enough_mem s" "dlist (nodes s) l (xs @ ys)"
    and out: "\<forall>a. a \<notin> set (l # (xs @ ys) @ [tail_of l]) \<longrightarrow> nodes s a = h0 a"
      "\<forall>a \<in> set (l # (xs @ ys) @ [tail_of l]). h0 a = None" "\<forall>a \<ge> brk s. h0 a = None"
    and ins: "inserted s s' l xs ys x"
  shows "list_inv h0 s' l (items (nodes s) xs @ x # items (nodes s) ys)"
proof -
  have d: "dlist (nodes s') l (xs @ brk s # ys)" "wf_list_mem s'" "brk s' = brk s + 2"
    "nodes s' (brk s + 1) = None" "item_at (nodes s') (brk s) = x"
    "items (nodes s') (xs @ ys) = items (nodes s) (xs @ ys)"
    and fr: "node_frame (set (l # (xs @ ys) @ [tail_of l])) s s'"
    using ins by (simp_all add: inserted_def)
  show ?thesis
  proof (rule list_invI [OF d(2) _ d(1)])
    show "enough_mem s'" using inv(2) node_frame_oom [OF fr] by (simp add: enough_mem_def)
    show "items (nodes s') (xs @ brk s # ys) = items (nodes s) xs @ x # items (nodes s) ys"
      using d(5,6) by (simp add: items_def)
    show "nodes s' a = h0 a" if a: "a \<notin> set (l # (xs @ brk s # ys) @ [tail_of l])" for a
    proof -
      have "a < brk s \<or> a = brk s + 1 \<or> brk s' \<le> a" using a d(3) by auto
      then show ?thesis
        using a out(1,3) fr d(2,3,4) by (auto simp: node_frame_def wf_list_mem_def)
    qed
    show "h0 a = None" if "a \<in> set (l # (xs @ brk s # ys) @ [tail_of l])" for a
      using that out(2,3) by auto
    show "h0 a = None" if "brk s' \<le> a" for a using that d(3) out(3) by simp
  qed
qed

lemma list_inv_removed:
  assumes inv: "wf_list_mem s" "enough_mem s" "dlist (nodes s) l (xs @ c # ys)"
    and out: "\<forall>a. a \<notin> set (l # (xs @ c # ys) @ [tail_of l]) \<longrightarrow> nodes s a = h0 a"
      "\<forall>a \<in> set (l # (xs @ c # ys) @ [tail_of l]). h0 a = None" "\<forall>a \<ge> brk s. h0 a = None"
    and rem: "removed s s' l xs c ys"
  shows "list_inv h0 s' l (items (nodes s) xs @ items (nodes s) ys)"
proof -
  have d: "dlist (nodes s') l (xs @ ys)" "wf_list_mem s'" "brk s' = brk s" "nodes s' c = None"
    "items (nodes s') (xs @ ys) = items (nodes s) (xs @ ys)"
    and fr: "node_frame (set (l # (xs @ c # ys) @ [tail_of l])) s s'"
    using rem by (simp_all add: removed_def)
  show ?thesis
  proof (rule list_invI [OF d(2) _ d(1)])
    show "enough_mem s'" using inv(2) node_frame_oom [OF fr] by (simp add: enough_mem_def)
    show "items (nodes s') (xs @ ys) = items (nodes s) xs @ items (nodes s) ys"
      using d(5) by (simp add: items_def)
    show "nodes s' a = h0 a" if a: "a \<notin> set (l # (xs @ ys) @ [tail_of l])" for a
    proof -
      have "a = c \<or> a \<notin> set (l # (xs @ c # ys) @ [tail_of l])" using a by auto
      moreover have "a < brk s \<or> brk s \<le> a" by linarith
      ultimately show ?thesis
        using out fr d(2,3,4) by (auto simp: node_frame_def wf_list_mem_def)
    qed
    show "h0 a = None" if "a \<in> set (l # (xs @ ys) @ [tail_of l])" for a using that out(2) by auto
    show "h0 a = None" if "brk s' \<le> a" for a using that d(3) out(3) by simp
  qed
qed

lemma list_step_refines:
  assumes inv: "list_inv h0 s l xs" and len: "length xs < 2 ^ 31"
  shows "\<exists>s'. list_step l p s = Inr (fst (deque_step p xs), s') \<and> list_inv h0 s' l (snd (deque_step p xs))"
proof -
  obtain cs where cs: "dlist (nodes s) l cs" "items (nodes s) cs = xs"
    and out: "\<forall>a. a \<notin> set (l # cs @ [tail_of l]) \<longrightarrow> nodes s a = h0 a"
      "\<forall>a \<in> set (l # cs @ [tail_of l]). h0 a = None" "\<forall>a \<ge> brk s. h0 a = None"
    and wf: "wf_list_mem s" and mem: "enough_mem s"
    using inv unfolding list_inv_def by blast
  have l: "l \<noteq> NULL" using dlist_nz [OF cs(1)] by simp
  have no: "\<not> oom s (brk s)" using mem by (simp add: enough_mem_def)
  show ?thesis
  proof (cases p)
    case (PushHead x)
    show ?thesis
    proof (cases "x = NULL")
      case False
      from List_PushHead_ok [OF cs(1) wf this no] obtain s' where
        s': "List_PushHead l x s = Inr (LIST_SUCCESS, s')" "inserted s s' l [] cs x" by blast
      have "list_inv h0 s' l (x # xs)"
        using list_inv_inserted [OF wf mem, of l "[]" cs h0 s' x] cs out s'(2) by simp
      with s'(1) PushHead False show ?thesis by simp
    qed (use PushHead inv l in \<open>simp add: List_errors\<close>)
  next
    case (PushTail x)
    show ?thesis
    proof (cases "x = NULL")
      case False
      from List_PushTail_ok [OF cs(1) wf this no] obtain s' where
        s': "List_PushTail l x s = Inr (LIST_SUCCESS, s')" "inserted s s' l cs [] x" by blast
      have "list_inv h0 s' l (xs @ [x])"
        using list_inv_inserted [OF wf mem, of l cs "[]" h0 s' x] cs out s'(2) by simp
      with s'(1) PushTail False show ?thesis by simp
    qed (use PushTail inv l in \<open>simp add: List_errors\<close>)
  next
    case PopHead
    show ?thesis
    proof (cases cs)
      case Nil
      with PopHead cs inv show ?thesis by (auto simp: List_Pop_empty)
    next
      case (Cons c cs')
      from List_PopHead_ok [of s l c cs'] cs(1) wf obtain s' where
        s': "List_PopHead l True s = Inr ((LIST_SUCCESS, Some (item_at (nodes s) c)), s')"
          "removed s s' l [] c cs'" unfolding Cons by blast
      have "list_inv h0 s' l (items (nodes s) cs')"
        using list_inv_removed [OF wf mem, of l "[]" c cs' h0 s'] cs out s'(2) Cons by simp
      with s'(1) PopHead cs(2) Cons show ?thesis by auto
    qed
  next
    case PopTail
    show ?thesis
    proof (cases cs rule: rev_cases)
      case Nil
      with PopTail cs inv show ?thesis by (auto simp: List_Pop_empty)
    next
      case (snoc cs' c)
      from List_PopTail_ok [of s l cs' c] cs(1) wf obtain s' where
        s': "List_PopTail l True s = Inr ((LIST_SUCCESS, Some (item_at (nodes s) c)), s')"
          "removed s s' l cs' c []" unfolding snoc by blast
      have "list_inv h0 s' l (items (nodes s) cs')"
        using list_inv_removed [OF wf mem, of l cs' c "[]" h0 s'] cs out s'(2) snoc by simp
      moreover have "xs = items (nodes s) cs' @ [item_at (nodes s) c]" using cs(2) snoc by (simp add: items_def)
      ultimately show ?thesis using s'(1) PopTail by simp
    qed
  next
    case CountItems
    have "length cs = length xs" using cs(2) by (auto simp: items_def)
    with CountItems List_Size_ok [OF cs(1) wf] len inv show ?thesis by simp
  qed
qed

lemma deque_step_length: "length (snd (deque_step p xs)) \<le> Suc (length xs)"
  by (cases p) (auto split: list.split)

lemma list_run_refines:
  assumes "list_inv h0 s l xs" and "length xs + length ps < 2 ^ 31"
  shows "\<exists>s'. list_run l ps s = Inr (fst (deque_run ps xs), s') \<and> list_inv h0 s' l (snd (deque_run ps xs))"
  using assms
proof (induction ps arbitrary: s xs)
  case (Cons p ps)
  obtain s1 where s1: "list_step l p s = Inr (fst (deque_step p xs), s1)" "list_inv h0 s1 l (snd (deque_step p xs))"
    using list_step_refines [OF Cons.prems(1), of p] Cons.prems(2) by auto
  have "length (snd (deque_step p xs)) + length ps < 2 ^ 31"
    using deque_step_length [of p xs] Cons.prems(2) by simp
  from Cons.IH [OF s1(2) this] s1(1) show ?case by auto
qed simp

lemma list_inv_created:
  assumes "wf_list_mem s" and "enough_mem s"
  obtains l s' where "List_Create s = Inr (l, s')" "list_inv (nodes s) s' l []"
proof -
  have no: "\<not> oom s (brk s)" using assms(2) by (simp add: enough_mem_def)
  obtain s' where s': "List_Create s = Inr (brk s, s')" "dlist (nodes s') (brk s) []"
    "node_frame {} s s'" "wf_list_mem s'" "brk s' = brk s + 3" "nodes s' (brk s + 2) = None"
    using List_Create_ok [OF assms(1) no] by blast
  have "list_inv (nodes s) s' (brk s) []"
  proof (rule list_invI [OF s'(4) _ s'(2)])
    show "enough_mem s'" using assms(2) node_frame_oom [OF s'(3)] by (simp add: enough_mem_def)
    show "nodes s' a = nodes s a" if "a \<notin> set (brk s # [] @ [tail_of (brk s)])" for a
    proof -
      have "a < brk s \<or> a = brk s + 2 \<or> brk s' \<le> a" using that s'(5) by (auto simp: tail_of_def)
      then show ?thesis using s'(3-6) assms(1) by (auto simp: node_frame_def wf_list_mem_def)
    qed
  qed (use assms(1) s'(5) in \<open>auto simp: wf_list_mem_def tail_of_def\<close>)
  with s'(1) that show ?thesis by blast
qed

text \<open>Destruction: the items are handed over in order and the heap is what it was before.\<close>

lemma list_inv_destroyed:
  assumes inv: "list_inv h0 s l xs" and g: "node_blind g"
  shows "\<exists>s'. List_Destroy l (Some (\<lambda>d s. Inr ((), g d s))) s = Inr (NULL, s') \<and>
    s' = (fold g xs s)\<lparr>nodes := h0\<rparr>"
proof -
  obtain cs where cs: "dlist (nodes s) l cs" "items (nodes s) cs = xs"
    and out: "\<forall>a. a \<notin> set (l # cs @ [tail_of l]) \<longrightarrow> nodes s a = h0 a"
      "\<forall>a \<in> set (l # cs @ [tail_of l]). h0 a = None"
    and wf: "wf_list_mem s"
    using inv unfolding list_inv_def by blast
  have "drop_nodes (set (l # cs @ [tail_of l])) (nodes s) = h0"
    using out by (auto simp: drop_nodes_def fun_eq_iff)
  with List_Destroy_ok [OF cs(1) wf g, of "Some (\<lambda>d s. Inr ((), g d s))"] cs(2) show ?thesis by simp
qed

end
