(* ===== verification/GenericQueue.thy ===== *)
theory GenericQueue
  imports GenericHash
begin

text \<open>
  The bounded queue of \<^verbatim>\<open>src/GenericQueue/GenericQueue.c\<close>: a ring buffer of pointers. The
  queues live in a heap of their own, so that a freed queue that is used again is a fault.

  \<open>queue_rep n s q xs\<close> says that the ring of capacity \<open>n\<close> at \<open>q\<close> holds the items \<open>xs\<close>, oldest
  first. The locale \<open>bounded_fifo\<close> is the contract a client of the queue relies on; the ring
  buffer is its interpretation \<open>ring\<close>. What the code does beyond the contract (removing from
  an empty queue is not detected) is stated on \<open>ring_at\<close>.
\<close>

section \<open>Data and operations\<close>

record Queue =
  m_queueArray :: "addr list option"
  m_size :: u64
  m_head :: u64
  m_tail :: u64
  m_nItems :: u64
  m_magicNumber :: u64

record queue_mem = hash_mem +
  queues :: "addr \<Rightarrow> Queue option"

datatype QueueErr = QERR_OK | QERR_NOT_INITIALIZED | QERR_UNDERFLOW | QERR_OVERFLOW

definition MEGIC_NUM :: u64 where
  "MEGIC_NUM = 873613"

definition rd_queue :: "addr \<Rightarrow> ('a queue_mem_scheme, Queue) prog" where
  "rd_queue q = (\<lambda>s. if q = NULL then Inl NullDeref
     else case queues s q of None \<Rightarrow> Inl BadAddress | Some r \<Rightarrow> Inr (r, s))"

definition wr_queue :: "addr \<Rightarrow> (Queue \<Rightarrow> Queue) \<Rightarrow> ('a queue_mem_scheme, unit) prog" where
  "wr_queue q f = chain (rd_queue q) (\<lambda>r s. Inr ((), s\<lparr>queues := (queues s)(q \<mapsto> f r)\<rparr>))"

text \<open>\<open>malloc\<close> leaves the fields undefined; the code sets three of the six.\<close>

definition malloc_queue :: "('a queue_mem_scheme, addr) prog" where
  "malloc_queue = chain (malloc 1) (\<lambda>p s.
     if p = NULL then Inr (NULL, s)
     else Inr (p, s\<lparr>queues := (queues s)(p \<mapsto> \<lparr>m_queueArray = None, m_size = of_nat (junk s p 1),
       m_head = of_nat (junk s p 2), m_tail = of_nat (junk s p 3), m_nItems = of_nat (junk s p 4),
       m_magicNumber = of_nat (junk s p 5)\<rparr>)\<rparr>))"

definition free_queue :: "addr \<Rightarrow> ('a queue_mem_scheme, unit) prog" where
  "free_queue q = (\<lambda>s. if q = NULL then Inr ((), s)
     else if queues s q = None then Inl BadFree
     else Inr ((), s\<lparr>queues := (queues s)(q := None)\<rparr>))"

definition QueueCreate :: "u64 \<Rightarrow> ('a queue_mem_scheme, addr) prog" where
  "QueueCreate sz =
     (if sz \<le> 1 then ret NULL
      else
        chain malloc_queue (\<lambda>newQueue.
        if newQueue = NULL then ret NULL
        else
          chain (malloc (unat sz)) (\<lambda>a.
          chain (wr_queue newQueue (\<lambda>r. r\<lparr>m_queueArray :=
            (if a = NULL then None else Some (replicate (unat sz) NULL))\<rparr>)) (\<lambda>_.
          if a = NULL then chain (free_queue newQueue) (\<lambda>_. ret NULL)
          else
            chain (wr_queue newQueue (\<lambda>r. r\<lparr>m_magicNumber := MEGIC_NUM\<rparr>)) (\<lambda>_.
            chain (wr_queue newQueue (\<lambda>r. r\<lparr>m_size := sz\<rparr>)) (\<lambda>_.
            ret newQueue))))))"

text \<open>The loop of \<open>QueueDestroy\<close> frees the slots 0 to \<open>nItems - 1\<close>, wherever the head is.\<close>

fun free_items :: "addr \<Rightarrow> nat list \<Rightarrow> ('a queue_mem_scheme, unit) prog" where
  "free_items q [] = ret ()"
| "free_items q (i # is) =
     chain (rd_queue q) (\<lambda>r.
     case m_queueArray r of
       None \<Rightarrow> fail NullDeref
     | Some a \<Rightarrow>
         if length a \<le> i then fail BadAddress
         else
           chain (free_block (a ! i)) (\<lambda>_.
           chain (wr_queue q (\<lambda>r. r\<lparr>m_queueArray := Some (a[i := NULL])\<rparr>)) (\<lambda>_.
           free_items q is)))"

definition QueueDestroy :: "addr \<Rightarrow> ('a queue_mem_scheme, unit) prog" where
  "QueueDestroy q =
     chain (rd_queue q) (\<lambda>r.
     if q = NULL \<or> m_magicNumber r \<noteq> MEGIC_NUM then ret ()
     else
       chain (free_items q [0..<unat (m_nItems r)]) (\<lambda>_.
       free_queue q))"

definition QueueInsert :: "addr \<Rightarrow> addr \<Rightarrow> ('a queue_mem_scheme, QueueErr) prog" where
  "QueueInsert q item =
     (if q = NULL then ret QERR_NOT_INITIALIZED
      else
        chain (rd_queue q) (\<lambda>r.
        case m_queueArray r of
          None \<Rightarrow> ret QERR_NOT_INITIALIZED
        | Some a \<Rightarrow>
            if m_magicNumber r \<noteq> MEGIC_NUM \<or> item = NULL then ret QERR_NOT_INITIALIZED
            else if m_nItems r = m_size r then ret QERR_OVERFLOW
            else if length a \<le> unat (m_tail r) then fail BadAddress
            else if m_size r = 0 then fail DivByZero
            else
              chain (wr_queue q (\<lambda>r. r\<lparr>m_queueArray := Some (a[unat (m_tail r) := item]),
                m_tail := (m_tail r + 1) mod m_size r, m_nItems := m_nItems r + 1\<rparr>)) (\<lambda>_.
              ret QERR_OK)))"

text \<open>\<open>QueueRemove\<close> tests \<open>m_size\<close>, not the number of items. The second result is \<open>*_item\<close>.\<close>

definition QueueRemove :: "addr \<Rightarrow> ('a queue_mem_scheme, QueueErr \<times> addr option) prog" where
  "QueueRemove q =
     (if q = NULL then ret (QERR_NOT_INITIALIZED, None)
      else
        chain (rd_queue q) (\<lambda>r.
        case m_queueArray r of
          None \<Rightarrow> ret (QERR_NOT_INITIALIZED, None)
        | Some a \<Rightarrow>
            if m_magicNumber r \<noteq> MEGIC_NUM then ret (QERR_NOT_INITIALIZED, None)
            else if m_size r = 0 then ret (QERR_UNDERFLOW, None)
            else if length a \<le> unat (m_head r) then fail BadAddress
            else
              chain (wr_queue q (\<lambda>r. r\<lparr>m_head := (m_head r + 1) mod m_size r,
                m_nItems := m_nItems r - 1\<rparr>)) (\<lambda>_.
              ret (QERR_OK, Some (a ! unat (m_head r))))))"

definition QueueIsEmpty :: "addr \<Rightarrow> ('a queue_mem_scheme, int) prog" where
  "QueueIsEmpty q =
     (if q = NULL then ret (- 1)
      else
        chain (rd_queue q) (\<lambda>r.
        if m_queueArray r = None \<or> m_magicNumber r \<noteq> MEGIC_NUM then ret (- 1)
        else if m_nItems r = 0 \<and> m_head r = m_tail r then ret 1
        else ret 0))"

section \<open>The ring buffer\<close>

text \<open>\<open>ring_at s q a h k\<close>: a valid ring with array \<open>a\<close>, head \<open>h\<close> and item count \<open>k\<close>.\<close>

definition ring_at :: "'a queue_mem_scheme \<Rightarrow> addr \<Rightarrow> addr list \<Rightarrow> nat \<Rightarrow> u64 \<Rightarrow> bool" where
  "ring_at s q a h k \<longleftrightarrow> q \<noteq> NULL \<and> (\<exists>r. queues s q = Some r \<and> m_queueArray r = Some a \<and>
     unat (m_size r) = length a \<and> a \<noteq> [] \<and> unat (m_head r) = h \<and> h < length a \<and>
     m_nItems r = k \<and> m_magicNumber r = MEGIC_NUM)"

definition queue_rep :: "nat \<Rightarrow> 'a queue_mem_scheme \<Rightarrow> addr \<Rightarrow> addr list \<Rightarrow> bool" where
  "queue_rep n s q xs \<longleftrightarrow> (\<exists>r a. q \<noteq> NULL \<and> queues s q = Some r \<and> m_queueArray r = Some a \<and>
     unat (m_size r) = length a \<and> length a = n \<and> 0 < n \<and>
     unat (m_head r) < n \<and> unat (m_tail r) = (unat (m_head r) + length xs) mod n \<and>
     unat (m_nItems r) = length xs \<and> length xs \<le> n \<and>
     (\<forall>i < length xs. a ! ((unat (m_head r) + i) mod n) = xs ! i) \<and>
     m_magicNumber r = MEGIC_NUM)"

text \<open>Everything but the queue at \<open>q\<close> is as before.\<close>

definition queue_frame :: "addr \<Rightarrow> 'a queue_mem_scheme \<Rightarrow> 'a queue_mem_scheme \<Rightarrow> bool" where
  "queue_frame q s s' \<longleftrightarrow> (\<exists>r. s' = s\<lparr>queues := (queues s)(q := r)\<rparr>)"

lemma queue_frame_refl [simp]: "queue_frame q s s"
  unfolding queue_frame_def by (rule exI [of _ "queues s q"]) simp

lemma queue_frame_trans: "queue_frame q s s' \<Longrightarrow> queue_frame q s' s'' \<Longrightarrow> queue_frame q s s''"
  unfolding queue_frame_def by auto

lemma rd_queue_step [c_step]: "q \<noteq> NULL \<Longrightarrow> queues s q = Some r \<Longrightarrow> rd_queue q s = Inr (r, s)"
  by (simp add: rd_queue_def)

lemma wr_queue_step [c_step]:
  "q \<noteq> NULL \<Longrightarrow> queues s q = Some r \<Longrightarrow>
   wr_queue q f s = Inr ((), s\<lparr>queues := (queues s)(q \<mapsto> f r)\<rparr>)"
  by (simp add: wr_queue_def rd_queue_step)

text \<open>The next index modulo the size never wraps around as a \<open>size_t\<close>.\<close>

lemma unat64: "unat (n :: u64) < 2 ^ 64"
  using unsigned_less [where 'a = nat, of n] by simp

lemma unat_next:
  fixes h n :: u64
  assumes "unat h < unat n"
  shows "unat ((h + 1) mod n) = (unat h + 1) mod unat n"
proof -
  have "unat h + 1 < 2 ^ 64" using assms unat64 [of n] by simp
  then show ?thesis by (simp add: unat_mod unat_word_ariths)
qed

lemma unat_Suc64: "unat (k :: u64) < unat (n :: u64) \<Longrightarrow> unat (k + 1) = unat k + 1"
  using unat64 [of n] by (simp add: unat_word_ariths)

lemma QueueInsert_ok:
  assumes "queue_rep n s q xs" and "item \<noteq> NULL" and "length xs < n"
  shows "\<exists>s'. QueueInsert q item s = Inr (QERR_OK, s') \<and> queue_rep n s' q (xs @ [item]) \<and>
    queue_frame q s s'"
proof -
  obtain r a where r: "q \<noteq> NULL" "queues s q = Some r" "m_queueArray r = Some a"
    "unat (m_size r) = n" "length a = n" "unat (m_head r) < n"
    "unat (m_tail r) = (unat (m_head r) + length xs) mod n" "unat (m_nItems r) = length xs"
    "\<And>i. i < length xs \<Longrightarrow> a ! ((unat (m_head r) + i) mod n) = xs ! i" "m_magicNumber r = MEGIC_NUM"
    using assms(1) by (auto simp: queue_rep_def)
  let ?r = "r\<lparr>m_queueArray := Some (a[unat (m_tail r) := item]),
    m_tail := (m_tail r + 1) mod m_size r, m_nItems := m_nItems r + 1\<rparr>"
  let ?s = "s\<lparr>queues := (queues s)(q \<mapsto> ?r)\<rparr>"
  have tl: "unat (m_tail r) < n" using r(7) assms(3) by simp
  have ne: "m_nItems r \<noteq> m_size r" "m_size r \<noteq> 0" using r(4,8) assms(3) by auto
  have la: "\<not> length a \<le> unat (m_tail r)" using tl r(5) by simp
  have run: "QueueInsert q item s = Inr (QERR_OK, ?s)"
    using r(1-3,10) la ne assms(2) by (simp add: QueueInsert_def rd_queue_step wr_queue_step)
  have "unat ((m_tail r + 1) mod m_size r) = (unat (m_head r) + length (xs @ [item])) mod n"
    using unat_next [of "m_tail r" "m_size r"] tl r(4,7) by (simp add: mod_simps)
  moreover have "unat (m_nItems r + 1) = length (xs @ [item])"
    using unat_Suc64 [of "m_nItems r" "m_size r"] r(4,8) assms(3) by simp
  moreover have "a[unat (m_tail r) := item] ! ((unat (m_head r) + i) mod n) = (xs @ [item]) ! i"
    if "i < length (xs @ [item])" for i
  proof (cases "i = length xs")
    case True
    with r(5,7) tl show ?thesis by simp
  next
    case False
    with that have i: "i < length xs" by simp
    have "(unat (m_head r) + i) mod n \<noteq> unat (m_tail r)"
    proof
      assume "(unat (m_head r) + i) mod n = unat (m_tail r)"
      with r(7) have "(unat (m_head r) + length xs) mod n = (unat (m_head r) + i) mod n" by simp
      then have "n dvd length xs - i" using i by (subst (asm) mod_eq_dvd_iff_nat) simp_all
      with i assms(3) show False by (auto dest: dvd_imp_le)
    qed
    with r(9) [OF i] i show ?thesis by (simp add: nth_append)
  qed
  ultimately have "queue_rep n ?s q (xs @ [item])"
    using r assms(3) unfolding queue_rep_def by (intro exI [of _ ?r]) simp
  then show ?thesis using run by (auto simp: queue_frame_def)
qed

lemma QueueInsert_full:
  assumes "queue_rep n s q xs" and "item \<noteq> NULL" and "length xs = n"
  shows "QueueInsert q item s = Inr (QERR_OVERFLOW, s)"
  using assms by (auto simp: queue_rep_def QueueInsert_def rd_queue_step unat_arith_simps(3))

lemma QueueRemove_ok:
  assumes "queue_rep n s q (x # xs)"
  shows "\<exists>s'. QueueRemove q s = Inr ((QERR_OK, Some x), s') \<and> queue_rep n s' q xs \<and>
    queue_frame q s s'"
proof -
  obtain r a where r: "q \<noteq> NULL" "queues s q = Some r" "m_queueArray r = Some a"
    "unat (m_size r) = n" "length a = n" "unat (m_head r) < n"
    "unat (m_tail r) = (unat (m_head r) + Suc (length xs)) mod n" "unat (m_nItems r) = Suc (length xs)"
    "Suc (length xs) \<le> n"
    "\<And>i. i < Suc (length xs) \<Longrightarrow> a ! ((unat (m_head r) + i) mod n) = (x # xs) ! i"
    "m_magicNumber r = MEGIC_NUM"
    using assms by (auto simp: queue_rep_def)
  let ?r = "r\<lparr>m_head := (m_head r + 1) mod m_size r, m_nItems := m_nItems r - 1\<rparr>"
  let ?s = "s\<lparr>queues := (queues s)(q \<mapsto> ?r)\<rparr>"
  have x: "a ! unat (m_head r) = x" using r(10) [of 0] r(6) by simp
  have "m_size r \<noteq> 0" using r(4,6) by auto
  then have run: "QueueRemove q s = Inr ((QERR_OK, Some x), ?s)"
    using r x by (simp add: QueueRemove_def rd_queue_step wr_queue_step)
  have h: "unat ((m_head r + 1) mod m_size r) = (unat (m_head r) + 1) mod n"
    using unat_next [of "m_head r" "m_size r"] r(4,6) by simp
  have k: "unat (m_nItems r - 1) = length xs"
    using r(8) by (simp add: unat_sub_if' word_le_nat_alt)
  have c: "a ! (((unat (m_head r) + 1) mod n + i) mod n) = xs ! i" if "i < length xs" for i
    using r(10) [of "Suc i"] that by (simp add: mod_simps)
  have "queue_rep n ?s q xs"
    using r h k c unfolding queue_rep_def by (intro exI [of _ ?r] exI [of _ a]) (simp add: mod_simps)
  then show ?thesis using run by (auto simp: queue_frame_def)
qed

text \<open>
  The code never initialises head, tail and item count: the queue is usable when \<open>malloc\<close>
  returns zeroed memory.
\<close>

definition zeroed :: "'a cmem_scheme \<Rightarrow> bool" where
  "zeroed s \<longleftrightarrow> (\<forall>a i. junk s a i = 0)"

lemma zeroed_quiet: "zeroed s \<Longrightarrow> quiet s"
  by (simp add: zeroed_def quiet_def)

text \<open>What \<open>malloc\<close> left in field \<open>i\<close> of the next queue.\<close>

definition leftover :: "'a queue_mem_scheme \<Rightarrow> nat \<Rightarrow> u64" where
  "leftover s i = of_nat (junk s (brk s) i)"

lemma QueueCreate_rep:
  assumes "1 < sz" and "enough_mem s" and "0 < brk s"
    and "leftover s 4 = 0" "leftover s 3 = leftover s 2" "leftover s 2 < sz"
  shows "\<exists>s'. QueueCreate sz s = Inr (brk s, s') \<and> queue_rep (unat sz) s' (brk s) [] \<and>
    s' = s\<lparr>brk := brk s', queues := queues s'\<rparr> \<and> brk s < brk s' \<and>
    (\<forall>q. q \<noteq> brk s \<longrightarrow> queues s' q = queues s q)"
proof -
  have "\<not> sz \<le> 1" "0 < unat sz" "unat (leftover s 2) < unat sz"
    using assms(1,6) by (simp_all add: word_less_nat_alt word_le_nat_alt)
  with assms(2-5) show ?thesis
    by (simp add: QueueCreate_def malloc_queue_def malloc_def enough_mem_def wr_queue_step queue_rep_def leftover_def)
qed

lemma QueueCreate_ok:
  assumes "1 < sz" and "zeroed s" and "enough_mem s" and "0 < brk s"
  shows "\<exists>s'. QueueCreate sz s = Inr (brk s, s') \<and> queue_rep (unat sz) s' (brk s) [] \<and>
    s' = s\<lparr>brk := brk s', queues := queues s'\<rparr> \<and> brk s < brk s' \<and>
    (\<forall>q. q \<noteq> brk s \<longrightarrow> queues s' q = queues s q)"
proof (rule QueueCreate_rep [OF assms(1,3,4)])
  show "leftover s 4 = 0" "leftover s 3 = leftover s 2" "leftover s 2 < sz"
    using assms(1,2) by (simp_all add: leftover_def zeroed_def word_less_nat_alt)
qed

text \<open>The field \<open>m_tail\<close> that was never set is used as an index.\<close>

lemma QueueInsert_uninitialised:
  assumes "1 < sz" and "enough_mem s" and "0 < brk s" and "leftover s 4 \<noteq> sz" and "sz \<le> leftover s 3" and "x \<noteq> NULL"
  shows "\<exists>q s1. QueueCreate sz s = Inr (q, s1) \<and> QueueInsert q x s1 = Inl BadAddress"
proof -
  have "\<not> sz \<le> 1" "unat sz \<le> unat (leftover s 3)"
    using assms(1,5) by (simp_all add: word_less_nat_alt word_le_nat_alt)
  with assms show ?thesis
    by (simp add: QueueCreate_def malloc_queue_def malloc_def enough_mem_def wr_queue_step QueueInsert_def rd_queue_step leftover_def)
qed

lemma QueueCreate_small: "sz \<le> 1 \<Longrightarrow> QueueCreate sz s = Inr (NULL, s)"
  by (simp add: QueueCreate_def)

lemma QueueIsEmpty_ok:
  assumes "queue_rep n s q xs"
  shows "QueueIsEmpty q s = Inr (if xs = [] then 1 else 0, s)"
proof -
  obtain r where r: "q \<noteq> NULL" "queues s q = Some r" "m_queueArray r \<noteq> None"
    "unat (m_head r) < n" "unat (m_tail r) = (unat (m_head r) + length xs) mod n"
    "unat (m_nItems r) = length xs" "m_magicNumber r = MEGIC_NUM"
    using assms by (auto simp: queue_rep_def)
  have k: "m_nItems r = 0 \<longleftrightarrow> xs = []" using r(6) by (metis length_0_conv unat_eq_zero)
  have "m_head r = m_tail r" if "xs = []" using that r(4,5) by (simp add: word_unat_eq_iff)
  with r(1,2,3,7) k show ?thesis by (auto simp: QueueIsEmpty_def rd_queue_step)
qed

text \<open>Removing never fails on a valid ring: an empty queue hands out whatever is in its slots.\<close>

lemma QueueRemove_ring:
  assumes "ring_at s q a h k"
  shows "\<exists>s'. QueueRemove q s = Inr ((QERR_OK, Some (a ! h)), s') \<and>
    ring_at s' q a (Suc h mod length a) (k - 1) \<and> queue_frame q s s'"
proof -
  obtain r where r: "q \<noteq> NULL" "queues s q = Some r" "m_queueArray r = Some a"
    "unat (m_size r) = length a" "a \<noteq> []" "unat (m_head r) = h" "h < length a" "m_nItems r = k"
    "m_magicNumber r = MEGIC_NUM"
    using assms by (auto simp: ring_at_def)
  let ?r = "r\<lparr>m_head := (m_head r + 1) mod m_size r, m_nItems := m_nItems r - 1\<rparr>"
  let ?s = "s\<lparr>queues := (queues s)(q \<mapsto> ?r)\<rparr>"
  have "m_size r \<noteq> 0" using r(4,5) by auto
  then have run: "QueueRemove q s = Inr ((QERR_OK, Some (a ! h)), ?s)"
    using r by (simp add: QueueRemove_def rd_queue_step wr_queue_step)
  have "unat ((m_head r + 1) mod m_size r) = Suc h mod length a"
    using unat_next [of "m_head r" "m_size r"] r(4,6,7) by simp
  then have "ring_at ?s q a (Suc h mod length a) (k - 1)"
    using r unfolding ring_at_def by simp
  then show ?thesis using run by (auto simp: queue_frame_def)
qed

lemma queue_rep_ring:
  assumes "queue_rep n s q xs"
  shows "\<exists>a h. ring_at s q a h (of_nat (length xs)) \<and> length a = n \<and>
    (\<forall>i < length xs. a ! ((h + i) mod n) = xs ! i)"
proof -
  obtain r a where r: "queues s q = Some r" "q \<noteq> NULL" "m_queueArray r = Some a" "length a = n"
    "unat (m_size r) = n" "0 < n" "unat (m_head r) < n" "unat (m_nItems r) = length xs"
    "m_magicNumber r = MEGIC_NUM" "\<forall>i < length xs. a ! ((unat (m_head r) + i) mod n) = xs ! i"
    using assms by (auto simp: queue_rep_def)
  have "m_nItems r = of_nat (length xs)" by (simp flip: r(8))
  with r show ?thesis unfolding ring_at_def by (intro exI [of _ a] exI [of _ "unat (m_head r)"]) auto
qed

section \<open>The contract of a bounded queue\<close>

text \<open>
  \<open>rep s q xs\<close>: the queue \<open>q\<close> holds \<open>xs\<close>; \<open>same q s s'\<close>: at most \<open>q\<close> changed between the
  two states.
\<close>

locale bounded_fifo =
  fixes rep :: "'s \<Rightarrow> addr \<Rightarrow> addr list \<Rightarrow> bool" and cap :: nat
    and enq :: "addr \<Rightarrow> addr \<Rightarrow> ('s, QueueErr) prog"
    and deq :: "addr \<Rightarrow> ('s, QueueErr \<times> addr option) prog"
    and same :: "addr \<Rightarrow> 's \<Rightarrow> 's \<Rightarrow> bool"
  assumes same_refl: "same q s s"
    and same_trans: "same q s s' \<Longrightarrow> same q s' s'' \<Longrightarrow> same q s s''"
    and enq_ok: "rep s q xs \<Longrightarrow> x \<noteq> NULL \<Longrightarrow> length xs < cap \<Longrightarrow>
      \<exists>s'. enq q x s = Inr (QERR_OK, s') \<and> rep s' q (xs @ [x]) \<and> same q s s'"
    and enq_full: "rep s q xs \<Longrightarrow> x \<noteq> NULL \<Longrightarrow> length xs = cap \<Longrightarrow>
      enq q x s = Inr (QERR_OVERFLOW, s)"
    and deq_ok: "rep s q (x # xs) \<Longrightarrow>
      \<exists>s'. deq q s = Inr ((QERR_OK, Some x), s') \<and> rep s' q xs \<and> same q s s'"

text \<open>Sequences of operations; a result other than \<open>QERR_OK\<close> ends them.\<close>

fun enq_all ::
  "(addr \<Rightarrow> addr \<Rightarrow> ('s, QueueErr) prog) \<Rightarrow> addr \<Rightarrow> addr list \<Rightarrow> ('s, QueueErr) prog" where
  "enq_all enq q [] = ret QERR_OK"
| "enq_all enq q (x # xs) =
     chain (enq q x) (\<lambda>e. if e = QERR_OK then enq_all enq q xs else ret e)"

fun deq_all ::
  "(addr \<Rightarrow> ('s, QueueErr \<times> addr option) prog) \<Rightarrow> addr \<Rightarrow> nat \<Rightarrow> ('s, addr list) prog" where
  "deq_all deq q 0 = ret []"
| "deq_all deq q (Suc n) =
     chain (deq q) (\<lambda>(e, x). case x of None \<Rightarrow> ret []
       | Some y \<Rightarrow> chain (deq_all deq q n) (\<lambda>ys. ret (y # ys)))"

context bounded_fifo
begin

lemma enq_all_ok:
  assumes "rep s q xs" and "NULL \<notin> set ys" and "length xs + length ys \<le> cap"
  shows "\<exists>s'. enq_all enq q ys s = Inr (QERR_OK, s') \<and> rep s' q (xs @ ys) \<and> same q s s'"
  using assms
proof (induction ys arbitrary: s xs)
  case Nil
  then show ?case by (auto intro: same_refl)
next
  case (Cons y ys)
  then have y: "y \<noteq> NULL" "length xs < cap" by auto
  obtain s1 where s1: "enq q y s = Inr (QERR_OK, s1)" "rep s1 q (xs @ [y])" "same q s s1"
    using enq_ok [OF Cons.prems(1) y] by blast
  from Cons.IH [OF s1(2)] Cons.prems(2,3)
  obtain s2 where "enq_all enq q ys s1 = Inr (QERR_OK, s2)" "rep s2 q (xs @ y # ys)" "same q s1 s2"
    by auto
  with s1 show ?case by (auto intro: same_trans)
qed

lemma deq_all_ok:
  assumes "rep s q (xs @ ys)"
  shows "\<exists>s'. deq_all deq q (length xs) s = Inr (xs, s') \<and> rep s' q ys \<and> same q s s'"
  using assms
proof (induction xs arbitrary: s)
  case Nil
  then show ?case by (auto intro: same_refl)
next
  case (Cons x xs)
  then obtain s1 where s1: "deq q s = Inr ((QERR_OK, Some x), s1)" "rep s1 q (xs @ ys)" "same q s s1"
    using deq_ok [of s q x "xs @ ys"] by auto
  from Cons.IH [OF s1(2)] obtain s2 where
    "deq_all deq q (length xs) s1 = Inr (xs, s2)" "rep s2 q ys" "same q s1 s2" by blast
  with s1 show ?case by (auto intro: same_trans)
qed

text \<open>First in, first out.\<close>

lemma fifo:
  assumes "rep s q []" and "NULL \<notin> set xs" and "length xs \<le> cap"
  shows "\<exists>s' s''. enq_all enq q xs s = Inr (QERR_OK, s') \<and>
    deq_all deq q (length xs) s' = Inr (xs, s'') \<and> rep s'' q [] \<and> same q s s''"
proof -
  obtain s1 where s1: "enq_all enq q xs s = Inr (QERR_OK, s1)" "rep s1 q xs" "same q s s1"
    using enq_all_ok [OF assms(1,2)] assms(3) by auto
  from deq_all_ok [of s1 q xs "[]"] s1(2) obtain s2 where
    "deq_all deq q (length xs) s1 = Inr (xs, s2)" "rep s2 q []" "same q s1 s2" by auto
  with s1 show ?thesis by (blast intro: same_trans)
qed

end

interpretation ring: bounded_fifo "queue_rep n" n QueueInsert QueueRemove queue_frame for n
  by unfold_locales
    (blast intro: queue_frame_refl queue_frame_trans QueueInsert_ok QueueInsert_full QueueRemove_ok)+

end
