(* ===== verification/PoolAddr.thy ===== *)
theory PoolAddr
  imports GenericQueue
begin

text \<open>
  The pool of multicast addresses of \<^verbatim>\<open>src/PoolAddr/PoolMultyCastAdd.c\<close>: a queue of 50 strings
  "229.1.0.1" to "229.1.0.50". Creating the pool rests on the contract \<open>bounded_fifo\<close> of the
  queue; \<open>pool_rep s p ps k\<close> is the state after \<open>k\<close> addresses were handed out, for any \<open>k\<close>,
  because the queue never reports that it is empty.
\<close>

section \<open>Data and operations\<close>

record IP_Pool_Addr =
  m_queue_addr :: addr
  m_poolSize :: u64

record pool_mem = queue_mem +
  pools :: "addr \<Rightarrow> IP_Pool_Addr option"

datatype IP_Addr_Err = ADDR_NOT_EXIST | ADDR_INSERT_FAIL | ADDR_SUCCESS

definition POOL_CAPACITY :: nat where
  "POOL_CAPACITY = 50"

definition STRING_SIZE :: nat where
  "STRING_SIZE = 17"

definition rd_pool :: "addr \<Rightarrow> ('a pool_mem_scheme, IP_Pool_Addr) prog" where
  "rd_pool p = (\<lambda>s. if p = NULL then Inl NullDeref
     else case pools s p of None \<Rightarrow> Inl BadAddress | Some r \<Rightarrow> Inr (r, s))"

definition wr_pool :: "addr \<Rightarrow> (IP_Pool_Addr \<Rightarrow> IP_Pool_Addr) \<Rightarrow> ('a pool_mem_scheme, unit) prog" where
  "wr_pool p f = chain (rd_pool p) (\<lambda>r s. Inr ((), s\<lparr>pools := (pools s)(p \<mapsto> f r)\<rparr>))"

definition malloc_pool :: "('a pool_mem_scheme, addr) prog" where
  "malloc_pool = chain (malloc 1) (\<lambda>p s.
     if p = NULL then Inr (NULL, s)
     else Inr (p, s\<lparr>pools := (pools s)(p \<mapsto>
       \<lparr>m_queue_addr = junk s p 0, m_poolSize = of_nat (junk s p 1)\<rparr>)\<rparr>))"

definition free_pool :: "addr \<Rightarrow> ('a pool_mem_scheme, unit) prog" where
  "free_pool p = (\<lambda>s. if p = NULL then Inr ((), s)
     else if pools s p = None then Inl BadFree
     else Inr ((), s\<lparr>pools := (pools s)(p := None)\<rparr>))"

text \<open>The format \<open>229.1.%d.%d\<close>, with numbers in decimal (48 is the character 0, 46 the dot).\<close>

fun dec :: "nat \<Rightarrow> u8 list" where
  "dec n = (if n < 10 then [of_nat (48 + n)] else dec (n div 10) @ [of_nat (48 + n mod 10)])"

declare dec.simps [simp del]

definition ip_string :: "u8 \<Rightarrow> u8 \<Rightarrow> u8 list" where
  "ip_string addr0 addr1 = [50, 50, 57, 46, 49, 46] @ dec (unat addr0) @ [46] @ dec (unat addr1)"

text \<open>The loop of \<open>InsertAllIPAddrToList\<close> with \<open>k\<close> rounds left.\<close>

fun insert_addresses :: "nat \<Rightarrow> addr \<Rightarrow> u8 \<Rightarrow> u8 \<Rightarrow> ('a pool_mem_scheme, int) prog" where
  "insert_addresses 0 p addr0 addr1 = ret 1"
| "insert_addresses (Suc k) p addr0 addr1 =
     chain (malloc_bytes STRING_SIZE) (\<lambda>newIP.
     if newIP = NULL
     then chain (rd_pool p) (\<lambda>r. chain (QueueDestroy (m_queue_addr r)) (\<lambda>_. ret (- 1)))
     else
       chain (put_bytes newIP (ip_string addr0 addr1 @ [0])) (\<lambda>_.
       chain (rd_pool p) (\<lambda>r.
       chain (QueueInsert (m_queue_addr r) newIP) (\<lambda>res.
       if res \<noteq> QERR_OK then chain (QueueDestroy (m_queue_addr r)) (\<lambda>_. ret (- 1))
       else if addr1 + 1 = 255 then insert_addresses k p (addr0 + 1) 1
       else insert_addresses k p addr0 (addr1 + 1)))))"

definition InsertAllIPAddrToList :: "addr \<Rightarrow> ('a pool_mem_scheme, int) prog" where
  "InsertAllIPAddrToList p = insert_addresses POOL_CAPACITY p 0 1"

definition CreateIP_Multecaste :: "('a pool_mem_scheme, addr) prog" where
  "CreateIP_Multecaste =
     chain malloc_pool (\<lambda>newQueue.
     if newQueue = NULL then ret NULL
     else
       chain (QueueCreate (of_nat POOL_CAPACITY)) (\<lambda>q.
       chain (wr_pool newQueue (\<lambda>r. r\<lparr>m_queue_addr := q\<rparr>)) (\<lambda>_.
       if q = NULL then ret NULL
       else
         chain (wr_pool newQueue (\<lambda>r. r\<lparr>m_poolSize := of_nat POOL_CAPACITY\<rparr>)) (\<lambda>_.
         chain (InsertAllIPAddrToList newQueue) (\<lambda>_.
         ret newQueue)))))"

definition DestroyIP_Multycaste :: "addr \<Rightarrow> ('a pool_mem_scheme, unit) prog" where
  "DestroyIP_Multycaste p =
     (if p = NULL then ret ()
      else
        chain (rd_pool p) (\<lambda>r.
        chain (QueueDestroy (m_queue_addr r)) (\<lambda>_.
        free_pool p)))"

definition GetIPAddress :: "addr \<Rightarrow> addr \<Rightarrow> ('a pool_mem_scheme, IP_Addr_Err) prog" where
  "GetIPAddress p ipAddr =
     (if p = NULL then ret ADDR_INSERT_FAIL
      else
        chain (rd_pool p) (\<lambda>r.
        chain (QueueRemove (m_queue_addr r)) (\<lambda>(err, res).
        if err \<noteq> QERR_OK then ret ADDR_INSERT_FAIL
        else
          chain (strcpy ipAddr (the res)) (\<lambda>_.
          chain (wr_pool p (\<lambda>r. r\<lparr>m_poolSize := m_poolSize r - 1\<rparr>)) (\<lambda>_.
          ret ADDR_SUCCESS)))))"

text \<open>
  The \<open>char**\<close> parameter is \<open>None\<close> for a null pointer, else \<open>*_Ipaddress\<close>; the second result
  is its new value. The test \<open>NULL == *_Ipaddress\<close> stands before the one of \<open>_Ipaddress\<close>.
\<close>

definition ReturnIPAddress ::
  "addr \<Rightarrow> addr option \<Rightarrow> ('a pool_mem_scheme, IP_Addr_Err \<times> addr option) prog" where
  "ReturnIPAddress p ip =
     (if p = NULL then ret (ADDR_NOT_EXIST, ip)
      else
        case ip of
          None \<Rightarrow> fail NullDeref
        | Some a \<Rightarrow>
            if a = NULL then ret (ADDR_NOT_EXIST, ip)
            else
              chain (rd_pool p) (\<lambda>r.
              chain (QueueInsert (m_queue_addr r) a) (\<lambda>res.
              if res \<noteq> QERR_OK
              then chain (QueueDestroy (m_queue_addr r)) (\<lambda>_. ret (ADDR_INSERT_FAIL, ip))
              else ret (ADDR_SUCCESS, Some NULL))))"

section \<open>Address strings\<close>

lemma digit: "m < 10 \<Longrightarrow> unat (of_nat (48 + m) :: u8) = 48 + m"
  by (simp add: unat_of_nat del: of_nat_add of_nat_numeral)

lemma dec_digits: "c \<in> set (dec n) \<Longrightarrow> 48 \<le> unat c \<and> unat c < 58"
proof (induction n rule: dec.induct)
  case (1 n)
  then show ?case using digit [of n] digit [of "n mod 10"]
    by (subst (asm) (2) dec.simps) (auto split: if_splits)
qed

lemma dec_no_zero: "0 \<notin> set (dec n)" "46 \<notin> set (dec n)"
  using dec_digits [of 0 n] dec_digits [of 46 n] by auto

lemma dec_length: "n < 1000 \<Longrightarrow> length (dec n) \<le> 3"
  by (subst dec.simps, subst dec.simps, subst dec.simps) auto

fun undec :: "u8 list \<Rightarrow> nat \<Rightarrow> nat" where
  "undec [] v = v"
| "undec (c # cs) v = undec cs (10 * v + (unat c - 48))"

lemma undec_append: "undec (xs @ ys) v = undec ys (undec xs v)"
  by (induction xs arbitrary: v) simp_all

lemma undec_dec: "undec (dec n) 0 = n"
proof (induction n rule: dec.induct)
  case (1 n)
  then show ?case using digit [of n] digit [of "n mod 10"]
    by (subst dec.simps) (simp add: undec_append)
qed

lemma dec_inject: "dec m = dec n \<longleftrightarrow> m = n"
  by (metis undec_dec)

lemma ip_string_inject: "ip_string a0 a1 = ip_string b0 b1 \<longleftrightarrow> a0 = b0 \<and> a1 = b1"
proof
  assume "ip_string a0 a1 = ip_string b0 b1"
  then have e: "dec (unat a0) @ 46 # dec (unat a1) = dec (unat b0) @ 46 # dec (unat b1)"
    by (simp add: ip_string_def)
  have "takeWhile (\<lambda>c. c \<noteq> 46) (dec (unat a0) @ 46 # dec (unat a1)) = dec (unat a0)"
    "takeWhile (\<lambda>c. c \<noteq> 46) (dec (unat b0) @ 46 # dec (unat b1)) = dec (unat b0)"
    using dec_no_zero by (auto simp: takeWhile_append)
  with e have "dec (unat a0) = dec (unat b0)" by metis
  with e show "a0 = b0 \<and> a1 = b1" by (simp add: dec_inject word_unat_eq_iff)
qed simp

lemma ip_string_zero: "0 \<notin> set (ip_string a0 a1)"
  using dec_no_zero by (simp add: ip_string_def)

lemma ip_string_length: "length (ip_string a0 a1) \<le> 13"
proof -
  have "unat (a :: u8) < 1000" for a using unsigned_less [where 'a = nat, of a] by simp
  then have "length (dec (unat a0)) \<le> 3" "length (dec (unat a1)) \<le> 3" by (simp_all add: dec_length)
  then show ?thesis by (simp add: ip_string_def)
qed

section \<open>Filling the pool\<close>

lemma rd_pool_step [c_step]: "p \<noteq> NULL \<Longrightarrow> pools s p = Some r \<Longrightarrow> rd_pool p s = Inr (r, s)"
  by (simp add: rd_pool_def)

lemma wr_pool_step [c_step]:
  "p \<noteq> NULL \<Longrightarrow> pools s p = Some r \<Longrightarrow> wr_pool p f s = Inr ((), s\<lparr>pools := (pools s)(p \<mapsto> f r)\<rparr>)"
  by (simp add: wr_pool_def rd_pool_step)

lemma queue_rep_cong: "queues s' q = queues s q \<Longrightarrow> queue_rep n s' q xs = queue_rep n s q xs"
  by (simp add: queue_rep_def)

text \<open>
  \<open>grown s s'\<close>: memory was allocated and new blocks were filled; nothing that existed in the
  byte memory changed.
\<close>

definition grown :: "'a cmem_scheme \<Rightarrow> 'a cmem_scheme \<Rightarrow> bool" where
  "grown s s' \<longleftrightarrow> brk s \<le> brk s' \<and> (\<forall>a < brk s. bytes s' a = bytes s a) \<and>
     oom s' = oom s \<and> junk s' = junk s"

lemma grown_refl [simp]: "grown s s"
  by (simp add: grown_def)

lemma grown_trans: "grown s s' \<Longrightarrow> grown s' s'' \<Longrightarrow> grown s s''"
  by (auto simp: grown_def)

lemma grown_env:
  "grown s s' \<Longrightarrow> enough_mem s' = enough_mem s" "grown s s' \<Longrightarrow> zeroed s' = zeroed s"
  "grown s s' \<Longrightarrow> quiet s' = quiet s"
  by (simp_all add: grown_def enough_mem_def zeroed_def quiet_def)

lemma str_at_grown: "str_at s a xs \<Longrightarrow> grown s s' \<Longrightarrow> str_at s' a xs"
  by (rule str_at_cong) (auto simp: grown_def str_at_def)

text \<open>Allocating a block of \<open>n\<close> bytes and storing a string of less than \<open>n\<close> characters in it.\<close>

lemma new_string:
  assumes wf: "wf_bytes s" and mem: "enough_mem s" and len: "length xs < n" and nz: "0 \<notin> set xs"
  obtains s' where "chain (malloc_bytes n) (\<lambda>p. if p = NULL then f
      else chain (put_bytes p (xs @ [0])) (\<lambda>_. g p)) s = g (brk s) s'"
    "str_at s' (brk s) xs" "grown s s'" "wf_bytes s'" "s' = s\<lparr>brk := brk s + n + 1, bytes := bytes s'\<rparr>"
    "\<forall>i < n. bytes s' (brk s + i) \<noteq> None"
proof -
  let ?p = "brk s"
  let ?s1 = "s\<lparr>brk := ?p + n + 1, bytes := map_bytes ?p (junk_bytes (junk s) ?p n) (bytes s)\<rparr>"
  let ?s2 = "?s1\<lparr>bytes := map_bytes ?p (xs @ [0]) (bytes ?s1)\<rparr>"
  have p: "0 < ?p" using wf by (simp add: wf_bytes_def)
  have m: "malloc_bytes n s = Inr (?p, ?s1)"
    using malloc_bytes_step [of s n] p mem by (simp add: enough_mem_def)
  have "put_bytes ?p (xs @ [0]) ?s1 = Inr ((), ?s2)"
    by (rule put_bytes_ok) (use p len in \<open>auto simp: map_bytes_in\<close>)
  with m p have run: "chain (malloc_bytes n) (\<lambda>p. if p = NULL then f
      else chain (put_bytes p (xs @ [0])) (\<lambda>_. g p)) s = g ?p ?s2" by simp
  have "str_at ?s2 ?p xs" by (rule str_at_map_bytes) (use p nz len in simp_all)
  moreover have "grown s ?s2" by (simp add: grown_def map_bytes_out)
  moreover have "wf_bytes ?s2" using wf len by (auto simp: wf_bytes_def map_bytes_out)
  moreover have "\<forall>i < n. bytes ?s2 (?p + i) \<noteq> None"
    by (auto simp: map_bytes_def)
  ultimately show ?thesis by (intro that [OF run]) simp_all
qed

lemma insert_addresses_ok:
  assumes "p \<noteq> NULL" and "pools s p = Some r" and "queue_rep 50 s (m_queue_addr r) xs"
    and "length xs + k \<le> 50" and "wf_bytes s" and "enough_mem s" and "unat a1 + k < 255"
  shows "\<exists>s' ys. insert_addresses k p a0 a1 s = Inr (1, s') \<and>
    queue_rep 50 s' (m_queue_addr r) (xs @ ys) \<and> length ys = k \<and>
    (\<forall>i < k. brk s \<le> ys ! i \<and> str_at s' (ys ! i) (ip_string a0 (a1 + of_nat i))) \<and>
    sorted_wrt (\<lambda>a b. a + STRING_SIZE \<le> b) (ys @ [brk s']) \<and>
    grown s s' \<and> wf_bytes s' \<and> s' = s\<lparr>brk := brk s', bytes := bytes s', queues := queues s'\<rparr> \<and>
    (\<forall>q. q \<noteq> m_queue_addr r \<longrightarrow> queues s' q = queues s q)"
  using assms(2-)
proof (induction k arbitrary: s xs a1)
  case 0
  then show ?case by (intro exI [of _ s]) simp
next
  case (Suc k)
  let ?q = "m_queue_addr r" and ?str = "ip_string a0 a1"
  have "length ?str < STRING_SIZE" using ip_string_length [of a0 a1] by (simp add: STRING_SIZE_def)
  note new = new_string [OF Suc.prems(4,5) this ip_string_zero]
  let ?g = "\<lambda>a. chain (rd_pool p) (\<lambda>r. chain (QueueInsert (m_queue_addr r) a) (\<lambda>res.
       if res \<noteq> QERR_OK then chain (QueueDestroy (m_queue_addr r)) (\<lambda>_. ret (- 1))
       else if a1 + 1 = 255 then insert_addresses k p (a0 + 1) 1
       else insert_addresses k p a0 (a1 + 1)))"
  obtain s1 where s1: "insert_addresses (Suc k) p a0 a1 s = ?g (brk s) s1"
    "str_at s1 (brk s) ?str" "grown s s1" "wf_bytes s1"
    "s1 = s\<lparr>brk := brk s + STRING_SIZE + 1, bytes := bytes s1\<rparr>"
    unfolding insert_addresses.simps by (rule new [of _ ?g]) blast
  obtain b1 y1 where e1: "s1 = s\<lparr>brk := b1, bytes := y1\<rparr>" using s1(5) by blast
  have "queue_rep 50 s1 ?q xs" using Suc.prems(2) e1 by (simp add: queue_rep_def)
  moreover have p: "brk s \<noteq> NULL" using Suc.prems(4) by (simp add: wf_bytes_def)
  ultimately obtain s2 where s2: "QueueInsert ?q (brk s) s1 = Inr (QERR_OK, s2)"
    "queue_rep 50 s2 ?q (xs @ [brk s])" "queue_frame ?q s1 s2"
    using QueueInsert_ok [of 50 s1 ?q xs "brk s"] Suc.prems(3) by auto
  obtain q2 where e2: "s2 = s1\<lparr>queues := (queues s1)(?q := q2)\<rparr>"
    using s2(3) by (auto simp: queue_frame_def)
  have "unat (a1 + 1) = unat a1 + 1" using Suc.prems(6) by (simp add: unat_word_ariths)
  moreover have n255: "a1 + 1 \<noteq> 255"
  proof
    assume "a1 + 1 = 255"
    then have "unat (a1 + 1) = 255" by simp
    with Suc.prems(6) calculation show False by simp
  qed
  ultimately have IHs: "\<exists>s' ys. insert_addresses k p a0 (a1 + 1) s2 = Inr (1, s') \<and>
    queue_rep 50 s' ?q ((xs @ [brk s]) @ ys) \<and> length ys = k \<and>
    (\<forall>i < k. brk s2 \<le> ys ! i \<and> str_at s' (ys ! i) (ip_string a0 (a1 + 1 + of_nat i))) \<and>
    sorted_wrt (\<lambda>a b. a + STRING_SIZE \<le> b) (ys @ [brk s']) \<and>
    grown s2 s' \<and> wf_bytes s' \<and> s' = s2\<lparr>brk := brk s', bytes := bytes s', queues := queues s'\<rparr> \<and>
    (\<forall>q. q \<noteq> ?q \<longrightarrow> queues s' q = queues s2 q)"
    using Suc.prems e1 e2 s1(3,4) s2(2)
    by (intro Suc.IH) (auto simp: wf_bytes_def enough_mem_def)
  then obtain s' ys where s': "insert_addresses k p a0 (a1 + 1) s2 = Inr (1, s')"
    "queue_rep 50 s' ?q ((xs @ [brk s]) @ ys)" "length ys = k"
    "\<forall>i < k. brk s2 \<le> ys ! i \<and> str_at s' (ys ! i) (ip_string a0 (a1 + 1 + of_nat i))"
    "grown s2 s'" "wf_bytes s'" "s' = s2\<lparr>brk := brk s', bytes := bytes s', queues := queues s'\<rparr>"
    "\<forall>q. q \<noteq> ?q \<longrightarrow> queues s' q = queues s2 q"
    "sorted_wrt (\<lambda>a b. a + STRING_SIZE \<le> b) (ys @ [brk s'])" by blast
  have g12: "grown s1 s2" "brk s2 = brk s1" using e2 by (simp_all add: grown_def)
  have g: "grown s s'" using s1(3) g12(1) s'(5) by (blast intro: grown_trans)
  have run: "insert_addresses (Suc k) p a0 a1 s = Inr (1, s')"
    using s1(1) s2(1) s'(1) n255 assms(1) Suc.prems(1) e1 by (simp add: rd_pool_step)
  have "str_at s' (brk s) ?str" using str_at_grown [OF str_at_grown [OF s1(2) g12(1)] s'(5)] .
  then have "\<forall>i < Suc k. brk s \<le> (brk s # ys) ! i \<and>
      str_at s' ((brk s # ys) ! i) (ip_string a0 (a1 + of_nat i))"
    using s'(4) g12(2) s1(3) by (auto simp: nth_Cons grown_def ac_simps split: nat.splits)
  moreover obtain b y q where "s' = s2\<lparr>brk := b, bytes := y, queues := q\<rparr>" using s'(7) by blast
  then have "s' = s\<lparr>brk := brk s', bytes := bytes s', queues := queues s'\<rparr>" using e1 e2 by simp
  moreover have "\<forall>q. q \<noteq> ?q \<longrightarrow> queues s' q = queues s q" using s'(8) e1 e2 by simp
  moreover have "brk s2 = brk s + STRING_SIZE + 1" 
    using g12(2) arg_cong [OF s1(5), of brk] by simp
  then have "brk s + STRING_SIZE \<le> y" if "y \<in> set (ys @ [brk s'])" for y
    using that s'(3,4,5) by (fastforce simp: in_set_conv_nth grown_def)
  then have "sorted_wrt (\<lambda>a b. a + STRING_SIZE \<le> b) ((brk s # ys) @ [brk s'])" using s'(9) by simp
  ultimately show ?case using run s'(2,3,6) g
    by (intro exI [of _ s'] exI [of _ "brk s # ys"]) simp
qed

section \<open>The state of the pool\<close>

text \<open>
  After \<open>k\<close> calls of \<open>GetIPAddress\<close>: the ring still holds the 50 pointers \<open>ps\<close> (from the index
  \<open>h\<close> of the first one on), the head has moved \<open>k\<close> steps around, and the counters (64-bit
  words) were decremented \<open>k\<close> times.
\<close>

definition pool_region :: "addr list \<Rightarrow> addr set" where
  "pool_region ps = {a. \<exists>q \<in> set ps. q \<le> a \<and> a < q + STRING_SIZE}"

definition pool_rep :: "'a pool_mem_scheme \<Rightarrow> addr \<Rightarrow> addr list \<Rightarrow> nat \<Rightarrow> bool" where
  "pool_rep s p ps k \<longleftrightarrow> p \<noteq> NULL \<and> length ps = POOL_CAPACITY \<and>
     (\<exists>r a h. pools s p = Some r \<and> m_poolSize r = 50 - of_nat k \<and> length a = 50 \<and>
        ring_at s (m_queue_addr r) a ((h + k) mod 50) (50 - of_nat k) \<and>
        (\<forall>i < 50. a ! ((h + i) mod 50) = ps ! i)) \<and>
     (\<forall>i < POOL_CAPACITY. str_at s (ps ! i) (ip_string 0 (of_nat (i + 1))))"

lemma ring_at_cong: "queues s' q = queues s q \<Longrightarrow> ring_at s' q a h k = ring_at s q a h k"
  by (simp add: ring_at_def)

lemma pool_rep_frame:
  assumes rep: "pool_rep s p ps k" and "pools s' = pools s" and "queues s' = queues s"
    and "brk s \<le> brk s'" and "\<And>a. a \<in> pool_region ps \<Longrightarrow> bytes s' a = bytes s a"
  shows "pool_rep s' p ps k"
proof -
  have "str_at s' (ps ! i) (ip_string 0 (of_nat (i + 1)))" if i: "i < POOL_CAPACITY" for i
  proof (rule str_at_cong)
    show "str_at s (ps ! i) (ip_string 0 (of_nat (i + 1)))" using rep i by (simp add: pool_rep_def)
    fix j assume "j \<le> length (ip_string 0 (of_nat (i + 1)))"
    moreover have "ps ! i \<in> set ps" using rep i by (simp add: pool_rep_def)
    ultimately have "ps ! i + j \<in> pool_region ps"
      using ip_string_length [of 0 "of_nat (i + 1)"] unfolding pool_region_def STRING_SIZE_def
      by (intro CollectI bexI [of _ "ps ! i"]) auto
    then show "bytes s' (ps ! i + j) = bytes s (ps ! i + j)" by (rule assms(5))
  qed (rule assms(4))
  moreover have "ring_at s' = ring_at s" by (intro ext ring_at_cong) (simp add: assms(3))
  ultimately show ?thesis using rep assms(2) by (simp add: pool_rep_def)
qed

lemma pool_capacity [simp]: "of_nat POOL_CAPACITY = (50 :: u64)" "unat (50 :: u64) = 50"
  by (simp_all add: POOL_CAPACITY_def)

lemma CreateIP_ok:
  assumes wf: "wf_bytes s" and mem: "enough_mem s" and z: "zeroed s"
  shows "\<exists>s' ps. CreateIP_Multecaste s = Inr (brk s, s') \<and> pool_rep s' (brk s) ps 0 \<and>
    (\<forall>q \<in> set ps. brk s < q) \<and> sorted_wrt (\<lambda>a b. a + STRING_SIZE \<le> b) (ps @ [brk s']) \<and> grown s s' \<and> wf_bytes s' \<and>
    s' = s\<lparr>brk := brk s', bytes := bytes s', queues := queues s', pools := pools s'\<rparr>"
proof -
  let ?p = "brk s"
  have p: "0 < ?p" using wf by (simp add: wf_bytes_def)
  let ?s1 = "s\<lparr>brk := ?p + 2, pools := (pools s)(?p \<mapsto> \<lparr>m_queue_addr = junk s ?p 0,
      m_poolSize = of_nat (junk s ?p 1)\<rparr>)\<rparr>"
  have m: "malloc_pool s = Inr (?p, ?s1)"
    using p mem by (simp add: malloc_pool_def malloc_def enough_mem_def)
  obtain s2 where s2: "QueueCreate 50 ?s1 = Inr (?p + 2, s2)" "queue_rep 50 s2 (?p + 2) []"
    "s2 = ?s1\<lparr>brk := brk s2, queues := queues s2\<rparr>" "?p + 2 < brk s2"
    using QueueCreate_ok [of 50 ?s1] z mem by (auto simp: zeroed_def enough_mem_def)
  obtain b2 q2 where e2: "s2 = ?s1\<lparr>brk := b2, queues := q2\<rparr>" using s2(3) by blast
  let ?r = "\<lparr>m_queue_addr = ?p + 2, m_poolSize = 50\<rparr>"
  let ?s3 = "s2\<lparr>pools := (pools s2)(?p \<mapsto> ?r)\<rparr>"
  have "queue_rep 50 ?s3 (?p + 2) []" using s2(2) by (simp add: queue_rep_def)
  then obtain s4 ys where s4: "insert_addresses 50 ?p 0 1 ?s3 = Inr (1, s4)"
    "queue_rep 50 s4 (?p + 2) ys" "length ys = 50"
    "\<forall>i < 50. brk ?s3 \<le> ys ! i \<and> str_at s4 (ys ! i) (ip_string 0 (1 + of_nat i))"
    "grown ?s3 s4" "wf_bytes s4"
    "s4 = ?s3\<lparr>brk := brk s4, bytes := bytes s4, queues := queues s4\<rparr>"
    "sorted_wrt (\<lambda>a b. a + STRING_SIZE \<le> b) (ys @ [brk s4])"
    using insert_addresses_ok [of ?p ?s3 ?r "[]" 50 1 0] p wf mem e2 s2(4)
    by (auto simp: wf_bytes_def enough_mem_def)
  obtain b4 y4 q4 where e4: "s4 = ?s3\<lparr>brk := b4, bytes := y4, queues := q4\<rparr>" using s4(7) by blast
  have run: "CreateIP_Multecaste s = Inr (?p, s4)"
    using m p s2(1) s4(1) e2
    by (simp add: CreateIP_Multecaste_def InsertAllIPAddrToList_def wr_pool_step)
      (simp add: POOL_CAPACITY_def)
  obtain a h where ring: "ring_at s4 (?p + 2) a h 50" "length a = 50"
    "\<forall>i < 50. a ! ((h + i) mod 50) = ys ! i"
    using queue_rep_ring [OF s4(2)] s4(3) by auto
  have h: "h < 50" using ring by (auto simp: ring_at_def)
  have inr: "ys ! i \<in> set ys" if "i < 50" for i using that s4(3) by simp
  have "pool_rep s4 ?p ys 0"
    unfolding pool_rep_def using p e2 e4 ring h s4(3,4)
    by (auto simp: POOL_CAPACITY_def intro!: exI [of _ a] exI [of _ h])
  moreover have "\<forall>q \<in> set ys. ?p < q" using s4(3,4) s2(4) e2 by (fastforce simp: in_set_conv_nth)
  moreover have "grown s s4" using s4(5) s2(4) e2 by (auto simp: grown_def)
  moreover have "s4 = s\<lparr>brk := brk s4, bytes := bytes s4, queues := queues s4, pools := pools s4\<rparr>"
    using e4 e2 by simp
  ultimately show ?thesis using run s4(6,8) by blast
qed

lemma GetIPAddress_ok:
  assumes rep: "pool_rep s p ps k" and dst: "dst \<noteq> NULL"
    "\<And>i. i < STRING_SIZE - 1 \<Longrightarrow> bytes s (dst + i) \<noteq> None \<and> dst + i \<notin> pool_region ps"
    "dst + STRING_SIZE \<le> brk s + 1"
  shows "\<exists>s'. GetIPAddress p dst s = Inr (ADDR_SUCCESS, s') \<and> pool_rep s' p ps (Suc k) \<and>
    str_at s' dst (ip_string 0 (of_nat (k mod 50 + 1))) \<and>
    s' = s\<lparr>bytes := bytes s', queues := queues s', pools := pools s'\<rparr> \<and>
    (\<forall>a. a < dst \<or> dst + STRING_SIZE - 1 \<le> a \<longrightarrow> bytes s' a = bytes s a) \<and>
    (\<forall>a. bytes s' a = None \<longleftrightarrow> bytes s a = None)"
proof -
  obtain r a h where r: "pools s p = Some r" "m_poolSize r = 50 - of_nat k" "length a = 50"
    "ring_at s (m_queue_addr r) a ((h + k) mod 50) (50 - of_nat k)"
    "\<forall>i < 50. a ! ((h + i) mod 50) = ps ! i" and p: "p \<noteq> NULL"
    using rep by (auto simp: pool_rep_def)
  let ?i = "k mod 50" and ?str = "ip_string 0 (of_nat (k mod 50 + 1))"
  have item: "a ! ((h + k) mod 50) = ps ! ?i"
    using r(5) [rule_format, of ?i] by (simp add: mod_simps)
  obtain s1 where s1: "QueueRemove (m_queue_addr r) s = Inr ((QERR_OK, Some (ps ! ?i)), s1)"
    "ring_at s1 (m_queue_addr r) a (Suc ((h + k) mod 50) mod 50) (50 - of_nat k - 1)"
    "queue_frame (m_queue_addr r) s s1"
    using QueueRemove_ring [OF r(4)] item r(3) by auto
  obtain q1 where e1: "s1 = s\<lparr>queues := q1\<rparr>" using s1(3) by (auto simp: queue_frame_def)
  have str: "str_at s1 (ps ! ?i) ?str" using rep e1 by (simp add: pool_rep_def POOL_CAPACITY_def str_at_def)
  note len = ip_string_length [of 0 "of_nat (k mod 50 + 1)"]
  let ?s2 = "s1\<lparr>bytes := map_bytes dst (?str @ [0]) (bytes s1)\<rparr>"
  have cp: "strcpy dst (ps ! ?i) s1 = Inr ((), ?s2)"
    by (rule strcpy_ok [OF str dst(1)]) (use dst(2) len e1 in \<open>auto simp: STRING_SIZE_def\<close>)
  let ?r = "r\<lparr>m_poolSize := m_poolSize r - 1\<rparr>"
  let ?s3 = "?s2\<lparr>pools := (pools s)(p \<mapsto> ?r)\<rparr>"
  have run: "GetIPAddress p dst s = Inr (ADDR_SUCCESS, ?s3)"
    using p r(1) s1(1) cp e1 by (simp add: GetIPAddress_def rd_pool_step wr_pool_step)
  have outside: "bytes ?s3 b = bytes s b" if "b < dst \<or> dst + STRING_SIZE - 1 \<le> b" for b
    using that len e1 by (auto simp: map_bytes_out STRING_SIZE_def)
  have none: "bytes ?s3 b = None \<longleftrightarrow> bytes s b = None" for b
  proof (cases "dst \<le> b \<and> b < dst + length (?str @ [0])")
    case True
    then have "bytes s (dst + (b - dst)) \<noteq> None"
      using len by (intro dst(2) [THEN conjunct1]) (simp add: STRING_SIZE_def, linarith)
    with True e1 show ?thesis by (simp add: map_bytes_def)
  qed (auto simp: map_bytes_def e1)
  have sat: "str_at ?s3 dst ?str"
    by (rule str_at_map_bytes) (use dst len e1 ip_string_zero in \<open>auto simp: STRING_SIZE_def\<close>)
  have "bytes ?s3 b = bytes s b" if "b \<in> pool_region ps" for b
  proof -
    have "b < dst \<or> dst + (STRING_SIZE - 1) \<le> b"
      using that dst(2) [of "b - dst"] by (metis add_diff_inverse_nat nat_add_left_cancel_less not_le)
    then show ?thesis by (intro outside) (auto simp: STRING_SIZE_def)
  qed
  moreover have "pool_rep (s\<lparr>queues := q1, pools := pools ?s3\<rparr>) p ps (Suc k)"
  proof -
    have "ring_at (s\<lparr>queues := q1, pools := pools ?s3\<rparr>) (m_queue_addr r) a ((h + Suc k) mod 50)
        (50 - of_nat (Suc k))"
      using s1(2) e1 by (simp add: ring_at_def mod_Suc_eq algebra_simps)
    then show ?thesis using rep r p unfolding pool_rep_def
      by (auto simp: str_at_def intro!: exI [of _ a] exI [of _ h])
  qed
  ultimately have "pool_rep ?s3 p ps (Suc k)"
    by (elim pool_rep_frame) (use e1 in auto)
  then show ?thesis using run sat outside none e1 by (intro exI [of _ ?s3]) simp
qed

end
