(* ===== verification/Protocol.thy ===== *)
theory Protocol
  imports CMem
begin

text \<open>
  The wire protocol of \<^verbatim>\<open>src/Protocol/Protocol.h\<close> and \<^verbatim>\<open>src/Protocol/Protocol.c\<close>. A message is
  a C struct in a buffer, sent as it lies in memory, so the structs are modelled by the byte
  offsets of their fields (x86-64: enums and \<open>int\<close> have 4 bytes, little endian, aligned to 4).
  \<open>Pack\<close> stores the message type and brings the answer code into network byte order, \<open>UnPack\<close>
  reads the type and brings the answer code back.

  The locale \<open>answer_message\<close> states what an answer type promises (where its code lies, which
  branch of the two functions handles it); the round trip is proved once inside it and the
  four answer types that are packed are its interpretations.
\<close>

section \<open>Types of messages and answers\<close>

datatype Protocol_Type =
  REGISTER_REQ | REGISTER_ANS | LOGIN_REQ | LOGIN_ANS | LOGOUT | UNREGISTER_REQ | UNREGISTER_ANS
| CREATE_GROUP_CONVERSATION_REQ | CREATE_GROUP_CONVERSATION_ANS | JOIN_CONVERSATION_REQ
| JOIN_CONVERSATION_ANS | CREATE_PRIVATE_CONVERSATION | LEAVE_CONVERSATION_REQ
| LEAVE_CONVERSATION_ANS | GET_USER_LIST | GET_GROUP_CHAT_LIST

datatype Answers =
  REGISTER_SUCCESS | REGISTER_USER_NAME_ALLREADY_EXIST | LOGIN_USER_SUCCESSFULLY_CONNECTED
| LOGIN_USER_NAME_NOT_EXIST | LOGIN_WRONG_PSW | LOGIN_ALLREADY_CONNECTED
| GROUP_SUCCESSFULLY_INSERT | GROUP_NAME_ALREADY_EXIST | GROUP_NAME_NOT_EXIST
| GROUP_SUCCESSFULLY_JOIN | GROUP_SUCCESSFULLY_FOUND

text \<open>
  The numbers of the enumerators. A type read from the network is any byte, so a switch on it
  is a test against these numbers.
\<close>

fun type_code :: "Protocol_Type \<Rightarrow> u8" where
  "type_code REGISTER_REQ = 0" | "type_code REGISTER_ANS = 1"
| "type_code LOGIN_REQ = 2" | "type_code LOGIN_ANS = 3"
| "type_code LOGOUT = 4" | "type_code UNREGISTER_REQ = 5"
| "type_code UNREGISTER_ANS = 6" | "type_code CREATE_GROUP_CONVERSATION_REQ = 7"
| "type_code CREATE_GROUP_CONVERSATION_ANS = 8" | "type_code JOIN_CONVERSATION_REQ = 9"
| "type_code JOIN_CONVERSATION_ANS = 10" | "type_code CREATE_PRIVATE_CONVERSATION = 11"
| "type_code LEAVE_CONVERSATION_REQ = 12" | "type_code LEAVE_CONVERSATION_ANS = 13"
| "type_code GET_USER_LIST = 14" | "type_code GET_GROUP_CHAT_LIST = 15"

fun answer_code :: "Answers \<Rightarrow> 32 word" where
  "answer_code REGISTER_SUCCESS = 0" | "answer_code REGISTER_USER_NAME_ALLREADY_EXIST = 1"
| "answer_code LOGIN_USER_SUCCESSFULLY_CONNECTED = 2" | "answer_code LOGIN_USER_NAME_NOT_EXIST = 3"
| "answer_code LOGIN_WRONG_PSW = 4" | "answer_code LOGIN_ALLREADY_CONNECTED = 5"
| "answer_code GROUP_SUCCESSFULLY_INSERT = 6" | "answer_code GROUP_NAME_ALREADY_EXIST = 7"
| "answer_code GROUP_NAME_NOT_EXIST = 8" | "answer_code GROUP_SUCCESSFULLY_JOIN = 9"
| "answer_code GROUP_SUCCESSFULLY_FOUND = 10"

lemma type_code_inject [simp]: "type_code a = type_code b \<longleftrightarrow> a = b"
  by (cases a; cases b) simp_all

lemma answer_code_inject [simp]: "answer_code a = answer_code b \<longleftrightarrow> a = b"
  by (cases a; cases b) simp_all

section \<open>The layout of the messages\<close>

text \<open>\<open>struct UserDetails\<close>: type, password (17 characters), user name (17 characters).\<close>

definition UserDetails_password :: "addr \<Rightarrow> addr" where
  "UserDetails_password p = p + 1"

definition UserDetails_userName :: "addr \<Rightarrow> addr" where
  "UserDetails_userName p = p + 18"

text \<open>\<open>struct GroupDetails\<close>: type, group name (18 characters), user name (17 characters).\<close>

definition GroupDetails_groupName :: "addr \<Rightarrow> addr" where
  "GroupDetails_groupName p = p + 1"

definition GroupDetails_userName :: "addr \<Rightarrow> addr" where
  "GroupDetails_userName p = p + 19"

text \<open>\<open>struct Register_Ans\<close> and \<open>struct Login_Ans\<close>: type, answer at offset 4, 8 bytes in all.\<close>

definition Register_Ans_answer :: "addr \<Rightarrow> addr" where
  "Register_Ans_answer p = p + 4"

definition Login_Ans_answer :: "addr \<Rightarrow> addr" where
  "Login_Ans_answer p = p + 4"

text \<open>
  \<open>struct Create_Group_Ans\<close>: type, multicast address (17 characters), answer at offset 20,
  24 bytes in all.
\<close>

definition Create_Group_Ans_groupIP :: "addr \<Rightarrow> addr" where
  "Create_Group_Ans_groupIP p = p + 1"

definition Create_Group_Ans_answer :: "addr \<Rightarrow> addr" where
  "Create_Group_Ans_answer p = p + 20"

section \<open>Bytes and 32-bit numbers in memory\<close>

definition rd_byte :: "addr \<Rightarrow> ('a bmem_scheme, u8) prog" where
  "rd_byte p = (\<lambda>s. if p = NULL then Inl NullDeref
     else case bytes s p of None \<Rightarrow> Inl BadAddress | Some b \<Rightarrow> Inr (b, s))"

definition wr_byte :: "addr \<Rightarrow> u8 \<Rightarrow> ('a bmem_scheme, unit) prog" where
  "wr_byte p b = put_bytes p [b]"

definition le_bytes :: "32 word \<Rightarrow> u8 list" where
  "le_bytes w = [ucast w, ucast (drop_bit 8 w), ucast (drop_bit 16 w), ucast (drop_bit 24 w)]"

fun le_word :: "u8 list \<Rightarrow> 32 word" where
  "le_word [] = 0"
| "le_word (b # bs) = ucast b + 256 * le_word bs"

definition rd_u32 :: "addr \<Rightarrow> ('a bmem_scheme, 32 word) prog" where
  "rd_u32 p =
     chain (rd_byte p) (\<lambda>a.
     chain (rd_byte (p + 1)) (\<lambda>b.
     chain (rd_byte (p + 2)) (\<lambda>c.
     chain (rd_byte (p + 3)) (\<lambda>d. ret (le_word [a, b, c, d])))))"

definition wr_u32 :: "addr \<Rightarrow> 32 word \<Rightarrow> ('a bmem_scheme, unit) prog" where
  "wr_u32 p w = put_bytes p (le_bytes w)"

text \<open>\<open>htonl\<close> and \<open>ntohl\<close> on a little endian machine both reverse the four bytes.\<close>

definition htonl :: "32 word \<Rightarrow> 32 word" where
  "htonl w = le_word (rev (le_bytes w))"

definition ntohl :: "32 word \<Rightarrow> 32 word" where
  "ntohl w = le_word (rev (le_bytes w))"

section \<open>The operations\<close>

text \<open>
  \<open>Pack\<close>: the case of \<open>LEAVE_CONVERSATION_REQ\<close> has no \<open>break\<close> and falls through to the one of
  \<open>REGISTER_ANS\<close>; the one of \<open>LEAVE_CONVERSATION_ANS\<close> is commented out.
\<close>

definition pack_answer :: "u8 \<Rightarrow> addr \<Rightarrow> addr \<Rightarrow> ('a bmem_scheme, unit) prog" where
  "pack_answer t p ans =
     chain (wr_byte p t) (\<lambda>_.
     chain (rd_u32 ans) (\<lambda>w. wr_u32 ans (htonl w)))"

definition Pack :: "u8 \<Rightarrow> addr \<Rightarrow> ('a bmem_scheme, int) prog" where
  "Pack t p =
     (if t = type_code REGISTER_REQ \<or> t = type_code LOGIN_REQ
      then chain (wr_byte p t) (\<lambda>_. ret 0)
      else if t = type_code CREATE_GROUP_CONVERSATION_REQ \<or> t = type_code JOIN_CONVERSATION_REQ
      then chain (wr_byte p t) (\<lambda>_. ret 0)
      else if t = type_code LEAVE_CONVERSATION_REQ
      then chain (wr_byte p t) (\<lambda>_. chain (pack_answer t p (Register_Ans_answer p)) (\<lambda>_. ret 0))
      else if t = type_code REGISTER_ANS
      then chain (pack_answer t p (Register_Ans_answer p)) (\<lambda>_. ret 0)
      else if t = type_code LOGIN_ANS
      then chain (pack_answer t p (Login_Ans_answer p)) (\<lambda>_. ret 0)
      else if t = type_code CREATE_GROUP_CONVERSATION_ANS
      then chain (pack_answer t p (Create_Group_Ans_answer p)) (\<lambda>_. ret 0)
      else if t = type_code JOIN_CONVERSATION_ANS
      then chain (pack_answer t p (Create_Group_Ans_answer p)) (\<lambda>_. ret 0)
      else ret 0)"

definition unpack_answer :: "addr \<Rightarrow> ('a bmem_scheme, unit) prog" where
  "unpack_answer ans = chain (rd_u32 ans) (\<lambda>w. wr_u32 ans (ntohl w))"

text \<open>The second result is the value stored through \<open>Protocol_Type* _type\<close>.\<close>

definition UnPack :: "addr \<Rightarrow> ('a bmem_scheme, int \<times> u8) prog" where
  "UnPack p =
     chain (rd_byte p) (\<lambda>t.
     if t = type_code REGISTER_REQ \<or> t = type_code LOGIN_REQ then ret (0, t)
     else if t = type_code CREATE_GROUP_CONVERSATION_REQ \<or> t = type_code JOIN_CONVERSATION_REQ
     then ret (0, t)
     else if t = type_code LOGIN_ANS
     then chain (unpack_answer (Login_Ans_answer p)) (\<lambda>_. ret (0, t))
     else if t = type_code REGISTER_ANS
     then chain (unpack_answer (Register_Ans_answer p)) (\<lambda>_. ret (0, t))
     else if t = type_code CREATE_GROUP_CONVERSATION_ANS
     then chain (unpack_answer (Create_Group_Ans_answer p)) (\<lambda>_. ret (0, t))
     else if t = type_code JOIN_CONVERSATION_ANS
     then chain (unpack_answer (Create_Group_Ans_answer p)) (\<lambda>_. ret (0, t))
     else if t = type_code LEAVE_CONVERSATION_ANS
     then chain (unpack_answer (Create_Group_Ans_answer p)) (\<lambda>_. ret (0, t))
     else ret (0, t))"

section \<open>Byte order\<close>

lemma low_byte: "ucast (ucast (w :: 32 word) :: u8) + 256 * drop_bit 8 w = w"
proof -
  have "ucast (ucast w :: u8) = take_bit 8 w"
    by (rule bit_word_eqI) (simp add: bit_simps)
  moreover have "256 * drop_bit 8 w = push_bit 8 (drop_bit 8 w)" by (simp add: push_bit_eq_mult)
  ultimately show ?thesis using bits_ident [of 8 w] by (simp add: add.commute)
qed

lemma le_word_bytes [simp]: "le_word (le_bytes w) = w"
proof -
  have z: "drop_bit 32 w = 0" by (rule bit_word_eqI) (simp add: bit_simps)
  show ?thesis
    using low_byte [of w] low_byte [of "drop_bit 8 w"] low_byte [of "drop_bit 16 w"]
      low_byte [of "drop_bit 24 w"] by (simp add: le_bytes_def z)
qed

lemma le_word_bits: "ucast (x :: u8) + 256 * (y :: 32 word) = or (ucast x) (push_bit 8 y)"
proof -
  have "\<not> bit (ucast x :: 32 word) n \<or> \<not> bit (push_bit 8 y) n" for n
    using bit_imp_le_length [of x n] by (auto simp: bit_simps)
  then have "ucast x + push_bit 8 y = or (ucast x) (push_bit 8 y)" by (rule disjunctive_add)
  then show ?thesis by (simp add: push_bit_eq_mult mult.commute)
qed

lemma le_bytes_word: "le_bytes (le_word [a, b, c, d]) = [a, b, c, d]"
  unfolding le_bytes_def le_word.simps le_word_bits
  by (auto intro!: bit_word_eqI simp: bit_simps) (auto dest!: bit_imp_le_length)

lemma length_le_bytes [simp]: "length (le_bytes w) = 4"
  by (simp add: le_bytes_def)

lemma le_bytes_htonl: "le_bytes (htonl w) = rev (le_bytes w)"
proof -
  obtain a b c d where w: "le_bytes w = [a, b, c, d]" by (simp add: le_bytes_def)
  then show ?thesis unfolding htonl_def w by (simp add: le_bytes_word del: le_word.simps)
qed

lemma ntohl_htonl [simp]: "ntohl (htonl w) = w"
  by (simp add: ntohl_def le_bytes_htonl)

lemma ntohl_eq_htonl: "ntohl = htonl"
  by (simp add: ntohl_def htonl_def fun_eq_iff)

section \<open>Reading and writing\<close>

text \<open>\<open>bytes_at s p bs\<close>: the bytes \<open>bs\<close> lie at \<open>p\<close>.\<close>

definition bytes_at :: "'a bmem_scheme \<Rightarrow> addr \<Rightarrow> u8 list \<Rightarrow> bool" where
  "bytes_at s p bs \<longleftrightarrow> p \<noteq> NULL \<and> (\<forall>i < length bs. bytes s (p + i) = Some (bs ! i))"

lemma bytes_at_Cons: "bytes_at s p (b # bs) \<longleftrightarrow> p \<noteq> NULL \<and> bytes s p = Some b \<and> bytes_at s (Suc p) bs"
  by (auto simp: bytes_at_def nth_Cons split: nat.splits)

lemma bytes_at_Nil: "bytes_at s p [] \<longleftrightarrow> p \<noteq> NULL"
  by (simp add: bytes_at_def)

lemma bytes_at_append:
  "bytes_at s p (xs @ ys) \<longleftrightarrow> bytes_at s p xs \<and> bytes_at s (p + length xs) ys"
  by (induction xs arbitrary: p) (auto simp: bytes_at_Cons bytes_at_Nil, auto simp: bytes_at_def)

lemma rd_byte_step [c_step]: "p \<noteq> NULL \<Longrightarrow> bytes s p = Some b \<Longrightarrow> rd_byte p s = Inr (b, s)"
  by (simp add: rd_byte_def)

lemma wr_byte_step [c_step]:
  "p \<noteq> NULL \<Longrightarrow> bytes s p \<noteq> None \<Longrightarrow> wr_byte p b s = Inr ((), s\<lparr>bytes := (bytes s)(p \<mapsto> b)\<rparr>)"
  by (simp add: wr_byte_def)

lemma rd_u32_step [c_step]: "bytes_at s p (le_bytes w) \<Longrightarrow> rd_u32 p s = Inr (w, s)"
proof -
  assume "bytes_at s p (le_bytes w)"
  moreover obtain a b c d where w: "le_bytes w = [a, b, c, d]" by (simp add: le_bytes_def)
  ultimately have "rd_u32 p s = Inr (le_word [a, b, c, d], s)"
    by (simp add: rd_u32_def bytes_at_Cons rd_byte_step numeral_2_eq_2 numeral_3_eq_3)
  then show ?thesis using le_word_bytes [of w] w by simp
qed

lemma bytes_at_mapped: "bytes_at s p bs \<Longrightarrow> i < length bs \<Longrightarrow> bytes s (p + i) \<noteq> None"
  by (simp add: bytes_at_def)

lemma wr_u32_step [c_step]:
  "bytes_at s p bs \<Longrightarrow> length bs = 4 \<Longrightarrow>
   wr_u32 p w s = Inr ((), s\<lparr>bytes := map_bytes p (le_bytes w) (bytes s)\<rparr>)"
  unfolding wr_u32_def by (rule put_bytes_ok) (auto simp: bytes_at_def)

lemma map_bytes_4:
  "map_bytes p [a, b, c, d] h = h(p \<mapsto> a, p + 1 \<mapsto> b, p + 2 \<mapsto> c, p + 3 \<mapsto> d)"
proof
  fix q
  consider "q < p" | "q = p" | "q = p + 1" | "q = p + 2" | "q = p + 3" | "p + 3 < q" by linarith
  then show "map_bytes p [a, b, c, d] h q = (h(p \<mapsto> a, p + 1 \<mapsto> b, p + 2 \<mapsto> c, p + 3 \<mapsto> d)) q"
    by cases (auto simp: map_bytes_def nth_Cons')
qed

lemma map_bytes_twice:
  "length xs = length ys \<Longrightarrow> map_bytes p ys (map_bytes p xs h) = map_bytes p ys h"
  by (auto simp: map_bytes_def fun_eq_iff)

lemma map_bytes_same:
  "bytes_at s p bs \<Longrightarrow> map_bytes p bs (bytes s) = bytes s"
  by (auto simp: map_bytes_def fun_eq_iff bytes_at_def)
    (metis add_diff_inverse_nat nat_add_left_cancel_less not_le)

lemma bytes_at_map_bytes: "p \<noteq> NULL \<Longrightarrow> bytes s = map_bytes p bs h \<Longrightarrow> bytes_at s p bs"
  by (simp add: bytes_at_def map_bytes_in)

lemma bytes_at_cong:
  "bytes_at s p bs \<Longrightarrow> (\<And>q. p \<le> q \<Longrightarrow> q < p + length bs \<Longrightarrow> bytes s' q = bytes s q) \<Longrightarrow> bytes_at s' p bs"
  by (auto simp: bytes_at_def)

section \<open>Pack and UnPack\<close>

lemma pack_answer_ok:
  assumes "p \<noteq> NULL" and "bytes s p \<noteq> None" and "1 \<le> off" and w: "bytes_at s (p + off) (le_bytes w)"
  shows "pack_answer t p (p + off) s =
    Inr ((), s\<lparr>bytes := map_bytes (p + off) (rev (le_bytes w)) ((bytes s)(p \<mapsto> t))\<rparr>)"
proof -
  let ?s = "s\<lparr>bytes := (bytes s)(p \<mapsto> t)\<rparr>"
  have "bytes_at ?s (p + off) (le_bytes w)" by (rule bytes_at_cong [OF w]) (use assms in auto)
  with assms show ?thesis
    by (simp add: pack_answer_def wr_byte_step rd_u32_step wr_u32_step le_bytes_htonl)
qed

lemma unpack_answer_ok:
  assumes "bytes_at s a (rev (le_bytes w))"
  shows "unpack_answer a s = Inr ((), s\<lparr>bytes := map_bytes a (le_bytes w) (bytes s)\<rparr>)"
proof -
  have "bytes_at s a (le_bytes (htonl w))" using assms by (simp add: le_bytes_htonl)
  then show ?thesis by (simp add: unpack_answer_def rd_u32_step wr_u32_step)
qed

locale answer_message =
  fixes pack :: "u8 \<Rightarrow> addr \<Rightarrow> ('a bmem_scheme, int) prog"
    and unpack :: "addr \<Rightarrow> ('a bmem_scheme, int \<times> u8) prog"
    and t :: u8 and off :: nat
  assumes after_type: "1 \<le> off"
    and pack_case: "pack t p s = chain (pack_answer t p (p + off)) (\<lambda>_. ret 0) s"
    and unpack_case: "p \<noteq> NULL \<Longrightarrow> bytes s p = Some t \<Longrightarrow>
      unpack p s = chain (unpack_answer (p + off)) (\<lambda>_. ret (0, t)) s"
begin

lemma packed:
  assumes "p \<noteq> NULL" and "bytes s p \<noteq> None" and "bytes_at s (p + off) (le_bytes w)"
  shows "pack t p s =
    Inr (0, s\<lparr>bytes := map_bytes (p + off) (rev (le_bytes w)) ((bytes s)(p \<mapsto> t))\<rparr>)"
  using pack_answer_ok [OF assms(1,2) after_type assms(3), of t] by (simp add: pack_case)

lemma received:
  assumes "p \<noteq> NULL" and "bytes s p = Some t" and "bytes_at s (p + off) (rev (le_bytes w))"
  shows "unpack p s = Inr ((0, t), s\<lparr>bytes := map_bytes (p + off) (le_bytes w) (bytes s)\<rparr>)"
  using unpack_answer_ok [OF assms(3)] by (simp add: unpack_case assms(1,2))

lemma round_trip:
  assumes p: "p \<noteq> NULL" and b: "bytes s p \<noteq> None" and w: "bytes_at s (p + off) (le_bytes w)"
  shows "\<exists>s1. pack t p s = Inr (0, s1) \<and> bytes_at s1 (p + off) (rev (le_bytes w)) \<and>
    unpack p s1 = Inr ((0, t), s\<lparr>bytes := (bytes s)(p \<mapsto> t)\<rparr>)"
proof -
  let ?s = "s\<lparr>bytes := (bytes s)(p \<mapsto> t)\<rparr>"
  let ?s1 = "s\<lparr>bytes := map_bytes (p + off) (rev (le_bytes w)) (bytes ?s)\<rparr>"
  have w1: "bytes_at ?s1 (p + off) (rev (le_bytes w))"
    by (rule bytes_at_map_bytes) (use p in simp_all)
  have "bytes_at ?s (p + off) (le_bytes w)"
    by (rule bytes_at_cong [OF w]) (use after_type in auto)
  then have "map_bytes (p + off) (le_bytes w) (bytes ?s1) = bytes ?s"
    using map_bytes_same [of ?s] by (simp add: map_bytes_twice)
  moreover have "bytes ?s1 p = Some t" using after_type by (simp add: map_bytes_out)
  ultimately show ?thesis
    using packed [OF p b w] received [of p ?s1 w] p w1 by simp
qed

end

interpretation register_ans: answer_message Pack UnPack "type_code REGISTER_ANS" 4
  by unfold_locales (simp_all add: Pack_def UnPack_def Register_Ans_answer_def rd_byte_step)

interpretation login_ans: answer_message Pack UnPack "type_code LOGIN_ANS" 4
  by unfold_locales (simp_all add: Pack_def UnPack_def Login_Ans_answer_def rd_byte_step)

interpretation create_ans: answer_message Pack UnPack "type_code CREATE_GROUP_CONVERSATION_ANS" 20
  by unfold_locales (simp_all add: Pack_def UnPack_def Create_Group_Ans_answer_def rd_byte_step)

interpretation join_ans: answer_message Pack UnPack "type_code JOIN_CONVERSATION_ANS" 20
  by unfold_locales (simp_all add: Pack_def UnPack_def Create_Group_Ans_answer_def rd_byte_step)

text \<open>Requests: only the type is stored, and nothing is changed on receipt.\<close>

lemma Pack_request:
  assumes "p \<noteq> NULL" and "bytes s p \<noteq> None"
    and "t \<in> {REGISTER_REQ, LOGIN_REQ, CREATE_GROUP_CONVERSATION_REQ, JOIN_CONVERSATION_REQ}"
  shows "Pack (type_code t) p s = Inr (0, s\<lparr>bytes := (bytes s)(p \<mapsto> type_code t)\<rparr>)"
  using assms by (auto simp: Pack_def wr_byte_step)

lemma UnPack_request:
  assumes "p \<noteq> NULL" and "bytes s p = Some (type_code t)"
    and "t \<in> {REGISTER_REQ, LOGIN_REQ, CREATE_GROUP_CONVERSATION_REQ, JOIN_CONVERSATION_REQ,
      LEAVE_CONVERSATION_REQ}"
  shows "UnPack p s = Inr ((0, type_code t), s)"
  using assms by (auto simp: UnPack_def rd_byte_step)

text \<open>
  A leave request is packed by two cases: bytes 4 to 7 of the struct, characters 3 to 6 of the
  group name, are reversed, and \<open>UnPack\<close> does not reverse them back.
\<close>

lemma Pack_leave_request:
  assumes "p \<noteq> NULL" and "bytes s p \<noteq> None" and name: "bytes_at s (p + 1) (xs @ [a, b, c, d] @ ys)"
    and "length xs = 3"
  shows "\<exists>s'. Pack (type_code LEAVE_CONVERSATION_REQ) p s = Inr (0, s') \<and>
    bytes s' p = Some (type_code LEAVE_CONVERSATION_REQ) \<and>
    bytes_at s' (p + 1) (xs @ [d, c, b, a] @ ys)"
proof -
  let ?t = "type_code LEAVE_CONVERSATION_REQ" and ?w = "le_word [a, b, c, d]"
  let ?s = "s\<lparr>bytes := (bytes s)(p \<mapsto> ?t)\<rparr>"
  have 1: "bytes_at ?s (p + 4) (le_bytes ?w)"
    unfolding le_bytes_word using name assms(4) by (simp add: bytes_at_append bytes_at_Cons bytes_at_Nil add.commute)
  let ?s' = "s\<lparr>bytes := map_bytes (p + 4) [d, c, b, a] (bytes ?s)\<rparr>"
  have run: "Pack ?t p s = Inr (0, ?s')"
    using assms(1,2) pack_answer_ok [of p ?s 4 ?w ?t] 1
    by (simp add: Pack_def wr_byte_step Register_Ans_answer_def le_bytes_word del: le_word.simps)
  have "bytes_at s (p + 1) xs" "bytes_at s (p + 8) ys"
    using name assms(4) by (simp_all add: bytes_at_append bytes_at_Cons add.commute)
  then have "bytes_at ?s' (p + 1) xs" "bytes_at ?s' (p + 8) ys"
    using assms(4) by (auto simp: bytes_at_def map_bytes_4)
  moreover have "bytes_at ?s' (p + 4) [d, c, b, a]"
    by (rule bytes_at_map_bytes) (use assms(1) in auto)
  ultimately have "bytes_at ?s' (p + 1) (xs @ [d, c, b, a] @ ys)"
    using assms(4) unfolding bytes_at_append by (simp add: add.commute)
  moreover have "bytes ?s' p = Some ?t" by (simp add: map_bytes_4)
  ultimately show ?thesis using run by blast
qed

text \<open>An answer to a leave request is not packed, but it is unpacked.\<close>

lemma Pack_leave_answer: "Pack (type_code LEAVE_CONVERSATION_ANS) p s = Inr (0, s)"
  by (simp add: Pack_def)

lemma UnPack_leave_answer:
  assumes "p \<noteq> NULL" and "bytes s p = Some (type_code LEAVE_CONVERSATION_ANS)"
    and "bytes_at s (p + 20) (le_bytes w)"
  shows "UnPack p s = Inr ((0, type_code LEAVE_CONVERSATION_ANS),
    s\<lparr>bytes := map_bytes (p + 20) (le_bytes (htonl w)) (bytes s)\<rparr>)"
  using assms unpack_answer_ok [of s "p + 20" "htonl w"]
  by (simp add: UnPack_def rd_byte_step Create_Group_Ans_answer_def le_bytes_htonl)

end
