(* ===== verification/DataBase.thy ===== *)
theory DataBase
  imports PoolAddr HashDestroy Protocol
begin

text \<open>
  The server's data base, \<^verbatim>\<open>src/ServerDB/DataBase.c\<close>: a map of users, a map of groups and the
  pool of multicast addresses. This theory holds the model; what the operations do is proved
  in the theories \<open>DataBaseKeys\<close> and \<open>DataBaseSpec\<close>.

  Character arrays and integers inside \<open>UserValue\<close> and \<open>GroupValue\<close> lie in the byte memory (a
  string that is too long reaches the next field, as in the code); pointers inside structs
  are fields of records. \<open>printf\<close> is not modelled.
\<close>

section \<open>Data\<close>

record GroupsDB =
  m_groupNames :: "hmap option"
  m_numOfParticipant :: int

record database =
  m_userDB :: addr
  m_groupDB :: addr
  m_addIPPool :: addr

text \<open>
  \<open>user_groups\<close> is the field \<open>m_myGroups\<close> of the \<open>UserValue\<close> at an address, \<open>users_dbs\<close> the
  field \<open>m_userNames\<close> of a \<open>UsersDB\<close>.
\<close>

record db_mem = pool_mem +
  user_groups :: "addr \<Rightarrow> hmap option option"
  users_dbs :: "addr \<Rightarrow> hmap option option"
  groups_dbs :: "addr \<Rightarrow> GroupsDB option"
  databases :: "addr \<Rightarrow> database option"

datatype DB_Err =
  DB_ALLOC_FAIL | DB_INSERT_FAIL | DB_CREATE_FAIL | DB_SUCCESS | DB_CONNECT_SUCCESFULLY
| DB_ALREADY_CONNECTED | DB_WORNG_USER_NAME | DB_WORNG_PSW | DB_GROUP_SUCCESSFULLY_INSERT
| DB_GROUP_NAME_ALREADY_EXIST | DB_GROUP_NAME_NOT_EXIST | DB_GROUP_JOIN_SUCCESSFULLY
| DB_GROUP_REMOVE_SUCCESSFULLY

definition DB_CAPACITY :: u64 where "DB_CAPACITY = 50"
definition USER_GROUPS_CAPACITY :: u64 where "USER_GROUPS_CAPACITY = 50"
definition CONNECT :: int where "CONNECT = 1"
definition DISCONNECT :: int where "DISCONNECT = 0"
definition ALREADY_EXIST :: int where "ALREADY_EXIST = 0"
definition UNIQE :: int where "UNIQE = 1"

text \<open>
  \<open>struct UserValue\<close>: status at 0, password at 4 (17 characters and 3 bytes of padding); the
  pointer \<open>m_myGroups\<close> after them is kept in \<open>user_groups\<close>. \<open>struct GroupValue\<close>: number of
  participants at 0, group name at 4 (17 characters), address at 21 (17 characters), 40 bytes.
\<close>

definition UserValue_psw :: "addr \<Rightarrow> addr" where
  "UserValue_psw v = v + 4"

definition GroupValue_groupName :: "addr \<Rightarrow> addr" where
  "GroupValue_groupName v = v + 4"

definition GroupValue_ip_add_group :: "addr \<Rightarrow> addr" where
  "GroupValue_ip_add_group v = v + 21"

definition rd_int :: "addr \<Rightarrow> ('a bmem_scheme, int) prog" where
  "rd_int p = chain (rd_u32 p) (\<lambda>w. ret (sint w))"

definition wr_int :: "addr \<Rightarrow> int \<Rightarrow> ('a bmem_scheme, unit) prog" where
  "wr_int p i = wr_u32 p (word_of_int i)"

definition calloc_bytes :: "nat \<Rightarrow> ('a cmem_scheme, addr) prog" where
  "calloc_bytes n = chain (malloc n) (\<lambda>p s.
     if p = NULL then Inr (NULL, s)
     else Inr (p, s\<lparr>bytes := map_bytes p (replicate n 0) (bytes s)\<rparr>))"

text \<open>Access to one object of a typed heap, given by its field of the state.\<close>

definition obj :: "('s \<Rightarrow> addr \<Rightarrow> 'o option) \<Rightarrow> addr \<Rightarrow> ('s, 'o) prog" where
  "obj field p = (\<lambda>s. if p = NULL then Inl NullDeref
     else case field s p of None \<Rightarrow> Inl BadAddress | Some x \<Rightarrow> Inr (x, s))"

lemma obj_step [c_step]: "p \<noteq> NULL \<Longrightarrow> field s p = Some x \<Longrightarrow> obj field p s = Inr (x, s)"
  by (simp add: obj_def)

definition set_user_groups :: "addr \<Rightarrow> hmap option \<Rightarrow> ('a db_mem_scheme, unit) prog" where
  "set_user_groups v mp = modify (\<lambda>s. s\<lparr>user_groups := (user_groups s)(v \<mapsto> mp)\<rparr>)"

definition set_users :: "addr \<Rightarrow> hmap option \<Rightarrow> ('a db_mem_scheme, unit) prog" where
  "set_users u mp = modify (\<lambda>s. s\<lparr>users_dbs := (users_dbs s)(u \<mapsto> mp)\<rparr>)"

definition set_groups :: "addr \<Rightarrow> GroupsDB \<Rightarrow> ('a db_mem_scheme, unit) prog" where
  "set_groups g r = modify (\<lambda>s. s\<lparr>groups_dbs := (groups_dbs s)(g \<mapsto> r)\<rparr>)"

section \<open>Hash and equality functions\<close>

text \<open>
  The sum of the (signed) characters in an \<open>int\<close>, converted to \<open>size_t\<close> on return; the length
  is converted from \<open>size_t\<close> to \<open>int\<close>.
\<close>

fun sum_chars :: "u8 list \<Rightarrow> int \<Rightarrow> fault + int" where
  "sum_chars [] acc = Inr acc"
| "sum_chars (c # cs) acc =
     (case int_val (acc + sint c) of Inl e \<Rightarrow> Inl e | Inr acc' \<Rightarrow> sum_chars cs acc')"

definition HashFunctionUsers :: HashFunction where
  "HashFunctionUsers m key =
     (case c_str m key of
        Inl e \<Rightarrow> Inl e
      | Inr cs \<Rightarrow>
          let len = sint (of_nat (length cs) :: i32) in
          case sum_chars (take (nat len) cs) 0 of
            Inl e \<Rightarrow> Inl e
          | Inr acc \<Rightarrow> Inr (word_of_int acc))"

definition HashFunctionGroups :: HashFunction where
  "HashFunctionGroups m key =
     (case c_str m key of
        Inl e \<Rightarrow> Inl e
      | Inr cs \<Rightarrow>
          let len = sint (of_nat (length cs) :: i32) in
          case sum_chars (take (nat len) cs) 0 of
            Inl e \<Rightarrow> Inl e
          | Inr acc \<Rightarrow> Inr (word_of_int acc))"

definition EqualityFunctionForUsers :: EqualityFunction where
  "EqualityFunctionForUsers m firstKey secondKey =
     (case strcmp m firstKey secondKey of
        Inl e \<Rightarrow> Inl e
      | Inr res \<Rightarrow> Inr (if res = 0 then 1 else 0))"

definition EqualityFunctionForGroups :: EqualityFunction where
  "EqualityFunctionForGroups m firstKey secondKey =
     (case strcmp m firstKey secondKey of
        Inl e \<Rightarrow> Inl e
      | Inr res \<Rightarrow> Inr (if res = 0 then 1 else 0))"

definition keyDestroyUser :: "addr \<Rightarrow> ('s, unit) prog" where "keyDestroyUser k = ret ()"
definition valDestroyUser :: "addr \<Rightarrow> ('s, unit) prog" where "valDestroyUser v = ret ()"
definition keyDestroyGroup :: "addr \<Rightarrow> ('s, unit) prog" where "keyDestroyGroup k = ret ()"
definition valDestroyGroup :: "addr \<Rightarrow> ('s, unit) prog" where "valDestroyGroup v = ret ()"

section \<open>Creation and destruction\<close>

definition CreateUserDataBase :: "('a db_mem_scheme, addr) prog" where
  "CreateUserDataBase =
     chain (malloc 1) (\<lambda>users.
     if users = NULL then ret NULL
     else
       chain (HashMap_Create DB_CAPACITY (Some HashFunctionUsers) (Some EqualityFunctionForUsers))
         (\<lambda>mp.
       chain (set_users users mp) (\<lambda>_.
       if mp = None then ret NULL else ret users)))"

definition CreateGroupsDataBase :: "('a db_mem_scheme, addr) prog" where
  "CreateGroupsDataBase =
     chain (malloc 1) (\<lambda>groups.
     if groups = NULL then ret NULL
     else
       chain (HashMap_Create DB_CAPACITY (Some HashFunctionGroups) (Some EqualityFunctionForGroups))
         (\<lambda>mp.
       if mp = None then ret NULL
       else
         chain (set_groups groups \<lparr>m_groupNames = mp, m_numOfParticipant = 0\<rparr>) (\<lambda>_.
         ret groups)))"

definition CreateMainDataBase :: "('a db_mem_scheme, addr) prog" where
  "CreateMainDataBase =
     chain (malloc 1) (\<lambda>data.
     if data = NULL then ret NULL
     else
       chain CreateUserDataBase (\<lambda>u.
       chain CreateGroupsDataBase (\<lambda>g.
       chain CreateIP_Multecaste (\<lambda>p.
       chain (modify (\<lambda>s. s\<lparr>databases := (databases s)
         (data \<mapsto> \<lparr>m_userDB = u, m_groupDB = g, m_addIPPool = p\<rparr>)\<rparr>)) (\<lambda>_.
       ret data)))))"

definition DestroyUserDB :: "addr \<Rightarrow> ('a db_mem_scheme, unit) prog" where
  "DestroyUserDB u =
     (if u = NULL then ret ()
      else
        chain (obj users_dbs u) (\<lambda>mp.
        chain (HashMap_Destroy (Some mp) (Some keyDestroyUser) (Some valDestroyUser)) (\<lambda>mp'.
        chain (set_users u mp') (\<lambda>_.
        modify (\<lambda>s. s\<lparr>users_dbs := (users_dbs s)(u := None)\<rparr>)))))"

definition DestroyGroupsDB :: "addr \<Rightarrow> ('a db_mem_scheme, unit) prog" where
  "DestroyGroupsDB g =
     (if g = NULL then ret ()
      else
        chain (obj groups_dbs g) (\<lambda>r.
        chain (HashMap_Destroy (Some (m_groupNames r)) (Some keyDestroyGroup) (Some valDestroyGroup))
          (\<lambda>mp'.
        chain (set_groups g (r\<lparr>m_groupNames := mp'\<rparr>)) (\<lambda>_.
        modify (\<lambda>s. s\<lparr>groups_dbs := (groups_dbs s)(g := None)\<rparr>)))))"

definition DestroyDB :: "addr \<Rightarrow> ('a db_mem_scheme, unit) prog" where
  "DestroyDB db =
     (if db = NULL then ret ()
      else
        chain (obj databases db) (\<lambda>D.
        chain (DestroyUserDB (m_userDB D)) (\<lambda>_.
        DestroyGroupsDB (m_groupDB D))))"

section \<open>Users\<close>

text \<open>A map operation on the users of the data base, with the map stored back.\<close>

definition users_map :: "addr \<Rightarrow> ('a db_mem_scheme, addr \<times> hmap option) prog" where
  "users_map db =
     chain (obj databases db) (\<lambda>D.
     chain (obj users_dbs (m_userDB D)) (\<lambda>mp. ret (m_userDB D, mp)))"

definition groups_map :: "addr \<Rightarrow> ('a db_mem_scheme, addr \<times> GroupsDB) prog" where
  "groups_map db =
     chain (obj databases db) (\<lambda>D.
     chain (obj groups_dbs (m_groupDB D)) (\<lambda>r. ret (m_groupDB D, r)))"

definition InsertUserToList :: "addr \<Rightarrow> addr \<Rightarrow> int \<Rightarrow> ('a db_mem_scheme, DB_Err) prog" where
  "InsertUserToList db userDetails status =
     chain (malloc_bytes 24) (\<lambda>value.
     if value = NULL then ret DB_INSERT_FAIL
     else
       chain (wr_int value status) (\<lambda>_.
       if status = DISCONNECT then
         chain (strcpy (UserValue_psw value) (UserDetails_password userDetails)) (\<lambda>_.
         chain (HashMap_Create USER_GROUPS_CAPACITY (Some HashFunctionGroups)
                 (Some EqualityFunctionForGroups)) (\<lambda>g.
         chain (set_user_groups value g) (\<lambda>_.
         if g = None then ret DB_INSERT_FAIL
         else
           chain (users_map db) (\<lambda>(u, mp).
           chain (HashMap_Insert mp (UserDetails_userName userDetails) value) (\<lambda>(rcv, mp').
           chain (set_users u mp') (\<lambda>_.
           if rcv \<noteq> MAP_SUCCESS then ret DB_INSERT_FAIL else ret DB_SUCCESS))))))
       else ret DB_SUCCESS))"

definition IsUserNameUnique :: "addr \<Rightarrow> addr \<Rightarrow> ('a db_mem_scheme, int) prog" where
  "IsUserNameUnique db userDetails =
     chain (users_map db) (\<lambda>(u, mp).
     chain (HashMap_Find mp (UserDetails_userName userDetails)) (\<lambda>(r, pValue).
     if r = MAP_KEY_NOT_FOUND_ERROR then
       chain (InsertUserToList db userDetails DISCONNECT) (\<lambda>res. ret UNIQE)
     else ret ALREADY_EXIST))"

text \<open>\<open>_pValue\<close> is not initialised: using it when nothing was stored is a bad address.\<close>

definition CheckClientStatusAndConnect :: "addr \<Rightarrow> addr \<Rightarrow> ('a db_mem_scheme, DB_Err) prog" where
  "CheckClientStatusAndConnect db userDetails =
     (if db = NULL \<or> userDetails = NULL then ret DB_WORNG_USER_NAME
      else
        chain (users_map db) (\<lambda>(u, mp).
        chain (HashMap_Find mp (UserDetails_userName userDetails)) (\<lambda>(r, pValue).
        if r = MAP_KEY_NOT_FOUND_ERROR then ret DB_WORNG_USER_NAME
        else
          case pValue of
            None \<Rightarrow> fail BadAddress
          | Some v \<Rightarrow>
              chain (rd_int v) (\<lambda>status.
              if status = CONNECT then ret DB_ALREADY_CONNECTED
              else
                chain (reads (\<lambda>s. strcmp s (UserDetails_password userDetails) (UserValue_psw v)))
                  (\<lambda>res.
                if res \<noteq> 0 then ret DB_WORNG_PSW
                else
                  chain (InsertUserToList db userDetails CONNECT) (\<lambda>res.
                  if res = DB_SUCCESS then ret DB_CONNECT_SUCCESFULLY
                  else ret DB_CONNECT_SUCCESFULLY))))))"

section \<open>Groups\<close>

definition Update_Group_Details_For_User ::
  "addr \<Rightarrow> addr \<Rightarrow> addr \<Rightarrow> ('a db_mem_scheme, unit) prog" where
  "Update_Group_Details_For_User db userNameKey group_to_add =
     chain (users_map db) (\<lambda>(u, mp).
     chain (HashMap_Find mp userNameKey) (\<lambda>(r, pValue).
     if r \<noteq> MAP_SUCCESS then ret ()
     else
       chain (reads (\<lambda>s. strlen s group_to_add)) (\<lambda>n.
       chain (calloc_bytes n) (\<lambda>groupNameUpdate.
       if groupNameUpdate = NULL then ret ()
       else
         chain (strcpy groupNameUpdate group_to_add) (\<lambda>_.
         chain (obj user_groups (the pValue)) (\<lambda>g.
         chain (HashMap_Insert g groupNameUpdate groupNameUpdate) (\<lambda>(r', g').
         set_user_groups (the pValue) g')))))))"

text \<open>The parameter \<open>_type\<close> of the group operations is not used by the code.\<close>

definition Check_Group_Name_And_Insert ::
  "addr \<Rightarrow> addr \<Rightarrow> addr \<Rightarrow> ('a db_mem_scheme, DB_Err) prog" where
  "Check_Group_Name_And_Insert grp db ipAddress =
     (if grp = NULL \<or> db = NULL then ret DB_INSERT_FAIL
      else
        chain (malloc_bytes 40) (\<lambda>value_for_group.
        if value_for_group = NULL then ret DB_ALLOC_FAIL
        else
          chain (strcpy (GroupValue_groupName value_for_group) (GroupDetails_groupName grp)) (\<lambda>_.
          chain (wr_int value_for_group 1) (\<lambda>_.
          chain (groups_map db) (\<lambda>(g, r).
          chain (HashMap_Find (m_groupNames r) (GroupDetails_groupName grp)) (\<lambda>(e, pValue).
          if e \<noteq> MAP_KEY_NOT_FOUND_ERROR then ret DB_GROUP_NAME_ALREADY_EXIST
          else
            chain (obj databases db) (\<lambda>D.
            chain (GetIPAddress (m_addIPPool D) ipAddress) (\<lambda>_.
            chain (strcpy (GroupValue_ip_add_group value_for_group) ipAddress) (\<lambda>_.
            chain (HashMap_Insert (m_groupNames r) (GroupDetails_groupName grp) value_for_group)
              (\<lambda>(e', mp').
            chain (set_groups g (r\<lparr>m_groupNames := mp'\<rparr>)) (\<lambda>_.
            if e' \<noteq> MAP_SUCCESS then ret DB_INSERT_FAIL
            else
              chain (Update_Group_Details_For_User db (GroupDetails_userName grp)
                      (GroupDetails_groupName grp)) (\<lambda>_.
              ret DB_GROUP_SUCCESSFULLY_INSERT))))))))))))"

definition Try_to_Join_To_Group ::
  "addr \<Rightarrow> addr \<Rightarrow> addr \<Rightarrow> addr \<Rightarrow> ('a db_mem_scheme, DB_Err) prog" where
  "Try_to_Join_To_Group grp db ipAddress ipJoinGroup =
     (if grp = NULL \<or> db = NULL then ret DB_INSERT_FAIL
      else
        chain (groups_map db) (\<lambda>(g, r).
        chain (HashMap_Find (m_groupNames r) (GroupDetails_groupName grp)) (\<lambda>(e, bla).
        if e = MAP_KEY_NOT_FOUND_ERROR then ret DB_GROUP_NAME_NOT_EXIST
        else
          chain (HashMap_Find (m_groupNames r) (GroupDetails_groupName grp)) (\<lambda>(e', groupValue).
          if e' \<noteq> MAP_SUCCESS then ret DB_GROUP_SUCCESSFULLY_INSERT
          else
            let v = the groupValue in
            chain (reads (\<lambda>s. strcmp s (GroupDetails_groupName grp) (GroupValue_groupName v))) (\<lambda>res.
            if res \<noteq> 0 then ret DB_GROUP_SUCCESSFULLY_INSERT
            else
              chain (strcpy ipAddress (GroupValue_ip_add_group v)) (\<lambda>_.
              chain (strcpy ipJoinGroup (GroupValue_ip_add_group v)) (\<lambda>_.
              chain (rd_int v) (\<lambda>n.
              chain (reads (\<lambda>_. int_val (n + 1))) (\<lambda>n'.
              chain (wr_int v n') (\<lambda>_.
              ret DB_GROUP_JOIN_SUCCESSFULLY))))))))))"

definition Try_to_Leave_To_Group ::
  "addr \<Rightarrow> addr \<Rightarrow> addr \<Rightarrow> ('a db_mem_scheme, DB_Err) prog" where
  "Try_to_Leave_To_Group grp db ipRemoveGroup =
     (if grp = NULL \<or> db = NULL then ret DB_INSERT_FAIL
      else
        chain (users_map db) (\<lambda>(u, mp).
        chain (HashMap_Find mp (GroupDetails_userName grp)) (\<lambda>(e, userLeave).
        if e \<noteq> MAP_SUCCESS then ret DB_GROUP_NAME_NOT_EXIST
        else
          chain (obj user_groups (the userLeave)) (\<lambda>mg.
          chain (HashMap_Remove mg (GroupDetails_groupName grp)) (\<lambda>(e', removed, mg').
          chain (set_user_groups (the userLeave) mg') (\<lambda>_.
          if e' \<noteq> MAP_SUCCESS then ret DB_GROUP_NAME_NOT_EXIST
          else
            chain (groups_map db) (\<lambda>(g, r).
            chain (HashMap_Find (m_groupNames r) (GroupDetails_groupName grp)) (\<lambda>(e'', groupValue).
            chain (if e'' \<noteq> MAP_SUCCESS then ret ()
                   else
                     let v = the groupValue in
                     chain (reads (\<lambda>s. strcmp s (GroupDetails_groupName grp)
                                             (GroupValue_groupName v))) (\<lambda>res.
                     if res \<noteq> 0 then ret ()
                     else
                       chain (strcpy ipRemoveGroup (GroupValue_ip_add_group v)) (\<lambda>_.
                       chain (rd_int v) (\<lambda>n.
                       chain (reads (\<lambda>_. int_val (n - 1))) (\<lambda>n'. wr_int v n')))))
              (\<lambda>_. ret DB_GROUP_REMOVE_SUCCESSFULLY)))))))))"

end
