(* ===== verification/DataBaseKeys.thy ===== *)
theory DataBaseKeys
  imports DataBase
begin

text \<open>
  The keys of the maps of the data base. First the contract: with the hash and equality
  functions of \<^verbatim>\<open>DataBase.c\<close> a map is a partial function from strings, as long as the strings
  its keys point to stay as they are (interpretations \<open>users\<close> and \<open>groups\<close> of
  \<open>key_functions\<close>).

  Then what the server makes of it: every key it inserts is a pointer into the one receive
  buffer, at the same offset, so the strings behind all keys of a map change with every
  request and are always equal. \<open>alias_rep s m ka B\<close> describes such a map: all items have the
  key pointer \<open>ka\<close>, bucket \<open>i\<close> has at most one item, and \<open>B i\<close> is its value.
\<close>

section \<open>The functions on strings\<close>

definition char_sum :: "u8 list \<Rightarrow> int" where
  "char_sum cs = sum_list (map sint cs)"

definition char_hash :: "u8 list \<Rightarrow> u64" where
  "char_hash cs = word_of_int (char_sum cs)"

lemma sint_byte: "- 128 \<le> sint (c :: u8)" "sint (c :: u8) \<le> 127"
  using sint_range_size [of c] by (simp_all add: word_size)

lemma char_sum_bound: "\<bar>char_sum cs\<bar> \<le> 128 * int (length cs)"
proof (induction cs)
  case (Cons c cs)
  then show ?case using sint_byte [of c] by (simp add: char_sum_def)
qed (simp add: char_sum_def)

lemma sum_chars_ok:
  "\<bar>acc\<bar> + 128 * int (length cs) < 2 ^ 31 \<Longrightarrow> sum_chars cs acc = Inr (acc + char_sum cs)"
proof (induction cs arbitrary: acc)
  case (Cons c cs)
  have "int_ok (acc + sint c)" using Cons.prems sint_byte [of c] by (auto simp: int_ok_def)
  moreover have "sum_chars cs (acc + sint c) = Inr (acc + sint c + char_sum cs)"
    using Cons.prems sint_byte [of c] by (intro Cons.IH) auto
  ultimately show ?case by (simp add: int_val_def char_sum_def)
qed (simp add: char_sum_def)

definition string_key :: "bmem \<Rightarrow> addr \<Rightarrow> u8 list \<Rightarrow> bool" where
  "string_key m a cs \<longleftrightarrow> str_at m a cs \<and> length cs < 2 ^ 23"

lemma length_as_int: "n < 2 ^ 31 \<Longrightarrow> sint (of_nat n :: i32) = int n"
  by (simp add: signed_of_nat signed_take_bit_int_eq_self)

lemma HashFunctionUsers_ok:
  assumes "str_at m a cs" and "length cs < 2 ^ 23"
  shows "HashFunctionUsers m a = Inr (char_hash cs)"
  using assms sum_chars_ok [of 0 cs]
  by (simp add: HashFunctionUsers_def str_at_c_str length_as_int char_hash_def)

lemma HashFunctionGroups_ok:
  assumes "str_at m a cs" and "length cs < 2 ^ 23"
  shows "HashFunctionGroups m a = Inr (char_hash cs)"
  using assms sum_chars_ok [of 0 cs]
  by (simp add: HashFunctionGroups_def str_at_c_str length_as_int char_hash_def)

lemma EqualityFunctionForUsers_ok:
  assumes "str_at m a xs" and "str_at m b ys"
  shows "EqualityFunctionForUsers m a b = Inr (if xs = ys then 1 else 0)"
  using strcmp_str_at [OF assms] by (auto simp: EqualityFunctionForUsers_def)

lemma EqualityFunctionForGroups_ok:
  assumes "str_at m a xs" and "str_at m b ys"
  shows "EqualityFunctionForGroups m a b = Inr (if xs = ys then 1 else 0)"
  using strcmp_str_at [OF assms] by (auto simp: EqualityFunctionForGroups_def)

lemma string_key_laws:
  "string_key m a k \<Longrightarrow> string_key m a k' \<Longrightarrow> k = k'"
  "string_key m a k \<Longrightarrow> a \<noteq> NULL"
  "string_key m a k \<Longrightarrow> brk m \<le> brk m' \<Longrightarrow> bytes m' = bytes m \<Longrightarrow> string_key m' a k"
  unfolding string_key_def by (blast intro: str_at_unique) (simp_all add: str_at_def)

text \<open>Functions on strings of bounded length: a hash of the characters, and equality.\<close>

locale string_functions =
  fixes hf :: HashFunction and ef :: EqualityFunction
  assumes hash_str: "str_at m a cs \<Longrightarrow> length cs < 2 ^ 23 \<Longrightarrow> hf m a = Inr (char_hash cs)"
    and equal_str: "str_at m a xs \<Longrightarrow> str_at m b ys \<Longrightarrow> ef m a b = Inr (if xs = ys then 1 else 0)"

sublocale string_functions \<subseteq> key_functions hf ef string_key char_hash
proof unfold_locales
  show "hf bm a = Inr (char_hash k)" if "string_key bm a k" for bm a k
    using that by (simp add: string_key_def hash_str)
  show "\<exists>r. ef bm a b = Inr r \<and> (r = 1 \<longleftrightarrow> k = k')"
    if "string_key bm a k" "string_key bm b k'" for bm a k b k'
    using equal_str [of bm a k b k'] that by (auto simp: string_key_def)
qed (fact string_key_laws)+

section \<open>The size of the tables\<close>

text \<open>The prime from 50 on is 53.\<close>

lemma prime_loop_51: "prime_loop 51 3 = Some 0"
  by (subst prime_loop.simps) simp

lemma prime_loop_53: "prime_loop 53 3 = Some 1"
  by (subst prime_loop.simps, simp, subst prime_loop.simps, simp, subst prime_loop.simps, simp,
      subst prime_loop.simps, simp)

lemma CheckIfPrime_50: "CheckIfPrime 50 = Some 0" "CheckIfPrime 51 = Some 0"
  "CheckIfPrime 52 = Some 0" "CheckIfPrime 53 = Some 1"
  by (simp_all add: CheckIfPrime_def prime_loop_51 prime_loop_53)

lemma FindPrime_50: "FindPrimeLargerThan 50 = Some 53"
  by (subst FindPrimeLargerThan.simps, simp add: CheckIfPrime_50,
      subst FindPrimeLargerThan.simps, simp add: CheckIfPrime_50,
      subst FindPrimeLargerThan.simps, simp add: CheckIfPrime_50,
      subst FindPrimeLargerThan.simps, simp add: CheckIfPrime_50)

section \<open>Maps whose keys are one pointer\<close>

definition slot :: "u8 list \<Rightarrow> nat" where
  "slot cs = unat (char_hash cs mod 53)"

lemma slot_less: "slot cs < 53"
  by (simp add: slot_def unat_mod)

text \<open>The items \<open>ds\<close> of a bucket are none, or one with the key \<open>ka\<close> and the given value.\<close>

fun bucket_is :: "(addr \<Rightarrow> ditem option) \<Rightarrow> addr \<Rightarrow> addr list \<Rightarrow> addr option \<Rightarrow> bool" where
  "bucket_is D ka ds None \<longleftrightarrow> ds = []"
| "bucket_is D ka ds (Some v) \<longleftrightarrow> (\<exists>d. ds = [d] \<and> D d = Some \<lparr>m_value = v, m_key = ka\<rparr>)"

definition alias_rep ::
  "HashFunction \<Rightarrow> EqualityFunction \<Rightarrow> 'a hash_mem_scheme \<Rightarrow> hmap \<Rightarrow> addr \<Rightarrow> (nat \<rightharpoonup> addr) \<Rightarrow> bool" where
  "alias_rep hf ef s m ka B \<longleftrightarrow> m_hashFunc m = Some hf \<and> m_keysEqualFunc m = Some ef \<and>
     m_allocSize m = 53 \<and> dom B \<subseteq> {..<53} \<and>
     (\<exists>dss. hmap_rep s m dss \<and>
       (\<forall>i < 53. bucket_is (ditems s) ka (dss ! i) (B i)))"

lemma bucket_is_cong:
  "bucket_is D ka ds b \<Longrightarrow> (\<And>d. D d \<noteq> None \<Longrightarrow> D' d = D d) \<Longrightarrow> bucket_is D' ka ds b"
  by (cases b) auto

lemma str_at_truncate [simp]: "str_at (bmem.truncate s) a xs = str_at s a xs"
  by (simp add: str_at_def bmem.defs)

lemma alias_rep_frame:
  assumes rep: "alias_rep hf ef s m ka B" and fr: "hash_frame L {} s s'" and wf: "wf_hash_mem s"
    and L: "\<forall>l \<in> set (the (hm_data m)). l \<notin> L \<or> l = NULL"
  shows "alias_rep hf ef s' m ka B"
proof -
  obtain dss where dss: "hmap_rep s m dss" "\<forall>i < 53. bucket_is (ditems s) ka (dss ! i) (B i)"
    using rep by (auto simp: alias_rep_def)
  have h: "hmap_rep s' m dss" by (rule hmap_rep_frame [OF dss(1) fr wf L]) simp
  have d: "ditems s' d = ditems s d" if "ditems s d \<noteq> None" for d
  proof -
    have "d < brk s" using that wf unfolding wf_hash_mem_def by (metis not_le)
    then show ?thesis using fr unfolding hash_frame_def by blast
  qed
  have "bucket_is (ditems s') ka (dss ! i) (B i)" if "i < 53" for i
    by (rule bucket_is_cong [OF _ d]) (use dss(2) that in auto)
  with rep h show ?thesis unfolding alias_rep_def by blast
qed

lemma hmap_rep_heaps:
  "nodes s' = nodes s \<Longrightarrow> ditems s' = ditems s \<Longrightarrow> hmap_rep s' m dss = hmap_rep s m dss"
  by (simp add: hmap_rep_def table_rep_def bucket_rep_def)

lemma alias_rep_heaps:
  "nodes s' = nodes s \<Longrightarrow> ditems s' = ditems s \<Longrightarrow>
   alias_rep hf ef s' m ka B = alias_rep hf ef s m ka B"
  by (simp add: alias_rep_def hmap_rep_heaps [of s' s])

context string_functions
begin

lemma call_functions:
  assumes "m_hashFunc m = Some hf" and "m_keysEqualFunc m = Some ef"
  shows "str_at s a cs \<Longrightarrow> length cs < 2 ^ 23 \<Longrightarrow> call_hash m a s = Inr (char_hash cs, s)"
    "str_at s a xs \<Longrightarrow> str_at s b ys \<Longrightarrow>
     call_equal m a b s = Inr (if xs = ys then 1 else 0, s)"
  using assms hash_str [of "bmem.truncate s"] equal_str [of "bmem.truncate s"]
  by (simp_all add: call_hash_def call_equal_def reads_def)

text \<open>
  A lookup through a pointer \<open>kb\<close>: every item of the bucket matches, if \<open>kb\<close> reads the same
  string as the key pointer of the map, and none does otherwise.
\<close>

lemma alias_lookup:
  assumes rep: "alias_rep hf ef s m ka B" and a: "str_at s ka xs"
    and b: "str_at s kb cs" "length cs < 2 ^ 23"
  obtains dss where "hmap_rep s m dss" "call_hash m kb s = Inr (char_hash cs, s)"
    "slot cs = unat (char_hash cs mod m_allocSize m)"
    "decides s m kb (dss ! slot cs) (\<lambda>d. xs = cs)"
    "\<forall>i < 53. bucket_is (ditems s) ka (dss ! i) (B i)"
    "length dss = 53"
proof -
  obtain dss where dss: "hmap_rep s m dss" "\<forall>i < 53. bucket_is (ditems s) ka (dss ! i) (B i)"
    and m: "m_hashFunc m = Some hf" "m_keysEqualFunc m = Some ef" "m_allocSize m = 53"
    using rep by (auto simp: alias_rep_def)
  have len: "length dss = 53" using dss(1) m(3) by (auto simp: hmap_rep_def)
  have "decides s m kb (dss ! slot cs) (\<lambda>d. xs = cs)"
    unfolding decides_def
  proof
    fix d assume d: "d \<in> set (dss ! slot cs)"
    then obtain v where v: "ditems s d = Some \<lparr>m_value = v, m_key = ka\<rparr>"
      using dss(2) slot_less [of cs] by (cases "B (slot cs)") fastforce+
    have "d \<in> set (concat dss)" using d nth_in_concat [of "slot cs" dss] len slot_less by auto
    then have "d \<noteq> NULL" using dss(1) by (auto simp: hmap_rep_def)
    with v call_functions(2) [OF m(1,2) a b(1)] show "d \<noteq> NULL \<and> (\<exists>x r. ditems s d = Some x \<and>
        call_equal m (m_key x) kb s = Inr (r, s) \<and> (r = 1) = (xs = cs))" by auto
  qed
  then show ?thesis
    using that [OF dss(1)] call_functions(1) [OF m(1,2) b] m(3) dss(2) len by (simp add: slot_def)
qed

lemma alias_find:
  assumes rep: "alias_rep hf ef s m ka B" and wf: "wf_hash_mem s" and a: "str_at s ka cs"
    and len: "length cs < 2 ^ 23"
  shows "HashMap_Find (Some m) ka s = Inr (case B (slot cs) of
    None \<Rightarrow> (MAP_KEY_NOT_FOUND_ERROR, None) | Some v \<Rightarrow> (MAP_SUCCESS, Some v), s)"
proof -
  obtain dss where d: "hmap_rep s m dss" "call_hash m ka s = Inr (char_hash cs, s)"
    "slot cs = unat (char_hash cs mod m_allocSize m)" "decides s m ka (dss ! slot cs) (\<lambda>d. cs = cs)"
    "\<forall>i < 53. bucket_is (ditems s) ka (dss ! i) (B i)"
    by (rule alias_lookup [OF rep a a len]) blast
  have "ka \<noteq> NULL" using a by (simp add: str_at_def)
  note run = HashMap_Find_rep [OF d(1) wf this d(2,3,4)]
  have "bucket_is (ditems s) ka (dss ! slot cs) (B (slot cs))" using d(5) slot_less by blast
  with run show ?thesis by (cases "B (slot cs)") auto
qed

lemma alias_find_other:
  assumes rep: "alias_rep hf ef s m ka B" and wf: "wf_hash_mem s" and a: "str_at s ka xs"
    and b: "str_at s kb cs" "length cs < 2 ^ 23" and ne: "xs \<noteq> cs"
  shows "HashMap_Find (Some m) kb s = Inr ((MAP_KEY_NOT_FOUND_ERROR, None), s)"
proof -
  obtain dss where d: "hmap_rep s m dss" "call_hash m kb s = Inr (char_hash cs, s)"
    "slot cs = unat (char_hash cs mod m_allocSize m)" "decides s m kb (dss ! slot cs) (\<lambda>d. xs = cs)"
    by (rule alias_lookup [OF rep a b]) blast
  have "kb \<noteq> NULL" using b(1) by (simp add: str_at_def)
  moreover have "find (\<lambda>d. xs = cs) (dss ! slot cs) = None" using ne by (simp add: find_None_iff)
  ultimately show ?thesis using HashMap_Find_rep [OF d(1) wf _ d(2,3,4)] by simp
qed

lemma alias_insert:
  assumes rep: "alias_rep hf ef s m ka B" and wf: "wf_hash_mem s" and a: "str_at s ka cs"
    and len: "length cs < 2 ^ 23" and new: "B (slot cs) = None" and env: "enough_mem s" "quiet s"
  shows "\<exists>s' m'. HashMap_Insert (Some m) ka v s = Inr ((MAP_SUCCESS, Some m'), s') \<and>
    alias_rep hf ef s' m' ka (B(slot cs \<mapsto> v)) \<and> hash_frame (set (the (hm_data m))) {} s s' \<and>
    wf_hash_mem s' \<and>
    (\<forall>l \<in> set (the (hm_data m')). l \<in> set (the (hm_data m)) \<or> brk s \<le> l \<and> l < brk s')"
proof -
  obtain dss where d: "hmap_rep s m dss" "call_hash m ka s = Inr (char_hash cs, s)"
    "slot cs = unat (char_hash cs mod m_allocSize m)" "decides s m ka (dss ! slot cs) (\<lambda>d. cs = cs)"
    "\<forall>i < 53. bucket_is (ditems s) ka (dss ! i) (B i)"
    "length dss = 53"
    by (rule alias_lookup [OF rep a a len]) blast
  have ka: "ka \<noteq> NULL" using a by (simp add: str_at_def)
  have e: "dss ! slot cs = []" using d(5) new slot_less [of cs] by (auto split: option.splits)
  then have fn: "find (\<lambda>d. cs = cs) (dss ! slot cs) = None" by simp
  from HashMap_Insert_new [OF d(1) wf ka d(2,3,4) fn env]
  obtain s' m' x where r: "HashMap_Insert (Some m) ka v s = Inr ((MAP_SUCCESS, Some m'), s')"
    "hmap_rep s' m' (dss[slot cs := x # dss ! slot cs])" "ditems s' x = Some \<lparr>m_value = v, m_key = ka\<rparr>"
    "hash_frame {the (hm_data m) ! slot cs} {} s s'" "wf_hash_mem s'" "hmap_like m m'"
    "\<exists>l. the (hm_data m') = (the (hm_data m))[slot cs := l] \<and>
         (l = the (hm_data m) ! slot cs \<or> brk s \<le> l \<and> l < brk s')" by metis
  have t: "slot cs < length (the (hm_data m))"
    using d(1,6) slot_less [of cs] by (auto simp: hmap_rep_def table_rep_def)
  have dd: "ditems s' y = ditems s y" if "ditems s y \<noteq> None" for y
  proof -
    have "y < brk s" using that wf unfolding wf_hash_mem_def by (metis not_le)
    then show ?thesis using r(4) unfolding hash_frame_def by blast
  qed
  have "bucket_is (ditems s') ka (dss[slot cs := [x]] ! i) ((B(slot cs \<mapsto> v)) i)" if i: "i < 53" for i
  proof (cases "i = slot cs")
    case True
    with r(3) d(6) i show ?thesis by simp
  next
    case False
    have "bucket_is (ditems s') ka (dss ! i) (B i)"
      by (rule bucket_is_cong [OF _ dd]) (use d(5) i in auto)
    with False show ?thesis by simp
  qed
  moreover have "hash_frame (set (the (hm_data m))) {} s s'"
    by (rule hash_frame_mono [OF r(4)]) (use t in auto)
  moreover have "\<forall>l \<in> set (the (hm_data m')). l \<in> set (the (hm_data m)) \<or> brk s \<le> l \<and> l < brk s'"
    using r(7) t set_update_subset_insert [of "the (hm_data m)"] by (metis insert_iff nth_mem subsetD)
  moreover have "alias_rep hf ef s' m' ka (B(slot cs \<mapsto> v))"
    unfolding alias_rep_def
  proof (intro conjI exI [of _ "dss[slot cs := [x]]"] allI impI)
    show "hmap_rep s' m' (dss[slot cs := [x]])" using r(2) e by simp
    show "dom (B(slot cs \<mapsto> v)) \<subseteq> {..<53}" using rep slot_less by (simp add: alias_rep_def)
  qed (use rep r(6) calculation(1) in \<open>simp_all add: alias_rep_def hmap_like_def\<close>)
  ultimately show ?thesis using r(1,5) by blast
qed

lemma alias_create:
  assumes wf: "wf_hash_mem s" and mem: "enough_mem s"
  shows "\<exists>s' m. HashMap_Create 50 (Some hf) (Some ef) s = Inr (Some m, s') \<and>
    alias_rep hf ef s' m ka Map.empty \<and> set (the (hm_data m)) \<subseteq> {NULL} \<and>
    hash_frame {} {} s s' \<and> wf_hash_mem s'"
proof -
  from HashMap_Create_ok [OF _ FindPrime_50 _ wf mem, of hf ef]
  obtain s' m where "HashMap_Create 50 (Some hf) (Some ef) s = Inr (Some m, s')"
    "hmap_rep s' m (replicate 53 [])" "m_hashFunc m = Some hf" "m_keysEqualFunc m = Some ef"
    "m_allocSize m = 53" "set (the (hm_data m)) \<subseteq> {NULL}" "hash_frame {} {} s s'" "wf_hash_mem s'"
    by auto
  then show ?thesis unfolding alias_rep_def
    by (intro exI [of _ s'] exI [of _ m]) (auto intro!: exI [of _ "replicate 53 []"])
qed

end

interpretation users: string_functions HashFunctionUsers EqualityFunctionForUsers
  by unfold_locales (fact HashFunctionUsers_ok, fact EqualityFunctionForUsers_ok)

interpretation groups: string_functions HashFunctionGroups EqualityFunctionForGroups
  by unfold_locales (fact HashFunctionGroups_ok, fact EqualityFunctionForGroups_ok)

end
