(* ===== verification/HashRun.thy ===== *)
theory HashRun
  imports DataBaseKeys
begin

text \<open>
  The hash map as a dictionary: any sequence of insertions, lookups, removals and size queries on
  a map made by \<open>HashMap_Create\<close> gives the results of the same sequence on a partial function from
  the keys that the pointers denote. The run is proved once for every map with lawful key
  functions and holds for the maps of the data base, whose keys are C strings.
\<close>

section \<open>Sequences of operations\<close>

datatype map_op = MInsert addr addr | MFind addr | MRemove addr | MSize

datatype map_res = MCode Map_Result | MFound Map_Result "addr option" | MRemoved Map_Result "addr option" | MCount u64

fun map_step :: "map_op \<Rightarrow> hmap option \<Rightarrow> ('a hash_mem_scheme, map_res \<times> hmap option) prog" where
  "map_step (MInsert k v) m = chain (HashMap_Insert m k v) (\<lambda>(r, m'). ret (MCode r, m'))"
| "map_step (MFind k) m = chain (HashMap_Find m k) (\<lambda>(r, v). ret (MFound r v, m))"
| "map_step (MRemove k) m =
     chain (HashMap_Remove m k) (\<lambda>(r, kv, m'). ret (MRemoved r (map_option snd kv), m'))"
| "map_step MSize m = ret (MCount (HashMap_Size m), m)"

fun map_run :: "map_op list \<Rightarrow> hmap option \<Rightarrow> ('a hash_mem_scheme, map_res list \<times> hmap option) prog" where
  "map_run [] m = ret ([], m)"
| "map_run (p # ps) m = chain (map_step p m) (\<lambda>(r, m1). chain (map_run ps m1) (\<lambda>(rs, m2). ret (r # rs, m2)))"

fun op_keys :: "map_op \<Rightarrow> addr set" where
  "op_keys (MInsert k v) = {k}"
| "op_keys (MFind k) = {k}"
| "op_keys (MRemove k) = {k}"
| "op_keys MSize = {}"

text \<open>The reference: the same operations on a partial function; \<open>kf\<close> gives the key of a pointer.\<close>

fun dict_step :: "(addr \<Rightarrow> 'k) \<Rightarrow> map_op \<Rightarrow> ('k \<rightharpoonup> addr) \<Rightarrow> map_res \<times> ('k \<rightharpoonup> addr)" where
  "dict_step kf (MInsert k v) M =
     (case M (kf k) of None \<Rightarrow> (MCode MAP_SUCCESS, M(kf k \<mapsto> v)) | Some _ \<Rightarrow> (MCode MAP_KEY_DUPLICATE_ERROR, M))"
| "dict_step kf (MFind k) M =
     (case M (kf k) of None \<Rightarrow> (MFound MAP_KEY_NOT_FOUND_ERROR None, M) | Some v \<Rightarrow> (MFound MAP_SUCCESS (Some v), M))"
| "dict_step kf (MRemove k) M =
     (case M (kf k) of None \<Rightarrow> (MRemoved MAP_KEY_NOT_FOUND_ERROR None, M)
      | Some v \<Rightarrow> (MRemoved MAP_SUCCESS (Some v), M(kf k := None)))"
| "dict_step kf MSize M = (MCount (of_nat (card (dom M))), M)"

fun dict_run :: "(addr \<Rightarrow> 'k) \<Rightarrow> map_op list \<Rightarrow> ('k \<rightharpoonup> addr) \<Rightarrow> map_res list \<times> ('k \<rightharpoonup> addr)" where
  "dict_run kf [] M = ([], M)"
| "dict_run kf (p # ps) M =
     (fst (dict_step kf p M) # fst (dict_run kf ps (snd (dict_step kf p M))),
      snd (dict_run kf ps (snd (dict_step kf p M))))"

section \<open>Refinement for lawful keys\<close>

definition dict_inv ::
  "HashFunction \<Rightarrow> EqualityFunction \<Rightarrow> (bmem \<Rightarrow> addr \<Rightarrow> 'k \<Rightarrow> bool) \<Rightarrow> ('k \<Rightarrow> u64) \<Rightarrow>
   'a hash_mem_scheme \<Rightarrow> hmap option \<Rightarrow> ('k \<rightharpoonup> addr) \<Rightarrow> bool" where
  "dict_inv hf ef key_at H s mp M \<longleftrightarrow>
     (\<exists>m. mp = Some m \<and> map_abs hf ef key_at H s m M) \<and> enough_mem s \<and> quiet s \<and> finite (dom M) \<and>
     HashMap_Size mp = of_nat (card (dom M))"

context key_functions
begin

lemma map_step_refines:
  assumes inv: "dict_inv hf ef key_at H s mp M"
    and keys: "\<forall>k \<in> op_keys p. key_at (bmem.truncate s) k (kf k)"
  shows "\<exists>s' mp'. map_step p mp s = Inr ((fst (dict_step kf p M), mp'), s') \<and>
    dict_inv hf ef key_at H s' mp' (snd (dict_step kf p M)) \<and> bytes s' = bytes s \<and> brk s \<le> brk s'"
proof -
  obtain m where m: "mp = Some m" "map_abs hf ef key_at H s m M" and env: "enough_mem s" "quiet s"
    and fin: "finite (dom M)" and size: "HashMap_Size mp = of_nat (card (dom M))"
    using inv by (auto simp: dict_inv_def)
  show ?thesis
  proof (cases p)
    case (MInsert k v)
    then have k: "key_at (bmem.truncate s) k (kf k)" using keys by simp
    show ?thesis
    proof (cases "M (kf k)")
      case None
      from insert_refines [OF m(2) k None env, of v] obtain s' m' where
        s': "HashMap_Insert (Some m) k v s = Inr ((MAP_SUCCESS, Some m'), s')"
          "map_abs hf ef key_at H s' m' (M(kf k \<mapsto> v))" "HashMap_Size (Some m') = HashMap_Size (Some m) + 1"
          "bytes s' = bytes s" "enough_mem s'" "quiet s'" "brk s \<le> brk s'" by blast
      have "kf k \<notin> dom M" using None by auto
      then have "card (dom (M(kf k \<mapsto> v))) = Suc (card (dom M))" using fin by simp
      then have "dict_inv hf ef key_at H s' (Some m') (M(kf k \<mapsto> v))"
        using s' fin size m(1) by (simp add: dict_inv_def)
      then show ?thesis using s' None MInsert m(1) by auto
    next
      case (Some w)
      then show ?thesis using insert_duplicate [OF m(2) k] MInsert m(1) inv by simp
    qed
  next
    case (MFind k)
    then have "key_at (bmem.truncate s) k (kf k)" using keys by simp
    from find_refines [OF m(2) this] show ?thesis using MFind m(1) inv by (cases "M (kf k)") auto
  next
    case (MRemove k)
    then have k: "key_at (bmem.truncate s) k (kf k)" using keys by simp
    show ?thesis
    proof (cases "M (kf k)")
      case None
      then show ?thesis using remove_absent [OF m(2) k None] MRemove m(1) inv by simp
    next
      case (Some v)
      from remove_refines [OF m(2) k Some] obtain s' m' pk where
        s': "HashMap_Remove (Some m) k s = Inr ((MAP_SUCCESS, Some (pk, v), Some m'), s')"
          "map_abs hf ef key_at H s' m' (M(kf k := None))" "HashMap_Size (Some m') = HashMap_Size (Some m) - 1"
          "bytes s' = bytes s" "enough_mem s' = enough_mem s" "quiet s' = quiet s" "brk s \<le> brk s'" by blast
      have kd: "kf k \<in> dom M" using Some by auto
      then have "card (dom M) = Suc (card (dom M - {kf k}))" by (rule card.remove [OF fin])
      then have "dict_inv hf ef key_at H s' (Some m') (M(kf k := None))"
        using s' fin size m(1) env by (simp add: dict_inv_def)
      then show ?thesis using s' Some MRemove m(1) by auto
    qed
  next
    case MSize
    then show ?thesis using inv size by simp
  qed
qed

lemma map_run_refines:
  assumes "dict_inv hf ef key_at H s mp M"
    and "\<forall>p \<in> set ps. \<forall>k \<in> op_keys p. key_at (bmem.truncate s) k (kf k)"
  shows "\<exists>s' mp'. map_run ps mp s = Inr ((fst (dict_run kf ps M), mp'), s') \<and>
    dict_inv hf ef key_at H s' mp' (snd (dict_run kf ps M))"
  using assms
proof (induction ps arbitrary: s mp M)
  case (Cons p ps)
  obtain s1 m1 where s1: "map_step p mp s = Inr ((fst (dict_step kf p M), m1), s1)"
    "dict_inv hf ef key_at H s1 m1 (snd (dict_step kf p M))" "bytes s1 = bytes s" "brk s \<le> brk s1"
    using map_step_refines [OF Cons.prems(1), of p kf] Cons.prems(2) by auto
  have "key_at (bmem.truncate s1) k (kf k)" if "q \<in> set ps" "k \<in> op_keys q" for q k
    by (rule key_mono [of "bmem.truncate s"]) (use Cons.prems(2) that s1(3,4) in \<open>auto simp: bmem.defs\<close>)
  with Cons.IH [OF s1(2)] s1(1) show ?case by (auto simp: split_beta)
qed simp

lemma map_life_refines:
  assumes cap: "capacity \<noteq> 0" "FindPrimeLargerThan capacity = Some n" "n \<noteq> 0"
    and env: "wf_hash_mem s" "enough_mem s" "quiet s"
    and keys: "\<forall>p \<in> set ps. \<forall>k \<in> op_keys p. key_at (bmem.truncate s) k (kf k)"
  shows "\<exists>m s1 mp s2. HashMap_Create capacity (Some hf) (Some ef) s = Inr (Some m, s1) \<and>
    map_run ps (Some m) s1 = Inr ((fst (dict_run kf ps Map.empty), mp), s2) \<and>
    dict_inv hf ef key_at H s2 mp (snd (dict_run kf ps Map.empty))"
proof -
  from create_refines [OF cap env(1,2)] obtain s1 m where
    c: "HashMap_Create capacity (Some hf) (Some ef) s = Inr (Some m, s1)"
      "map_abs hf ef key_at H s1 m Map.empty" "HashMap_Size (Some m) = 0" "bytes s1 = bytes s"
      "enough_mem s1" "quiet s1 = quiet s" "brk s \<le> brk s1" by blast
  have "dict_inv hf ef key_at H s1 (Some m) Map.empty" using c env by (simp add: dict_inv_def)
  moreover have "key_at (bmem.truncate s1) k (kf k)" if "p \<in> set ps" "k \<in> op_keys p" for p k
    by (rule key_mono [of "bmem.truncate s"]) (use keys that c(4,7) in \<open>auto simp: bmem.defs\<close>)
  ultimately show ?thesis using map_run_refines [of s1 "Some m" Map.empty ps kf] c(1) by blast
qed

end

end
