(* ===== verification/QueueRun.thy ===== *)
theory QueueRun
  imports PoolAddr
begin

text \<open>
  Runs of the queue and of the address pool: a sequence of queue operations that never removes
  from an empty queue gives the results of a bounded FIFO (\<open>fifo_run\<close>), overflow included; a
  removal from an empty queue is not detected and makes the item count wrap around; the pool
  hands out its addresses in order and starts again after the last one.
\<close>

section \<open>Sequences of queue operations\<close>

datatype queue_op = Enq addr | Deq | TestEmpty

datatype queue_res = QCode QueueErr | QItem QueueErr "addr option" | QFlag int

fun queue_step :: "addr \<Rightarrow> queue_op \<Rightarrow> ('a queue_mem_scheme, queue_res) prog" where
  "queue_step q (Enq x) = chain (QueueInsert q x) (\<lambda>e. ret (QCode e))"
| "queue_step q Deq = chain (QueueRemove q) (\<lambda>(e, x). ret (QItem e x))"
| "queue_step q TestEmpty = chain (QueueIsEmpty q) (\<lambda>b. ret (QFlag b))"

fun queue_run :: "addr \<Rightarrow> queue_op list \<Rightarrow> ('a queue_mem_scheme, queue_res list) prog" where
  "queue_run q [] = ret []"
| "queue_run q (p # ps) = chain (queue_step q p) (\<lambda>r. chain (queue_run q ps) (\<lambda>rs. ret (r # rs)))"

text \<open>The reference: a FIFO of at most \<open>n\<close> items. A \<open>Deq\<close> of an empty one is no step.\<close>

fun fifo_step :: "nat \<Rightarrow> queue_op \<Rightarrow> addr list \<Rightarrow> (queue_res \<times> addr list) option" where
  "fifo_step n (Enq x) xs =
     (if x = NULL then Some (QCode QERR_NOT_INITIALIZED, xs)
      else if length xs = n then Some (QCode QERR_OVERFLOW, xs)
      else Some (QCode QERR_OK, xs @ [x]))"
| "fifo_step n Deq xs = (case xs of [] \<Rightarrow> None | x # ys \<Rightarrow> Some (QItem QERR_OK (Some x), ys))"
| "fifo_step n TestEmpty xs = Some (QFlag (if xs = [] then 1 else 0), xs)"

fun fifo_run :: "nat \<Rightarrow> queue_op list \<Rightarrow> addr list \<Rightarrow> (queue_res list \<times> addr list) option" where
  "fifo_run n [] xs = Some ([], xs)"
| "fifo_run n (p # ps) xs =
     (case fifo_step n p xs of None \<Rightarrow> None
      | Some (r, ys) \<Rightarrow> map_option (\<lambda>(rs, zs). (r # rs, zs)) (fifo_run n ps ys))"

lemma queue_rep_bound: "queue_rep n s q xs \<Longrightarrow> length xs \<le> n \<and> q \<noteq> NULL"
  by (auto simp: queue_rep_def)

lemma QueueInsert_null: "queue_rep n s q xs \<Longrightarrow> QueueInsert q NULL s = Inr (QERR_NOT_INITIALIZED, s)"
  by (auto simp: queue_rep_def QueueInsert_def rd_queue_step)

lemma queue_step_refines:
  assumes rep: "queue_rep n s q xs" and step: "fifo_step n p xs = Some (r, ys)"
  shows "\<exists>s'. queue_step q p s = Inr (r, s') \<and> queue_rep n s' q ys"
proof (cases p)
  case (Enq x)
  consider "x = NULL" | "x \<noteq> NULL" "length xs = n" | "x \<noteq> NULL" "length xs < n"
    using queue_rep_bound [OF rep] by linarith
  then show ?thesis
  proof cases
    case 1
    then show ?thesis using Enq step rep QueueInsert_null [OF rep] by auto
  next
    case 2
    then show ?thesis using Enq step rep ring.enq_full [OF rep 2] by auto
  next
    case 3
    then show ?thesis using Enq step ring.enq_ok [OF rep 3] by auto
  qed
next
  case Deq
  then obtain x where x: "xs = x # ys" "r = QItem QERR_OK (Some x)" using step by (auto split: list.splits)
  show ?thesis using Deq ring.deq_ok [of n s q x ys] rep x by auto
next
  case TestEmpty
  then show ?thesis using step rep QueueIsEmpty_ok [OF rep] by auto
qed

lemma queue_run_refines:
  assumes "queue_rep n s q xs" and "fifo_run n ps xs = Some (rs, ys)"
  shows "\<exists>s'. queue_run q ps s = Inr (rs, s') \<and> queue_rep n s' q ys"
  using assms
proof (induction ps arbitrary: s xs rs)
  case (Cons p ps)
  from Cons.prems(2) obtain r zs rs' where r: "fifo_step n p xs = Some (r, zs)"
    "fifo_run n ps zs = Some (rs', ys)" "rs = r # rs'" by (auto split: option.splits)
  obtain s1 where s1: "queue_step q p s = Inr (r, s1)" "queue_rep n s1 q zs"
    using queue_step_refines [OF Cons.prems(1) r(1)] by blast
  obtain s2 where "queue_run q ps s1 = Inr (rs', s2)" "queue_rep n s2 q ys"
    using Cons.IH [OF s1(2) r(2)] by blast
  with s1(1) r(3) show ?case by auto
qed auto

text \<open>Removing from an empty queue returns \<open>QERR_OK\<close> and an old slot; the count becomes \<open>2^64 - 1\<close>.\<close>

lemma QueueRemove_empty:
  assumes "queue_rep n s q []"
  shows "\<exists>a h s'. ring_at s q a h 0 \<and> QueueRemove q s = Inr ((QERR_OK, Some (a ! h)), s') \<and>
    ring_at s' q a (Suc h mod n) (- 1)"
proof -
  obtain a h where a: "ring_at s q a h 0" "length a = n" using queue_rep_ring [OF assms] by auto
  obtain s' where "QueueRemove q s = Inr ((QERR_OK, Some (a ! h)), s')" "ring_at s' q a (Suc h mod n) (- 1)"
    using QueueRemove_ring [OF a(1)] a(2) by auto
  with a(1) show ?thesis by blast
qed

section \<open>Addresses in order\<close>

text \<open>\<open>k\<close> calls of \<open>GetIPAddress\<close>; the string in the buffer is read after each.\<close>

fun get_ips :: "addr \<Rightarrow> addr \<Rightarrow> nat \<Rightarrow> ('a pool_mem_scheme, u8 list list) prog" where
  "get_ips p dst 0 = ret []"
| "get_ips p dst (Suc k) =
     chain (GetIPAddress p dst) (\<lambda>_. chain (reads (\<lambda>s. c_str s dst)) (\<lambda>x.
     chain (get_ips p dst k) (\<lambda>xs. ret (x # xs))))"

definition pool_address :: "nat \<Rightarrow> u8 list" where
  "pool_address i = ip_string 0 (of_nat (i mod 50 + 1))"

lemma pool_address_inject:
  assumes "i < 50" and "j < 50" and "pool_address i = pool_address j"
  shows "i = j"
proof -
  have "(of_nat (i + 1) :: u8) = of_nat (j + 1)"
    using assms by (simp add: pool_address_def ip_string_inject)
  moreover have "unat (of_nat (k + 1) :: u8) = k + 1" if "k < 50" for k
    using that by (simp add: unsigned_of_nat take_bit_nat_eq_self del: of_nat_Suc)
  ultimately show ?thesis using assms(1,2) by (metis add_right_cancel)
qed

text \<open>The buffer of the caller: 16 mapped bytes that are not part of the pool.\<close>

definition ip_buffer :: "'a bmem_scheme \<Rightarrow> addr \<Rightarrow> addr list \<Rightarrow> bool" where
  "ip_buffer s dst ps \<longleftrightarrow> dst \<noteq> NULL \<and> dst + STRING_SIZE \<le> brk s + 1 \<and>
     (\<forall>i < STRING_SIZE - 1. bytes s (dst + i) \<noteq> None \<and> dst + i \<notin> pool_region ps)"

lemma get_ips_ok:
  assumes "pool_rep s p ps k" and "ip_buffer s dst ps"
  shows "\<exists>s'. get_ips p dst n s = Inr (map pool_address [k..<k + n], s') \<and> pool_rep s' p ps (k + n)"
  using assms
proof (induction n arbitrary: s k)
  case 0
  then show ?case by auto
next
  case (Suc n)
  obtain s1 where s1: "GetIPAddress p dst s = Inr (ADDR_SUCCESS, s1)" "pool_rep s1 p ps (Suc k)"
    "str_at s1 dst (pool_address k)"
    "s1 = s\<lparr>bytes := bytes s1, queues := queues s1, pools := pools s1\<rparr>"
    "\<forall>a. bytes s1 a = None \<longleftrightarrow> bytes s a = None"
    using GetIPAddress_ok [OF Suc.prems(1), of dst] Suc.prems(2) by (auto simp: ip_buffer_def pool_address_def)
  from arg_cong [OF s1(4), of brk] have b: "brk s1 = brk s" by simp
  have "ip_buffer s1 dst ps" using Suc.prems(2) b s1(5) by (simp add: ip_buffer_def del: not_None_eq)
  from Suc.IH [OF s1(2) this] obtain s2 where
    "get_ips p dst n s1 = Inr (map pool_address [Suc k..<Suc k + n], s2)" "pool_rep s2 p ps (Suc k + n)" by blast
  then show ?case using s1(1) str_at_c_str [OF s1(3)]
    by (auto simp: upt_conv_Cons simp del: upt_Suc)
qed

lemma new_pool_ips:
  assumes env: "wf_bytes s" "enough_mem s" "zeroed s" and dst: "dst \<noteq> NULL" "dst + 17 \<le> brk s"
    "\<forall>i < 16. bytes s (dst + i) \<noteq> None"
  shows "\<exists>p s1 s2. CreateIP_Multecaste s = Inr (p, s1) \<and> get_ips p dst n s1 = Inr (map pool_address [0..<n], s2)"
proof -
  obtain s1 ps where s1: "CreateIP_Multecaste s = Inr (brk s, s1)" "pool_rep s1 (brk s) ps 0"
    "\<forall>q \<in> set ps. brk s < q" "grown s s1" using CreateIP_ok [OF env] by blast
  have "ip_buffer s1 dst ps"
    using dst s1(3,4) by (force simp: ip_buffer_def grown_def STRING_SIZE_def pool_region_def)
  from get_ips_ok [OF s1(2) this, of n] s1(1) show ?thesis by auto
qed

text \<open>An address is given back while the pool is full: the queue of the pool is destroyed.\<close>

lemma ReturnIPAddress_null: "p \<noteq> NULL \<Longrightarrow> ReturnIPAddress p None s = Inl NullDeref"
  "ReturnIPAddress NULL ip s = Inr ((ADDR_NOT_EXIST, ip), s)"
  "p \<noteq> NULL \<Longrightarrow> ReturnIPAddress p (Some NULL) s = Inr ((ADDR_NOT_EXIST, Some NULL), s)"
  by (simp_all add: ReturnIPAddress_def)

end
