(* ===== verification/ListFun.thy ===== *)
theory ListFun
  imports ListIter "HOL-Library.Multiset"
begin

text \<open>
  The functions on ranges of a list of \<^verbatim>\<open>src/ListFunction/ListFunctionGen.c\<close>. The functions of
  the caller (predicate, action, order, equality) are program steps on the same state; a null
  function pointer is \<open>None\<close>. A loop gets as fuel the end of the used memory, which is more than
  the length of any list, and running out of fuel is the fault \<open>Diverges\<close>.
\<close>

section \<open>The functions\<close>

type_synonym ('s) callback = "addr \<Rightarrow> addr \<Rightarrow> ('s, int) prog"

fun find_first_loop :: "nat \<Rightarrow> addr \<Rightarrow> addr \<Rightarrow> 'a list_mem_scheme callback \<Rightarrow> addr \<Rightarrow> ('a list_mem_scheme, addr) prog" where
  "find_first_loop 0 it e p ctx = fail Diverges"
| "find_first_loop (Suc k) it e p ctx =
     chain (ListItr_Equals it e) (\<lambda>q.
     if q \<noteq> 0 then ret e
     else
       chain (ListItr_Get it) (\<lambda>x.
       chain (p x ctx) (\<lambda>r.
       if r \<noteq> 0 then chain (ListItr_Next it) (\<lambda>n. find_first_loop k n e p ctx)
       else ret it)))"

definition ListItr_FindFirst ::
  "addr \<Rightarrow> addr \<Rightarrow> 'a list_mem_scheme callback option \<Rightarrow> addr \<Rightarrow> ('a list_mem_scheme, addr) prog" where
  "ListItr_FindFirst b e predicate ctx =
     (if b = NULL \<or> e = NULL then ret NULL
      else case predicate of None \<Rightarrow> ret e | Some p \<Rightarrow> (\<lambda>s. find_first_loop (brk s) b e p ctx s))"

text \<open>The body of the loop of \<open>ListItr_CountIf\<close> ends with a \<open>return\<close>: it runs at most once.\<close>

definition ListItr_CountIf ::
  "addr \<Rightarrow> addr \<Rightarrow> 'a list_mem_scheme callback option \<Rightarrow> addr \<Rightarrow> ('a list_mem_scheme, u64) prog" where
  "ListItr_CountIf b e predicate ctx =
     (case predicate of
        None \<Rightarrow> ret 0
      | Some p \<Rightarrow>
          chain (ListItr_Equals b e) (\<lambda>q.
          if q \<noteq> 0 then ret 0
          else
            chain (ListItr_Get b) (\<lambda>x.
            chain (p x ctx) (\<lambda>r. if r \<noteq> 0 then ret 1 else ret 0))))"

fun for_each_loop :: "nat \<Rightarrow> addr \<Rightarrow> addr \<Rightarrow> 'a list_mem_scheme callback \<Rightarrow> addr \<Rightarrow> ('a list_mem_scheme, addr) prog" where
  "for_each_loop 0 it e act ctx = fail Diverges"
| "for_each_loop (Suc k) it e act ctx =
     chain (ListItr_Equals it e) (\<lambda>q.
     if q \<noteq> 0 then ret e
     else
       chain (ListItr_Get it) (\<lambda>x.
       chain (act x ctx) (\<lambda>r.
       if r \<noteq> 0 then ret it
       else chain (ListItr_Next it) (\<lambda>n. for_each_loop k n e act ctx))))"

definition ListItr_ForEach ::
  "addr \<Rightarrow> addr \<Rightarrow> 'a list_mem_scheme callback option \<Rightarrow> addr \<Rightarrow> ('a list_mem_scheme, addr) prog" where
  "ListItr_ForEach b e action ctx =
     (if b = NULL \<or> e = NULL then ret NULL
      else case action of None \<Rightarrow> ret e | Some act \<Rightarrow> (\<lambda>s. for_each_loop (brk s) b e act ctx s))"

fun sort_loop :: "nat \<Rightarrow> addr \<Rightarrow> addr \<Rightarrow> 'a list_mem_scheme callback \<Rightarrow> ('a list_mem_scheme, unit) prog" where
  "sort_loop 0 b e lessF = fail Diverges"
| "sort_loop (Suc k) b e lessF =
     chain (ListItr_Equals b e) (\<lambda>q.
     if q \<noteq> 0 then ret ()
     else
       chain (ListItr_Get b) (\<lambda>prevValue.
       chain (ListItr_Next b) (\<lambda>n.
       chain (ListItr_Get n) (\<lambda>currValue.
       chain (lessF prevValue currValue) (\<lambda>r.
       chain
         (if r \<noteq> 0 then
            chain (ListItr_Set b currValue) (\<lambda>_.
            chain (ListItr_Next b) (\<lambda>n.
            chain (ListItr_Set n prevValue) (\<lambda>_. ret ())))
          else ret ()) (\<lambda>_.
       chain (ListItr_Next b) (\<lambda>n. sort_loop k n e lessF)))))))"

definition ListItr_Sort :: "addr \<Rightarrow> addr \<Rightarrow> 'a list_mem_scheme callback \<Rightarrow> ('a list_mem_scheme, unit) prog" where
  "ListItr_Sort b e lessF =
     (if b = NULL \<or> e = NULL then ret () else (\<lambda>s. sort_loop (brk s) b e lessF s))"

fun splice_loop :: "nat \<Rightarrow> addr \<Rightarrow> addr \<Rightarrow> addr \<Rightarrow> ('a list_mem_scheme, unit) prog" where
  "splice_loop 0 dest it e = fail Diverges"
| "splice_loop (Suc k) dest it e =
     chain (ListItr_Equals it e) (\<lambda>q.
     if q \<noteq> 0 then ret ()
     else
       chain (ListItr_Next it) (\<lambda>n.
       chain (ListItr_Prev n) (\<lambda>p.
       chain (ListItr_Remove p) (\<lambda>x.
       chain (ListItr_InsertBefore dest x) (\<lambda>c.
       chain (ListItr_Next c) (\<lambda>_.
       splice_loop k dest n e))))))"

definition ListItr_Splice :: "addr \<Rightarrow> addr \<Rightarrow> addr \<Rightarrow> ('a list_mem_scheme, addr) prog" where
  "ListItr_Splice dest b e =
     (if b = NULL \<or> e = NULL \<or> dest = NULL then ret e
      else chain (\<lambda>s. splice_loop (brk s) dest b e s) (\<lambda>_. ret dest))"

text \<open>\<open>ListItr_Cut\<close> and \<open>ListItr_Unique\<close> compare the iterators themselves, not their items.\<close>

fun cut_loop :: "nat \<Rightarrow> addr \<Rightarrow> addr \<Rightarrow> addr \<Rightarrow> ('a list_mem_scheme, unit) prog" where
  "cut_loop 0 newList it e = fail Diverges"
| "cut_loop (Suc k) newList it e =
     (if it = e then ret ()
      else
        chain (ListItr_Remove it) (\<lambda>x.
        chain (List_PushHead newList x) (\<lambda>_.
        chain (ListItr_Next it) (\<lambda>n. cut_loop k newList n e))))"

definition ListItr_Cut :: "addr \<Rightarrow> addr \<Rightarrow> ('a list_mem_scheme, addr) prog" where
  "ListItr_Cut b e =
     chain List_Create (\<lambda>newList.
     chain (\<lambda>s. cut_loop (brk s) newList b e s) (\<lambda>_.
     ret newList))"

text \<open>The inner loop of \<open>ListItr_Unique\<close> uses the iterator of the outer one.\<close>

fun unique_inner :: "nat \<Rightarrow> addr \<Rightarrow> addr \<Rightarrow> addr \<Rightarrow> addr \<Rightarrow> 'a list_mem_scheme callback \<Rightarrow> ('a list_mem_scheme, addr) prog" where
  "unique_inner 0 newList it e val1 equals = fail Diverges"
| "unique_inner (Suc k) newList it e val1 equals =
     (if it = e then ret it
      else
        chain (ListItr_Get it) (\<lambda>val2.
        chain (equals val1 val2) (\<lambda>r.
        chain (if r \<noteq> 0 then chain (ListItr_Remove it) (\<lambda>x. List_PushHead newList x) else ret LIST_SUCCESS) (\<lambda>_.
        chain (ListItr_Next it) (\<lambda>n. unique_inner k newList n e val1 equals)))))"

fun unique_outer :: "nat \<Rightarrow> nat \<Rightarrow> addr \<Rightarrow> addr \<Rightarrow> addr \<Rightarrow> addr \<Rightarrow> 'a list_mem_scheme callback \<Rightarrow> ('a list_mem_scheme, unit) prog" where
  "unique_outer 0 j newList it b e equals = fail Diverges"
| "unique_outer (Suc k) j newList it b e equals =
     (if it = e then ret ()
      else
        chain (ListItr_Get it) (\<lambda>val1.
        chain (ListItr_Next it) (\<lambda>_.
        chain (unique_inner j newList b e val1 equals) (\<lambda>it1.
        chain (ListItr_Next it1) (\<lambda>n. unique_outer k j newList n b e equals)))))"

definition ListItr_Unique :: "addr \<Rightarrow> addr \<Rightarrow> 'a list_mem_scheme callback \<Rightarrow> ('a list_mem_scheme, addr) prog" where
  "ListItr_Unique b e equals =
     chain List_Create (\<lambda>newList.
     chain (\<lambda>s. unique_outer (brk s) (brk s) newList b b e equals s) (\<lambda>_.
     ret newList))"

section \<open>Ranges\<close>

text \<open>
  \<open>range_at s l xs ys zs\<close>: the list at \<open>l\<close> has the cells \<open>xs @ ys @ zs\<close>, and the range from the first
  cell of \<open>ys\<close> to the first of \<open>zs\<close> (or the end) is recognised as such by \<open>ListItr_Equals\<close>, which
  compares items: no item in the range is the one at its end.
\<close>

definition range_begin :: "addr \<Rightarrow> addr list \<Rightarrow> addr list \<Rightarrow> addr" where
  "range_begin l ys zs = hd (ys @ zs @ [tail_of l])"

definition range_end :: "addr \<Rightarrow> addr list \<Rightarrow> addr" where
  "range_end l zs = hd (zs @ [tail_of l])"

definition range_at :: "'a list_mem_scheme \<Rightarrow> addr \<Rightarrow> addr list \<Rightarrow> addr list \<Rightarrow> addr list \<Rightarrow> bool" where
  "range_at s l xs ys zs \<longleftrightarrow> dlist (nodes s) l (xs @ ys @ zs) \<and>
     item_at (nodes s) (range_end l zs) \<notin> set (items (nodes s) ys)"

lemma range_at_Cons: "range_at s l xs (c # ys) zs \<Longrightarrow> range_at s l (xs @ [c]) ys zs"
  by (simp add: range_at_def)

lemma range_at_nodes: "nodes s' = nodes s \<Longrightarrow> range_at s' l xs ys zs = range_at s l xs ys zs"
  by (simp add: range_at_def)

lemma range_mapped:
  assumes "range_at s l xs ys zs"
  shows "range_end l zs \<noteq> NULL" "nodes s (range_end l zs) \<noteq> None"
    "range_begin l ys zs \<noteq> NULL"
proof -
  have dl: "dlist (nodes s) l ((xs @ ys) @ zs)" "dlist (nodes s) l (xs @ (ys @ zs))"
    using assms by (simp_all add: range_at_def)
  show "range_end l zs \<noteq> NULL" "nodes s (range_end l zs) \<noteq> None"
    using dlist_adj(2,5) [OF dl(1)] by (auto simp: range_end_def)
  show "range_begin l ys zs \<noteq> NULL" using dlist_adj(5) [OF dl(2)] by (simp add: range_begin_def)
qed

lemma range_steps:
  assumes "range_at s l xs (c # ys) zs"
  shows "ListItr_Equals c (range_end l zs) s = Inr (0, s)"
    "ListItr_Get c s = Inr (item_at (nodes s) c, s)"
    "ListItr_Next c s = Inr (range_begin l ys zs, s)"
    "c \<noteq> NULL" "nodes s c \<noteq> None"
proof -
  have dl: "dlist (nodes s) l (xs @ c # ys @ zs)" and ni: "item_at (nodes s) (range_end l zs) \<noteq> item_at (nodes s) c"
    using assms by (auto simp: range_at_def)
  note f = cell_facts [OF dl]
  show "c \<noteq> NULL" "nodes s c \<noteq> None" using f by auto
  show "ListItr_Equals c (range_end l zs) s = Inr (0, s)"
    using ListItr_Equals_ok [of c "range_end l zs" s] f(1,2) range_mapped [OF assms] ni by simp
  show "ListItr_Get c s = Inr (item_at (nodes s) c, s)" by (rule ListItr_Get_ok [OF dl])
  show "ListItr_Next c s = Inr (range_begin l ys zs, s)"
    using ListItr_Next_ok [OF dl] by (simp add: range_begin_def)
qed

lemma range_done:
  "range_at s l xs [] zs \<Longrightarrow> ListItr_Equals (range_begin l [] zs) (range_end l zs) s = Inr (1, s)"
  using ListItr_Equals_ok [of "range_end l zs" "range_end l zs" s] range_mapped [of s l xs "[]" zs]
  by (simp add: range_begin_def range_end_def)

lemma range_begin_Cons [simp]: "range_begin l (c # ys) zs = c"
  by (simp add: range_begin_def)

lemma range_begin_Nil [simp]: "range_begin l [] zs = range_end l zs"
  by (simp add: range_begin_def range_end_def)

lemma range_length: "range_at s l xs ys zs \<Longrightarrow> wf_list_mem s \<Longrightarrow> length ys < brk s"
  using dlist_length [of s l "xs @ ys @ zs"] by (simp add: range_at_def)

section \<open>Finding, counting, for each\<close>

text \<open>A function of the caller that only looks at its arguments.\<close>

definition pure_callback :: "'s callback \<Rightarrow> (addr \<Rightarrow> int) \<Rightarrow> addr \<Rightarrow> bool" where
  "pure_callback p f ctx \<longleftrightarrow> (\<forall>x s. p x ctx s = Inr (f x, s))"

lemma find_first_loop_ok:
  assumes "range_at s l xs ys zs" and "pure_callback p f ctx" and "length ys < k"
  shows "find_first_loop k (range_begin l ys zs) (range_end l zs) p ctx s =
    Inr (case find (\<lambda>c. f (item_at (nodes s) c) = 0) ys of None \<Rightarrow> range_end l zs | Some c \<Rightarrow> c, s)"
  using assms
proof (induction ys arbitrary: xs k)
  case Nil
  then show ?case using range_done [OF Nil(1)] by (cases k) simp_all
next
  case (Cons c ys)
  then obtain k' where k: "k = Suc k'" by (cases k) auto
  note st = range_steps [OF Cons.prems(1)]
  have "find_first_loop k' (range_begin l ys zs) (range_end l zs) p ctx s =
    Inr (case find (\<lambda>c. f (item_at (nodes s) c) = 0) ys of None \<Rightarrow> range_end l zs | Some c \<Rightarrow> c, s)"
    by (rule Cons.IH [OF range_at_Cons [OF Cons.prems(1)]]) (use Cons.prems k in simp_all)
  with st Cons.prems(2) show ?case by (simp add: k pure_callback_def)
qed

lemma FindFirst_ok:
  assumes r: "range_at s l xs ys zs" and p: "pure_callback p f ctx" and wf: "wf_list_mem s"
  shows "ListItr_FindFirst (range_begin l ys zs) (range_end l zs) (Some p) ctx s =
    Inr (case find (\<lambda>c. f (item_at (nodes s) c) = 0) ys of None \<Rightarrow> range_end l zs | Some c \<Rightarrow> c, s)"
  using find_first_loop_ok [OF r p range_length [OF r wf]] range_mapped [OF r]
  by (simp add: ListItr_FindFirst_def)

lemma CountIf_ok:
  assumes r: "range_at s l xs ys zs" and p: "pure_callback p f ctx"
  shows "ListItr_CountIf (range_begin l ys zs) (range_end l zs) (Some p) ctx s =
    Inr (case ys of [] \<Rightarrow> 0 | c # _ \<Rightarrow> if f (item_at (nodes s) c) \<noteq> 0 then 1 else 0, s)"
proof (cases ys)
  case Nil
  then show ?thesis using r range_done [of s l xs zs] by (simp add: ListItr_CountIf_def)
next
  case (Cons c cs)
  with r have "range_at s l xs (c # cs) zs" by simp
  from range_steps [OF this] p Cons show ?thesis by (simp add: ListItr_CountIf_def pure_callback_def)
qed

text \<open>An action with an effect \<open>g\<close> outside of the list; it stops the iteration when \<open>f\<close> is not 0.\<close>

definition list_action :: "'a list_mem_scheme callback \<Rightarrow> (addr \<Rightarrow> int) \<Rightarrow>
    (addr \<Rightarrow> 'a list_mem_scheme \<Rightarrow> 'a list_mem_scheme) \<Rightarrow> addr \<Rightarrow> bool" where
  "list_action act f g ctx \<longleftrightarrow> (\<forall>x s. act x ctx s = Inr (f x, g x s) \<and> nodes (g x s) = nodes s)"

lemma for_each_loop_ok:
  assumes "range_at s l xs ys zs" and "list_action act f g ctx" and "length ys < k"
  shows "for_each_loop k (range_begin l ys zs) (range_end l zs) act ctx s =
    Inr (range_begin l (dropWhile (\<lambda>c. f (item_at (nodes s) c) = 0) ys) zs,
      fold g (items (nodes s) (takeWhile (\<lambda>c. f (item_at (nodes s) c) = 0) ys @
        take 1 (dropWhile (\<lambda>c. f (item_at (nodes s) c) = 0) ys))) s)"
  using assms
proof (induction ys arbitrary: xs k s)
  case Nil
  then show ?case using range_done [OF Nil(1)] by (cases k) (simp_all add: items_def)
next
  case (Cons c ys)
  then obtain k' where k: "k = Suc k'" by (cases k) auto
  note st = range_steps [OF Cons.prems(1)]
  let ?x = "item_at (nodes s) c"
  let ?s = "g ?x s"
  have act: "act ?x ctx s = Inr (f ?x, ?s)" "nodes ?s = nodes s"
    using Cons.prems(2) by (simp_all add: list_action_def)
  show ?case
  proof (cases "f ?x = 0")
    case True
    have "range_at ?s l (xs @ [c]) ys zs"
      using range_at_Cons [OF Cons.prems(1)] range_at_nodes [OF act(2)] by simp
    from Cons.IH [OF this Cons.prems(2), of k'] Cons.prems(3) st(1,2) act True
      range_steps(3) [of ?s l xs c ys zs] Cons.prems(1) range_at_nodes [OF act(2)]
    show ?thesis by (simp add: k items_def)
  next
    case False
    with st act show ?thesis by (simp add: k items_def)
  qed
qed

lemma ForEach_ok:
  assumes r: "range_at s l xs ys zs" and a: "list_action act f g ctx" and wf: "wf_list_mem s"
  shows "ListItr_ForEach (range_begin l ys zs) (range_end l zs) (Some act) ctx s =
    Inr (range_begin l (dropWhile (\<lambda>c. f (item_at (nodes s) c) = 0) ys) zs,
      fold g (items (nodes s) (takeWhile (\<lambda>c. f (item_at (nodes s) c) = 0) ys @
        take 1 (dropWhile (\<lambda>c. f (item_at (nodes s) c) = 0) ys))) s)"
  using for_each_loop_ok [OF r a range_length [OF r wf]] range_mapped [OF r]
  by (simp add: ListItr_ForEach_def)

section \<open>Sorting\<close>

text \<open>One pass of bubble sort, which is all that \<open>ListItr_Sort\<close> does.\<close>

fun bubble :: "(addr \<Rightarrow> addr \<Rightarrow> bool) \<Rightarrow> addr list \<Rightarrow> addr list" where
  "bubble lt (x # y # zs) = (if lt x y then y # bubble lt (x # zs) else x # bubble lt (y # zs))"
| "bubble lt xs = xs"

lemma bubble_length: "length (bubble lt xs) = length xs"
  by (induction lt xs rule: bubble.induct) simp_all

lemma bubble_mset: "mset (bubble lt xs) = mset xs"
  by (induction lt xs rule: bubble.induct) simp_all

definition set_item :: "addr \<Rightarrow> addr \<Rightarrow> 'a list_mem_scheme \<Rightarrow> 'a list_mem_scheme" where
  "set_item c v s = s\<lparr>nodes := (nodes s)(c \<mapsto> (the (nodes s c))\<lparr>m_data := v\<rparr>)\<rparr>"

lemma ListItr_Set_run:
  "c \<noteq> NULL \<Longrightarrow> v \<noteq> NULL \<Longrightarrow> nodes s c \<noteq> None \<Longrightarrow>
   ListItr_Set c v s = Inr (item_at (nodes s) c, set_item c v s)"
  by (auto simp: ListItr_Set_def c_step item_at_def set_item_def)

lemma set_item_facts:
  assumes "nodes s c \<noteq> None"
  shows "item_at (nodes (set_item c v s)) a = (if a = c then v else item_at (nodes s) a)"
    "dlist (nodes s) l cs \<Longrightarrow> dlist (nodes (set_item c v s)) l cs"
    "nodes (set_item c v s) a = None \<longleftrightarrow> nodes s a = None"
  using assms dlist_data [of "nodes s" l cs c "the (nodes s c)" v]
  by (auto simp: set_item_def item_at_def)

definition pure_order :: "'s callback \<Rightarrow> (addr \<Rightarrow> addr \<Rightarrow> bool) \<Rightarrow> bool" where
  "pure_order lessF lt \<longleftrightarrow> (\<forall>x y s. lessF x y s = Inr (if lt x y then 1 else 0, s)) \<and> (\<forall>x. \<not> lt x NULL)"

text \<open>One comparison, with the exchange it may cause.\<close>

definition exchange :: "bool \<Rightarrow> addr \<Rightarrow> addr \<Rightarrow> 'a list_mem_scheme \<Rightarrow> 'a list_mem_scheme" where
  "exchange b c d s = (if b then set_item d (item_at (nodes s) c) (set_item c (item_at (nodes s) d) s) else s)"

lemma exchange_facts:
  assumes "nodes s c \<noteq> None" and "nodes s d \<noteq> None" and "c \<noteq> d"
  shows "item_at (nodes (exchange b c d s)) a = (if b \<and> a = c then item_at (nodes s) d
      else if b \<and> a = d then item_at (nodes s) c else item_at (nodes s) a)"
    "dlist (nodes s) l cs \<Longrightarrow> dlist (nodes (exchange b c d s)) l cs"
proof -
  have d: "nodes (set_item c (item_at (nodes s) d) s) d \<noteq> None"
    using assms(2) by (simp add: set_item_facts(3) [OF assms(1)] del: not_None_eq)
  show "item_at (nodes (exchange b c d s)) a = (if b \<and> a = c then item_at (nodes s) d
      else if b \<and> a = d then item_at (nodes s) c else item_at (nodes s) a)"
    using assms(3) by (simp add: exchange_def set_item_facts(1) [OF d] set_item_facts(1) [OF assms(1)])
  show "dlist (nodes (exchange b c d s)) l cs" if "dlist (nodes s) l cs"
    using set_item_facts(2) [OF d set_item_facts(2) [OF assms(1) that]] that by (simp add: exchange_def)
qed

lemma sort_step:
  assumes dl: "dlist (nodes s) l (xs @ c # d # ys)" and o: "pure_order lessF lt"
    and nz: "item_at (nodes s) c \<noteq> NULL" "item_at (nodes s) d \<noteq> NULL"
    and ne: "item_at (nodes s) c \<noteq> item_at (nodes s) (tail_of l)"
  shows "sort_loop (Suc k) c (tail_of l) lessF s =
    sort_loop k d (tail_of l) lessF (exchange (lt (item_at (nodes s) c) (item_at (nodes s) d)) c d s)"
proof -
  let ?x = "item_at (nodes s) c" and ?y = "item_at (nodes s) d"
  let ?s1 = "set_item c ?y s"
  have dl2: "dlist (nodes s) l ((xs @ [c]) @ d # ys)" using dl by simp
  have cd: "c \<noteq> NULL" "nodes s c \<noteq> None" "d \<noteq> NULL" "nodes s d \<noteq> None"
    using cell_facts [OF dl] cell_facts [OF dl2] by auto
  have dl1: "dlist (nodes ?s1) l (xs @ c # d # ys)" by (rule set_item_facts(2) [OF cd(2) dl])
  have d1: "nodes ?s1 d \<noteq> None" using cd(4) by (simp add: set_item_facts(3) [OF cd(2)] del: not_None_eq)
  let ?s2 = "set_item d ?x ?s1"
  have dl2': "dlist (nodes ?s2) l (xs @ c # d # ys)" by (rule set_item_facts(2) [OF d1 dl1])
  have eq: "ListItr_Equals c (tail_of l) s = Inr (0, s)"
    using ListItr_Equals_ok [of c "tail_of l" s] cd dlist_sentinels(2) [OF dl] ne by auto
  have g: "ListItr_Get c s = Inr (?x, s)" "ListItr_Get d s = Inr (?y, s)"
    by (rule ListItr_Get_ok [OF dl], rule ListItr_Get_ok [OF dl2])
  have n: "ListItr_Next c s = Inr (d, s)" "ListItr_Next c ?s1 = Inr (d, ?s1)" "ListItr_Next c ?s2 = Inr (d, ?s2)"
    using ListItr_Next_ok [OF dl] ListItr_Next_ok [OF dl1] ListItr_Next_ok [OF dl2'] by simp_all
  have set: "ListItr_Set c ?y s = Inr (?x, ?s1)" "ListItr_Set d ?x ?s1 = Inr (item_at (nodes ?s1) d, ?s2)"
    using ListItr_Set_run cd nz d1 by simp_all
  show ?thesis using o eq g n set by (simp add: pure_order_def exchange_def)
qed

lemma sort_last:
  assumes dl: "dlist (nodes s) l (xs @ [c])" and o: "pure_order lessF lt"
    and ne: "item_at (nodes s) c \<noteq> item_at (nodes s) (tail_of l)" and k: "1 < k"
  shows "sort_loop k c (tail_of l) lessF s = Inr ((), s)"
proof -
  obtain j where k: "k = Suc (Suc j)" using k by (auto dest!: less_imp_Suc_add)
  have c: "c \<noteq> NULL" "nodes s c \<noteq> None" using cell_facts [OF dl] by auto
  have t: "nodes s (tail_of l) \<noteq> None" using dlist_sentinels(2) [OF dl] by auto
  have "ListItr_Equals c (tail_of l) s = Inr (0, s)" "ListItr_Equals (tail_of l) (tail_of l) s = Inr (1, s)"
    using ListItr_Equals_ok [of c "tail_of l" s] ListItr_Equals_ok [of "tail_of l" "tail_of l" s] c t ne by auto
  moreover have "ListItr_Next c s = Inr (tail_of l, s)" "ListItr_Get c s = Inr (item_at (nodes s) c, s)"
    using ListItr_Next_ok [OF dl] ListItr_Get_ok [OF dl] by simp_all
  ultimately show ?thesis using o ListItr_Get_end [OF dl] by (simp add: k pure_order_def)
qed

lemma sort_loop_ok:
  assumes "dlist (nodes s) l (xs @ ys)" and "item_at (nodes s) (tail_of l) \<notin> set (items (nodes s) ys)"
    and "NULL \<notin> set (items (nodes s) ys)" and o: "pure_order lessF lt" and "length ys < k"
  shows "\<exists>s'. sort_loop k (hd (ys @ [tail_of l])) (tail_of l) lessF s = Inr ((), s') \<and>
    dlist (nodes s') l (xs @ ys) \<and> items (nodes s') ys = bubble lt (items (nodes s) ys) \<and>
    (\<forall>a. a \<notin> set ys \<longrightarrow> item_at (nodes s') a = item_at (nodes s) a)"
  using assms(1-3,5)
proof (induction ys arbitrary: xs k s)
  case Nil
  then obtain j where "k = Suc j" by (cases k) auto
  moreover have "ListItr_Equals (tail_of l) (tail_of l) s = Inr (1, s)"
    using ListItr_Equals_ok [of "tail_of l" "tail_of l" s] dlist_sentinels(2) [OF Nil(1)] by auto
  ultimately show ?case using Nil(1) by (simp add: items_def)
next
  case (Cons c ys)
  show ?case
  proof (cases ys)
    case Nil
    have "sort_loop k c (tail_of l) lessF s = Inr ((), s)"
      by (rule sort_last [OF _ o]) (use Cons.prems Nil in \<open>auto simp: items_def\<close>)
    then show ?thesis using Nil Cons.prems(1) by (simp add: items_def)
  next
    case (Cons d zs)
    let ?x = "item_at (nodes s) c" and ?y = "item_at (nodes s) d"
    let ?s = "exchange (lt ?x ?y) c d s"
    obtain j where k: "k = Suc j" using Cons.prems(4) by (cases k) auto
    have dl: "dlist (nodes s) l (xs @ c # d # zs)" using Cons.prems(1) Cons by simp
    have cd: "nodes s c \<noteq> None" "nodes s d \<noteq> None" "c \<noteq> d"
      using dlist_mapped [OF dl] dlist_distinct [OF dl] by auto
    have zs: "c \<notin> set zs" "d \<notin> set zs" "tail_of l \<notin> {c, d}" using dlist_distinct [OF dl] by auto
    note ex = exchange_facts [OF cd]
    have iz: "items (nodes ?s) zs = items (nodes s) zs"
      by (rule items_same) (use zs in \<open>auto simp: ex(1)\<close>)
    have step: "sort_loop k c (tail_of l) lessF s = sort_loop j d (tail_of l) lessF ?s"
      unfolding k by (rule sort_step [OF dl o]) (use Cons.prems(2,3) Cons in \<open>auto simp: items_def\<close>)
    have d2: "dlist (nodes ?s) l ((xs @ [c]) @ ys)" using ex(2) [OF dl] Cons by simp
    have it: "items (nodes ?s) ys = (if lt ?x ?y then ?x else ?y) # items (nodes s) zs"
      using iz cd(3) Cons by (simp add: items_def ex(1))
    have "item_at (nodes ?s) (tail_of l) = item_at (nodes s) (tail_of l)" using zs(3) by (auto simp: ex(1))
    then have ni: "item_at (nodes ?s) (tail_of l) \<notin> set (items (nodes ?s) ys)" "NULL \<notin> set (items (nodes ?s) ys)"
      using Cons.prems(2,3) Cons unfolding it by (auto simp: items_def)
    have "length ys < j" using Cons.prems(4) k by simp
    then obtain s' where s': "sort_loop j d (tail_of l) lessF ?s = Inr ((), s')"
      "dlist (nodes s') l ((xs @ [c]) @ ys)" "items (nodes s') ys = bubble lt (items (nodes ?s) ys)"
      "\<forall>a. a \<notin> set ys \<longrightarrow> item_at (nodes s') a = item_at (nodes ?s) a"
      using Cons.IH [OF d2 ni] Cons by auto
    have "item_at (nodes s') c = (if lt ?x ?y then ?y else ?x)"
      using s'(4) zs(1) cd(3) Cons by (simp add: ex(1))
    moreover have "items (nodes s') ys = bubble lt ((if lt ?x ?y then ?x else ?y) # items (nodes s) zs)"
      using s'(3) unfolding it .
    ultimately have "items (nodes s') (c # ys) = bubble lt (items (nodes s) (c # ys))"
      using Cons by (simp only: items_simps) simp
    moreover have "item_at (nodes s') a = item_at (nodes s) a" if "a \<notin> set (c # ys)" for a
      using that s'(4) Cons by (simp add: ex(1))
    ultimately show ?thesis using s'(1,2) step by auto
  qed
qed

lemma Sort_ok:
  assumes dl: "dlist (nodes s) l cs" and wf: "wf_list_mem s" and o: "pure_order lessF lt"
    and "item_at (nodes s) (tail_of l) \<notin> set (items (nodes s) cs)" and "NULL \<notin> set (items (nodes s) cs)"
  shows "\<exists>s'. ListItr_Sort (hd (cs @ [tail_of l])) (tail_of l) lessF s = Inr ((), s') \<and>
    dlist (nodes s') l cs \<and> items (nodes s') cs = bubble lt (items (nodes s) cs)"
proof -
  have len: "length cs < brk s" using dlist_length [OF wf dl] by simp
  have "hd (cs @ [tail_of l]) \<noteq> NULL" using dlist_adj(5) [of "nodes s" l "[]" cs] dl by simp
  moreover have "tail_of l \<noteq> NULL" by simp
  ultimately show ?thesis
    using sort_loop_ok [of s l "[]" cs lessF lt "brk s"] dl assms(4,5) o len
    by (simp add: ListItr_Sort_def) blast
qed

section \<open>Functions that remove\<close>

text \<open>\<open>ListItr_Splice\<close> of a range that is not empty stops in \<open>ListItr_InsertBefore\<close>.\<close>

lemma Splice_faults:
  assumes r: "range_at s l xs (c # ys) zs" and dest: "dest \<noteq> NULL" and x: "item_at (nodes s) c \<noteq> NULL"
    and wf: "wf_list_mem s" "wf_bytes s" and mem: "\<not> oom s (brk s)"
  shows "ListItr_Splice dest c (range_end l zs) s = Inl BadAddress"
proof -
  have dl: "dlist (nodes s) l (xs @ c # ys @ zs)" using r by (simp add: range_at_def)
  then have dl2: "dlist (nodes s) l ((xs @ [c]) @ ys @ zs)" by simp
  obtain j where j: "brk s = Suc j" using wf(1) by (cases "brk s") (auto simp: wf_list_mem_def)
  note st = range_steps [OF r]
  have prev: "ListItr_Prev (range_begin l ys zs) s = Inr (c, s)"
    using ListItr_Prev_ok [OF dl2, of "range_begin l ys zs"] by (simp add: range_begin_def)
  obtain s' where s': "ListItr_Remove c s = Inr (item_at (nodes s) c, s')" "removed s s' l xs c (ys @ zs)"
    using ListItr_Remove_ok [OF dl wf(1)] by blast
  have fr: "s' = s\<lparr>brk := brk s', nodes := nodes s'\<rparr>" "brk s' = brk s"
    using s'(2) unfolding removed_def node_frame_def by blast+
  have "bytes s' = bytes s" "oom s' = oom s"
    using arg_cong [OF fr(1), of bytes] arg_cong [OF fr(1), of oom] by simp_all
  then have "ListItr_InsertBefore dest (item_at (nodes s) c) s' = Inl BadAddress"
    by (intro ListItr_InsertBefore_faults) (use wf(2) mem fr(2) dest x in \<open>simp_all add: wf_bytes_def\<close>)
  then show ?thesis
    using st prev s'(1) dest range_mapped [OF r] by (simp add: ListItr_Splice_def j)
qed

lemma Splice_empty:
  "range_at s l xs [] zs \<Longrightarrow> wf_list_mem s \<Longrightarrow> dest \<noteq> NULL \<Longrightarrow>
   ListItr_Splice dest (range_end l zs) (range_end l zs) s = Inr (dest, s)"
  using range_done [of s l xs zs] range_mapped [of s l xs "[]" zs]
  by (cases "brk s") (auto simp: ListItr_Splice_def wf_list_mem_def)

text \<open>\<open>ListItr_Cut\<close> asks for the successor of a node that it has just freed.\<close>

lemma Cut_faults:
  assumes dl: "dlist (nodes s) l (xs @ c # ys)" and wf: "wf_list_mem s" and mem: "\<forall>a. \<not> oom s a"
    and ne: "c \<noteq> e"
  shows "ListItr_Cut c e s = Inl BadAddress"
proof -
  obtain s1 where s1: "List_Create s = Inr (brk s, s1)" "dlist (nodes s1) (brk s) []"
    "node_frame {} s s1" "wf_list_mem s1" "brk s1 = brk s + 3"
    using List_Create_ok [OF wf] mem by blast
  have lt: "a < brk s" if "a \<in> set (l # (xs @ c # ys) @ [tail_of l])" for a
    by (rule wf_list_mem_dlist [OF wf dl that])
  have same: "nodes s1 a = nodes s a" if "a < brk s" for a using s1(3) that by (simp add: node_frame_def)
  have dl1: "dlist (nodes s1) l (xs @ c # ys)" by (rule dlist_cong [OF dl]) (use same lt in blast)
  obtain s2 where s2: "ListItr_Remove c s1 = Inr (item_at (nodes s1) c, s2)" "removed s1 s2 l xs c ys"
    using ListItr_Remove_ok [OF dl1 s1(4)] by blast
  have c: "c \<noteq> NULL" "c < brk s" using dlist_nz [OF dl] lt by simp_all
  have n2: "nodes s2 c = None" "wf_list_mem s2" "brk s2 = brk s1"
    and f2: "node_frame (set (l # (xs @ c # ys) @ [tail_of l])) s1 s2" using s2(2) by (simp_all add: removed_def)
  have "nodes s2 a = nodes s1 a" if "brk s \<le> a" "a < brk s1" for a
  proof -
    have "a \<notin> set (l # (xs @ c # ys) @ [tail_of l])" using lt that(1) leD by blast
    then show ?thesis using f2 that(2) by (simp add: node_frame_def)
  qed
  then have dn: "dlist (nodes s2) (brk s) []"
    by (intro dlist_cong [OF s1(2)]) (use s1(5) in \<open>auto simp: tail_of_def\<close>)
  have "\<exists>r s3. List_PushHead (brk s) (item_at (nodes s1) c) s2 = Inr (r, s3) \<and> nodes s3 c = None"
  proof (cases "item_at (nodes s1) c = NULL")
    case True
    then show ?thesis using n2(1) c by (simp add: List_errors)
  next
    case False
    have "oom s2 = oom s" using node_frame_oom [OF f2] node_frame_oom [OF s1(3)] by simp
    then obtain s3 where s3: "List_PushHead (brk s) (item_at (nodes s1) c) s2 = Inr (LIST_SUCCESS, s3)"
      "inserted s2 s3 (brk s) [] [] (item_at (nodes s1) c)"
      using List_PushHead_ok [OF dn n2(2) False] mem by auto
    have "c \<notin> {brk s, tail_of (brk s)}" "c < brk s2" using c(2) n2(3) s1(5) by (auto simp: tail_of_def)
    then have "nodes s3 c = None" using s3(2) n2(1) by (simp add: inserted_def node_frame_def)
    with s3(1) show ?thesis by blast
  qed
  then obtain r s3 where s3: "List_PushHead (brk s) (item_at (nodes s1) c) s2 = Inr (r, s3)" "nodes s3 c = None" by blast
  have "ListItr_Next c s3 = Inl BadAddress"
    using s3(2) c(1) by (simp add: ListItr_Next_def get_next_def rd_node_bad)
  moreover have "brk s1 = Suc (brk s + 2)" using s1(5) by simp
  ultimately show ?thesis using s1(1) s2(1) s3(1) ne by (simp add: ListItr_Cut_def)
qed

end
