(* ===== verification/ContainerProperties.thy ===== *)
theory ContainerProperties
  imports HashDestroy ListDeque HashRun QueueRun ListFun
begin

text \<open>
  The properties of the containers (list, iterators and functions on ranges, hash map, queue, pool of
  addresses) and of the wire protocol. Each follows from the lemmas of its component; the witnesses
  apply it to small memories.
\<close>

section \<open>Small memories\<close>

text \<open>Unused memory from address 40 on: no objects, no failure of \<open>malloc\<close>.\<close>

definition blank :: pool_mem where
  "blank = \<lparr>brk = 40, bytes = map_bytes 1 (replicate 32 0) (\<lambda>_. None), oom = (\<lambda>_. False), junk = (\<lambda>_ _. 0),
     nodes = (\<lambda>_. None), ditems = (\<lambda>_. None), queues = (\<lambda>_. None), pools = (\<lambda>_. None)\<rparr>"

lemma blank_env: "wf_list_mem blank" "enough_mem blank" "wf_bytes blank" "zeroed blank"
  "wf_hash_mem blank" "quiet blank"
  by (simp_all add: blank_def wf_hash_mem_def wf_list_mem_def wf_bytes_def enough_mem_def zeroed_def
    map_bytes_def quiet_def)

text \<open>A list at 10 with the items 7, 5 and 6.\<close>

definition three :: pool_mem where
  "three = blank\<lparr>nodes := [10 \<mapsto> \<lparr>m_data = 0, m_next = 20, m_prev = 0\<rparr>, 11 \<mapsto> \<lparr>m_data = 0, m_next = 11, m_prev = 24\<rparr>,
     20 \<mapsto> \<lparr>m_data = 7, m_next = 22, m_prev = 10\<rparr>, 22 \<mapsto> \<lparr>m_data = 5, m_next = 24, m_prev = 20\<rparr>,
     24 \<mapsto> \<lparr>m_data = 6, m_next = 11, m_prev = 22\<rparr>]\<rparr>"

lemma three_env: "wf_list_mem three" "enough_mem three" "wf_bytes three"
  by (simp_all add: three_def blank_def wf_list_mem_def enough_mem_def wf_bytes_def map_bytes_def)

lemma three_list: "dlist (nodes three) 10 [20, 22, 24]" "items (nodes three) [20, 22, 24] = [7, 5, 6]"
  by (simp_all add: three_def dlist_def tail_of_def items_def item_at_def)

text \<open>A map with one bucket, whose list at 10 is given, and the items in it.\<close>

definition one_bucket :: "u64 \<Rightarrow> hmap" where
  "one_bucket n = \<lparr>hm_data = Some [10], m_hashSize = 1, m_allocSize = 1, m_numOfItems = n,
     hm_magicNum = MAGIC_NUMBER, m_hashFunc = None, m_keysEqualFunc = None\<rparr>"

section \<open>The list\<close>

text \<open>C27: A list is a deque from creation to destruction: any operations on a list made by \<open>List_Create\<close> give the results of the reference deque, \<open>List_Destroy\<close> hands the items that are left over to the callback in order, and no node stays allocated.\<close>

theorem list_lifetime:
  fixes s :: "'a list_mem_scheme"
  assumes "wf_list_mem s" and "enough_mem s" and "length ps < 2 ^ 31" and "node_blind g"
  shows "\<exists>l s1 s2. List_Create s = Inr (l, s1) \<and> list_run l ps s1 = Inr (fst (deque_run ps []), s2) \<and>
    List_Destroy l (Some (\<lambda>d s. Inr ((), g d s))) s2 =
      Inr (NULL, (fold g (snd (deque_run ps [])) s2)\<lparr>nodes := nodes s\<rparr>)"
proof -
  obtain l s1 where "List_Create s = Inr (l, s1)" and inv: "list_inv (nodes s) s1 l []"
    by (rule list_inv_created [OF assms(1,2)])
  moreover obtain s2 where "list_run l ps s1 = Inr (fst (deque_run ps []), s2)"
    and "list_inv (nodes s) s2 l (snd (deque_run ps []))"
    using list_run_refines [OF inv, of ps] assms(3) by auto
  ultimately show ?thesis using list_inv_destroyed [OF _ assms(4)] by blast
qed

theorem list_lifetime_witness:
  "\<exists>l s1 s2. List_Create blank = Inr (l, s1) \<and>
    list_run l [PushTail 5, PushHead 7, PushTail 0, PopTail, PopHead, PopHead, PushTail 9, CountItems] s1 =
      Inr ([Code LIST_SUCCESS, Code LIST_SUCCESS, Code LIST_NULL_ELEMENT_ERROR, Popped LIST_SUCCESS (Some 5),
        Popped LIST_SUCCESS (Some 7), Popped LIST_IS_EMPTY None, Code LIST_SUCCESS, Counted 1], s2) \<and>
    List_Destroy l (Some (\<lambda>d s. Inr ((), s\<lparr>brk := brk s + d\<rparr>))) s2 =
      Inr (NULL, s2\<lparr>brk := brk s2 + 9, nodes := nodes blank\<rparr>)"
  using list_lifetime [OF blank_env(1,2), of
    "[PushTail 5, PushHead 7, PushTail 0, PopTail, PopHead, PopHead, PushTail 9, CountItems]"
    "\<lambda>d s. s\<lparr>brk := brk s + d\<rparr>"]
  by (simp add: node_blind_def)

text \<open>C38: When \<open>malloc\<close> fails, \<open>List_PushTail\<close> does not report it: it stores through the null pointer. (\<open>List_PushHead\<close> tests the result.)\<close>

theorem push_tail_out_of_memory:
  fixes s :: "'a list_mem_scheme"
  assumes "dlist (nodes s) l cs" and "item \<noteq> NULL" and "oom s (brk s)"
  shows "List_PushTail l item s = Inl NullDeref \<and>
    List_PushHead l item s = Inr (LIST_ALLOCATION_ERROR, s\<lparr>brk := brk s + 1\<rparr>)"
  using List_PushTail_oom [OF assms] List_PushHead_oom [OF _ assms(2,3)] dlist_nz [OF assms(1)] by simp

theorem push_tail_out_of_memory_witness:
  "List_PushTail 10 8 (three\<lparr>oom := \<lambda>_. True\<rparr>) = Inl NullDeref"
  using push_tail_out_of_memory [of "three\<lparr>oom := \<lambda>_. True\<rparr>" 10 "[20, 22, 24]" 8] three_list by simp

section \<open>Iterators and functions on ranges\<close>

text \<open>\<open>ListItr_InsertBefore\<close> allocates the size of a pointer where it needs a node: whenever \<open>malloc\<close> succeeds it writes past the block.\<close>

theorem insert_before_overflows:
  assumes "wf_bytes s" and "\<not> oom s (brk s)" and "it \<noteq> NULL" and "e \<noteq> NULL"
  shows "ListItr_InsertBefore it e s = Inl BadAddress"
  by (rule ListItr_InsertBefore_faults [OF assms])

theorem insert_before_overflows_witness: "ListItr_InsertBefore 22 8 three = Inl BadAddress"
  using insert_before_overflows [OF three_env(3), of 22 8] three_env(2) by (simp add: enough_mem_def)

text \<open>\<open>ListItr_FindFirst\<close> returns the first element of the range for which the predicate is 0 (the comment says: is satisfied), and the end when there is none.\<close>

theorem find_first_result:
  fixes s :: "'a list_mem_scheme"
  assumes "range_at s l xs ys zs" and "pure_callback p f ctx" and "wf_list_mem s"
  shows "ListItr_FindFirst (range_begin l ys zs) (range_end l zs) (Some p) ctx s =
    Inr (case find (\<lambda>c. f (item_at (nodes s) c) = 0) ys of None \<Rightarrow> range_end l zs | Some c \<Rightarrow> c, s)"
  by (rule FindFirst_ok [OF assms])

theorem find_first_result_witness:
  "ListItr_FindFirst 20 24 (Some (\<lambda>x ctx s. Inr (if x = 5 then 0 else 1, s))) 0 three = Inr (22, three)"
  using find_first_result [of three 10 "[]" "[20, 22]" "[24]" "\<lambda>x ctx s. Inr (if x = 5 then 0 else 1, s)"
    "\<lambda>x. if x = 5 then 0 else 1" 0] three_list three_env(1)
  by (simp add: range_at_def range_begin_def range_end_def pure_callback_def items_def)

text \<open>\<open>ListItr_CountIf\<close> looks at the first element only: its result is 0 or 1.\<close>

theorem count_if_result:
  fixes s :: "'a list_mem_scheme"
  assumes "range_at s l xs ys zs" and "pure_callback p f ctx"
  shows "ListItr_CountIf (range_begin l ys zs) (range_end l zs) (Some p) ctx s =
    Inr (case ys of [] \<Rightarrow> 0 | c # _ \<Rightarrow> if f (item_at (nodes s) c) \<noteq> 0 then 1 else 0, s)"
  by (rule CountIf_ok [OF assms])

theorem count_if_result_witness:
  "ListItr_CountIf 20 11 (Some (\<lambda>x ctx s. Inr (1, s))) 0 three = Inr (1, three)"
  using count_if_result [of three 10 "[]" "[20, 22, 24]" "[]" "\<lambda>x ctx s. Inr (1, s)" "\<lambda>_. 1" 0] three_list three_env
  by (simp add: range_at_def range_begin_def range_end_def pure_callback_def items_def tail_of_def)
    (simp add: three_def item_at_def)

text \<open>\<open>ListItr_ForEach\<close> applies the action to the elements up to and including the first for which it does not return 0, and returns that element.\<close>

theorem for_each_result:
  fixes s :: "'a list_mem_scheme"
  assumes "range_at s l xs ys zs" and "list_action act f g ctx" and "wf_list_mem s"
  shows "ListItr_ForEach (range_begin l ys zs) (range_end l zs) (Some act) ctx s =
    Inr (range_begin l (dropWhile (\<lambda>c. f (item_at (nodes s) c) = 0) ys) zs,
      fold g (items (nodes s) (takeWhile (\<lambda>c. f (item_at (nodes s) c) = 0) ys @
        take 1 (dropWhile (\<lambda>c. f (item_at (nodes s) c) = 0) ys))) s)"
  by (rule ForEach_ok [OF assms])

theorem for_each_result_witness:
  "ListItr_ForEach 20 11 (Some (\<lambda>x ctx s. Inr (if x = 5 then 1 else 0, s\<lparr>brk := brk s + x\<rparr>))) 0 three =
    Inr (22, three\<lparr>brk := 52\<rparr>)"
  using for_each_result [of three 10 "[]" "[20, 22, 24]" "[]" "\<lambda>x ctx s. Inr (if x = 5 then 1 else 0, s\<lparr>brk := brk s + x\<rparr>)"
    "\<lambda>x. if x = 5 then 1 else 0" "\<lambda>x s. s\<lparr>brk := brk s + x\<rparr>" 0] three_list three_env
  by (simp add: range_at_def range_begin_def range_end_def list_action_def items_def tail_of_def)
    (simp add: three_def blank_def item_at_def)

text \<open>C39: \<open>ListItr_Sort\<close> on a whole list makes one pass of bubble sort: the items are rearranged as by \<open>bubble\<close>, the nodes stay where they are.\<close>

theorem sort_is_one_pass:
  fixes s :: "'a list_mem_scheme"
  assumes "dlist (nodes s) l cs" and "wf_list_mem s" and "pure_order lessF lt"
    and "item_at (nodes s) (tail_of l) \<notin> set (items (nodes s) cs)" and "NULL \<notin> set (items (nodes s) cs)"
  shows "\<exists>s'. ListItr_Sort (hd (cs @ [tail_of l])) (tail_of l) lessF s = Inr ((), s') \<and>
    dlist (nodes s') l cs \<and> items (nodes s') cs = bubble lt (items (nodes s) cs)"
  by (rule Sort_ok [OF assms])

theorem sort_is_one_pass_witness:
  "\<exists>s'. ListItr_Sort 20 11 (\<lambda>x y s. Inr (if y \<noteq> 0 \<and> y < x then 1 else 0, s)) three = Inr ((), s') \<and>
    items (nodes s') [20, 22, 24] = [5, 6, 7]"
  using sort_is_one_pass [OF three_list(1) three_env(1), of "\<lambda>x y s. Inr (if y \<noteq> 0 \<and> y < x then 1 else 0, s)"
    "\<lambda>x y. y \<noteq> 0 \<and> y < x"] three_list
  by (simp add: pure_order_def tail_of_def) (auto simp: three_def item_at_def)

text \<open>C0: \<open>ListItr_Splice\<close> of a range that is not empty always ends in the overflow of \<open>ListItr_InsertBefore\<close>.\<close>

theorem splice_overflows:
  assumes "range_at s l xs (c # ys) zs" and "dest \<noteq> NULL" and "item_at (nodes s) c \<noteq> NULL"
    and "wf_list_mem s" and "wf_bytes s" and "\<not> oom s (brk s)"
  shows "ListItr_Splice dest c (range_end l zs) s = Inl BadAddress"
  by (rule Splice_faults [OF assms])

theorem splice_overflows_witness: "ListItr_Splice 20 22 11 three = Inl BadAddress"
  using splice_overflows [of three 10 "[20]" 22 "[24]" "[]" 20] three_list three_env
  by (simp add: range_at_def range_end_def tail_of_def items_def enough_mem_def)
    (simp add: three_def item_at_def)

text \<open>C40: \<open>ListItr_Cut\<close> removes the node at the iterator and then asks it for its successor: for every range that is not empty it reads freed memory.\<close>

theorem cut_use_after_free:
  assumes "dlist (nodes s) l (xs @ c # ys)" and "wf_list_mem s" and "\<forall>a. \<not> oom s a" and "c \<noteq> e"
  shows "ListItr_Cut c e s = Inl BadAddress"
  by (rule Cut_faults [OF assms])

theorem cut_use_after_free_witness: "ListItr_Cut 22 11 three = Inl BadAddress"
  using cut_use_after_free [of three 10 "[20]" 22 "[24]" 11] three_list three_env
  by (simp add: enough_mem_def)

section \<open>The hash map\<close>

text \<open>C28: A hash map is a dictionary from the strings its keys point to: any insertions, lookups, removals and size queries on a map made by \<open>HashMap_Create\<close> with the functions of the data base give the results of the reference dictionary.\<close>

theorem map_lifetime:
  fixes s :: "'a hash_mem_scheme"
  assumes "capacity \<noteq> 0" and "FindPrimeLargerThan capacity = Some n" and "n \<noteq> 0"
    and "wf_hash_mem s" and "enough_mem s" and "quiet s"
    and "\<forall>p \<in> set ps. \<forall>k \<in> op_keys p. string_key (bmem.truncate s) k (kf k)"
  shows "\<exists>m s1 mp s2.
    HashMap_Create capacity (Some HashFunctionUsers) (Some EqualityFunctionForUsers) s = Inr (Some m, s1) \<and>
    map_run ps (Some m) s1 = Inr ((fst (dict_run kf ps Map.empty), mp), s2) \<and>
    HashMap_Size mp = of_nat (card (dom (snd (dict_run kf ps Map.empty))))"
  using users.map_life_refines [OF assms] unfolding dict_inv_def by blast

text \<open>The strings "ab", "ba" and again "ab".\<close>

definition words :: pool_mem where
  "words = blank\<lparr>bytes := [1 \<mapsto> 97, 2 \<mapsto> 98, 3 \<mapsto> 0, 4 \<mapsto> 98, 5 \<mapsto> 97, 6 \<mapsto> 0,
     7 \<mapsto> 97, 8 \<mapsto> 98, 9 \<mapsto> 0]\<rparr>"

lemma words_env: "wf_hash_mem words" "enough_mem words" "quiet words"
  by (simp_all add: words_def blank_def wf_hash_mem_def wf_list_mem_def enough_mem_def quiet_def)

lemma words_keys: "string_key (bmem.truncate words) 1 [97, 98]" "string_key (bmem.truncate words) 4 [98, 97]"
  "string_key (bmem.truncate words) 7 [97, 98]"
  by (simp_all add: string_key_def str_at_def words_def blank_def bmem.defs less_Suc_eq)

theorem map_lifetime_witness:
  "\<exists>m s1 mp s2.
    HashMap_Create 50 (Some HashFunctionUsers) (Some EqualityFunctionForUsers) words = Inr (Some m, s1) \<and>
    map_run [MInsert 1 100, MInsert 4 200, MFind 7, MInsert 7 300, MRemove 4, MFind 4, MSize] (Some m) s1 =
      Inr (([MCode MAP_SUCCESS, MCode MAP_SUCCESS, MFound MAP_SUCCESS (Some 100), MCode MAP_KEY_DUPLICATE_ERROR,
        MRemoved MAP_SUCCESS (Some 200), MFound MAP_KEY_NOT_FOUND_ERROR None, MCount 1], mp), s2)"
  using map_lifetime [of 50 53 words "[MInsert 1 100, MInsert 4 200, MFind 7, MInsert 7 300, MRemove 4, MFind 4, MSize]"
    "\<lambda>a. if a = 4 then [98, 97] else [97, 98]"] FindPrime_50 words_env words_keys
  by auto

text \<open>C33: \<open>CheckIfPrime\<close> decides primality, except that it accepts 1.\<close>

theorem check_if_prime:
  assumes "unat n < 2 ^ 62"
  shows "\<exists>r. CheckIfPrime n = Some r \<and> (r \<noteq> 0 \<longleftrightarrow> unat n = 1 \<or> is_prime (unat n))"
  by (rule CheckIfPrime_correct [OF assms])

theorem check_if_prime_witness: "\<exists>r. CheckIfPrime 1 = Some r \<and> r \<noteq> 0"
  using check_if_prime [of 1] by auto

text \<open>C32: \<open>FindPrimeLargerThan\<close> returns, and its result is the least prime from its argument on: a prime argument is returned unchanged.\<close>

theorem find_prime:
  assumes "is_prime p" and "p < 2 ^ 62" and "2 \<le> unat n" and "unat n \<le> p"
  shows "\<exists>m. FindPrimeLargerThan n = Some m \<and> is_prime (unat m) \<and> unat n \<le> unat m \<and>
    unat m \<le> p \<and> (\<forall>q. unat n \<le> q \<longrightarrow> q < unat m \<longrightarrow> \<not> is_prime q)"
  by (rule FindPrimeLargerThan_least [OF assms])

lemma is_prime_7: "is_prime 7"
proof -
  have "{2..<7} = {2, 3, 4, 5, 6 :: nat}" by auto
  then show ?thesis by (simp add: is_prime_def)
qed

theorem find_prime_witness: "FindPrimeLargerThan 7 = Some 7"
proof -
  obtain m where "FindPrimeLargerThan 7 = Some m" "7 \<le> unat m" "unat m \<le> 7"
    using find_prime [of 7 7] is_prime_7 by auto
  moreover have "m = 7" using calculation by (intro word_unat_eq_iff [THEN iffD2]) simp
  ultimately show ?thesis by simp
qed

text \<open>C35: \<open>HashMap_Destroy\<close> frees no item: when no bucket in use is empty it returns, with every item still allocated and neither callback called.\<close>

theorem map_destroy_leaks:
  assumes "hmap_rep s m dss" and "wf_hash_mem s"
    and "\<forall>i < length dss. the (hm_data m) ! i \<noteq> NULL \<longrightarrow> dss ! i \<noteq> []"
  shows "\<exists>s'. HashMap_Destroy (Some (Some m)) kd vd s = Inr (None, s') \<and> ditems s' = ditems s \<and> wf_hash_mem s'"
  by (rule HashMap_Destroy_leaks [OF assms])

definition one_item :: pool_mem where
  "one_item = blank\<lparr>nodes := [10 \<mapsto> \<lparr>m_data = 0, m_next = 20, m_prev = 0\<rparr>, 11 \<mapsto> \<lparr>m_data = 0, m_next = 11, m_prev = 20\<rparr>,
     20 \<mapsto> \<lparr>m_data = 30, m_next = 11, m_prev = 10\<rparr>], ditems := [30 \<mapsto> \<lparr>m_value = 1, m_key = 2\<rparr>]\<rparr>"

lemma one_item_rep: "hmap_rep one_item (one_bucket 1) [[30]]" "wf_hash_mem one_item"
proof -
  have "dlist (nodes one_item) 10 [20]" "items (nodes one_item) [20] = [30]"
    by (simp_all add: one_item_def dlist_def tail_of_def items_def item_at_def)
  moreover have "item_at (nodes one_item) (tail_of 10) = NULL" by (simp add: one_item_def tail_of_def item_at_def)
  ultimately have "bucket_rep one_item 10 [30]" unfolding bucket_rep_def by auto
  then show "hmap_rep one_item (one_bucket 1) [[30]]"
    by (simp add: hmap_rep_def one_bucket_def table_rep_def) (simp add: one_item_def)
  show "wf_hash_mem one_item" by (simp add: one_item_def blank_def wf_hash_mem_def wf_list_mem_def)
qed

theorem map_destroy_leaks_witness:
  "\<exists>s'. HashMap_Destroy (Some (Some (one_bucket 1))) None None one_item = Inr (None, s') \<and>
    ditems s' 30 = Some \<lparr>m_value = 1, m_key = 2\<rparr>"
  using map_destroy_leaks [OF one_item_rep, of None None] by (auto simp: one_item_def)

text \<open>C36: \<open>HashMap_Destroy\<close> with a destructor for keys dereferences the null pointer when the first bucket in use is empty, which is so after its items were removed.\<close>

theorem map_destroy_crash:
  assumes "hmap_rep s m dss" and "wf_hash_mem s"
    and "i < length dss" and "the (hm_data m) ! i \<noteq> NULL" and "dss ! i = []"
    and "\<forall>j < i. the (hm_data m) ! j = NULL"
  shows "HashMap_Destroy (Some (Some m)) (Some f) vd s = Inl NullDeref"
  by (rule HashMap_Destroy_crash [OF assms])

definition no_item :: pool_mem where
  "no_item = blank\<lparr>nodes := [10 \<mapsto> \<lparr>m_data = 0, m_next = 11, m_prev = 0\<rparr>, 11 \<mapsto> \<lparr>m_data = 0, m_next = 11, m_prev = 10\<rparr>]\<rparr>"

lemma no_item_rep: "hmap_rep no_item (one_bucket 0) [[]]" "wf_hash_mem no_item"
proof -
  have "dlist (nodes no_item) 10 []" "item_at (nodes no_item) (tail_of 10) = NULL"
    by (simp_all add: no_item_def dlist_def tail_of_def item_at_def)
  then have "bucket_rep no_item 10 []" unfolding bucket_rep_def by (auto simp: items_def)
  then show "hmap_rep no_item (one_bucket 0) [[]]"
    by (simp add: hmap_rep_def one_bucket_def table_rep_def)
  show "wf_hash_mem no_item" by (simp add: no_item_def blank_def wf_hash_mem_def wf_list_mem_def)
qed

theorem map_destroy_crash_witness:
  "HashMap_Destroy (Some (Some (one_bucket 0))) (Some (\<lambda>_. ret ())) None no_item = Inl NullDeref"
  using map_destroy_crash [OF no_item_rep, of 0] by (simp add: one_bucket_def)

section \<open>The queue and the pool of addresses\<close>

text \<open>C29: \<open>QueueCreate\<close> refuses a capacity below 2. It does not set \<open>m_head\<close>, \<open>m_tail\<close> and \<open>m_nItems\<close>: if the memory happens to hold no items and equal indices inside the array (zeros, say), any operations that never remove from an empty queue give the results of a bounded FIFO, overflow and null items included; if it holds an index outside the array, the first \<open>QueueInsert\<close> writes outside it. (For the removal from an empty queue see \<open>remove_from_empty_queue\<close>.)\<close>

theorem queue_lifetime:
  fixes s :: "'a queue_mem_scheme"
  assumes "enough_mem s" and "0 < brk s"
  shows "(sz \<le> 1 \<longrightarrow> QueueCreate sz s = Inr (NULL, s)) \<and>
    (1 < sz \<and> leftover s 4 = 0 \<and> leftover s 3 = leftover s 2 \<and> leftover s 2 < sz \<and>
       fifo_run (unat sz) ps [] = Some (rs, ys) \<longrightarrow>
     (\<exists>q s1 s2. QueueCreate sz s = Inr (q, s1) \<and> queue_run q ps s1 = Inr (rs, s2) \<and> queue_rep (unat sz) s2 q ys)) \<and>
    (1 < sz \<and> leftover s 4 \<noteq> sz \<and> sz \<le> leftover s 3 \<and> x \<noteq> NULL \<longrightarrow>
     (\<exists>q s1. QueueCreate sz s = Inr (q, s1) \<and> QueueInsert q x s1 = Inl BadAddress))"
proof (intro conjI impI; (elim conjE)?)
  show "QueueCreate sz s = Inr (NULL, s)" if "sz \<le> 1" using that by (rule QueueCreate_small)
  show "\<exists>q s1 s2. QueueCreate sz s = Inr (q, s1) \<and> queue_run q ps s1 = Inr (rs, s2) \<and> queue_rep (unat sz) s2 q ys"
    if "1 < sz" "leftover s 4 = 0" "leftover s 3 = leftover s 2" "leftover s 2 < sz" "fifo_run (unat sz) ps [] = Some (rs, ys)"
    using QueueCreate_rep [OF that(1) assms that(2-4)] queue_run_refines [OF _ that(5)] by blast
  show "\<exists>q s1. QueueCreate sz s = Inr (q, s1) \<and> QueueInsert q x s1 = Inl BadAddress"
    if "1 < sz" "leftover s 4 \<noteq> sz" "sz \<le> leftover s 3" "x \<noteq> NULL"
    by (rule QueueInsert_uninitialised [OF that(1) assms that(2-4)])
qed

theorem queue_lifetime_witness:
  "(\<exists>q s1 s2. QueueCreate 2 blank = Inr (q, s1) \<and>
    queue_run q [TestEmpty, Enq 5, Enq 0, Enq 6, Enq 7, Deq, Enq 8, Deq, TestEmpty] s1 =
      Inr ([QFlag 1, QCode QERR_OK, QCode QERR_NOT_INITIALIZED, QCode QERR_OK, QCode QERR_OVERFLOW,
        QItem QERR_OK (Some 5), QCode QERR_OK, QItem QERR_OK (Some 6), QFlag 0], s2) \<and> queue_rep 2 s2 q [8]) \<and>
   (\<exists>q s1. QueueCreate 2 (blank\<lparr>junk := \<lambda>_ _. 7\<rparr>) = Inr (q, s1) \<and> QueueInsert q 5 s1 = Inl BadAddress)"
proof
  show "\<exists>q s1 s2. QueueCreate 2 blank = Inr (q, s1) \<and>
    queue_run q [TestEmpty, Enq 5, Enq 0, Enq 6, Enq 7, Deq, Enq 8, Deq, TestEmpty] s1 =
      Inr ([QFlag 1, QCode QERR_OK, QCode QERR_NOT_INITIALIZED, QCode QERR_OK, QCode QERR_OVERFLOW,
        QItem QERR_OK (Some 5), QCode QERR_OK, QItem QERR_OK (Some 6), QFlag 0], s2) \<and> queue_rep 2 s2 q [8]"
    using queue_lifetime [OF blank_env(2), of 2
      "[TestEmpty, Enq 5, Enq 0, Enq 6, Enq 7, Deq, Enq 8, Deq, TestEmpty]"] blank_env(4)
    by (simp add: blank_def leftover_def zeroed_def)
  show "\<exists>q s1. QueueCreate 2 (blank\<lparr>junk := \<lambda>_ _. 7\<rparr>) = Inr (q, s1) \<and> QueueInsert q 5 s1 = Inl BadAddress"
    using queue_lifetime [of "blank\<lparr>junk := \<lambda>_ _. 7\<rparr>" 2 "[]" "[]" "[]" 5]
    by (simp add: blank_def leftover_def enough_mem_def)
qed

text \<open>C37: \<open>QueueRemove\<close> tests the capacity where it should test the number of items: on an empty queue it reports success, hands out an old slot and sets the number of items to \<open>2^64 - 1\<close>.\<close>

theorem remove_from_empty_queue:
  assumes "queue_rep n s q []"
  shows "\<exists>a h s'. ring_at s q a h 0 \<and> QueueRemove q s = Inr ((QERR_OK, Some (a ! h)), s') \<and>
    ring_at s' q a (Suc h mod n) (- 1)"
  by (rule QueueRemove_empty [OF assms])

definition empty_queue :: pool_mem where
  "empty_queue = blank\<lparr>queues := [30 \<mapsto> \<lparr>m_queueArray = Some [7, 9], m_size = 2, m_head = 1, m_tail = 1,
     m_nItems = 0, m_magicNumber = MEGIC_NUM\<rparr>]\<rparr>"

theorem remove_from_empty_queue_witness:
  "\<exists>s'. QueueRemove 30 empty_queue = Inr ((QERR_OK, Some 9), s') \<and> ring_at s' 30 [7, 9] 0 (- 1)"
proof -
  have "queue_rep 2 empty_queue 30 []" by (simp add: queue_rep_def empty_queue_def)
  from remove_from_empty_queue [OF this] obtain a h s' where r: "ring_at empty_queue 30 a h 0"
    "QueueRemove 30 empty_queue = Inr ((QERR_OK, Some (a ! h)), s')" "ring_at s' 30 a (Suc h mod 2) (- 1)" by blast
  from r(1) have "a = [7, 9]" "h = 1" by (auto simp: ring_at_def empty_queue_def)
  with r(2,3) show ?thesis by auto
qed

text \<open>C31: A new pool hands out its 50 addresses in order, all different, and then the same addresses again.\<close>

theorem pool_addresses:
  fixes s :: "'a pool_mem_scheme"
  assumes "wf_bytes s" and "enough_mem s" and "zeroed s"
    and "dst \<noteq> NULL" and "dst + 17 \<le> brk s" and "\<forall>i < 16. bytes s (dst + i) \<noteq> None"
  shows "(\<exists>p s1 s2. CreateIP_Multecaste s = Inr (p, s1) \<and> get_ips p dst n s1 = Inr (map pool_address [0..<n], s2)) \<and>
    inj_on pool_address {..<50} \<and> pool_address (i + 50) = pool_address i"
  using new_pool_ips [OF assms] pool_address_inject
  by (auto simp: inj_on_def) (simp add: pool_address_def)

theorem pool_addresses_witness:
  "\<exists>p s1 s2. CreateIP_Multecaste blank = Inr (p, s1) \<and> get_ips p 1 51 s1 = Inr (map pool_address [0..<51], s2) \<and>
    map pool_address [0..<51] ! 50 = map pool_address [0..<51] ! 0"
  using pool_addresses [OF blank_env(3,2,4), of 1 51 0] by (auto simp: blank_def map_bytes_def simp del: upt_Suc)

section \<open>The wire protocol\<close>

text \<open>Where the answer code is in the struct of an answer.\<close>

fun answer_offset :: "Protocol_Type \<Rightarrow> nat option" where
  "answer_offset REGISTER_ANS = Some 4"
| "answer_offset LOGIN_ANS = Some 4"
| "answer_offset CREATE_GROUP_CONVERSATION_ANS = Some 20"
| "answer_offset JOIN_CONVERSATION_ANS = Some 20"
| "answer_offset _ = None"

text \<open>C30: For the four answer types, \<open>Pack\<close> puts the answer code into network order and \<open>UnPack\<close> of the packed struct gives back the type and the struct as it was, with the type stored.\<close>

theorem answer_round_trip:
  fixes s :: "'a bmem_scheme"
  assumes "answer_offset t = Some off" and p: "p \<noteq> NULL" "bytes s p \<noteq> None" "bytes_at s (p + off) (le_bytes w)"
  shows "\<exists>s1. Pack (type_code t) p s = Inr (0, s1) \<and> bytes_at s1 (p + off) (rev (le_bytes w)) \<and>
    UnPack p s1 = Inr ((0, type_code t), s\<lparr>bytes := (bytes s)(p \<mapsto> type_code t)\<rparr>)"
  using assms(1) register_ans.round_trip [OF p(1,2)] login_ans.round_trip [OF p(1,2)]
    create_ans.round_trip [OF p(1,2)] join_ans.round_trip [OF p(1,2)] p(3)
  by (cases t) auto

theorem answer_round_trip_witness:
  "\<exists>s1. Pack (type_code LOGIN_ANS) 1 blank = Inr (0, s1) \<and>
    UnPack 1 s1 = Inr ((0, type_code LOGIN_ANS), blank\<lparr>bytes := (bytes blank)(1 \<mapsto> type_code LOGIN_ANS)\<rparr>)"
proof -
  have "bytes_at blank 5 (le_bytes 0)"
    by (simp add: bytes_at_def le_bytes_def blank_def map_bytes_def less_Suc_eq)
  then show ?thesis using answer_round_trip [of LOGIN_ANS 4 1 blank 0] by (auto simp: blank_def map_bytes_def)
qed

text \<open>C34: \<open>Pack\<close> of a request to leave a group falls through to the case of an answer: it reverses the bytes 4 to 7 of the request, which are characters 3 to 6 of the group name, and \<open>UnPack\<close> does not undo it.\<close>

theorem leave_request_garbled:
  fixes s :: "'a bmem_scheme"
  assumes "p \<noteq> NULL" and "bytes s p \<noteq> None" and "bytes_at s (p + 1) (xs @ [a, b, c, d] @ ys)" and "length xs = 3"
  shows "\<exists>s'. Pack (type_code LEAVE_CONVERSATION_REQ) p s = Inr (0, s') \<and>
    UnPack p s' = Inr ((0, type_code LEAVE_CONVERSATION_REQ), s') \<and>
    bytes_at s' (p + 1) (xs @ [d, c, b, a] @ ys)"
  using Pack_leave_request [OF assms] UnPack_request [OF assms(1), of _ LEAVE_CONVERSATION_REQ] by auto

theorem leave_request_garbled_witness:
  "\<exists>s'. Pack (type_code LEAVE_CONVERSATION_REQ) 1 (blank\<lparr>bytes := map_bytes 1 [0, 103, 114, 111, 117, 112, 0, 0] (\<lambda>_. None)\<rparr>) =
      Inr (0, s') \<and> bytes_at s' 2 [103, 114, 111, 0, 0, 112, 117]"
  using leave_request_garbled [of 1 "blank\<lparr>bytes := map_bytes 1 [0, 103, 114, 111, 117, 112, 0, 0] (\<lambda>_. None)\<rparr>"
    "[103, 114, 111]" 117 112 0 0 "[]"]
  by (fastforce simp: bytes_at_def map_bytes_def less_Suc_eq)

text \<open>The answer to a request to leave is packed by no case, but unpacked by the receiver: it reads the code with its bytes reversed.\<close>

theorem leave_answer_reversed:
  fixes s :: "'a bmem_scheme"
  assumes "p \<noteq> NULL" and "bytes s p = Some (type_code LEAVE_CONVERSATION_ANS)" and "bytes_at s (p + 20) (le_bytes w)"
  shows "Pack (type_code LEAVE_CONVERSATION_ANS) p s = Inr (0, s) \<and>
    UnPack p s = Inr ((0, type_code LEAVE_CONVERSATION_ANS), s\<lparr>bytes := map_bytes (p + 20) (le_bytes (htonl w)) (bytes s)\<rparr>)"
  using Pack_leave_answer UnPack_leave_answer [OF assms] by simp

theorem leave_answer_reversed_witness:
  "\<exists>s'. UnPack 1 (blank\<lparr>bytes := (bytes blank)(1 \<mapsto> type_code LEAVE_CONVERSATION_ANS, 21 \<mapsto> 3)\<rparr>) =
    Inr ((0, type_code LEAVE_CONVERSATION_ANS), s') \<and> bytes s' 24 = Some 3"
proof -
  let ?s = "blank\<lparr>bytes := (bytes blank)(1 \<mapsto> type_code LEAVE_CONVERSATION_ANS, 21 \<mapsto> 3)\<rparr>"
  have b: "le_bytes (3 :: 32 word) = [3, 0, 0, 0]" "le_bytes (htonl (3 :: 32 word)) = [0, 0, 0, 3]"
    by (simp_all add: le_bytes_htonl) (simp_all add: le_bytes_def)
  have "bytes_at ?s 21 (le_bytes 3)"
    unfolding b by (simp add: bytes_at_def blank_def map_bytes_def less_Suc_eq)
  then show ?thesis using leave_answer_reversed [of 1 ?s 3] b by (simp add: map_bytes_def)
qed

end
