(* ===== verification/DataBaseSpec.thy ===== *)
theory DataBaseSpec
  imports DataBaseKeys
begin

text \<open>
  What the data base does, as operations on an abstract state \<open>chat\<close>, and the refinement of
  that state by the memory of the server (\<open>db_rep\<close>).

  The abstract state shows what the maps of the running server are: all keys of a map are one
  pointer into the receive buffer, so a user or group is identified by the bucket (\<open>slot\<close>) of
  its name alone.
\<close>

section \<open>The abstract data base\<close>

record chat_group =
  g_name :: "u8 list"
  g_ip :: "u8 list"
  g_count :: nat

record chat =
  a_users :: "nat \<rightharpoonup> u8 list"
  a_groups :: "nat \<rightharpoonup> chat_group"
  a_given :: nat

definition chat_empty :: chat where
  "chat_empty = \<lparr>a_users = Map.empty, a_groups = Map.empty, a_given = 0\<rparr>"

definition spec_register :: "u8 list \<Rightarrow> u8 list \<Rightarrow> chat \<Rightarrow> int \<times> chat" where
  "spec_register name pw A =
     (case a_users A (slot name) of
        None \<Rightarrow> (UNIQE, A\<lparr>a_users := (a_users A)(slot name \<mapsto> pw)\<rparr>)
      | Some _ \<Rightarrow> (ALREADY_EXIST, A))"

definition spec_login :: "u8 list \<Rightarrow> u8 list \<Rightarrow> chat \<Rightarrow> DB_Err" where
  "spec_login name pw A =
     (case a_users A (slot name) of
        None \<Rightarrow> DB_WORNG_USER_NAME
      | Some pw' \<Rightarrow> if pw = pw' then DB_CONNECT_SUCCESFULLY else DB_WORNG_PSW)"

text \<open>The next address of the pool; after 50 groups the addresses repeat.\<close>

definition next_ip :: "chat \<Rightarrow> u8 list" where
  "next_ip A = ip_string 0 (of_nat (a_given A mod 50 + 1))"

text \<open>
  A name of 17 characters fills \<open>m_groupName\<close>; its terminator is overwritten by the first
  character of the address, so that name and address form one string.
\<close>

definition stored_name :: "u8 list \<Rightarrow> u8 list \<Rightarrow> u8 list" where
  "stored_name g ip = (if length g = 17 then g @ ip else g)"

definition spec_create :: "u8 list \<Rightarrow> chat \<Rightarrow> DB_Err \<times> chat" where
  "spec_create g A =
     (case a_groups A (slot g) of
        Some _ \<Rightarrow> (DB_GROUP_NAME_ALREADY_EXIST, A)
      | None \<Rightarrow> (DB_GROUP_SUCCESSFULLY_INSERT,
          A\<lparr>a_groups := (a_groups A)(slot g \<mapsto>
              \<lparr>g_name = stored_name g (next_ip A), g_ip = next_ip A, g_count = 1\<rparr>),
            a_given := Suc (a_given A)\<rparr>))"

definition spec_join :: "u8 list \<Rightarrow> chat \<Rightarrow> DB_Err \<times> u8 list \<times> chat" where
  "spec_join g A =
     (case a_groups A (slot g) of
        None \<Rightarrow> (DB_GROUP_NAME_NOT_EXIST, [], A)
      | Some G \<Rightarrow>
          if g_name G = g then
            (DB_GROUP_JOIN_SUCCESSFULLY, g_ip G,
             A\<lparr>a_groups := (a_groups A)(slot g \<mapsto> G\<lparr>g_count := g_count G + 1\<rparr>)\<rparr>)
          else (DB_GROUP_SUCCESSFULLY_INSERT, [], A))"

section \<open>The representation\<close>

definition env :: "'a hash_mem_scheme \<Rightarrow> bool" where
  "env s \<longleftrightarrow> wf_hash_mem s \<and> wf_bytes s \<and> enough_mem s \<and> zeroed s"

lemma env_simps:
  "env s \<Longrightarrow> wf_hash_mem s" "env s \<Longrightarrow> wf_bytes s" "env s \<Longrightarrow> enough_mem s" "env s \<Longrightarrow> zeroed s"
  "env s \<Longrightarrow> quiet s" "env s \<Longrightarrow> 0 < brk s" "env s \<Longrightarrow> wf_list_mem s"
  by (simp_all add: env_def zeroed_quiet wf_bytes_def wf_hash_mem_def)

definition user_rep :: "'a db_mem_scheme \<Rightarrow> addr \<Rightarrow> u8 list \<Rightarrow> bool" where
  "user_rep s v pw \<longleftrightarrow> bytes_at s v (le_bytes 0) \<and> str_at s (UserValue_psw v) pw \<and> length pw \<le> 16"

definition group_rep :: "'a db_mem_scheme \<Rightarrow> addr \<Rightarrow> chat_group \<Rightarrow> bool" where
  "group_rep s v G \<longleftrightarrow> bytes_at s v (le_bytes (of_nat (g_count G))) \<and> g_count G < 2 ^ 31 \<and>
     str_at s (GroupValue_groupName v) (g_name G) \<and> length (g_name G) \<le> 31 \<and>
     str_at s (GroupValue_ip_add_group v) (g_ip G) \<and> length (g_ip G) \<le> 13"

text \<open>The objects that make up a data base.\<close>

record db_view =
  v_db :: database
  v_umap :: hmap
  v_groups :: GroupsDB
  v_gmap :: hmap
  v_users :: "nat \<rightharpoonup> addr"
  v_gvals :: "nat \<rightharpoonup> addr"
  v_ips :: "addr list"

definition map_lists :: "hmap \<Rightarrow> addr set" where
  "map_lists m = set (the (hm_data m)) - {NULL}"

text \<open>Blocks of bytes (address and size) in use by the data base.\<close>

definition blocks :: "db_view \<Rightarrow> (addr \<times> nat) set" where
  "blocks V = {(v, 24) | v. v \<in> ran (v_users V)} \<union> {(v, 40) | v. v \<in> ran (v_gvals V)} \<union>
     {(q, STRING_SIZE) | q. q \<in> set (v_ips V)}"

definition own :: "db_view \<Rightarrow> addr set" where
  "own V = {a. \<exists>(p, n) \<in> blocks V. p \<le> a \<and> a < p + n}"

definition apart :: "db_view \<Rightarrow> bool" where
  "apart V \<longleftrightarrow> (\<forall>(p, n) \<in> blocks V. \<forall>(q, k) \<in> blocks V. (p, n) \<noteq> (q, k) \<longrightarrow> p + n \<le> q \<or> q + k \<le> p) \<and>
     inj_on (v_users V) (dom (v_users V)) \<and> inj_on (v_gvals V) (dom (v_gvals V))"

definition buffer_size :: nat where
  "buffer_size = 1024"

text \<open>
  \<open>base_ok\<close>: the pool and the values; \<open>umap_ok\<close> and \<open>gmap_ok\<close>: the maps of users and of groups,
  whose items all have the key pointer \<open>ub\<close> and \<open>gb\<close>.
\<close>

definition base_ok :: "'a db_mem_scheme \<Rightarrow> addr \<Rightarrow> chat \<Rightarrow> db_view \<Rightarrow> bool" where
  "base_ok s db A V \<longleftrightarrow>
     db \<noteq> NULL \<and> databases s db = Some (v_db V) \<and>
     pool_rep s (m_addIPPool (v_db V)) (v_ips V) (a_given A) \<and>
     (\<forall>i. rel_option (user_rep s) (v_users V i) (a_users A i)) \<and>
     (\<forall>i. rel_option (group_rep s) (v_gvals V i) (a_groups A i)) \<and>
     (\<forall>(p, n) \<in> blocks V. p + n \<le> brk s) \<and> apart V"

definition umap_ok :: "'a db_mem_scheme \<Rightarrow> addr \<Rightarrow> db_view \<Rightarrow> bool" where
  "umap_ok s ub V \<longleftrightarrow> m_userDB (v_db V) \<noteq> NULL \<and>
     users_dbs s (m_userDB (v_db V)) = Some (Some (v_umap V)) \<and>
     alias_rep HashFunctionUsers EqualityFunctionForUsers s (v_umap V) ub (v_users V) \<and>
     (\<forall>l \<in> map_lists (v_umap V). l < brk s)"

definition gmap_ok :: "'a db_mem_scheme \<Rightarrow> addr \<Rightarrow> db_view \<Rightarrow> bool" where
  "gmap_ok s gb V \<longleftrightarrow> m_groupDB (v_db V) \<noteq> NULL \<and>
     groups_dbs s (m_groupDB (v_db V)) = Some (v_groups V) \<and> m_groupNames (v_groups V) = Some (v_gmap V) \<and>
     alias_rep HashFunctionGroups EqualityFunctionForGroups s (v_gmap V) gb (v_gvals V) \<and>
     (\<forall>l \<in> map_lists (v_gmap V). l < brk s)"

text \<open>
  The data base at \<open>db\<close>, used with requests in the buffer \<open>buf\<close>, represents \<open>A\<close>, and none of
  its bytes lies in \<open>F\<close> (the buffer and other memory of its callers).
\<close>

definition view_ok :: "'a db_mem_scheme \<Rightarrow> addr \<Rightarrow> addr \<Rightarrow> chat \<Rightarrow> db_view \<Rightarrow> bool" where
  "view_ok s db buf A V \<longleftrightarrow> base_ok s db A V \<and> umap_ok s (UserDetails_userName buf) V \<and>
     gmap_ok s (GroupDetails_groupName buf) V \<and> map_lists (v_umap V) \<inter> map_lists (v_gmap V) = {}"

definition db_rep :: "'a db_mem_scheme \<Rightarrow> addr \<Rightarrow> addr \<Rightarrow> addr set \<Rightarrow> chat \<Rightarrow> bool" where
  "db_rep s db buf F A \<longleftrightarrow> env s \<and> F \<subseteq> {..<brk s} \<and> (\<exists>V. view_ok s db buf A V \<and> own V \<inter> F = {})"

section \<open>Extension of the memory\<close>

text \<open>
  \<open>ext b L s s'\<close>: between \<open>s\<close> and \<open>s'\<close> nothing below the address \<open>b\<close> changed but lists in \<open>L\<close>.
\<close>

definition lists_kept :: "addr set \<Rightarrow> (addr \<Rightarrow> node option) \<Rightarrow> (addr \<Rightarrow> node option) \<Rightarrow> bool" where
  "lists_kept L h h' \<longleftrightarrow> (\<forall>l cs. l \<notin> L \<longrightarrow> dlist h l cs \<longrightarrow>
     dlist h' l cs \<and> items h' cs = items h cs \<and> item_at h' (tail_of l) = item_at h (tail_of l))"

lemma lists_kept_refl [simp]: "lists_kept L h h"
  by (simp add: lists_kept_def)

lemma lists_kept_trans: "lists_kept L h h' \<Longrightarrow> lists_kept L h' h'' \<Longrightarrow> lists_kept L h h''"
  unfolding lists_kept_def by (intro allI impI) metis

definition ext :: "addr \<Rightarrow> addr set \<Rightarrow> 'a db_mem_scheme \<Rightarrow> 'a db_mem_scheme \<Rightarrow> bool" where
  "ext b L s s' \<longleftrightarrow> b \<le> brk s \<and> brk s \<le> brk s' \<and>
     (\<forall>a < b. bytes s' a = bytes s a \<and> ditems s' a = ditems s a) \<and>
     lists_kept L (nodes s) (nodes s') \<and>
     databases s' = databases s \<and> users_dbs s' = users_dbs s \<and> groups_dbs s' = groups_dbs s \<and>
     pools s' = pools s \<and> queues s' = queues s"

lemma ext_refl: "b \<le> brk s \<Longrightarrow> ext b L s s"
  by (simp add: ext_def)

lemma ext_trans: "ext b L s s' \<Longrightarrow> ext b L s' s'' \<Longrightarrow> ext b L s s''"
  by (auto simp: ext_def intro: lists_kept_trans)

lemma ext_mono: "ext b L s s' \<Longrightarrow> L \<subseteq> L' \<Longrightarrow> ext b L' s s'"
  by (auto simp: ext_def lists_kept_def)

lemma ext_hash:
  assumes "hash_frame L {} s s'" and "b \<le> brk s"
  shows "ext b L s s'"
proof -
  obtain b n d where "s' = s\<lparr>brk := b, nodes := n, ditems := d\<rparr>"
    using assms(1) unfolding hash_frame_def by blast
  then show ?thesis using assms unfolding ext_def hash_frame_def lists_kept_def by auto
qed

lemma ext_bytes:
  "\<lbrakk>b \<le> brk s; brk s \<le> n; \<forall>a < b. y a = bytes s a\<rbrakk> \<Longrightarrow> ext b L s (s\<lparr>brk := n, bytes := y\<rparr>)"
  by (simp add: ext_def)

lemma ext_user_groups: "b \<le> brk s \<Longrightarrow> ext b L s (s\<lparr>user_groups := g\<rparr>)"
  by (simp add: ext_def)

lemma str_at_ext: "str_at s a xs \<Longrightarrow> ext b L s s' \<Longrightarrow> a + length xs < b \<Longrightarrow> str_at s' a xs"
  by (rule str_at_cong) (auto simp: ext_def)

lemma bytes_at_ext: "bytes_at s a xs \<Longrightarrow> ext b L s s' \<Longrightarrow> a + length xs \<le> b \<Longrightarrow> bytes_at s' a xs"
  by (rule bytes_at_cong) (auto simp: ext_def)

lemma ext_alias:
  assumes rep: "alias_rep hf ef s m ka B" and e: "ext (brk s) L s s'" and wf: "wf_hash_mem s"
    and L: "map_lists m \<inter> L = {}"
  shows "alias_rep hf ef s' m ka B"
proof -
  let ?s = "s\<lparr>brk := brk s', nodes := nodes s', ditems := ditems s'\<rparr>"
  have "hash_frame L {} s ?s" using e by (simp add: ext_def hash_frame_def lists_kept_def)
  then have "alias_rep hf ef ?s m ka B"
    by (rule alias_rep_frame [OF rep _ wf]) (use L in \<open>auto simp: map_lists_def\<close>)
  then show ?thesis by (subst (asm) alias_rep_heaps [of ?s s']) simp_all
qed

lemma block_bound:
  "base_ok s db A V \<Longrightarrow> v_users V i = Some v \<Longrightarrow> v + 24 \<le> brk s"
  "base_ok s db A V \<Longrightarrow> v_gvals V i = Some v \<Longrightarrow> v + 40 \<le> brk s"
  "base_ok s db A V \<Longrightarrow> q \<in> set (v_ips V) \<Longrightarrow> q + STRING_SIZE \<le> brk s"
  by (auto simp: base_ok_def blocks_def ran_def ball_Un)

lemma user_rep_cong:
  assumes "user_rep s v pw" and "brk s \<le> brk s'" and "\<And>a. v \<le> a \<Longrightarrow> a < v + 24 \<Longrightarrow> bytes s' a = bytes s a"
  shows "user_rep s' v pw"
  using assms unfolding user_rep_def UserValue_psw_def
  by (auto intro: bytes_at_cong str_at_cong)

lemma group_rep_cong:
  assumes "group_rep s v G" and "brk s \<le> brk s'" and "\<And>a. v \<le> a \<Longrightarrow> a < v + 40 \<Longrightarrow> bytes s' a = bytes s a"
  shows "group_rep s' v G"
  using assms unfolding group_rep_def GroupValue_groupName_def GroupValue_ip_add_group_def
  by (auto intro: bytes_at_cong str_at_cong)

text \<open>A change outside of the blocks of the data base does not concern it.\<close>

lemma pool_region_own: "pool_region (v_ips V) \<subseteq> own V"
  by (auto simp: pool_region_def own_def blocks_def)

lemma base_frame_pool:
  assumes ok: "base_ok s db A V" and le: "brk s \<le> brk s'"
    and same: "\<And>a. a \<in> own V \<Longrightarrow> bytes s' a = bytes s a"
    and dbs: "databases s' = databases s"
    and pool: "pool_rep s' (m_addIPPool (v_db V)) (v_ips V) k"
  shows "base_ok s' db (A\<lparr>a_given := k\<rparr>) V"
proof -
  have "rel_option (user_rep s') (v_users V i) (a_users A i)" for i
  proof -
    have "rel_option (user_rep s) (v_users V i) (a_users A i)" using ok by (simp add: base_ok_def)
    moreover have "user_rep s' v pw" if u: "v_users V i = Some v" "user_rep s v pw" for v pw
      by (rule user_rep_cong [OF u(2) le], rule same)
        (use u(1) in \<open>force simp: own_def blocks_def ran_def\<close>)
    ultimately show ?thesis by (cases "v_users V i") (auto simp: option_rel_Some1)
  qed
  moreover have "rel_option (group_rep s') (v_gvals V i) (a_groups A i)" for i
  proof -
    have "rel_option (group_rep s) (v_gvals V i) (a_groups A i)" using ok by (simp add: base_ok_def)
    moreover have "group_rep s' v G" if u: "v_gvals V i = Some v" "group_rep s v G" for v G
      by (rule group_rep_cong [OF u(2) le], rule same)
        (use u(1) in \<open>force simp: own_def blocks_def ran_def\<close>)
    ultimately show ?thesis by (cases "v_gvals V i") (auto simp: option_rel_Some1)
  qed
  moreover have "\<forall>(p, n) \<in> blocks V. p + n \<le> brk s'"
    using ok le unfolding base_ok_def by (auto intro: order_trans)
  ultimately show ?thesis using ok dbs pool unfolding base_ok_def by simp
qed

lemma base_frame:
  assumes ok: "base_ok s db A V" and le: "brk s \<le> brk s'"
    and same: "\<And>a. a \<in> own V \<Longrightarrow> bytes s' a = bytes s a"
    and heaps: "databases s' = databases s" "pools s' = pools s" "queues s' = queues s"
  shows "base_ok s' db A V"
proof -
  have "pool_rep s' (m_addIPPool (v_db V)) (v_ips V) (a_given A)"
    by (rule pool_rep_frame [OF _ heaps(2,3) le])
      (use ok same pool_region_own [of V] in \<open>auto simp: base_ok_def\<close>)
  from base_frame_pool [OF ok le same heaps(1) this] show ?thesis by simp
qed

lemma own_bound: "base_ok s db A V \<Longrightarrow> a \<in> own V \<Longrightarrow> a < brk s"
  by (fastforce simp: base_ok_def own_def)

text \<open>In particular whatever happens above the old end of memory.\<close>

lemma base_ext: "base_ok s db A V \<Longrightarrow> ext (brk s) L s s' \<Longrightarrow> base_ok s' db A V"
  by (rule base_frame) (auto simp: ext_def dest: own_bound)

lemma umap_ext:
  "\<lbrakk>umap_ok s ub V; ext (brk s) L s s'; wf_hash_mem s; map_lists (v_umap V) \<inter> L = {}\<rbrakk> \<Longrightarrow> umap_ok s' ub V"
  using ext_alias [of HashFunctionUsers EqualityFunctionForUsers s "v_umap V" ub "v_users V" L s']
  by (auto simp: umap_ok_def ext_def)

lemma gmap_ext:
  "\<lbrakk>gmap_ok s gb V; ext (brk s) L s s'; wf_hash_mem s; map_lists (v_gmap V) \<inter> L = {}\<rbrakk> \<Longrightarrow> gmap_ok s' gb V"
  using ext_alias [of HashFunctionGroups EqualityFunctionForGroups s "v_gmap V" gb "v_gvals V" L s']
  by (auto simp: gmap_ok_def ext_def)

lemma view_ext: "view_ok s db buf A V \<Longrightarrow> ext (brk s) {} s s' \<Longrightarrow> wf_hash_mem s \<Longrightarrow> view_ok s' db buf A V"
  by (auto simp: view_ok_def intro: base_ext umap_ext gmap_ext)

lemma umap_heaps:
  "\<lbrakk>umap_ok s ub V; nodes s' = nodes s; ditems s' = ditems s; users_dbs s' = users_dbs s; brk s \<le> brk s'\<rbrakk>
   \<Longrightarrow> umap_ok s' ub V"
  by (auto simp: umap_ok_def alias_rep_heaps [of s' s])

lemma gmap_heaps:
  "\<lbrakk>gmap_ok s gb V; nodes s' = nodes s; ditems s' = ditems s; groups_dbs s' = groups_dbs s; brk s \<le> brk s'\<rbrakk>
   \<Longrightarrow> gmap_ok s' gb V"
  by (auto simp: gmap_ok_def alias_rep_heaps [of s' s])

text \<open>
  Two rules for the callers of the data base: they may write to \<open>F\<close>, and new memory may be
  added to \<open>F\<close>.
\<close>

lemma db_rep_write:
  assumes rep: "db_rep s db buf F A" and "env s'"
    and s': "s' = s\<lparr>brk := brk s', bytes := bytes s'\<rparr>" "brk s \<le> brk s'"
    and same: "\<And>a. a < brk s \<Longrightarrow> a \<notin> F \<Longrightarrow> bytes s' a = bytes s a"
    and F': "F' \<subseteq> F \<union> {brk s..<brk s'}"
  shows "db_rep s' db buf F' A"
proof -
  obtain V where V: "view_ok s db buf A V" "own V \<inter> F = {}" and F: "F \<subseteq> {..<brk s}"
    using rep by (auto simp: db_rep_def)
  obtain b y where e: "s' = s\<lparr>brk := b, bytes := y\<rparr>" using s'(1) by blast
  have o: "a < brk s" if "a \<in> own V" for a using V(1) that own_bound by (auto simp: view_ok_def)
  have "base_ok s' db A V"
    by (rule base_frame [of s]) (use V o e s'(2) same in \<open>auto simp: view_ok_def\<close>)
  moreover have "umap_ok s' (UserDetails_userName buf) V" "gmap_ok s' (GroupDetails_groupName buf) V"
    using V(1) e s'(2) by (auto simp: view_ok_def intro: umap_heaps gmap_heaps)
  ultimately have "view_ok s' db buf A V" using V(1) by (simp add: view_ok_def)
  moreover have "own V \<inter> F' = {}" using V(2) F' o by fastforce
  moreover have "F' \<subseteq> {..<brk s'}" using F F' s'(2) by fastforce
  ultimately show ?thesis using assms(2) unfolding db_rep_def by blast
qed

text \<open>One more user, one more group.\<close>

lemma blocks_add:
  "v_users V i = None \<Longrightarrow> blocks (V\<lparr>v_users := (v_users V)(i \<mapsto> v)\<rparr>) = insert (v, 24) (blocks V)"
  "v_gvals V i = None \<Longrightarrow> blocks (V\<lparr>v_gvals := (v_gvals V)(i \<mapsto> v)\<rparr>) = insert (v, 40) (blocks V)"
  by (auto simp: blocks_def)

lemma own_add:
  "v_users V i = None \<Longrightarrow> own (V\<lparr>v_users := (v_users V)(i \<mapsto> v)\<rparr>) = {v..<v + 24} \<union> own V"
  "v_gvals V i = None \<Longrightarrow> own (V\<lparr>v_gvals := (v_gvals V)(i \<mapsto> v)\<rparr>) = {v..<v + 40} \<union> own V"
  by (auto simp: own_def blocks_add)

lemma own_maps [simp]:
  "own (V\<lparr>v_umap := m\<rparr>) = own V" "own (V\<lparr>v_gmap := m\<rparr>) = own V" "own (V\<lparr>v_groups := r\<rparr>) = own V"
  "blocks (V\<lparr>v_umap := m\<rparr>) = blocks V" "blocks (V\<lparr>v_gmap := m\<rparr>) = blocks V"
  "blocks (V\<lparr>v_groups := r\<rparr>) = blocks V"
  by (simp_all add: own_def blocks_def)

lemma apart_insert:
  assumes "apart V" and "\<forall>(q, k) \<in> blocks V. q + k \<le> v" and "v_users V i = None"
  shows "apart (V\<lparr>v_users := (v_users V)(i \<mapsto> v)\<rparr>)"
proof -
  note b = blocks_add(1) [OF assms(3), of v]
  have "v \<notin> ran (v_users V)"
  proof
    assume "v \<in> ran (v_users V)"
    then have "(v, 24) \<in> blocks V" by (simp add: blocks_def)
    with assms(2) show False by fastforce
  qed
  then have "inj_on ((v_users V)(i \<mapsto> v)) (dom ((v_users V)(i \<mapsto> v)))"
    using assms(1,3) by (auto simp: apart_def inj_on_def ran_def)
  then show ?thesis using assms(1,2) unfolding apart_def b by auto
qed

lemma apart_insert_group:
  assumes "apart V" and "\<forall>(q, k) \<in> blocks V. q + k \<le> v" and "v_gvals V i = None"
  shows "apart (V\<lparr>v_gvals := (v_gvals V)(i \<mapsto> v)\<rparr>)"
proof -
  note b = blocks_add(2) [OF assms(3), of v]
  have "v \<notin> ran (v_gvals V)"
  proof
    assume "v \<in> ran (v_gvals V)"
    then have "(v, 40) \<in> blocks V" by (simp add: blocks_def)
    with assms(2) show False by fastforce
  qed
  then have "inj_on ((v_gvals V)(i \<mapsto> v)) (dom ((v_gvals V)(i \<mapsto> v)))"
    using assms(1,3) by (auto simp: apart_def inj_on_def ran_def)
  then show ?thesis using assms(1,2) unfolding apart_def b by auto
qed

lemma base_add_user:
  assumes ok: "base_ok s db A V" and "user_rep s v pw" and "v + 24 \<le> brk s"
    and "\<forall>(q, k) \<in> blocks V. q + k \<le> v" and "v_users V i = None"
  shows "base_ok s db (A\<lparr>a_users := (a_users A)(i \<mapsto> pw)\<rparr>) (V\<lparr>v_users := (v_users V)(i \<mapsto> v)\<rparr>)"
  using assms apart_insert [of V v i] blocks_add(1) [OF assms(5), of v] unfolding base_ok_def by auto

lemma base_add_group:
  assumes ok: "base_ok s db A V" and "group_rep s v G" and "v + 40 \<le> brk s"
    and "\<forall>(q, k) \<in> blocks V. q + k \<le> v" and "v_gvals V i = None"
  shows "base_ok s db (A\<lparr>a_groups := (a_groups A)(i \<mapsto> G)\<rparr>) (V\<lparr>v_gvals := (v_gvals V)(i \<mapsto> v)\<rparr>)"
  using assms apart_insert_group [of V v i] blocks_add(2) [OF assms(5), of v] unfolding base_ok_def by auto

section \<open>New blocks\<close>

text \<open>\<open>stored p cs s\<close>: the state with the bytes \<open>cs\<close> stored at \<open>p\<close>.\<close>

definition stored :: "addr \<Rightarrow> u8 list \<Rightarrow> 'a bmem_scheme \<Rightarrow> 'a bmem_scheme" where
  "stored p cs s = s\<lparr>bytes := map_bytes p cs (bytes s)\<rparr>"

definition mapped :: "'a bmem_scheme \<Rightarrow> addr \<Rightarrow> nat \<Rightarrow> bool" where
  "mapped s p n \<longleftrightarrow> p \<noteq> NULL \<and> (\<forall>i < n. bytes s (p + i) \<noteq> None)"

lemma put_stored: "mapped s p n \<Longrightarrow> length cs \<le> n \<Longrightarrow> put_bytes p cs s = Inr ((), stored p cs s)"
  unfolding stored_def by (rule put_bytes_ok) (auto simp: mapped_def)

lemma mapped_sub: "mapped s p n \<Longrightarrow> i + k \<le> n \<Longrightarrow> mapped s (p + i) k"
  by (auto simp: mapped_def add.assoc)

lemma mapped_stored: "mapped s p n \<Longrightarrow> mapped (stored q cs s) p n"
  by (auto simp: mapped_def stored_def map_bytes_def)

lemma stored_env:
  fixes s :: "'a hash_mem_scheme"
  assumes "env s" and "mapped s p (length cs)"
  shows "env (stored p cs s)"
proof -
  have "map_bytes p cs (bytes s) a = None" if "brk s \<le> a" for a
  proof -
    have "a < p + length cs \<Longrightarrow> p \<le> a \<Longrightarrow> bytes s (p + (a - p)) \<noteq> None"
      using assms(2) unfolding mapped_def by (metis add_less_cancel_left le_add_diff_inverse)
    then show ?thesis using assms(1) that by (auto simp: map_bytes_def env_def wf_bytes_def)
  qed
  with assms(1) show ?thesis
    by (simp add: env_def stored_def wf_bytes_def wf_hash_mem_def wf_list_mem_def enough_mem_def zeroed_def)
qed

lemma stored_ext: "b \<le> p \<Longrightarrow> b \<le> brk s \<Longrightarrow> ext b L s (stored p cs s)"
  by (simp add: ext_def stored_def map_bytes_out)

lemma stored_simps [simp]:
  "brk (stored p cs s) = brk s"
  "nodes (stored p cs (s1 :: 'a list_mem_scheme)) = nodes s1"
  by (simp_all add: stored_def)

lemma str_at_stored_new:
  "p \<noteq> NULL \<Longrightarrow> 0 \<notin> set xs \<Longrightarrow> p + length xs < brk s \<Longrightarrow> str_at (stored p (xs @ [0]) s) p xs"
  by (rule str_at_map_bytes) (simp_all add: stored_def)

lemma str_at_stored_old:
  "str_at s a xs \<Longrightarrow> a + length xs < p \<or> p + length cs \<le> a \<Longrightarrow> str_at (stored p cs s) a xs"
  by (rule str_at_cong) (auto simp: stored_def map_bytes_out)

lemma bytes_at_stored_new: "p \<noteq> NULL \<Longrightarrow> bytes_at (stored p cs s) p cs"
  by (rule bytes_at_map_bytes) (simp_all add: stored_def)

lemma bytes_at_stored_old:
  "bytes_at s a xs \<Longrightarrow> a + length xs \<le> p \<or> p + length cs \<le> a \<Longrightarrow> bytes_at (stored p cs s) a xs"
  by (rule bytes_at_cong) (auto simp: stored_def map_bytes_out)

lemma strcpy_stored:
  "str_at s a xs \<Longrightarrow> mapped s d n \<Longrightarrow> length xs < n \<Longrightarrow> strcpy d a s = Inr ((), stored d (xs @ [0]) s)"
  unfolding stored_def by (rule strcpy_ok) (auto simp: mapped_def)

lemma wr_int_stored:
  "mapped s p n \<Longrightarrow> 4 \<le> n \<Longrightarrow> wr_int p i s = Inr ((), stored p (le_bytes (word_of_int i)) s)"
  unfolding wr_int_def wr_u32_def by (rule put_stored) simp_all

lemma rd_int_ok: "bytes_at s p (le_bytes w) \<Longrightarrow> rd_int p s = Inr (sint w, s)"
  by (simp add: rd_int_def rd_u32_step)

text \<open>A block of \<open>n\<close> new bytes.\<close>

lemma new_block:
  assumes "env s"
  obtains s' where "malloc_bytes n s = Inr (brk s, s')" "mapped s' (brk s) n" "env s'"
    "ext (brk s) L s s'" "brk s' = brk s + n + 1" "s' = s\<lparr>brk := brk s', bytes := bytes s'\<rparr>"
proof -
  let ?y = "map_bytes (brk s) (junk_bytes (junk s) (brk s) n) (bytes s)"
  let ?s = "s\<lparr>brk := brk s + n + 1, bytes := ?y\<rparr>"
  have b: "0 < brk s" "\<not> oom s (brk s)"
    using env_simps(3,6) [OF assms] by (simp_all add: enough_mem_def)
  have "malloc_bytes n s = Inr (brk s, ?s)" using b by (simp add: malloc_bytes_step)
  moreover have "mapped ?s (brk s) n" using b by (simp add: mapped_def map_bytes_in)
  moreover have "env ?s" using assms
    by (auto simp: env_def wf_bytes_def wf_hash_mem_def wf_list_mem_def enough_mem_def zeroed_def map_bytes_out)
  moreover have "ext (brk s) L s ?s" by (rule ext_bytes) (simp_all add: map_bytes_out)
  ultimately show ?thesis using that by simp
qed

end
