(* ===== verification/DataBaseOps.thy ===== *)
theory DataBaseOps
  imports DataBaseSpec
begin

text \<open>
  Refinement: every operation of the data base returns what the abstract operation returns,
  and leaves a memory that represents the new abstract state. The only bytes of old objects
  that change are the ones an operation is asked to fill (addresses) and the participant
  count of a group.
\<close>

section \<open>Requests\<close>

definition user_request :: "'a bmem_scheme \<Rightarrow> addr \<Rightarrow> u8 list \<Rightarrow> u8 list \<Rightarrow> bool" where
  "user_request s buf name pw \<longleftrightarrow> str_at s (UserDetails_password buf) pw \<and> length pw \<le> 16 \<and>
     str_at s (UserDetails_userName buf) name \<and> length name \<le> 16"

definition group_request :: "'a bmem_scheme \<Rightarrow> addr \<Rightarrow> u8 list \<Rightarrow> u8 list \<Rightarrow> bool" where
  "group_request s buf g name \<longleftrightarrow> str_at s (GroupDetails_groupName buf) g \<and> length g \<le> 17 \<and>
     str_at s (GroupDetails_userName buf) name \<and> length name \<le> 16 \<and> name \<noteq> [] \<and>
     bytes s (buf + 18) \<noteq> None"

lemma env_hash:
  assumes "env s" and "hash_frame L D s s'" and "wf_hash_mem s'"
  shows "env s'"
proof -
  have "bytes s' = bytes s" "junk s' = junk s" "oom s' = oom s" "brk s \<le> brk s'"
    using hash_frame_rest [OF assms(2)] assms(2) by (auto simp: hash_frame_def)
  then show ?thesis using assms(1,3) by (simp add: env_def wf_bytes_def enough_mem_def zeroed_def)
qed

lemma env_more [simp]:
  fixes s :: "'a db_mem_scheme"
  shows "env (s\<lparr>user_groups := x\<rparr>) = env s" "env (s\<lparr>users_dbs := y\<rparr>) = env s"
    "env (s\<lparr>groups_dbs := z\<rparr>) = env s" "env (s\<lparr>pools := p\<rparr>) = env s" "env (s\<lparr>queues := q\<rparr>) = env s"
  by (simp_all add: env_def wf_hash_mem_def wf_list_mem_def wf_bytes_def enough_mem_def zeroed_def)

lemma users_map_ok:
  "view_ok s db buf A V \<Longrightarrow> users_map db s = Inr ((m_userDB (v_db V), Some (v_umap V)), s)"
  by (simp add: view_ok_def base_ok_def umap_ok_def users_map_def obj_step)

lemma groups_map_ok:
  "view_ok s db buf A V \<Longrightarrow> groups_map db s = Inr ((m_groupDB (v_db V), v_groups V), s)"
  by (simp add: view_ok_def base_ok_def gmap_ok_def groups_map_def obj_step)

lemma users_find:
  assumes "view_ok s db buf A V" and "env s" and "str_at s (UserDetails_userName buf) name"
    and "length name \<le> 16"
  shows "HashMap_Find (Some (v_umap V)) (UserDetails_userName buf) s = Inr (case v_users V (slot name) of
    None \<Rightarrow> (MAP_KEY_NOT_FOUND_ERROR, None) | Some v \<Rightarrow> (MAP_SUCCESS, Some v), s)"
  by (rule users.alias_find)
    (use assms env_simps(1) [OF assms(2)] in \<open>simp_all add: view_ok_def umap_ok_def\<close>)

lemma groups_find:
  assumes "view_ok s db buf A V" and "env s" and "str_at s (GroupDetails_groupName buf) g"
    and "length g \<le> 17"
  shows "HashMap_Find (Some (v_gmap V)) (GroupDetails_groupName buf) s = Inr (case v_gvals V (slot g) of
    None \<Rightarrow> (MAP_KEY_NOT_FOUND_ERROR, None) | Some v \<Rightarrow> (MAP_SUCCESS, Some v), s)"
  by (rule groups.alias_find)
    (use assms env_simps(1) [OF assms(2)] in \<open>simp_all add: view_ok_def gmap_ok_def\<close>)

lemma view_user: "view_ok s db buf A V \<Longrightarrow> rel_option (user_rep s) (v_users V i) (a_users A i)"
  by (simp add: view_ok_def base_ok_def)

lemma view_group: "view_ok s db buf A V \<Longrightarrow> rel_option (group_rep s) (v_gvals V i) (a_groups A i)"
  by (simp add: view_ok_def base_ok_def)

section \<open>Users\<close>

text \<open>\<open>InsertUserToList\<close> with the status \<open>DISCONNECT\<close>: the registration of a new user.\<close>

lemma InsertUserToList_ok:
  assumes ok: "view_ok s db buf A V" and env: "env s" and req: "user_request s buf name pw"
    and new: "v_users V (slot name) = None" and F: "own V \<inter> F = {}" "F \<subseteq> {..<brk s}"
  shows "\<exists>s'. InsertUserToList db buf DISCONNECT s = Inr (DB_SUCCESS, s') \<and>
    db_rep s' db buf F (A\<lparr>a_users := (a_users A)(slot name \<mapsto> pw)\<rparr>) \<and>
    brk s \<le> brk s' \<and> (\<forall>a < brk s. bytes s' a = bytes s a)"
proof -
  let ?v = "brk s" and ?ub = "UserDetails_userName buf"
  have pw: "str_at s (UserDetails_password buf) pw" "length pw \<le> 16"
    and name: "str_at s ?ub name" "length name \<le> 16"
    using req by (simp_all add: user_request_def)
  have pwb: "UserDetails_password buf + length pw < brk s" "0 \<notin> set pw"
    using pw(1) by (simp_all add: str_at_def)
  obtain s1 where s1: "malloc_bytes 24 s = Inr (?v, s1)" "mapped s1 ?v 24" "env s1"
    "ext ?v {} s s1" "brk s1 = ?v + 24 + 1"
    by (rule new_block [OF env])
  have v: "0 < ?v" using env_simps(6) [OF env] .
  let ?s2 = "stored ?v (le_bytes 0) s1"
  let ?s3 = "stored (?v + 4) (pw @ [0]) ?s2"
  have m2: "mapped ?s2 ?v 24" "mapped ?s2 (?v + 4) 20"
    using mapped_stored [OF s1(2)] mapped_sub [of ?s2 ?v 24 4 20] by simp_all
  have wr: "wr_int ?v DISCONNECT s1 = Inr ((), ?s2)"
    using wr_int_stored [OF s1(2), of DISCONNECT] by (simp add: DISCONNECT_def)
  have e2: "env ?s2" by (rule stored_env [OF s1(3)]) (use s1(2) in \<open>auto simp: mapped_def\<close>)
  have e3: "env ?s3" by (rule stored_env [OF e2]) (use m2(2) pw(2) in \<open>auto simp: mapped_def\<close>)
  have x2: "ext ?v {} s ?s2" by (rule ext_trans [OF s1(4) stored_ext]) (use s1(5) in simp_all)
  have x3: "ext ?v {} s ?s3" by (rule ext_trans [OF x2 stored_ext]) (use s1(5) in simp_all)
  have cp: "strcpy (UserValue_psw ?v) (UserDetails_password buf) ?s2 = Inr ((), ?s3)"
    unfolding UserValue_psw_def
    by (rule strcpy_stored [OF str_at_ext [OF pw(1) x2 pwb(1)] m2(2)]) (use pw(2) in simp)
  have urep3: "user_rep ?s3 ?v pw"
    unfolding user_rep_def UserValue_psw_def
    using pw(2) pwb(2) s1(5) v
    by (auto intro!: str_at_stored_new bytes_at_stored_old bytes_at_stored_new)
  obtain s4 g where s4: "HashMap_Create 50 (Some HashFunctionGroups) (Some EqualityFunctionForGroups) ?s3 =
      Inr (Some g, s4)" "hash_frame {} {} ?s3 s4" "wf_hash_mem s4"
    using groups.alias_create [OF env_simps(1,3) [OF e3]] by blast
  let ?s5 = "s4\<lparr>user_groups := (user_groups s4)(?v \<mapsto> Some g)\<rparr>"
  have b4: "bytes s4 = bytes ?s3" "brk ?s3 \<le> brk s4"
    using hash_frame_rest [OF s4(2)] s4(2) by (auto simp: hash_frame_def)
  have e4: "env s4" by (rule env_hash [OF e3 s4(2,3)])
  have e5: "env ?s5" using e4 by simp
  have x4: "ext ?v {} s s4" by (rule ext_trans [OF x3 ext_hash [OF s4(2)]]) (use s1(5) in simp)
  have x5: "ext ?v {} s ?s5" by (rule ext_trans [OF x4 ext_user_groups]) (use b4(2) s1(5) in simp)
  have ok5: "view_ok ?s5 db buf A V" by (rule view_ext [OF ok x5 env_simps(1) [OF env]])
  have urep5: "user_rep ?s5 ?v pw"
    by (rule user_rep_cong [OF urep3]) (use b4 in \<open>auto simp: stored_def\<close>)
  have n5: "str_at ?s5 ?ub name" by (rule str_at_ext [OF name(1) x5]) (use name(1) in \<open>simp add: str_at_def\<close>)
  have al: "alias_rep HashFunctionUsers EqualityFunctionForUsers ?s5 (v_umap V) ?ub (v_users V)"
    using ok5 by (simp add: view_ok_def umap_ok_def)
  obtain s6 m' where s6: "HashMap_Insert (Some (v_umap V)) ?ub ?v ?s5 = Inr ((MAP_SUCCESS, Some m'), s6)"
    "alias_rep HashFunctionUsers EqualityFunctionForUsers s6 m' ?ub ((v_users V)(slot name \<mapsto> ?v))"
    "hash_frame (set (the (hm_data (v_umap V)))) {} ?s5 s6" "wf_hash_mem s6"
    "\<forall>l \<in> set (the (hm_data m')). l \<in> set (the (hm_data (v_umap V))) \<or> brk ?s5 \<le> l \<and> l < brk s6"
    using users.alias_insert [OF al env_simps(1) [OF e5] n5 _ new env_simps(3,5) [OF e5]] name(2)
    by fastforce
  let ?u = "m_userDB (v_db V)"
  let ?s7 = "s6\<lparr>users_dbs := (users_dbs s6)(?u \<mapsto> Some m')\<rparr>"
  have run: "InsertUserToList db buf DISCONNECT s = Inr (DB_SUCCESS, ?s7)"
    unfolding InsertUserToList_def
    using s1(1) v wr cp s4(1) users_map_ok [OF ok5] s6(1)
    by (simp add: set_user_groups_def set_users_def USER_GROUPS_CAPACITY_def)
  have x6: "ext (brk ?s5) (set (the (hm_data (v_umap V)))) ?s5 s6" by (rule ext_hash [OF s6(3)]) simp
  have b56: "brk ?s5 \<le> brk s6" "\<And>a. bytes s6 a = bytes ?s5 a"
    using hash_frame_rest [OF s6(3)] s6(3) by (auto simp: hash_frame_def)
  have v6: "?v + 24 \<le> brk s6" using b56(1) b4(2) s1(5) by simp
  have below: "\<forall>(q, k) \<in> blocks V. q + k \<le> ?v" using ok by (simp add: view_ok_def base_ok_def)
  let ?A = "A\<lparr>a_users := (a_users A)(slot name \<mapsto> pw)\<rparr>"
  let ?V = "V\<lparr>v_users := (v_users V)(slot name \<mapsto> ?v)\<rparr>"
  let ?W = "?V\<lparr>v_umap := m'\<rparr>"
  have "base_ok s6 db A V" by (rule base_ext [OF _ x6]) (use ok5 in \<open>simp add: view_ok_def\<close>)
  from base_add_user [OF this _ v6 below new, of pw] urep5
  have "base_ok s6 db ?A ?V" using user_rep_cong [OF urep5 b56(1)] b56(2) by blast
  then have "base_ok ?s7 db ?A ?V" by (rule base_frame) simp_all
  then have base: "base_ok ?s7 db ?A ?W"
    by (simp add: base_ok_def apart_def blocks_def)
  have gm: "gmap_ok s6 (GroupDetails_groupName buf) V"
    by (rule gmap_ext [OF _ x6 env_simps(1) [OF e5]]) (use ok5 in \<open>auto simp: view_ok_def map_lists_def\<close>)
  then have gm7: "gmap_ok ?s7 (GroupDetails_groupName buf) ?W"
    by (simp add: gmap_ok_def alias_rep_heaps [of ?s7 s6])
  have um5: "umap_ok ?s5 ?ub V" using ok5 by (simp add: view_ok_def)
  have "l \<in> map_lists (v_umap V) \<or> brk ?s5 \<le> l \<and> l < brk s6" if "l \<in> map_lists m'" for l
    using that s6(5) unfolding map_lists_def by blast
  note lists = this
  have "l < brk s6" if "l \<in> map_lists m'" for l
  proof -
    have "\<forall>l \<in> map_lists (v_umap V). l < brk ?s5" using um5 unfolding umap_ok_def by (elim conjE)
    with lists [OF that] b56(1) show ?thesis by (elim disjE) auto
  qed
  then have um7: "umap_ok ?s7 ?ub ?W"
    using um5 s6(2) by (simp add: umap_ok_def alias_rep_heaps [of ?s7 s6])
  have "map_lists m' \<inter> map_lists (v_gmap V) = {}"
  proof -
    have "l < brk ?s5" if "l \<in> map_lists (v_gmap V)" for l
      using ok5 that by (auto simp: view_ok_def gmap_ok_def)
    moreover have "map_lists (v_umap V) \<inter> map_lists (v_gmap V) = {}" using ok by (simp add: view_ok_def)
    ultimately show ?thesis using lists by (meson disjoint_iff not_le)
  qed
  with base gm7 um7 have "view_ok ?s7 db buf ?A ?W" by (simp add: view_ok_def)
  moreover have "env ?s7" using env_hash [OF e5 s6(3,4)] by simp
  moreover have "bytes ?s7 a = bytes s a" if "a < ?v" for a
    using b56(2) x5 that by (simp add: ext_def)
  moreover have "?v \<le> brk ?s7" using v6 by simp
  moreover have "own ?W \<inter> F = {}" using F by (auto simp: own_add(1) [OF new])
  ultimately show ?thesis using run F(2) unfolding db_rep_def
    by (intro exI [of _ ?s7]) (auto intro!: exI [of _ ?W])
qed

lemma IsUserNameUnique_refines:
  assumes rep: "db_rep s db buf F A" and req: "user_request s buf name pw"
  shows "\<exists>s'. IsUserNameUnique db buf s = Inr (fst (spec_register name pw A), s') \<and>
    db_rep s' db buf F (snd (spec_register name pw A)) \<and>
    brk s \<le> brk s' \<and> (\<forall>a < brk s. bytes s' a = bytes s a)"
proof -
  obtain V where ok: "view_ok s db buf A V" and env: "env s" and F: "own V \<inter> F = {}" "F \<subseteq> {..<brk s}"
    using rep by (auto simp: db_rep_def)
  have name: "str_at s (UserDetails_userName buf) name" "length name \<le> 16"
    using req by (simp_all add: user_request_def)
  note find = users_find [OF ok env name] and um = users_map_ok [OF ok]
  note u = view_user [OF ok, of "slot name"]
  show ?thesis
  proof (cases "v_users V (slot name)")
    case None
    with u have a: "a_users A (slot name) = None" by (simp add: option_rel_Some1)
    obtain s' where s': "InsertUserToList db buf DISCONNECT s = Inr (DB_SUCCESS, s')"
      "db_rep s' db buf F (A\<lparr>a_users := (a_users A)(slot name \<mapsto> pw)\<rparr>)"
      "brk s \<le> brk s'" "\<forall>a < brk s. bytes s' a = bytes s a"
      using InsertUserToList_ok [OF ok env req None F] by blast
    have "IsUserNameUnique db buf s = Inr (UNIQE, s')"
      using um find None s'(1) by (simp add: IsUserNameUnique_def)
    with s' a show ?thesis by (simp add: spec_register_def)
  next
    case (Some v)
    with u obtain pw' where a: "a_users A (slot name) = Some pw'" by (auto simp: option_rel_Some1)
    have "IsUserNameUnique db buf s = Inr (ALREADY_EXIST, s)"
      using um find Some by (simp add: IsUserNameUnique_def)
    with rep a show ?thesis by (simp add: spec_register_def)
  qed
qed

lemma CheckClientStatusAndConnect_refines:
  assumes rep: "db_rep s db buf F A" and req: "user_request s buf name pw" and buf: "buf \<noteq> NULL"
  shows "\<exists>s'. CheckClientStatusAndConnect db buf s = Inr (spec_login name pw A, s') \<and>
    db_rep s' db buf F A \<and> brk s \<le> brk s' \<and> (\<forall>a < brk s. bytes s' a = bytes s a)"
proof -
  obtain V where ok: "view_ok s db buf A V" and env: "env s" and F: "own V \<inter> F = {}" "F \<subseteq> {..<brk s}"
    using rep by (auto simp: db_rep_def)
  have name: "str_at s (UserDetails_userName buf) name" "length name \<le> 16"
    and pw: "str_at s (UserDetails_password buf) pw"
    using req by (simp_all add: user_request_def)
  have db: "db \<noteq> NULL" using ok by (simp add: view_ok_def base_ok_def)
  note find = users_find [OF ok env name] and um = users_map_ok [OF ok]
  note u = view_user [OF ok, of "slot name"]
  show ?thesis
  proof (cases "v_users V (slot name)")
    case None
    with u have "a_users A (slot name) = None" by (simp add: option_rel_Some1)
    with None db buf um find rep show ?thesis
      by (simp add: CheckClientStatusAndConnect_def spec_login_def)
  next
    case (Some v)
    with u obtain pw' where a: "a_users A (slot name) = Some pw'" "user_rep s v pw'"
      by (auto simp: option_rel_Some1)
    have status: "rd_int v s = Inr (0, s)" using a(2) rd_int_ok [of s v 0] by (simp add: user_rep_def)
    obtain r where r: "strcmp s (UserDetails_password buf) (UserValue_psw v) = Inr r" "r = 0 \<longleftrightarrow> pw = pw'"
      using strcmp_str_at [OF pw] a(2) by (auto simp: user_rep_def)
    obtain s1 where s1: "malloc_bytes 24 s = Inr (brk s, s1)" "mapped s1 (brk s) 24" "env s1"
      "ext (brk s) {} s s1" "brk s1 = brk s + 24 + 1"
      by (rule new_block [OF env])
    let ?s2 = "stored (brk s) (le_bytes 1) s1"
    have e2: "env ?s2" by (rule stored_env [OF s1(3)]) (use s1(2) in \<open>auto simp: mapped_def\<close>)
    have x2: "ext (brk s) {} s ?s2" by (rule ext_trans [OF s1(4) stored_ext]) (use s1(5) in simp_all)
    have ins: "InsertUserToList db buf CONNECT s = Inr (DB_SUCCESS, ?s2)"
      using s1(1,2) env_simps(6) [OF env] wr_int_stored [OF s1(2), of CONNECT]
      by (simp add: InsertUserToList_def CONNECT_def DISCONNECT_def)
    have run: "CheckClientStatusAndConnect db buf s =
        Inr (spec_login name pw A, if pw = pw' then ?s2 else s)"
      using db buf um find Some status r ins a(1)
      by (simp add: CheckClientStatusAndConnect_def spec_login_def CONNECT_def)
    have "db_rep ?s2 db buf F A"
      using e2 view_ext [OF ok x2 env_simps(1) [OF env]] F x2 by (auto simp: db_rep_def ext_def)
    with rep have "db_rep (if pw = pw' then ?s2 else s) db buf F A" by simp
    moreover have "\<forall>a < brk s. bytes ?s2 a = bytes s a" "brk s \<le> brk ?s2"
      using x2 by (simp_all add: ext_def)
    ultimately show ?thesis using run
      by (intro exI [of _ "if pw = pw' then ?s2 else s"]) (simp split: if_split)
  qed
qed

section \<open>Groups\<close>

lemma str_at_append:
  "bytes_at s a xs \<Longrightarrow> 0 \<notin> set xs \<Longrightarrow> str_at s (a + length xs) ys \<Longrightarrow> str_at s a (xs @ ys)"
  by (induction xs arbitrary: a) (simp_all add: bytes_at_Cons str_at_Cons)

lemma str_at_bytes: "str_at s a xs \<Longrightarrow> bytes_at s a (xs @ [0])"
  by (auto simp: str_at_def bytes_at_def nth_append less_Suc_eq)

text \<open>
  The user name of a group request is one byte behind the pointer of the user map, so no
  lookup through it succeeds.
\<close>

lemma member_not_found:
  assumes ok: "view_ok s db buf A V" and env: "env s" and req: "group_request s buf g name"
  shows "HashMap_Find (Some (v_umap V)) (GroupDetails_userName buf) s =
    Inr ((MAP_KEY_NOT_FOUND_ERROR, None), s)"
proof -
  have n: "str_at s (buf + 19) name" "name \<noteq> []" "length name \<le> 16"
    using req by (simp_all add: group_request_def GroupDetails_userName_def)
  obtain c where c: "bytes s (buf + 18) = Some c" using req by (auto simp: group_request_def)
  have b: "buf + 18 < brk s" using n(1) by (simp add: str_at_def)
  have "\<exists>xs. str_at s (buf + 18) xs \<and> xs \<noteq> name"
  proof (cases "c = 0")
    case True
    with c b n(2) show ?thesis by (intro exI [of _ "[]"]) (simp add: str_at_Nil)
  next
    case False
    with c n(1) have "str_at s (buf + 18) (c # name)" by (simp add: str_at_Cons add.commute)
    then show ?thesis by (intro exI [of _ "c # name"]) simp
  qed
  then obtain xs where xs: "str_at s (UserDetails_userName buf) xs" "xs \<noteq> name"
    by (auto simp: UserDetails_userName_def)
  have "alias_rep HashFunctionUsers EqualityFunctionForUsers s (v_umap V)
      (UserDetails_userName buf) (v_users V)" using ok by (simp add: view_ok_def umap_ok_def)
  from users.alias_find_other [OF this env_simps(1) [OF env] xs(1) _ _ xs(2), of "GroupDetails_userName buf"]
  show ?thesis using n by (simp add: GroupDetails_userName_def)
qed

lemma Update_Group_Details_ok:
  assumes "view_ok s db buf A V" and "env s" and "group_request s buf g name"
  shows "Update_Group_Details_For_User db (GroupDetails_userName buf) key s = Inr ((), s)"
  using users_map_ok [OF assms(1)] member_not_found [OF assms]
  by (simp add: Update_Group_Details_For_User_def)

lemma Try_to_Leave_refines:
  assumes "db_rep s db buf F A" and req: "group_request s buf g name" and "buf \<noteq> NULL"
  shows "Try_to_Leave_To_Group buf db ip s = Inr (DB_GROUP_NAME_NOT_EXIST, s)"
proof -
  obtain V where ok: "view_ok s db buf A V" and env: "env s" using assms(1) by (auto simp: db_rep_def)
  have "db \<noteq> NULL" using ok by (simp add: view_ok_def base_ok_def)
  with users_map_ok [OF ok] member_not_found [OF ok env req] assms(3)
  show ?thesis by (simp add: Try_to_Leave_To_Group_def)
qed

lemma group_request_cong:
  assumes r: "group_request s buf g name" and le: "brk s \<le> brk s'"
    and same: "\<And>a. buf \<le> a \<Longrightarrow> a < buf + 36 \<Longrightarrow> a < brk s \<Longrightarrow> bytes s' a = bytes s a"
  shows "group_request s' buf g name"
proof -
  have n: "str_at s (buf + 1) g" "str_at s (buf + 19) name" "length g \<le> 17" "length name \<le> 16"
    using r by (simp_all add: group_request_def GroupDetails_groupName_def GroupDetails_userName_def)
  have "str_at s' (buf + 1) g"
    by (rule str_at_cong [OF n(1) le], rule same) (use n in \<open>auto simp: str_at_def\<close>)
  moreover have "str_at s' (buf + 19) name"
    by (rule str_at_cong [OF n(2) le], rule same) (use n in \<open>auto simp: str_at_def\<close>)
  moreover have "bytes s' (buf + 18) = bytes s (buf + 18)"
    by (rule same) (use n in \<open>auto simp: str_at_def\<close>)
  ultimately show ?thesis using r
    by (simp add: group_request_def GroupDetails_groupName_def GroupDetails_userName_def)
qed

text \<open>
  The first part of \<open>Check_Group_Name_And_Insert\<close>: a new value with the name of the group and
  one participant. A name of 17 characters leaves its terminator in the address field.
\<close>

lemma new_group_value:
  assumes env: "env s" and g: "str_at s (GroupDetails_groupName buf) g" "length g \<le> 17"
  obtains s3 where
    "\<forall>f. chain (malloc_bytes 40) (\<lambda>v. if v = NULL then ret DB_ALLOC_FAIL
        else chain (strcpy (GroupValue_groupName v) (GroupDetails_groupName buf)) (\<lambda>_.
             chain (wr_int v 1) (\<lambda>_. f v))) s = f (brk s) s3"
    "env s3" "ext (brk s) {} s s3" "brk s3 = brk s + 41" "mapped s3 (brk s) 40"
    "bytes_at s3 (brk s) (le_bytes 1)" "bytes_at s3 (brk s + 4) (g @ [0])"
proof -
  let ?v = "brk s"
  have gb: "GroupDetails_groupName buf + length g < brk s" "0 \<notin> set g"
    using g(1) by (simp_all add: str_at_def)
  obtain s1 where s1: "malloc_bytes 40 s = Inr (?v, s1)" "mapped s1 ?v 40" "env s1"
    "ext ?v {} s s1" "brk s1 = ?v + 40 + 1"
    by (rule new_block [OF env])
  have v: "0 < ?v" using env_simps(6) [OF env] .
  let ?s2 = "stored (?v + 4) (g @ [0]) s1"
  let ?s3 = "stored ?v (le_bytes 1) ?s2"
  have m1: "mapped s1 (?v + 4) 36" using mapped_sub [OF s1(2), of 4 36] by simp
  have cp: "strcpy (GroupValue_groupName ?v) (GroupDetails_groupName buf) s1 = Inr ((), ?s2)"
    unfolding GroupValue_groupName_def
    by (rule strcpy_stored [OF str_at_ext [OF g(1) s1(4) gb(1)] m1]) (use g(2) in simp)
  have m2: "mapped ?s2 ?v 40" by (rule mapped_stored [OF s1(2)])
  have wr: "wr_int ?v 1 ?s2 = Inr ((), ?s3)" using wr_int_stored [OF m2, of 1] by simp
  have e2: "env ?s2" by (rule stored_env [OF s1(3)]) (use m1 g(2) in \<open>auto simp: mapped_def\<close>)
  have e3: "env ?s3" by (rule stored_env [OF e2]) (use m2 in \<open>auto simp: mapped_def\<close>)
  have x2: "ext ?v {} s ?s2" by (rule ext_trans [OF s1(4) stored_ext]) (use s1(5) in simp_all)
  have x3: "ext ?v {} s ?s3" by (rule ext_trans [OF x2 stored_ext]) (use s1(5) in simp_all)
  have run: "chain (malloc_bytes 40) (\<lambda>v. if v = NULL then ret DB_ALLOC_FAIL
        else chain (strcpy (GroupValue_groupName v) (GroupDetails_groupName buf)) (\<lambda>_.
             chain (wr_int v 1) (\<lambda>_. f v))) s = f ?v ?s3" for f
    using s1(1) v cp wr by simp
  show ?thesis
    by (rule that [OF allI [OF run] e3 x3])
      (use s1(5) v m2 in \<open>auto intro: mapped_stored bytes_at_stored_new bytes_at_stored_old\<close>)
qed

lemma next_ip_facts: "length (next_ip A) \<le> 13" "0 \<notin> set (next_ip A)"
  by (simp_all add: next_ip_def ip_string_length ip_string_zero)

lemma stored_group:
  assumes v: "bytes_at s v (le_bytes 1)" "bytes_at s (v + 4) (g @ [0])" "mapped s v 40"
    and g: "length g \<le> 17" "0 \<notin> set g" and ip: "length ip \<le> 13" "0 \<notin> set ip" and b: "v + 40 \<le> brk s"
  shows "group_rep (stored (v + 21) (ip @ [0]) s) v \<lparr>g_name = stored_name g ip, g_ip = ip, g_count = 1\<rparr>"
proof -
  let ?s = "stored (v + 21) (ip @ [0]) s"
  have c: "bytes_at ?s v (le_bytes 1)" by (rule bytes_at_stored_old [OF v(1)]) simp
  have i: "str_at ?s (v + 21) ip" by (rule str_at_stored_new) (use ip b in auto)
  have "str_at ?s (v + 4) (stored_name g ip)"
  proof (cases "length g = 17")
    case True
    have "bytes_at s (v + 4) g" using v(2) by (simp add: bytes_at_append)
    then have "bytes_at ?s (v + 4) g" by (rule bytes_at_stored_old) (use True in simp)
    with True i g(2) show ?thesis by (simp add: stored_name_def str_at_append add.assoc)
  next
    case False
    have "str_at s (v + 4) g"
      using v(2) g b False unfolding str_at_def bytes_at_def
      by (auto simp: nth_append dest: spec [of _ "length g"])
    then have "str_at ?s (v + 4) g" by (rule str_at_stored_old) (use False g(1) in simp)
    with False show ?thesis by (simp add: stored_name_def)
  qed
  then show ?thesis using c i g ip
    by (simp add: group_rep_def GroupValue_groupName_def GroupValue_ip_add_group_def stored_name_def)
qed

text \<open>The caller's array of 16 characters for an address, in its own memory \<open>F\<close>.\<close>

definition ip_array :: "'a bmem_scheme \<Rightarrow> addr set \<Rightarrow> addr \<Rightarrow> addr \<Rightarrow> bool" where
  "ip_array s F buf ip \<longleftrightarrow> mapped s ip 16 \<and> {ip..<ip + 16} \<subseteq> F \<and> (ip + 16 \<le> buf \<or> buf + 36 \<le> ip)"

lemma Check_Group_dup:
  assumes rep: "db_rep s db buf F A" and req: "group_request s buf g name" and buf: "buf \<noteq> NULL"
    and dup: "a_groups A (slot g) \<noteq> None"
  shows "\<exists>s'. Check_Group_Name_And_Insert buf db ip s = Inr (DB_GROUP_NAME_ALREADY_EXIST, s') \<and>
    db_rep s' db buf F A \<and> brk s \<le> brk s' \<and> (\<forall>a < brk s. bytes s' a = bytes s a)"
proof -
  obtain V where ok: "view_ok s db buf A V" and env: "env s" and F: "own V \<inter> F = {}" "F \<subseteq> {..<brk s}"
    using rep by (auto simp: db_rep_def)
  have g: "str_at s (GroupDetails_groupName buf) g" "length g \<le> 17"
    using req by (simp_all add: group_request_def)
  have db: "db \<noteq> NULL" using ok by (simp add: view_ok_def base_ok_def)
  obtain s3 where s3:
    "\<forall>f. chain (malloc_bytes 40) (\<lambda>v. if v = NULL then ret DB_ALLOC_FAIL
        else chain (strcpy (GroupValue_groupName v) (GroupDetails_groupName buf)) (\<lambda>_.
             chain (wr_int v 1) (\<lambda>_. f v))) s = f (brk s) s3"
    "env s3" "ext (brk s) {} s s3" "brk s3 = brk s + 41" "mapped s3 (brk s) 40"
    "bytes_at s3 (brk s) (le_bytes 1)" "bytes_at s3 (brk s + 4) (g @ [0])"
    by (rule new_group_value [OF env g])
  have ok3: "view_ok s3 db buf A V" by (rule view_ext [OF ok s3(3) env_simps(1) [OF env]])
  have "str_at s3 (GroupDetails_groupName buf) g"
    by (rule str_at_ext [OF g(1) s3(3)]) (use g(1) in \<open>simp add: str_at_def\<close>)
  note find = groups_find [OF ok3 s3(2) this g(2)]
  obtain v where v: "v_gvals V (slot g) = Some v"
    using view_group [OF ok, of "slot g"] dup by (auto simp: option_rel_Some2)
  have mg: "m_groupNames (v_groups V) = Some (v_gmap V)" using ok by (simp add: view_ok_def gmap_ok_def)
  have "Check_Group_Name_And_Insert buf db ip s = Inr (DB_GROUP_NAME_ALREADY_EXIST, s3)"
    using buf db s3(1) groups_map_ok [OF ok3] find v mg
    by (simp add: Check_Group_Name_And_Insert_def)
  moreover have "db_rep s3 db buf F A" using ok3 s3(2,3) F by (auto simp: db_rep_def ext_def)
  ultimately show ?thesis using s3(3) by (auto simp: ext_def)
qed

lemma Check_Group_new:
  assumes rep: "db_rep s db buf F A" and req: "group_request s buf g name" and buf: "buf \<noteq> NULL"
    and new: "a_groups A (slot g) = None" and ip: "ip_array s F buf ip"
  shows "\<exists>s'. Check_Group_Name_And_Insert buf db ip s = Inr (DB_GROUP_SUCCESSFULLY_INSERT, s') \<and>
    db_rep s' db buf F (snd (spec_create g A)) \<and> str_at s' ip (next_ip A) \<and> brk s \<le> brk s' \<and>
    (\<forall>a < brk s. a \<notin> {ip..<ip + 16} \<longrightarrow> bytes s' a = bytes s a) \<and> mapped s' ip 16"
proof -
  obtain V where ok: "view_ok s db buf A V" and env: "env s" and F: "own V \<inter> F = {}" "F \<subseteq> {..<brk s}"
    using rep by (auto simp: db_rep_def)
  let ?v = "brk s" and ?gb = "GroupDetails_groupName buf" and ?nip = "next_ip A"
  have g: "str_at s ?gb g" "length g \<le> 17" using req by (simp_all add: group_request_def)
  have g0: "0 \<notin> set g" using g(1) by (simp add: str_at_def)
  have db: "db \<noteq> NULL" using ok by (simp add: view_ok_def base_ok_def)
  have ipF: "{ip..<ip + 16} \<subseteq> F" and ipm: "mapped s ip 16" and ipb: "ip + 16 \<le> buf \<or> buf + 36 \<le> ip"
    using ip by (simp_all add: ip_array_def)
  have ipbrk: "ip + 16 \<le> brk s" using ipF F(2) by (auto simp: subset_iff dest!: spec [of _ "ip + 15"])
  obtain s3 where s3:
    "\<forall>f. chain (malloc_bytes 40) (\<lambda>v. if v = NULL then ret DB_ALLOC_FAIL
        else chain (strcpy (GroupValue_groupName v) (GroupDetails_groupName buf)) (\<lambda>_.
             chain (wr_int v 1) (\<lambda>_. f v))) s = f ?v s3"
    "env s3" "ext (brk s) {} s s3" "brk s3 = brk s + 41" "mapped s3 (brk s) 40"
    "bytes_at s3 (brk s) (le_bytes 1)" "bytes_at s3 (brk s + 4) (g @ [0])"
    by (rule new_group_value [OF env g])
  have ok3: "view_ok s3 db buf A V" by (rule view_ext [OF ok s3(3) env_simps(1) [OF env]])
  have g3: "str_at s3 ?gb g"
    by (rule str_at_ext [OF g(1) s3(3)]) (use g(1) in \<open>simp add: str_at_def\<close>)
  have vn: "v_gvals V (slot g) = None"
    using view_group [OF ok, of "slot g"] new by (cases "v_gvals V (slot g)") auto
  have mg: "m_groupNames (v_groups V) = Some (v_gmap V)" using ok by (simp add: view_ok_def gmap_ok_def)
  have find: "HashMap_Find (Some (v_gmap V)) ?gb s3 = Inr ((MAP_KEY_NOT_FOUND_ERROR, None), s3)"
    using groups_find [OF ok3 s3(2) g3 g(2)] vn by simp
  have dbs: "obj databases db s3 = Inr (v_db V, s3)"
    using ok3 db by (simp add: view_ok_def base_ok_def obj_step)
  have pool: "pool_rep s3 (m_addIPPool (v_db V)) (v_ips V) (a_given A)"
    using ok3 by (simp add: view_ok_def base_ok_def)
  have ip3: "bytes s3 (ip + i) \<noteq> None \<and> ip + i \<notin> pool_region (v_ips V)" if "i < STRING_SIZE - 1" for i
  proof -
    have "i < 16" using that by (simp add: STRING_SIZE_def)
    then have "bytes s (ip + i) \<noteq> None" "ip + i \<in> F" "ip + i < brk s"
      using ipm ipF ipbrk by (auto simp: mapped_def)
    then show ?thesis using s3(3) F(1) pool_region_own [of V] by (auto simp: ext_def)
  qed
  have "ip \<noteq> NULL" "ip + STRING_SIZE \<le> brk s3 + 1"
    using ipm ipbrk s3(4) by (simp_all add: mapped_def STRING_SIZE_def)
  from GetIPAddress_ok [OF pool this(1) ip3 this(2)]
  obtain s4 where s4: "GetIPAddress (m_addIPPool (v_db V)) ip s3 = Inr (ADDR_SUCCESS, s4)"
    "pool_rep s4 (m_addIPPool (v_db V)) (v_ips V) (Suc (a_given A))" "str_at s4 ip ?nip"
    "s4 = s3\<lparr>bytes := bytes s4, queues := queues s4, pools := pools s4\<rparr>"
    "\<forall>a. a < ip \<or> ip + STRING_SIZE - 1 \<le> a \<longrightarrow> bytes s4 a = bytes s3 a"
    "\<forall>a. bytes s4 a = None \<longleftrightarrow> bytes s3 a = None"
    unfolding next_ip_def by blast
  let ?s5 = "stored (?v + 21) (?nip @ [0]) s4" and ?G = "\<lparr>g_name = stored_name g ?nip, g_ip = ?nip, g_count = 1\<rparr>"
  obtain y q p where e4: "s4 = s3\<lparr>bytes := y, queues := q, pools := p\<rparr>" using s4(4) by blast
  have v4: "bytes s4 a = bytes s3 a" if "?v \<le> a" for a
    using s4(5) that ipbrk by (simp add: STRING_SIZE_def)
  have m4: "mapped s4 ?v 40" using s3(5) s4(6) by (simp add: mapped_def)
  have env4: "env s4" using s3(2) s4(6) e4
    by (simp add: env_def wf_bytes_def wf_hash_mem_def wf_list_mem_def enough_mem_def zeroed_def)
  have m421: "mapped s4 (?v + 21) 19" using mapped_sub [OF m4, of 21 19] by simp
  have cp: "strcpy (GroupValue_ip_add_group ?v) ip s4 = Inr ((), ?s5)"
    unfolding GroupValue_ip_add_group_def
    by (rule strcpy_stored [OF s4(3) m421]) (use next_ip_facts [of A] in simp)
  have grep: "group_rep ?s5 ?v ?G"
    by (rule stored_group [OF bytes_at_cong [OF s3(6)] bytes_at_cong [OF s3(7)] m4 g(2) g0 next_ip_facts])
      (use v4 s3(4) e4 in auto)
  have env5: "env ?s5"
    by (rule stored_env [OF env4]) (use m421 next_ip_facts [of A] in \<open>auto simp: mapped_def\<close>)
  have b5: "bytes ?s5 a = bytes s a" if "a < ?v" "a \<notin> {ip..<ip + 16}" for a
    using that s4(5) s3(3) by (auto simp: stored_def map_bytes_out ext_def STRING_SIZE_def)
  have "base_ok s db A V" using ok by (simp add: view_ok_def)
  note own_v = own_bound [OF this]
  have own5: "bytes ?s5 a = bytes s3 a" if "a \<in> own V" for a
  proof -
    have "a < ?v" "a \<notin> {ip..<ip + 16}" using own_v [OF that] that F(1) ipF by auto
    then show ?thesis using b5 s3(3) by (auto simp: ext_def)
  qed
  have pool5: "pool_rep ?s5 (m_addIPPool (v_db V)) (v_ips V) (Suc (a_given A))"
    by (rule pool_rep_frame [OF s4(2)])
      (use own_v pool_region_own [of V] in \<open>fastforce simp: stored_def intro: map_bytes_out\<close>)+
  have "base_ok ?s5 db (A\<lparr>a_given := Suc (a_given A)\<rparr>) V"
    by (rule base_frame_pool [of s3]) (use ok3 own5 pool5 e4 in \<open>simp_all add: view_ok_def stored_def\<close>)
  note base5 = this
  have um5: "umap_ok ?s5 (UserDetails_userName buf) V" and gm5: "gmap_ok ?s5 ?gb V"
    using ok3 e4 by (auto simp: view_ok_def stored_def intro: umap_heaps gmap_heaps)
  have r5: "group_request ?s5 buf g name"
  proof (rule group_request_cong [OF req])
    fix a assume a: "buf \<le> a" "a < buf + 36" "a < brk s"
    show "bytes ?s5 a = bytes s a" by (rule b5) (use a ipb in auto)
  qed (use s3(4) e4 in simp)
  have al: "alias_rep HashFunctionGroups EqualityFunctionForGroups ?s5 (v_gmap V) ?gb (v_gvals V)"
    using gm5 by (simp add: gmap_ok_def)
  have g5: "str_at ?s5 ?gb g" using r5 by (simp add: group_request_def)
  obtain s6 m' where s6: "HashMap_Insert (Some (v_gmap V)) ?gb ?v ?s5 = Inr ((MAP_SUCCESS, Some m'), s6)"
    "alias_rep HashFunctionGroups EqualityFunctionForGroups s6 m' ?gb ((v_gvals V)(slot g \<mapsto> ?v))"
    "hash_frame (set (the (hm_data (v_gmap V)))) {} ?s5 s6" "wf_hash_mem s6"
    "\<forall>l \<in> set (the (hm_data m')). l \<in> set (the (hm_data (v_gmap V))) \<or> brk ?s5 \<le> l \<and> l < brk s6"
    using groups.alias_insert [OF al env_simps(1) [OF env5] g5 _ vn env_simps(3,5) [OF env5]] g(2)
    by fastforce
  let ?R = "v_groups V\<lparr>m_groupNames := Some m'\<rparr>"
  let ?s7 = "s6\<lparr>groups_dbs := (groups_dbs s6)(m_groupDB (v_db V) \<mapsto> ?R)\<rparr>"
  let ?V = "V\<lparr>v_gvals := (v_gvals V)(slot g \<mapsto> ?v)\<rparr>"
  let ?W = "?V\<lparr>v_gmap := m', v_groups := ?R\<rparr>"
  let ?A = "A\<lparr>a_given := Suc (a_given A), a_groups := (a_groups A)(slot g \<mapsto> ?G)\<rparr>"
  have x6: "ext (brk ?s5) (set (the (hm_data (v_gmap V)))) ?s5 s6" by (rule ext_hash [OF s6(3)]) simp
  have b6: "bytes s6 = bytes ?s5" "brk ?s5 \<le> brk s6"
    using hash_frame_rest [OF s6(3)] s6(3) by (auto simp: hash_frame_def)
  have v6: "?v + 40 \<le> brk s6" using b6(2) s3(4) e4 by simp
  have "base_ok s6 db (A\<lparr>a_given := Suc (a_given A)\<rparr>) V" by (rule base_ext [OF base5 x6])
  moreover have "group_rep s6 ?v ?G" by (rule group_rep_cong [OF grep b6(2)]) (simp add: b6(1))
  moreover have "\<forall>(q, k) \<in> blocks V. q + k \<le> ?v" using ok by (simp add: view_ok_def base_ok_def)
  ultimately have "base_ok s6 db ?A ?V"
    using base_add_group [OF _ _ v6 _ vn] by fastforce
  then have "base_ok ?s7 db ?A ?V" by (rule base_frame) simp_all
  then have base: "base_ok ?s7 db ?A ?W" by (simp add: base_ok_def apart_def)
  have um: "umap_ok s6 (UserDetails_userName buf) V"
    by (rule umap_ext [OF um5 x6 env_simps(1) [OF env5]]) (use ok in \<open>auto simp: view_ok_def map_lists_def\<close>)
  then have um7: "umap_ok ?s7 (UserDetails_userName buf) ?W"
    by (simp add: umap_ok_def alias_rep_heaps [of ?s7 s6])
  have lists: "l \<in> map_lists (v_gmap V) \<or> brk ?s5 \<le> l \<and> l < brk s6" if "l \<in> map_lists m'" for l
    using that s6(5) unfolding map_lists_def by blast
  have "l < brk s6" if "l \<in> map_lists m'" for l
  proof -
    have "\<forall>l \<in> map_lists (v_gmap V). l < brk ?s5" using gm5 unfolding gmap_ok_def by (elim conjE)
    with lists [OF that] b6(2) show ?thesis by (elim disjE) auto
  qed
  then have gm7: "gmap_ok ?s7 ?gb ?W"
    using gm5 s6(2) by (simp add: gmap_ok_def alias_rep_heaps [of ?s7 s6])
  have "map_lists (v_umap V) \<inter> map_lists m' = {}"
  proof -
    have "\<forall>l \<in> map_lists (v_umap V). l < brk ?s5" using um5 unfolding umap_ok_def by (elim conjE)
    moreover have "map_lists (v_umap V) \<inter> map_lists (v_gmap V) = {}" using ok by (simp add: view_ok_def)
    ultimately show ?thesis using lists by (meson disjoint_iff not_le)
  qed
  with base um7 gm7 have ok7: "view_ok ?s7 db buf ?A ?W" by (simp add: view_ok_def)
  have env7: "env ?s7" using env_hash [OF env5 s6(3,4)] by simp
  have r7: "group_request ?s7 buf g name"
    by (rule group_request_cong [OF r5]) (use b6 in simp_all)
  note upd = Update_Group_Details_ok [OF ok7 env7 r7, of ?gb]
  have v0: "?v \<noteq> NULL" using s3(5) by (simp add: mapped_def)
  have run: "Check_Group_Name_And_Insert buf db ip s = Inr (DB_GROUP_SUCCESSFULLY_INSERT, ?s7)"
    using buf db s3(1) groups_map_ok [OF ok3] find mg dbs s4(1) cp s6(1) upd
    by (simp add: Check_Group_Name_And_Insert_def set_groups_def)
  have "own ?W \<inter> F = {}" using F by (auto simp: own_add(2) [OF vn])
  moreover have "F \<subseteq> {..<brk ?s7}" using F(2) v6 by fastforce
  ultimately have "db_rep ?s7 db buf F ?A" using env7 ok7 unfolding db_rep_def by blast
  moreover have "snd (spec_create g A) = ?A" using new by (simp add: spec_create_def)
  moreover have "str_at ?s7 ip ?nip"
    by (rule str_at_cong [OF s4(3)]) (use b6 e4 ipbrk next_ip_facts [of A] in \<open>auto simp: stored_def map_bytes_out\<close>)
  moreover have "mapped ?s7 ip 16" using ipm s4(6) s3(3) ipbrk b6(1)
    by (auto simp: mapped_def stored_def map_bytes_def ext_def)
  moreover have "\<forall>a < brk s. a \<notin> {ip..<ip + 16} \<longrightarrow> bytes ?s7 a = bytes s a" using b5 b6(1) by simp
  moreover have "brk s \<le> brk ?s7" using v6 by simp
  ultimately show ?thesis using run by (intro exI [of _ ?s7]) simp
qed

text \<open>Joining: the count of the group goes up by one and the address is copied twice.\<close>

lemma own_group:
  assumes "v_gvals V i = Some v" and "v \<le> a" and "a < v + 40"
  shows "a \<in> own V"
  using assms by (force simp: own_def blocks_def ran_def)

lemma apart_blocks:
  assumes "apart V" and "(p, n) \<in> blocks V" and "(q, k) \<in> blocks V" and "(p, n) \<noteq> (q, k)"
  shows "p + n \<le> q \<or> q + k \<le> p"
  using assms unfolding apart_def by fastforce

text \<open>Changing the count of one group touches no other part of the data base.\<close>

lemma base_set_count:
  assumes ok: "base_ok s db A V" and v: "v_gvals V i = Some v" and G: "a_groups A i = Some G"
    and n: "n < 2 ^ 31"
  shows "base_ok (stored v (le_bytes (of_nat n)) s) db
    (A\<lparr>a_groups := (a_groups A)(i \<mapsto> G\<lparr>g_count := n\<rparr>)\<rparr>) V"
proof -
  let ?s = "stored v (le_bytes (of_nat n)) s"
  have vb: "(v, 40) \<in> blocks V" using v by (auto simp: blocks_def ran_def)
  have ap: "apart V" using ok by (simp add: base_ok_def)
  have grep: "group_rep s v G"
    using ok v G unfolding base_ok_def by (metis option.rel_inject(2))
  have vn: "v \<noteq> NULL" using grep by (simp add: group_rep_def bytes_at_def)
  have out: "bytes ?s a = bytes s a" if "(p, k) \<in> blocks V" "(p, k) \<noteq> (v, 40)" "p \<le> a" "a < p + k" for p k a
    using apart_blocks [OF ap vb that(1)] that by (auto simp: stored_def map_bytes_out)
  have "pool_rep ?s (m_addIPPool (v_db V)) (v_ips V) (a_given A)"
  proof (rule pool_rep_frame)
    show "pool_rep s (m_addIPPool (v_db V)) (v_ips V) (a_given A)" using ok by (simp add: base_ok_def)
    fix a assume "a \<in> pool_region (v_ips V)"
    then obtain q where q: "q \<in> set (v_ips V)" "q \<le> a" "a < q + STRING_SIZE" by (auto simp: pool_region_def)
    have "(q, STRING_SIZE) \<in> blocks V" using q(1) by (simp add: blocks_def)
    then show "bytes ?s a = bytes s a" by (rule out) (use q in \<open>simp_all add: STRING_SIZE_def\<close>)
  qed (simp_all add: stored_def)
  moreover have "rel_option (user_rep ?s) (v_users V j) (a_users A j)" for j
  proof -
    have "rel_option (user_rep s) (v_users V j) (a_users A j)" using ok by (simp add: base_ok_def)
    moreover have "user_rep ?s u pw" if u: "v_users V j = Some u" "user_rep s u pw" for u pw
    proof (rule user_rep_cong [OF u(2)])
      have "(u, 24) \<in> blocks V" using u(1) by (auto simp: blocks_def ran_def)
      then show "bytes ?s a = bytes s a" if "u \<le> a" "a < u + 24" for a
        by (rule out) (use that in simp_all)
    qed simp
    ultimately show ?thesis by (cases "v_users V j") (auto simp: option_rel_Some1)
  qed
  moreover have other: "group_rep ?s w H" if w: "v_gvals V j = Some w" "j \<noteq> i" "group_rep s w H" for j w H
  proof (rule group_rep_cong [OF w(3)])
    have "w \<noteq> v" using ap v w(1,2) unfolding apart_def inj_on_def by (metis domI)
    moreover have "(w, 40) \<in> blocks V" using w(1) by (auto simp: blocks_def ran_def)
    ultimately show "bytes ?s a = bytes s a" if "w \<le> a" "a < w + 40" for a
      using that by (intro out [of w 40]) simp_all
  qed simp
  moreover have this_one: "group_rep ?s v (G\<lparr>g_count := n\<rparr>)"
    using grep n vn unfolding group_rep_def GroupValue_groupName_def GroupValue_ip_add_group_def
    by (auto intro: bytes_at_stored_new str_at_stored_old)
  moreover have "rel_option (group_rep ?s) (v_gvals V j) (((a_groups A)(i \<mapsto> G\<lparr>g_count := n\<rparr>)) j)" for j
  proof (cases "j = i")
    case True
    with v this_one show ?thesis by simp
  next
    case False
    have "rel_option (group_rep s) (v_gvals V j) (a_groups A j)" using ok by (simp add: base_ok_def)
    with False other [of j] show ?thesis by (cases "v_gvals V j") (auto simp: option_rel_Some1)
  qed
  moreover have "brk ?s = brk s" "databases ?s = databases s" by (simp_all add: stored_def)
  ultimately show ?thesis using ok unfolding base_ok_def by simp
qed

lemma intervals_apart:
  fixes v p :: nat
  assumes "\<And>a. v \<le> a \<Longrightarrow> a < v + n \<Longrightarrow> a \<notin> F" and "{p..<p + k} \<subseteq> F" and "0 < n" and "0 < k"
  shows "v + n \<le> p \<or> p + k \<le> v"
proof (rule ccontr)
  assume "\<not> ?thesis"
  then have "v \<le> max v p" "max v p < v + n" "max v p \<in> {p..<p + k}" using assms(3,4) by auto
  with assms(1,2) show False by blast
qed

lemma Try_to_Join_refines:
  assumes rep: "db_rep s db buf F A" and req: "group_request s buf g name" and buf: "buf \<noteq> NULL"
    and ip: "ip_array s F buf ip" "ip_array s F buf ip2" "ip + 16 \<le> ip2 \<or> ip2 + 16 \<le> ip"
    and count: "\<forall>G. a_groups A (slot g) = Some G \<longrightarrow> g_count G + 1 < 2 ^ 31"
  shows "\<exists>s'. Try_to_Join_To_Group buf db ip ip2 s = Inr (fst (spec_join g A), s') \<and>
    db_rep s' db buf F (snd (snd (spec_join g A))) \<and>
    (fst (spec_join g A) = DB_GROUP_JOIN_SUCCESSFULLY \<longrightarrow> str_at s' ip2 (fst (snd (spec_join g A)))) \<and>
    brk s \<le> brk s' \<and>
    (\<forall>a \<in> F. a \<notin> {ip..<ip + 16} \<longrightarrow> a \<notin> {ip2..<ip2 + 16} \<longrightarrow> bytes s' a = bytes s a)"
proof -
  obtain V where ok: "view_ok s db buf A V" and env: "env s" and F: "own V \<inter> F = {}" "F \<subseteq> {..<brk s}"
    using rep by (auto simp: db_rep_def)
  let ?gb = "GroupDetails_groupName buf"
  have g: "str_at s ?gb g" "length g \<le> 17" using req by (simp_all add: group_request_def)
  have db: "db \<noteq> NULL" using ok by (simp add: view_ok_def base_ok_def)
  have mg: "m_groupNames (v_groups V) = Some (v_gmap V)" using ok by (simp add: view_ok_def gmap_ok_def)
  note find = groups_find [OF ok env g]
  show ?thesis
  proof (cases "v_gvals V (slot g)")
    case None
    then have "a_groups A (slot g) = None" using view_group [OF ok, of "slot g"] by (simp add: option_rel_Some1)
    with None show ?thesis using buf db groups_map_ok [OF ok] find mg rep
      by (simp add: Try_to_Join_To_Group_def spec_join_def)
  next
    case (Some v)
    then obtain G where G: "a_groups A (slot g) = Some G" "group_rep s v G"
      using view_group [OF ok, of "slot g"] by (auto simp: option_rel_Some1)
    obtain r where r: "strcmp s ?gb (GroupValue_groupName v) = Inr r" "r = 0 \<longleftrightarrow> g = g_name G"
      using strcmp_str_at [OF g(1)] G(2) by (auto simp: group_rep_def)
    show ?thesis
    proof (cases "g = g_name G")
      case False
      with Some G r show ?thesis using buf db groups_map_ok [OF ok] find mg rep
        by (auto simp: Try_to_Join_To_Group_def spec_join_def)
    next
      case True
      let ?ip = "g_ip G"
      have gi: "str_at s (v + 21) ?ip" "length ?ip \<le> 13" "0 \<notin> set ?ip"
        using G(2) by (auto simp: group_rep_def GroupValue_ip_add_group_def str_at_def)
      have ipF: "{ip..<ip + 16} \<subseteq> F" "{ip2..<ip2 + 16} \<subseteq> F" and ipm: "mapped s ip 16" "mapped s ip2 16"
        using ip by (simp_all add: ip_array_def)
      have vown: "a \<notin> F" if "v \<le> a" "a < v + 40" for a using own_group [OF Some that] F(1) by blast
      have ap: "v + 40 \<le> ip \<or> ip + 16 \<le> v" "v + 40 \<le> ip2 \<or> ip2 + 16 \<le> v"
        by (rule intervals_apart [of v 40 F]; use vown ipF in auto)+
      let ?s1 = "stored ip (?ip @ [0]) s"
      let ?s2 = "stored ip2 (?ip @ [0]) ?s1"
      let ?n = "g_count G + 1"
      let ?s3 = "stored v (le_bytes (of_nat ?n)) ?s2"
      have cp1: "strcpy ip (GroupValue_ip_add_group v) s = Inr ((), ?s1)"
        unfolding GroupValue_ip_add_group_def by (rule strcpy_stored [OF gi(1) ipm(1)]) (use gi(2) in simp)
      have gi1: "str_at ?s1 (v + 21) ?ip" by (rule str_at_stored_old [OF gi(1)]) (use ap(1) gi(2) in auto)
      have m2: "mapped ?s1 ip2 16" by (rule mapped_stored [OF ipm(2)])
      have cp2: "strcpy ip2 (GroupValue_ip_add_group v) ?s1 = Inr ((), ?s2)"
        unfolding GroupValue_ip_add_group_def by (rule strcpy_stored [OF gi1 m2]) (use gi(2) in simp)
      have "bytes_at s v (le_bytes (of_nat (g_count G)))" using G(2) by (simp add: group_rep_def)
      then have "bytes_at ?s1 v (le_bytes (of_nat (g_count G)))"
        by (rule bytes_at_stored_old) (use ap(1) gi(2) in auto)
      then have c2: "bytes_at ?s2 v (le_bytes (of_nat (g_count G)))"
        by (rule bytes_at_stored_old) (use ap(2) gi(2) in auto)
      have cnt: "?n < 2 ^ 31" using count G(1) by simp
      then have rd: "rd_int v ?s2 = Inr (int (g_count G), ?s2)"
        using rd_int_ok [OF c2] length_as_int [of "g_count G"] by simp
      have iv: "int_val (int (g_count G) + 1) = Inr (int ?n)" using cnt by (simp add: int_val_def int_ok_def)
      have mv: "mapped ?s2 v 4" using c2 by (auto simp: mapped_def bytes_at_def)
      have wr: "wr_int v (int ?n) ?s2 = Inr ((), ?s3)" using wr_int_stored [OF mv, of "int ?n"] by simp
      have run: "Try_to_Join_To_Group buf db ip ip2 s = Inr (DB_GROUP_JOIN_SUCCESSFULLY, ?s3)"
        using buf db groups_map_ok [OF ok] find mg Some r True cp1 cp2 rd iv wr
        by (simp add: Try_to_Join_To_Group_def)
      have e1: "env ?s1" by (rule stored_env [OF env]) (use ipm(1) gi(2) in \<open>auto simp: mapped_def\<close>)
      have e2: "env ?s2" by (rule stored_env [OF e1]) (use m2 gi(2) in \<open>auto simp: mapped_def\<close>)
      have e3: "env ?s3" by (rule stored_env [OF e2]) (use mv in simp)
      have w2: "bytes ?s2 a = bytes s a" if "a \<notin> {ip..<ip + 16}" "a \<notin> {ip2..<ip2 + 16}" for a
        using that gi(2) by (auto simp: stored_def map_bytes_def)
      have "base_ok ?s2 db A V"
      proof (rule base_frame [of s])
        show "base_ok s db A V" using ok by (simp add: view_ok_def)
        show "bytes ?s2 a = bytes s a" if "a \<in> own V" for a
          by (rule w2) (use that F(1) ipF in auto)
      qed (simp_all add: stored_def)
      from base_set_count [OF this Some G(1) cnt]
      have base: "base_ok ?s3 db (snd (snd (spec_join g A))) V"
        using G(1) True by (simp add: spec_join_def)
      moreover have "umap_ok ?s3 (UserDetails_userName buf) V" "gmap_ok ?s3 ?gb V"
        using ok by (auto simp: view_ok_def stored_def intro: umap_heaps gmap_heaps)
      ultimately have "view_ok ?s3 db buf (snd (snd (spec_join g A))) V" using ok by (simp add: view_ok_def)
      then have rep3: "db_rep ?s3 db buf F (snd (snd (spec_join g A)))"
        using e3 F by (auto simp: db_rep_def)
      have "str_at ?s2 ip2 ?ip" by (rule str_at_stored_new)
        (use ipm(2) gi ipF(2) F(2) in \<open>auto simp: mapped_def subset_iff dest!: spec [of _ "ip2 + 15"]\<close>)
      then have "str_at ?s3 ip2 ?ip" by (rule str_at_stored_old) (use ap(2) gi(2) in auto)
      moreover have "bytes ?s3 a = bytes s a"
        if "a \<in> F" "a \<notin> {ip..<ip + 16}" "a \<notin> {ip2..<ip2 + 16}" for a
      proof -
        have "a < v \<or> v + 40 \<le> a" using vown that(1) by (meson not_le)
        then have "bytes ?s3 a = bytes ?s2 a" by (auto simp: stored_def intro!: map_bytes_out)
        then show ?thesis using w2 that by simp
      qed
      ultimately show ?thesis using run rep3 G(1) True
        by (intro exI [of _ ?s3]) (simp add: spec_join_def)
    qed
  qed
qed

end
