(* ===== verification/DataBaseCreate.thy ===== *)
theory DataBaseCreate
  imports DataBaseOps
begin

text \<open>
  Creation of the data base: \<open>CreateMainDataBase\<close> returns an object that represents the empty
  abstract data base. Its destruction, in contrast, dereferences a null pointer or leaks.
\<close>

lemma env_brk: "env s \<Longrightarrow> brk s \<le> n \<Longrightarrow> env (s\<lparr>brk := n\<rparr>)"
  by (simp add: env_def wf_hash_mem_def wf_list_mem_def wf_bytes_def enough_mem_def zeroed_def)

lemma malloc_ok: "env s \<Longrightarrow> malloc n s = Inr (brk s, s\<lparr>brk := brk s + n + 1\<rparr>)"
  by (simp add: malloc_def env_def enough_mem_def)

lemma alias_rep_keep:
  assumes "alias_rep hf ef s m ka Map.empty" and "set (the (hm_data m)) \<subseteq> {NULL}"
    and "hash_frame {} {} s s'" and "wf_hash_mem s"
  shows "alias_rep hf ef s' m ka Map.empty"
  by (rule alias_rep_frame [OF assms(1,3,4)]) simp

lemma alias_rep_move:
  "alias_rep hf ef s m ka B \<Longrightarrow> nodes s' = nodes s \<Longrightarrow> ditems s' = ditems s \<Longrightarrow> alias_rep hf ef s' m ka B"
  using alias_rep_heaps [of s' s] by simp

lemma CreateUserDataBase_ok:
  fixes s :: "'a db_mem_scheme"
  assumes env: "env s"
  shows "\<exists>s' m. CreateUserDataBase s = Inr (brk s, s') \<and>
    users_dbs s' = (users_dbs s)(brk s \<mapsto> Some m) \<and> map_lists m = {} \<and>
    alias_rep HashFunctionUsers EqualityFunctionForUsers s' m ka Map.empty \<and> env s' \<and> brk s < brk s' \<and>
    bytes s' = bytes s"
proof -
  let ?s1 = "s\<lparr>brk := brk s + 2\<rparr>"
  have e1: "env ?s1" by (rule env_brk [OF env]) simp
  obtain s2 m where s2: "HashMap_Create 50 (Some HashFunctionUsers) (Some EqualityFunctionForUsers) ?s1 =
      Inr (Some m, s2)" "alias_rep HashFunctionUsers EqualityFunctionForUsers s2 m ka Map.empty"
    "set (the (hm_data m)) \<subseteq> {NULL}" "hash_frame {} {} ?s1 s2" "wf_hash_mem s2"
    using users.alias_create [OF env_simps(1,3) [OF e1]] by blast
  obtain b n d where e2: "s2 = ?s1\<lparr>brk := b, nodes := n, ditems := d\<rparr>"
    using s2(4) unfolding hash_frame_def by blast
  have b2: "brk s < b" using s2(4) e2 by (auto simp: hash_frame_def)
  let ?s3 = "s2\<lparr>users_dbs := (users_dbs s2)(brk s \<mapsto> Some m)\<rparr>"
  have "brk s \<noteq> NULL" using env_simps(6) [OF env] by simp
  then have "CreateUserDataBase s = Inr (brk s, ?s3)"
    using malloc_ok [OF env, of 1] s2(1)
    by (simp add: CreateUserDataBase_def DB_CAPACITY_def set_users_def)
  moreover have "env ?s3" using env_hash [OF e1 s2(4,5)] by simp
  moreover have "alias_rep HashFunctionUsers EqualityFunctionForUsers ?s3 m ka Map.empty"
    using s2(2) by (simp add: alias_rep_heaps [of ?s3 s2])
  moreover have "map_lists m = {}" using s2(3) by (auto simp: map_lists_def)
  ultimately show ?thesis using e2 b2 by (intro exI [of _ ?s3] exI [of _ m]) simp
qed

lemma CreateGroupsDataBase_ok:
  fixes s :: "'a db_mem_scheme"
  assumes env: "env s"
  shows "\<exists>s' m. CreateGroupsDataBase s = Inr (brk s, s') \<and>
    groups_dbs s' = (groups_dbs s)(brk s \<mapsto> \<lparr>m_groupNames = Some m, m_numOfParticipant = 0\<rparr>) \<and>
    users_dbs s' = users_dbs s \<and> map_lists m = {} \<and>
    alias_rep HashFunctionGroups EqualityFunctionForGroups s' m ka Map.empty \<and> env s' \<and>
    brk s < brk s' \<and> bytes s' = bytes s \<and>
    (\<forall>hf ef m' k'. map_lists m' = {} \<longrightarrow> alias_rep hf ef s m' k' Map.empty \<longrightarrow> alias_rep hf ef s' m' k' Map.empty)"
proof -
  let ?s1 = "s\<lparr>brk := brk s + 2\<rparr>"
  have e1: "env ?s1" by (rule env_brk [OF env]) simp
  obtain s2 m where s2: "HashMap_Create 50 (Some HashFunctionGroups) (Some EqualityFunctionForGroups) ?s1 =
      Inr (Some m, s2)" "alias_rep HashFunctionGroups EqualityFunctionForGroups s2 m ka Map.empty"
    "set (the (hm_data m)) \<subseteq> {NULL}" "hash_frame {} {} ?s1 s2" "wf_hash_mem s2"
    using groups.alias_create [OF env_simps(1,3) [OF e1]] by blast
  obtain b n d where e2: "s2 = ?s1\<lparr>brk := b, nodes := n, ditems := d\<rparr>"
    using s2(4) unfolding hash_frame_def by blast
  have b2: "brk s < b" using s2(4) e2 by (auto simp: hash_frame_def)
  let ?R = "\<lparr>m_groupNames = Some m, m_numOfParticipant = 0\<rparr>"
  let ?s3 = "s2\<lparr>groups_dbs := (groups_dbs s2)(brk s \<mapsto> ?R)\<rparr>"
  have "brk s \<noteq> NULL" using env_simps(6) [OF env] by simp
  then have "CreateGroupsDataBase s = Inr (brk s, ?s3)"
    using malloc_ok [OF env, of 1] s2(1)
    by (simp add: CreateGroupsDataBase_def DB_CAPACITY_def set_groups_def)
  moreover have "env ?s3" using env_hash [OF e1 s2(4,5)] by simp
  moreover have "alias_rep HashFunctionGroups EqualityFunctionForGroups ?s3 m ka Map.empty"
    using s2(2) by (simp add: alias_rep_heaps [of ?s3 s2])
  moreover have "map_lists m = {}" using s2(3) by (auto simp: map_lists_def)
  moreover have "alias_rep hf ef ?s3 m' k' Map.empty"
    if "map_lists m' = {}" "alias_rep hf ef s m' k' Map.empty" for hf ef m' k'
  proof -
    have "alias_rep hf ef ?s1 m' k' Map.empty" by (rule alias_rep_move [OF that(2)]) simp_all
    then have "alias_rep hf ef s2 m' k' Map.empty"
      by (rule alias_rep_keep [OF _ _ s2(4) env_simps(1) [OF e1]]) (use that(1) in \<open>auto simp: map_lists_def\<close>)
    then show ?thesis by (simp add: alias_rep_heaps [of ?s3 s2])
  qed
  ultimately show ?thesis using e2 b2 by (intro exI [of _ ?s3] exI [of _ m]) auto
qed

lemma CreateMainDataBase_refines:
  fixes s :: "'a db_mem_scheme"
  assumes env: "env s" and F: "F \<subseteq> {..<brk s}"
  shows "\<exists>s'. CreateMainDataBase s = Inr (brk s, s') \<and> db_rep s' (brk s) buf F chat_empty \<and> brk s < brk s' \<and>
    (\<forall>a < brk s. bytes s' a = bytes s a)"
proof -
  let ?db = "brk s" and ?s1 = "s\<lparr>brk := brk s + 2\<rparr>"
  have e1: "env ?s1" by (rule env_brk [OF env]) simp
  obtain s2 mu where s2: "CreateUserDataBase ?s1 = Inr (?db + 2, s2)"
    "users_dbs s2 = (users_dbs s)(?db + 2 \<mapsto> Some mu)" "map_lists mu = {}"
    "alias_rep HashFunctionUsers EqualityFunctionForUsers s2 mu (UserDetails_userName buf) Map.empty"
    "env s2" "?db + 2 < brk s2" "bytes s2 = bytes s"
    using CreateUserDataBase_ok [OF e1, of "UserDetails_userName buf"] by auto
  obtain s3 mg where s3: "CreateGroupsDataBase s2 = Inr (brk s2, s3)"
    "groups_dbs s3 = (groups_dbs s2)(brk s2 \<mapsto> \<lparr>m_groupNames = Some mg, m_numOfParticipant = 0\<rparr>)"
    "users_dbs s3 = users_dbs s2" "map_lists mg = {}"
    "alias_rep HashFunctionGroups EqualityFunctionForGroups s3 mg (GroupDetails_groupName buf) Map.empty"
    "env s3" "brk s2 < brk s3"
    "alias_rep HashFunctionUsers EqualityFunctionForUsers s3 mu (UserDetails_userName buf) Map.empty"
    "bytes s3 = bytes s2"
    using CreateGroupsDataBase_ok [OF s2(5), of "GroupDetails_groupName buf"] s2(3,4) by blast
  obtain s4 ps where s4: "CreateIP_Multecaste s3 = Inr (brk s3, s4)" "pool_rep s4 (brk s3) ps 0"
    "\<forall>q \<in> set ps. brk s3 < q" "sorted_wrt (\<lambda>a b. a + STRING_SIZE \<le> b) (ps @ [brk s4])"
    "grown s3 s4" "wf_bytes s4"
    "s4 = s3\<lparr>brk := brk s4, bytes := bytes s4, queues := queues s4, pools := pools s4\<rparr>"
    using CreateIP_ok [OF env_simps(2,3,4) [OF s3(6)]] by blast
  obtain b y q p where e4: "s4 = s3\<lparr>brk := b, bytes := y, queues := q, pools := p\<rparr>" using s4(7) by blast
  have le: "brk s3 \<le> brk s4" using s4(5) by (simp add: grown_def)
  let ?D = "\<lparr>m_userDB = ?db + 2, m_groupDB = brk s2, m_addIPPool = brk s3\<rparr>"
  let ?s5 = "s4\<lparr>databases := (databases s4)(?db \<mapsto> ?D)\<rparr>"
  let ?V = "\<lparr>v_db = ?D, v_umap = mu, v_groups = \<lparr>m_groupNames = Some mg, m_numOfParticipant = 0\<rparr>,
    v_gmap = mg, v_users = Map.empty, v_gvals = Map.empty, v_ips = ps\<rparr>"
  have run: "CreateMainDataBase s = Inr (?db, ?s5)"
    using malloc_ok [OF env, of 1] s2(1) s3(1) s4(1) env_simps(6) [OF env]
    by (simp add: CreateMainDataBase_def)
  have "wf_hash_mem s4" using env_simps(1) [OF s3(6)] e4 le
    by (auto simp: wf_hash_mem_def wf_list_mem_def)
  then have env5: "env ?s5"
    using s4(6) grown_env [OF s4(5)] s3(6)
    by (simp add: env_def wf_hash_mem_def wf_list_mem_def wf_bytes_def enough_mem_def zeroed_def)
  have "pool_rep ?s5 (brk s3) ps 0" by (rule pool_rep_frame [OF s4(2)]) simp_all
  moreover have bl: "blocks ?V = {(q, STRING_SIZE) | q. q \<in> set ps}" by (simp add: blocks_def)
  have srt: "sorted_wrt (\<lambda>a b. a + STRING_SIZE \<le> b) ps" "\<forall>q \<in> set ps. q + STRING_SIZE \<le> brk s4"
    using s4(4) by (simp_all add: sorted_wrt_append)
  have "a + STRING_SIZE \<le> b \<or> b + STRING_SIZE \<le> a" if "a \<in> set ps" "b \<in> set ps" "a \<noteq> b" for a b
    using that srt(1) unfolding sorted_wrt_iff_nth_less in_set_conv_nth
    by (metis linorder_neqE_nat)
  then have "apart ?V" unfolding apart_def bl by auto
  ultimately have base: "base_ok ?s5 ?db chat_empty ?V"
    using env_simps(6) [OF env] srt(2) unfolding base_ok_def bl by (simp add: chat_empty_def)
  have h5: "nodes ?s5 = nodes s3" "ditems ?s5 = ditems s3" using e4 by simp_all
  have "umap_ok ?s5 (UserDetails_userName buf) ?V"
    using s3(3) s2(2,3) e4 alias_rep_move [OF s3(8) h5] by (simp add: umap_ok_def)
  moreover have "gmap_ok ?s5 (GroupDetails_groupName buf) ?V"
    using s3(2,4) s2(6) e4 alias_rep_move [OF s3(5) h5] by (simp add: gmap_ok_def)
  ultimately have "view_ok ?s5 ?db buf chat_empty ?V" using base s2(3) by (simp add: view_ok_def)
  moreover have "own ?V \<inter> F = {}"
    using F s4(3) s3(7) s2(6) unfolding own_def bl by fastforce
  moreover have "F \<subseteq> {..<brk ?s5}" "?db < brk ?s5" using F le s3(7) s2(6) by auto
  moreover have "\<forall>a < brk s. bytes ?s5 a = bytes s a"
    using s4(5) s3(7,9) s2(6,7) by (simp add: grown_def)
  ultimately show ?thesis using run env5 unfolding db_rep_def by blast
qed

end
