(* ===== verification/ServerApp.thy ===== *)
theory ServerApp
  imports DataBaseCreate
begin

text \<open>
  The application of the server, \<^verbatim>\<open>src/ServerApp/ServerApp.c\<close>: a request in the receive
  buffer is unpacked, handed to the data base, and answered with a new struct. \<open>serve\<close> is the
  abstract operation; \<open>serve_refines\<close> in the last section shows that the code implements it.

  Local arrays are blocks of byte memory that are released on return.
\<close>

section \<open>The code\<close>

definition MAX_IP_ADDR :: nat where
  "MAX_IP_ADDR = 16"

definition stack_array :: "nat \<Rightarrow> ('a bmem_scheme, addr) prog" where
  "stack_array n = (\<lambda>s. Inr (brk s, s\<lparr>brk := brk s + n + 1,
     bytes := map_bytes (brk s) (replicate n 0) (bytes s)\<rparr>))"

definition end_of_scope :: "addr \<Rightarrow> nat \<Rightarrow> ('a bmem_scheme, unit) prog" where
  "end_of_scope p n = modify (\<lambda>s. s\<lparr>bytes := unmap_bytes p n (bytes s)\<rparr>)"

text \<open>
  \<open>CheckUserNameOnDB\<close>; for another type than the two it is called with, control reaches the
  end of the function without a return value.
\<close>

definition CheckUserNameOnDB :: "addr \<Rightarrow> addr \<Rightarrow> u8 \<Rightarrow> ('a db_mem_scheme, addr) prog" where
  "CheckUserNameOnDB user db t =
     (if user = NULL \<or> db = NULL then ret NULL
      else if t = type_code REGISTER_REQ then
        chain (malloc_bytes 8) (\<lambda>answerReg.
        if answerReg = NULL then ret NULL
        else
          chain (wr_byte answerReg (type_code REGISTER_ANS)) (\<lambda>_.
          chain (IsUserNameUnique db user) (\<lambda>res.
          chain (if res = UNIQE
                 then wr_u32 (Register_Ans_answer answerReg) (answer_code REGISTER_SUCCESS)
                 else if res = ALREADY_EXIST
                 then wr_u32 (Register_Ans_answer answerReg)
                        (answer_code REGISTER_USER_NAME_ALLREADY_EXIST)
                 else ret ()) (\<lambda>_.
          ret answerReg))))
      else if t = type_code LOGIN_REQ then
        chain (malloc_bytes 8) (\<lambda>answerLogin.
        if answerLogin = NULL then ret NULL
        else
          chain (wr_byte answerLogin (type_code LOGIN_ANS)) (\<lambda>_.
          chain (CheckClientStatusAndConnect db user) (\<lambda>rcv.
          chain (case rcv of
              DB_CONNECT_SUCCESFULLY \<Rightarrow>
                wr_u32 (Login_Ans_answer answerLogin) (answer_code LOGIN_USER_SUCCESSFULLY_CONNECTED)
            | DB_ALREADY_CONNECTED \<Rightarrow>
                wr_u32 (Login_Ans_answer answerLogin) (answer_code LOGIN_ALLREADY_CONNECTED)
            | DB_WORNG_USER_NAME \<Rightarrow>
                wr_u32 (Login_Ans_answer answerLogin) (answer_code LOGIN_USER_NAME_NOT_EXIST)
            | DB_WORNG_PSW \<Rightarrow>
                wr_u32 (Login_Ans_answer answerLogin) (answer_code LOGIN_WRONG_PSW)
            | _ \<Rightarrow> ret ()) (\<lambda>_.
          ret answerLogin))))
      else fail BadAddress)"

text \<open>The switch over the result of the data base; the arrays are \<open>ipAddress\<close>, \<open>ipJoinGroup\<close>
  and \<open>ipRemoveGroup\<close>.\<close>

definition group_answer ::
  "addr \<Rightarrow> DB_Err \<Rightarrow> addr \<Rightarrow> addr \<Rightarrow> addr \<Rightarrow> ('a bmem_scheme, unit) prog" where
  "group_answer ans db_res ipAddress ipJoinGroup ipRemoveGroup =
     (case db_res of
        DB_GROUP_SUCCESSFULLY_INSERT \<Rightarrow>
          chain (strcpy (Create_Group_Ans_groupIP ans) ipAddress) (\<lambda>_.
          wr_u32 (Create_Group_Ans_answer ans) (answer_code GROUP_SUCCESSFULLY_INSERT))
      | DB_GROUP_NAME_ALREADY_EXIST \<Rightarrow>
          wr_u32 (Create_Group_Ans_answer ans) (answer_code GROUP_NAME_ALREADY_EXIST)
      | DB_GROUP_NAME_NOT_EXIST \<Rightarrow>
          chain (strcpy (Create_Group_Ans_groupIP ans) ipAddress) (\<lambda>_.
          wr_u32 (Create_Group_Ans_answer ans) (answer_code GROUP_NAME_NOT_EXIST))
      | DB_GROUP_JOIN_SUCCESSFULLY \<Rightarrow>
          chain (strcpy (Create_Group_Ans_groupIP ans) ipJoinGroup) (\<lambda>_.
          wr_u32 (Create_Group_Ans_answer ans) (answer_code GROUP_SUCCESSFULLY_JOIN))
      | DB_GROUP_REMOVE_SUCCESSFULLY \<Rightarrow>
          chain (strcpy (Create_Group_Ans_groupIP ans) ipRemoveGroup) (\<lambda>_.
          wr_u32 (Create_Group_Ans_answer ans) (answer_code GROUP_SUCCESSFULLY_JOIN))
      | _ \<Rightarrow> ret ())"

definition ANSForGroupRequests :: "addr \<Rightarrow> addr \<Rightarrow> u8 \<Rightarrow> ('a db_mem_scheme, addr) prog" where
  "ANSForGroupRequests grp db t =
     chain (stack_array MAX_IP_ADDR) (\<lambda>ipAddress.
     chain (stack_array MAX_IP_ADDR) (\<lambda>ipJoinGroup.
     chain (stack_array MAX_IP_ADDR) (\<lambda>ipRemoveGroup.
     chain (stack_array MAX_IP_ADDR) (\<lambda>ipJoinGroup2.
     chain
       (chain (malloc_bytes 24) (\<lambda>ansGroupPtr.
        if ansGroupPtr = NULL then ret NULL
        else
          chain
            (if t = type_code CREATE_GROUP_CONVERSATION_REQ then
               chain (wr_byte ansGroupPtr (type_code CREATE_GROUP_CONVERSATION_ANS)) (\<lambda>_.
               Check_Group_Name_And_Insert grp db ipAddress)
             else if t = type_code JOIN_CONVERSATION_REQ then
               chain (wr_byte ansGroupPtr (type_code JOIN_CONVERSATION_ANS)) (\<lambda>_.
               Try_to_Join_To_Group grp db ipJoinGroup2 ipJoinGroup)
             else if t = type_code LEAVE_CONVERSATION_REQ then
               chain (wr_byte ansGroupPtr (type_code LEAVE_CONVERSATION_ANS)) (\<lambda>_.
               Try_to_Leave_To_Group grp db ipRemoveGroup)
             else fail BadAddress) (\<lambda>db_res.
          chain (group_answer ansGroupPtr db_res ipAddress ipJoinGroup ipRemoveGroup) (\<lambda>_.
          ret ansGroupPtr)))) (\<lambda>result.
     chain (end_of_scope ipAddress MAX_IP_ADDR) (\<lambda>_.
     chain (end_of_scope ipJoinGroup MAX_IP_ADDR) (\<lambda>_.
     chain (end_of_scope ipRemoveGroup MAX_IP_ADDR) (\<lambda>_.
     chain (end_of_scope ipJoinGroup2 MAX_IP_ADDR) (\<lambda>_.
     ret result)))))))))"

text \<open>
  \<open>GetFromClientAndSendToServer\<close>: for a type without a case \<open>answer\<close> is still \<open>NULL\<close> when its
  type is read.
\<close>

definition GetFromClientAndSendToServer :: "addr \<Rightarrow> addr \<Rightarrow> ('a db_mem_scheme, addr) prog" where
  "GetFromClientAndSendToServer rcvFromClient db =
     chain (UnPack rcvFromClient) (\<lambda>(_, t).
     if t = type_code REGISTER_REQ \<or> t = type_code LOGIN_REQ then
       chain (CheckUserNameOnDB rcvFromClient db t) (\<lambda>answer.
       if answer = NULL then ret NULL
       else chain (rd_byte answer) (\<lambda>ty. chain (Pack ty answer) (\<lambda>_. ret answer)))
     else
       chain
         (if t = type_code CREATE_GROUP_CONVERSATION_REQ
          then ANSForGroupRequests rcvFromClient db (type_code CREATE_GROUP_CONVERSATION_REQ)
          else if t = type_code JOIN_CONVERSATION_REQ
          then ANSForGroupRequests rcvFromClient db (type_code JOIN_CONVERSATION_REQ)
          else if t = type_code LEAVE_CONVERSATION_REQ
          then ANSForGroupRequests rcvFromClient db (type_code LEAVE_CONVERSATION_REQ)
          else ret NULL) (\<lambda>answer.
       chain (rd_byte answer) (\<lambda>ty. chain (Pack ty answer) (\<lambda>_. ret answer))))"

section \<open>The abstract operation\<close>

datatype request =
  Register "u8 list" "u8 list"
| Login "u8 list" "u8 list"
| CreateGroup "u8 list" "u8 list"
| JoinGroup "u8 list" "u8 list"
| LeaveGroup "u8 list" "u8 list"

text \<open>The request in the buffer: type and strings (name and password, group and user name).\<close>

fun buffer_holds :: "'a bmem_scheme \<Rightarrow> addr \<Rightarrow> request \<Rightarrow> bool" where
  "buffer_holds s buf (Register name pw) \<longleftrightarrow>
     bytes s buf = Some (type_code REGISTER_REQ) \<and> user_request s buf name pw"
| "buffer_holds s buf (Login name pw) \<longleftrightarrow>
     bytes s buf = Some (type_code LOGIN_REQ) \<and> user_request s buf name pw"
| "buffer_holds s buf (CreateGroup g u) \<longleftrightarrow>
     bytes s buf = Some (type_code CREATE_GROUP_CONVERSATION_REQ) \<and> group_request s buf g u"
| "buffer_holds s buf (JoinGroup g u) \<longleftrightarrow>
     bytes s buf = Some (type_code JOIN_CONVERSATION_REQ) \<and> group_request s buf g u"
| "buffer_holds s buf (LeaveGroup g u) \<longleftrightarrow>
     bytes s buf = Some (type_code LEAVE_CONVERSATION_REQ) \<and> group_request s buf g u"

text \<open>An answer: its type, its code, and for groups the address (\<open>None\<close>: not set).\<close>

datatype answer = UserAnswer Protocol_Type Answers | GroupAnswer Protocol_Type Answers "u8 list option"

fun serve :: "request \<Rightarrow> chat \<Rightarrow> answer \<times> chat" where
  "serve (Register name pw) A =
     (UserAnswer REGISTER_ANS (if fst (spec_register name pw A) = UNIQE then REGISTER_SUCCESS
        else REGISTER_USER_NAME_ALLREADY_EXIST), snd (spec_register name pw A))"
| "serve (Login name pw) A =
     (UserAnswer LOGIN_ANS
       (if spec_login name pw A = DB_CONNECT_SUCCESFULLY then LOGIN_USER_SUCCESSFULLY_CONNECTED
        else if spec_login name pw A = DB_WORNG_PSW then LOGIN_WRONG_PSW
        else LOGIN_USER_NAME_NOT_EXIST), A)"
| "serve (CreateGroup g u) A =
     (if fst (spec_create g A) = DB_GROUP_SUCCESSFULLY_INSERT
      then (GroupAnswer CREATE_GROUP_CONVERSATION_ANS GROUP_SUCCESSFULLY_INSERT (Some (next_ip A)),
            snd (spec_create g A))
      else (GroupAnswer CREATE_GROUP_CONVERSATION_ANS GROUP_NAME_ALREADY_EXIST None, A))"
| "serve (JoinGroup g u) A =
     (let (r, ip, A') = spec_join g A in
      (if r = DB_GROUP_JOIN_SUCCESSFULLY
       then GroupAnswer JOIN_CONVERSATION_ANS GROUP_SUCCESSFULLY_JOIN (Some ip)
       else if r = DB_GROUP_NAME_NOT_EXIST
       then GroupAnswer JOIN_CONVERSATION_ANS GROUP_NAME_NOT_EXIST (Some [])
       else GroupAnswer JOIN_CONVERSATION_ANS GROUP_SUCCESSFULLY_INSERT (Some []), A'))"
| "serve (LeaveGroup g u) A =
     (GroupAnswer LEAVE_CONVERSATION_ANS GROUP_NAME_NOT_EXIST (Some []), A)"

text \<open>The bytes of an answer as it is sent: the code is big endian, but for a leave answer.\<close>

definition code_bytes :: "Protocol_Type \<Rightarrow> Answers \<Rightarrow> u8 list" where
  "code_bytes t a = (if t = LEAVE_CONVERSATION_ANS then le_bytes (answer_code a)
     else rev (le_bytes (answer_code a)))"

fun answer_at :: "'a bmem_scheme \<Rightarrow> addr \<Rightarrow> answer \<Rightarrow> bool" where
  "answer_at s p (UserAnswer t a) \<longleftrightarrow> p \<noteq> NULL \<and>
     bytes s p = Some (type_code t) \<and> bytes_at s (p + 4) (code_bytes t a)"
| "answer_at s p (GroupAnswer t a ip) \<longleftrightarrow> p \<noteq> NULL \<and>
     bytes s p = Some (type_code t) \<and> bytes_at s (p + 20) (code_bytes t a) \<and>
     (case ip of None \<Rightarrow> True | Some xs \<Rightarrow> str_at s (p + 1) xs)"

text \<open>An answer in a block that ends with the struct.\<close>

fun answer_size :: "answer \<Rightarrow> nat" where
  "answer_size (UserAnswer t a) = 8"
| "answer_size (GroupAnswer t a ip) = 24"

definition answer_block :: "'a bmem_scheme \<Rightarrow> addr \<Rightarrow> answer \<Rightarrow> bool" where
  "answer_block s p a \<longleftrightarrow> answer_at s p a \<and> bytes s (p + answer_size a) = None"

lemma answer_blockD: "answer_block s p a \<Longrightarrow> answer_at s p a" "answer_block s p a \<Longrightarrow> bytes s (p + answer_size a) = None"
  by (simp_all add: answer_block_def)

end
