(* ===== verification/ClientNet.thy ===== *)
theory ClientNet
  imports ServerApp
begin

text \<open>
  The connection of the client, \<^verbatim>\<open>src/ClientServerComm/ClientServerComm.c\<close>, and the memory of
  the client process: the byte memory, lists and map items of \<open>hash_mem\<close>, the objects of type
  \<open>Client_Net\<close>, and what \<^verbatim>\<open>src/Client/Client.c\<close> and \<^verbatim>\<open>src/UI/UI.c\<close> add to them.

  The operating system is the record \<open>client_os\<close>: for each kind of call its result, as a
  function of the number of calls made before. \<open>events\<close> records what the process does to the
  outside. \<open>pid_file\<close> stands for \<open>fopen\<close> and \<open>fscanf\<close> of one number (\<open>None\<close>: the file
  cannot be opened; when nothing matches, the number is what the variable of the caller held);
  \<open>typed_word\<close> and \<open>typed_int\<close> stand for \<open>scanf\<close> (\<open>None\<close>: nothing matches).
\<close>

section \<open>State\<close>

datatype Client_Status = CLIENT_STATUS_CONNECTED | CLIENT_STATUS_DISCONNECTED

record Client_Net =
  m_socket :: int
  m_status :: Client_Status

record Client =
  m_clientNet :: addr
  m_serverPort :: int
  m_pidHash :: "hmap option"

text \<open>The field \<open>m_groupName\<close> of \<open>PID\<close> is never assigned nor read; it is left out.\<close>

record PID =
  m_sender :: int
  m_listen :: int

record client_os =
  net_socket :: "nat \<Rightarrow> int"
  net_connect :: "nat \<Rightarrow> int"
  net_send :: "nat \<Rightarrow> int"
  net_recv :: "nat \<Rightarrow> u8 list option"
  pid_file :: "nat \<Rightarrow> int option"
  typed_word :: "nat \<Rightarrow> u8 list option"
  typed_int :: "nat \<Rightarrow> int option"

text \<open>
  \<open>Opened fd ip port\<close>: a connection to the address \<open>ip\<close> (as text) and the 16-bit port;
  \<open>Ran\<close>: a command given to \<open>system\<close>; \<open>Interrupted\<close>: a process that \<open>SIGINT\<close> was sent to.
\<close>

datatype client_event =
  Opened int "u8 list" "16 word" | SentOut int "u8 option list" | Arrived int "u8 list"
| Ran "u8 list" | Interrupted int | Shut int

record client_mem = hash_mem +
  nets :: "addr \<Rightarrow> Client_Net option"
  client_objs :: "addr \<Rightarrow> Client option"
  pids :: "addr \<Rightarrow> PID option"
  interfaces :: "addr \<Rightarrow> addr option"
  cos :: client_os
  asked :: nat
  events :: "client_event list"

section \<open>Calls of the operating system\<close>

definition ask :: "(client_os \<Rightarrow> nat \<Rightarrow> 'r) \<Rightarrow> ('a client_mem_scheme, 'r) prog" where
  "ask f = (\<lambda>s. Inr (f (cos s) (asked s), s\<lparr>asked := asked s + 1\<rparr>))"

definition event :: "client_event \<Rightarrow> ('a client_mem_scheme, unit) prog" where
  "event e = modify (\<lambda>s. s\<lparr>events := events s @ [e]\<rparr>)"

text \<open>\<open>send\<close> takes \<open>len\<close> bytes from \<open>p\<close> on; \<open>recv\<close> stores at most \<open>len\<close> bytes there.\<close>

definition client_send :: "int \<Rightarrow> addr \<Rightarrow> nat \<Rightarrow> ('a client_mem_scheme, int) prog" where
  "client_send fd p len =
     chain (ask net_send) (\<lambda>r.
     if p = NULL \<or> r < 0 then ret (- 1)
     else
       chain (reads (\<lambda>s. Inr (map (\<lambda>i. bytes s (p + i)) [0..<len]))) (\<lambda>xs.
       chain (event (SentOut fd xs)) (\<lambda>_. ret r)))"

definition client_recv :: "int \<Rightarrow> addr \<Rightarrow> nat \<Rightarrow> ('a client_mem_scheme, int) prog" where
  "client_recv fd p len =
     chain (ask net_recv) (\<lambda>r.
     case r of
       None \<Rightarrow> ret (- 1)
     | Some xs \<Rightarrow>
         let ys = take len xs in
         if p = NULL \<and> ys \<noteq> [] then ret (- 1)
         else
           chain (put_bytes p ys) (\<lambda>_.
           chain (event (Arrived fd ys)) (\<lambda>_.
           ret (int (length ys)))))"

section \<open>The operations\<close>

definition CreateSocket_client :: "('a client_mem_scheme, int) prog" where
  "CreateSocket_client =
     chain (ask net_socket) (\<lambda>sock. if 0 > sock then fail Aborted else ret sock)"

definition set_net :: "addr \<Rightarrow> Client_Net \<Rightarrow> ('a client_mem_scheme, unit) prog" where
  "set_net p r = modify (\<lambda>s. s\<lparr>nets := (nets s)(p \<mapsto> r)\<rparr>)"

definition Init_Client_Net :: "('a client_mem_scheme, addr) prog" where
  "Init_Client_Net =
     chain (malloc 1) (\<lambda>newClient.
     if newClient = NULL then ret NULL
     else
       chain CreateSocket_client (\<lambda>sock.
       chain (set_net newClient \<lparr>m_socket = sock, m_status = CLIENT_STATUS_CONNECTED\<rparr>) (\<lambda>_.
       ret newClient)))"

definition Destroy_Client_Net :: "addr \<Rightarrow> ('a client_mem_scheme, unit) prog" where
  "Destroy_Client_Net net =
     chain (obj nets net) (\<lambda>n.
     chain (event (Shut (m_socket n))) (\<lambda>_.
     modify (\<lambda>s. s\<lparr>nets := (nets s)(net := None)\<rparr>)))"

text \<open>The failure of \<open>connect\<close> is printed and not reported.\<close>

definition ConnectNewClient :: "addr \<Rightarrow> addr \<Rightarrow> int \<Rightarrow> ('a client_mem_scheme, unit) prog" where
  "ConnectNewClient net serverIP serverPort =
     chain (reads (\<lambda>s. c_str s serverIP)) (\<lambda>ip.
     chain (obj nets net) (\<lambda>n.
     chain (ask net_connect) (\<lambda>retVal.
     if 0 > retVal then ret ()
     else event (Opened (m_socket n) ip (word_of_int serverPort)))))"

definition Send_To_Server :: "addr \<Rightarrow> nat \<Rightarrow> addr \<Rightarrow> ('a client_mem_scheme, int) prog" where
  "Send_To_Server value len net =
     chain (obj nets net) (\<lambda>n.
     chain (client_send (m_socket n) value len) (\<lambda>sent_bytes.
     if sent_bytes < 0 then ret (- 1) else ret 0))"

definition Recive_From_Server :: "addr \<Rightarrow> nat \<Rightarrow> addr \<Rightarrow> ('a client_mem_scheme, int) prog" where
  "Recive_From_Server value len net =
     chain (obj nets net) (\<lambda>n.
     chain (client_recv (m_socket n) value len) (\<lambda>read_byte.
     if read_byte < 0 then ret (- 1) else ret 0))"

section \<open>Lemmas\<close>

lemma ask_step [c_step, simp]: "ask f s = Inr (f (cos s) (asked s), s\<lparr>asked := asked s + 1\<rparr>)"
  by (simp add: ask_def)

lemma event_step [c_step, simp]: "event e s = Inr ((), s\<lparr>events := events s @ [e]\<rparr>)"
  by (simp add: event_def)

lemma Send_To_Server_ok:
  assumes "net \<noteq> NULL" and "nets s net = Some n" and "p \<noteq> NULL" and "0 \<le> net_send (cos s) (asked s)"
  shows "Send_To_Server p len net s = Inr (0, s\<lparr>asked := asked s + 1,
    events := events s @ [SentOut (m_socket n) (map (\<lambda>i. bytes s (p + i)) [0..<len])]\<rparr>)"
  using assms by (simp add: Send_To_Server_def client_send_def obj_step)

lemma Send_To_Server_fails:
  assumes "net \<noteq> NULL" and "nets s net = Some n" and "net_send (cos s) (asked s) < 0"
  shows "Send_To_Server p len net s = Inr (- 1, s\<lparr>asked := asked s + 1\<rparr>)"
  using assms by (simp add: Send_To_Server_def client_send_def obj_step)

lemma Recive_From_Server_ok:
  assumes "net \<noteq> NULL" and "nets s net = Some n" and "net_recv (cos s) (asked s) = Some ys"
    and "length ys \<le> len" and "mapped s p len"
  shows "Recive_From_Server p len net s = Inr (0, stored p ys (s\<lparr>asked := asked s + 1\<rparr>)
    \<lparr>events := events s @ [Arrived (m_socket n) ys]\<rparr>)"
proof -
  have "mapped (s\<lparr>asked := asked s + 1\<rparr>) p len" using assms(5) by (simp add: mapped_def)
  then have "put_bytes p ys (s\<lparr>asked := asked s + 1\<rparr>) = Inr ((), stored p ys (s\<lparr>asked := asked s + 1\<rparr>))"
    by (rule put_stored) (rule assms(4))
  moreover have "p \<noteq> NULL" using assms(5) by (simp add: mapped_def)
  ultimately show ?thesis using assms(1-4)
    by (simp add: Recive_From_Server_def client_recv_def obj_step stored_def)
qed

lemma Recive_From_Server_fails:
  assumes "net \<noteq> NULL" and "nets s net = Some n" and "net_recv (cos s) (asked s) = None"
  shows "Recive_From_Server p len net s = Inr (- 1, s\<lparr>asked := asked s + 1\<rparr>)"
  using assms by (simp add: Recive_From_Server_def client_recv_def obj_step)

end
