(* ===== verification/Client.thy ===== *)
theory Client
  imports ClientNet
begin

text \<open>
  The client, \<^verbatim>\<open>src/Client/Client.c\<close>: each call packs a request into a new struct, sends it,
  waits for one answer in a local buffer and maps the code of the answer to a result. A group
  that was created or joined opens two terminal windows by \<open>system\<close>; their process ids are
  kept in the map \<open>m_pidHash\<close>.

  This theory holds the model; \<open>ClientRun\<close> and \<open>ClientSession\<close> show what the calls do.
\<close>

section \<open>Data\<close>

datatype Client_err =
  CLIENT_SUCCESS | CLIENT_ALLOC_FAIL | CLIENT_FAIL | CLIENT_PACKING_FAIL | CLIENT_INIT_FAIL
| CLIENT_WRONG_PSW | CLIENT_USER_NAME_NOT_EXIST | CLIENT_ALLREADY_CONNECTED
| CLIENT_SEND_TO_SERVER_FAIL | CLIENT_FAIL_GROUP_CREATE | CLIENT_FAIL_GROUP_LEAVE

definition PID_HASH_CAP :: u64 where "PID_HASH_CAP = 40"
definition CLIENT_BUFF_SIZE :: nat where "CLIENT_BUFF_SIZE = 4093"
definition BUFF_RCV :: nat where "BUFF_RCV = 1024"

definition sizeof_UserDetails :: nat where "sizeof_UserDetails = 35"
definition sizeof_GroupDetails :: nat where "sizeof_GroupDetails = 36"

text \<open>A local array, zeroed, that is gone when the function returns.\<close>

definition with_array :: "nat \<Rightarrow> (addr \<Rightarrow> ('a bmem_scheme, 'r) prog) \<Rightarrow> ('a bmem_scheme, 'r) prog" where
  "with_array n body =
     chain (stack_array n) (\<lambda>p.
     chain (body p) (\<lambda>r.
     chain (end_of_scope p n) (\<lambda>_. ret r)))"

section \<open>Keys of the map of processes\<close>

definition HashFunctionGroups_client :: HashFunction where
  "HashFunctionGroups_client m key =
     (case c_str m key of
        Inl e \<Rightarrow> Inl e
      | Inr cs \<Rightarrow>
          let len = sint (of_nat (length cs) :: i32) in
          case sum_chars (take (nat len) cs) 0 of
            Inl e \<Rightarrow> Inl e
          | Inr acc \<Rightarrow> Inr (word_of_int acc))"

definition EqualityFunctionForGroups_client :: EqualityFunction where
  "EqualityFunctionForGroups_client m firstKey secondKey =
     (case strcmp m firstKey secondKey of
        Inl e \<Rightarrow> Inl e
      | Inr res \<Rightarrow> Inr (if res = 0 then 1 else 0))"

section \<open>Creation and destruction\<close>

definition set_client :: "addr \<Rightarrow> Client \<Rightarrow> ('a client_mem_scheme, unit) prog" where
  "set_client p r = modify (\<lambda>s. s\<lparr>client_objs := (client_objs s)(p \<mapsto> r)\<rparr>)"

definition set_pid_hash :: "addr \<Rightarrow> hmap option \<Rightarrow> ('a client_mem_scheme, unit) prog" where
  "set_pid_hash p mp = chain (obj client_objs p) (\<lambda>r. set_client p (r\<lparr>m_pidHash := mp\<rparr>))"

definition free_client_obj :: "addr \<Rightarrow> ('a client_mem_scheme, unit) prog" where
  "free_client_obj p = modify (\<lambda>s. s\<lparr>client_objs := (client_objs s)(p := None)\<rparr>)"

text \<open>The struct has its first two fields when the third is written.\<close>

definition Connect_User :: "addr \<Rightarrow> int \<Rightarrow> ('a client_mem_scheme, addr) prog" where
  "Connect_User serverIP serverPort =
     chain (malloc 1) (\<lambda>newClient.
     if newClient = NULL then ret NULL
     else
       chain Init_Client_Net (\<lambda>net.
       chain (set_client newClient \<lparr>m_clientNet = net, m_serverPort = serverPort, m_pidHash = None\<rparr>) (\<lambda>_.
       chain (ConnectNewClient net serverIP serverPort) (\<lambda>_.
       chain (HashMap_Create PID_HASH_CAP (Some HashFunctionGroups_client)
         (Some EqualityFunctionForGroups_client)) (\<lambda>mp.
       chain (set_pid_hash newClient mp) (\<lambda>_.
       if mp = None
       then chain (Destroy_Client_Net net) (\<lambda>_. chain (free_client_obj newClient) (\<lambda>_. ret NULL))
       else ret newClient))))))"

definition Destroy_Client :: "addr \<Rightarrow> ('a client_mem_scheme, unit) prog" where
  "Destroy_Client client =
     (if client = NULL then ret ()
      else
        chain (obj client_objs client) (\<lambda>c.
        chain (Destroy_Client_Net (m_clientNet c)) (\<lambda>_.
        free_client_obj client)))"

section \<open>The structs of the requests\<close>

definition CreateUserDetails :: "addr \<Rightarrow> addr \<Rightarrow> ('a cmem_scheme, addr) prog" where
  "CreateUserDetails userName psw =
     chain (malloc_bytes sizeof_UserDetails) (\<lambda>user.
     if user = NULL then ret NULL
     else
       chain (strcpy (UserDetails_userName user) userName) (\<lambda>_.
       chain (strcpy (UserDetails_password user) psw) (\<lambda>_.
       ret user)))"

definition Init_Group_struct :: "addr \<Rightarrow> addr \<Rightarrow> ('a cmem_scheme, addr) prog" where
  "Init_Group_struct userName groupName =
     chain (malloc_bytes sizeof_GroupDetails) (\<lambda>newGroup.
     if newGroup = NULL then ret NULL
     else
       chain (strcpy (GroupDetails_groupName newGroup) groupName) (\<lambda>_.
       chain (strcpy (GroupDetails_userName newGroup) userName) (\<lambda>_.
       ret newGroup)))"

section \<open>The processes of the chat windows\<close>

definition InsertPID :: "int \<Rightarrow> int \<Rightarrow> addr \<Rightarrow> addr \<Rightarrow> ('a client_mem_scheme, int) prog" where
  "InsertPID pidSender pidListener groupName client =
     chain (malloc 1) (\<lambda>p.
     if p = NULL then ret (- 1)
     else
       chain (modify (\<lambda>s. s\<lparr>pids := (pids s)
         (p \<mapsto> \<lparr>m_sender = pidSender, m_listen = pidListener\<rparr>)\<rparr>)) (\<lambda>_.
       chain (obj client_objs client) (\<lambda>c.
       chain (HashMap_Insert (m_pidHash c) groupName p) (\<lambda>(r, mp).
       chain (set_pid_hash client mp) (\<lambda>_.
       ret (if r = MAP_SUCCESS then 1 else - 1))))))"

text \<open>
  \<open>HashMap_Remove\<close> does not store through its out parameters when it fails: \<open>pidsValue\<close> is then
  the indeterminate pointer \<open>junk s (brk s) 0\<close>.
\<close>

definition RemovePID :: "addr \<Rightarrow> addr \<Rightarrow> ('a client_mem_scheme, int) prog" where
  "RemovePID groupName client =
     chain (reads (\<lambda>s. Inr (junk s (brk s) 0))) (\<lambda>indeterminate.
     chain (obj client_objs client) (\<lambda>c.
     chain (HashMap_Remove (m_pidHash c) groupName) (\<lambda>(r, out, mp).
     chain (set_pid_hash client mp) (\<lambda>_.
     if r = MAP_SUCCESS then ret 1
     else
       let pidsValue = (case out of None \<Rightarrow> indeterminate | Some (_, v) \<Rightarrow> v) in
       chain (obj pids pidsValue) (\<lambda>p.
       chain (event (Interrupted (m_sender p))) (\<lambda>_.
       chain (obj pids pidsValue) (\<lambda>p'.
       chain (event (Interrupted (m_listen p'))) (\<lambda>_.
       chain (Destroy_Client client) (\<lambda>_.
       ret (- 1))))))))))"

definition dec_int :: "int \<Rightarrow> u8 list" where
  "dec_int i = (if i < 0 then 45 # dec (nat (- i)) else dec (nat i))"

definition ascii :: "string \<Rightarrow> u8 list" where
  "ascii = map of_char"

text \<open>\<open>sprintf(dst, "... %s %d %s %s", ...)\<close>, with the text before the four values.\<close>

definition window_command :: "u8 list \<Rightarrow> u8 list \<Rightarrow> int \<Rightarrow> u8 list \<Rightarrow> u8 list \<Rightarrow> u8 list" where
  "window_command window ip port user grp =
     window @ ip @ [32] @ dec_int port @ [32] @ user @ [32] @ grp"

definition listen_window :: "u8 list" where
  "listen_window = ascii ''gnome-terminal --geometry 60x60+50+10 -x ./listen.out ''"

definition sender_window :: "u8 list" where
  "sender_window = ascii ''gnome-terminal --geometry 60x60+110+10 -x ./sender.out ''"

definition sprintf_window ::
  "addr \<Rightarrow> u8 list \<Rightarrow> addr \<Rightarrow> int \<Rightarrow> addr \<Rightarrow> addr \<Rightarrow> ('a bmem_scheme, unit) prog" where
  "sprintf_window dst window ip port user grp =
     chain (reads (\<lambda>s. c_str s ip)) (\<lambda>ip'.
     chain (reads (\<lambda>s. c_str s user)) (\<lambda>user'.
     chain (reads (\<lambda>s. c_str s grp)) (\<lambda>grp'.
     put_bytes dst (window_command window ip' port user' grp' @ [0]))))"

definition run_system :: "addr \<Rightarrow> ('a client_mem_scheme, unit) prog" where
  "run_system cmd = chain (reads (\<lambda>s. c_str s cmd)) (\<lambda>cs. event (Ran cs))"

definition OpenChatWindow ::
  "addr \<Rightarrow> int \<Rightarrow> addr \<Rightarrow> addr \<Rightarrow> addr \<Rightarrow> ('a client_mem_scheme, unit) prog" where
  "OpenChatWindow ipAddress port userName groupName client =
     with_array CLIENT_BUFF_SIZE (\<lambda>bufferComm.
     with_array CLIENT_BUFF_SIZE (\<lambda>bufferComm2.
     chain (sprintf_window bufferComm listen_window ipAddress port userName groupName) (\<lambda>_.
     chain (run_system bufferComm) (\<lambda>_.
     chain (ask pid_file) (\<lambda>fdListen.
     case fdListen of
       None \<Rightarrow> ret ()
     | Some listenPID \<Rightarrow>
         chain (sprintf_window bufferComm2 sender_window ipAddress port userName groupName) (\<lambda>_.
         chain (run_system bufferComm2) (\<lambda>_.
         chain (ask pid_file) (\<lambda>fdSender.
         case fdSender of
           None \<Rightarrow> ret ()
         | Some senderPID \<Rightarrow>
             chain (InsertPID listenPID senderPID groupName client) (\<lambda>_. ret ())))))))))"

section \<open>The calls\<close>

definition User_Register :: "addr \<Rightarrow> addr \<Rightarrow> addr \<Rightarrow> ('a client_mem_scheme, Client_err) prog" where
  "User_Register userName psw client =
     with_array CLIENT_BUFF_SIZE (\<lambda>buffer.
     if userName = NULL \<or> psw = NULL \<or> client = NULL then ret CLIENT_ALLOC_FAIL
     else
       chain (CreateUserDetails userName psw) (\<lambda>user.
       if user = NULL then ret CLIENT_ALLOC_FAIL
       else
         chain (Pack (type_code REGISTER_REQ) user) (\<lambda>res.
         if res = - 1 then ret CLIENT_PACKING_FAIL
         else
           chain (obj client_objs client) (\<lambda>c.
           chain (Send_To_Server user sizeof_UserDetails (m_clientNet c)) (\<lambda>rcvFromSend.
           if rcvFromSend = - 1 then ret CLIENT_ALLOC_FAIL
           else
             chain (Recive_From_Server buffer CLIENT_BUFF_SIZE (m_clientNet c)) (\<lambda>_.
             chain (UnPack buffer) (\<lambda>_.
             chain (rd_u32 (Register_Ans_answer buffer)) (\<lambda>answer.
             if answer = answer_code REGISTER_SUCCESS then ret CLIENT_SUCCESS
             else if answer = answer_code REGISTER_USER_NAME_ALLREADY_EXIST then ret CLIENT_FAIL
             else ret CLIENT_FAIL))))))))"

text \<open>\<open>None\<close> stands for \<open>-1\<close>, which is not an enumerator of \<open>Client_err\<close>.\<close>

definition User_LogIn :: "addr \<Rightarrow> addr \<Rightarrow> addr \<Rightarrow> ('a client_mem_scheme, Client_err option) prog" where
  "User_LogIn userName psw client =
     with_array CLIENT_BUFF_SIZE (\<lambda>buffer.
     if userName = NULL \<or> psw = NULL \<or> client = NULL then ret (Some CLIENT_ALLOC_FAIL)
     else
       chain (CreateUserDetails userName psw) (\<lambda>user.
       if user = NULL then ret (Some CLIENT_ALLOC_FAIL)
       else
         chain (Pack (type_code LOGIN_REQ) user) (\<lambda>res.
         if res = - 1 then ret (Some CLIENT_PACKING_FAIL)
         else
           chain (obj client_objs client) (\<lambda>c.
           chain (Send_To_Server user sizeof_UserDetails (m_clientNet c)) (\<lambda>rcvFromSend.
           if rcvFromSend = - 1 then ret (Some CLIENT_ALLOC_FAIL)
           else
             chain (Recive_From_Server buffer CLIENT_BUFF_SIZE (m_clientNet c)) (\<lambda>_.
             chain (UnPack buffer) (\<lambda>_.
             chain (rd_u32 (Login_Ans_answer buffer)) (\<lambda>answer.
             if answer = answer_code LOGIN_USER_SUCCESSFULLY_CONNECTED then ret (Some CLIENT_SUCCESS)
             else if answer = answer_code LOGIN_USER_NAME_NOT_EXIST
             then ret (Some CLIENT_USER_NAME_NOT_EXIST)
             else if answer = answer_code LOGIN_WRONG_PSW then ret (Some CLIENT_WRONG_PSW)
             else if answer = answer_code LOGIN_ALLREADY_CONNECTED
             then ret (Some CLIENT_ALLREADY_CONNECTED)
             else ret None))))))))"

text \<open>The result of \<open>Init_Group_struct\<close> is not tested here.\<close>

definition Create_New_Group :: "addr \<Rightarrow> addr \<Rightarrow> addr \<Rightarrow> ('a client_mem_scheme, Client_err) prog" where
  "Create_New_Group userName groupName client =
     with_array CLIENT_BUFF_SIZE (\<lambda>buffer.
     with_array CLIENT_BUFF_SIZE (\<lambda>ipAddress.
     if groupName = NULL \<or> client = NULL then ret CLIENT_ALLOC_FAIL
     else
       chain (Init_Group_struct userName groupName) (\<lambda>newGroup.
       chain (Pack (type_code CREATE_GROUP_CONVERSATION_REQ) newGroup) (\<lambda>rcv.
       if rcv = - 1 then ret CLIENT_PACKING_FAIL
       else
         chain (obj client_objs client) (\<lambda>c.
         chain (Send_To_Server newGroup sizeof_GroupDetails (m_clientNet c)) (\<lambda>rcvFromSend.
         if rcvFromSend = - 1 then ret CLIENT_SEND_TO_SERVER_FAIL
         else
           chain (Recive_From_Server buffer BUFF_RCV (m_clientNet c)) (\<lambda>_.
           chain (UnPack buffer) (\<lambda>_.
           chain (rd_u32 (Create_Group_Ans_answer buffer)) (\<lambda>answer.
           if answer = answer_code GROUP_SUCCESSFULLY_INSERT then
             chain (strcpy ipAddress (Create_Group_Ans_groupIP buffer)) (\<lambda>_.
             chain (OpenChatWindow ipAddress (m_serverPort c) userName groupName client) (\<lambda>_.
             ret CLIENT_SUCCESS))
           else if answer = answer_code GROUP_NAME_ALREADY_EXIST then ret CLIENT_FAIL_GROUP_CREATE
           else ret CLIENT_SUCCESS)))))))))"

definition Join_To_Group :: "addr \<Rightarrow> addr \<Rightarrow> addr \<Rightarrow> ('a client_mem_scheme, Client_err) prog" where
  "Join_To_Group userName groupNameToFind client =
     with_array CLIENT_BUFF_SIZE (\<lambda>buffer.
     with_array CLIENT_BUFF_SIZE (\<lambda>ipAddress.
     if userName = NULL \<or> groupNameToFind = NULL \<or> client = NULL then ret CLIENT_ALLOC_FAIL
     else
       chain (Init_Group_struct userName groupNameToFind) (\<lambda>newGroupToFind.
       if newGroupToFind = NULL then ret CLIENT_ALLOC_FAIL
       else
         chain (Pack (type_code JOIN_CONVERSATION_REQ) newGroupToFind) (\<lambda>rcvpPack.
         if rcvpPack = - 1 then ret CLIENT_PACKING_FAIL
         else
           chain (obj client_objs client) (\<lambda>c.
           chain (Send_To_Server newGroupToFind sizeof_GroupDetails (m_clientNet c)) (\<lambda>rcvFromSend.
           if rcvFromSend = - 1 then ret CLIENT_SEND_TO_SERVER_FAIL
           else
             chain (Recive_From_Server buffer BUFF_RCV (m_clientNet c)) (\<lambda>_.
             chain (UnPack buffer) (\<lambda>_.
             chain (rd_u32 (Create_Group_Ans_answer buffer)) (\<lambda>answer.
             if answer = answer_code GROUP_SUCCESSFULLY_JOIN then
               chain (strcpy ipAddress (Create_Group_Ans_groupIP buffer)) (\<lambda>_.
               chain (OpenChatWindow ipAddress (m_serverPort c) userName groupNameToFind client) (\<lambda>_.
               ret CLIENT_SUCCESS))
             else if answer = answer_code GROUP_NAME_NOT_EXIST then ret CLIENT_FAIL_GROUP_CREATE
             else ret CLIENT_SUCCESS)))))))))"

definition Leave_Group_Conversation ::
  "addr \<Rightarrow> addr \<Rightarrow> addr \<Rightarrow> ('a client_mem_scheme, Client_err) prog" where
  "Leave_Group_Conversation userName groupNameToFind client =
     with_array CLIENT_BUFF_SIZE (\<lambda>buffer.
     with_array CLIENT_BUFF_SIZE (\<lambda>ipAddress.
     if userName = NULL \<or> groupNameToFind = NULL \<or> client = NULL then ret CLIENT_ALLOC_FAIL
     else
       chain (Init_Group_struct userName groupNameToFind) (\<lambda>groupToFind.
       if groupToFind = NULL then ret CLIENT_ALLOC_FAIL
       else
         chain (Pack (type_code LEAVE_CONVERSATION_REQ) groupToFind) (\<lambda>rcvpPack.
         if rcvpPack = - 1 then ret CLIENT_PACKING_FAIL
         else
           chain (obj client_objs client) (\<lambda>c.
           chain (Send_To_Server groupToFind sizeof_GroupDetails (m_clientNet c)) (\<lambda>rcvFromSend.
           if rcvFromSend = - 1 then ret CLIENT_SEND_TO_SERVER_FAIL
           else
             chain (Recive_From_Server buffer BUFF_RCV (m_clientNet c)) (\<lambda>_.
             chain (UnPack buffer) (\<lambda>_.
             chain (rd_u32 (Create_Group_Ans_answer buffer)) (\<lambda>answer.
             if answer = answer_code GROUP_SUCCESSFULLY_FOUND
             then chain (RemovePID groupNameToFind client) (\<lambda>_. ret CLIENT_SUCCESS)
             else if answer = answer_code GROUP_NAME_NOT_EXIST then ret CLIENT_FAIL_GROUP_LEAVE
             else ret CLIENT_SUCCESS)))))))))"

end
