(* ===== verification/ServerAppSpec.thy ===== *)
theory ServerAppSpec
  imports ServerApp
begin

text \<open>
  The application of the server implements \<open>serve\<close>: for every request in the buffer it
  returns, without a fault, a struct with the bytes of the answer, and the data base in
  memory represents the new abstract state.
\<close>

section \<open>Memory of the application\<close>

lemma db_rep_env: "db_rep s db buf F A \<Longrightarrow> env s"
  by (simp add: db_rep_def)

lemma db_rep_shrink: "db_rep s db buf F A \<Longrightarrow> F' \<subseteq> F \<Longrightarrow> db_rep s db buf F' A"
  unfolding db_rep_def by blast

lemma db_rep_stored:
  assumes rep: "db_rep s db buf F A" and m: "mapped s p (length cs)" and "{p..<p + length cs} \<subseteq> F"
  shows "db_rep (stored p cs s) db buf F A"
proof (rule db_rep_write [OF rep stored_env [OF db_rep_env [OF rep] m]])
  show "bytes (stored p cs s) a = bytes s a" if "a \<notin> F" for a
    using that assms(3) by (auto simp: stored_def intro!: map_bytes_out) (meson atLeastLessThan_iff not_le subsetD)
qed (auto simp: stored_def)

text \<open>A new block, with the unmapped address behind it.\<close>

lemma db_rep_block_gap:
  assumes rep: "db_rep s db buf F A"
  obtains s' where "malloc_bytes n s = Inr (brk s, s')" "mapped s' (brk s) n"
    "db_rep s' db buf (F \<union> {brk s..<brk s + n + 1}) A" "brk s' = brk s + n + 1"
    "\<forall>a < brk s. bytes s' a = bytes s a" "brk s \<noteq> NULL" "bytes s' (brk s + n) = None"
proof -
  note env = db_rep_env [OF rep]
  obtain s1 where s1: "malloc_bytes n s = Inr (brk s, s1)" "mapped s1 (brk s) n" "env s1"
    "ext (brk s) {} s s1" "brk s1 = brk s + n + 1" "s1 = s\<lparr>brk := brk s1, bytes := bytes s1\<rparr>"
    by (rule new_block [OF env])
  have b: "\<forall>a < brk s. bytes s1 a = bytes s a" using s1(4) by (simp add: ext_def)
  have "db_rep s1 db buf (F \<union> {brk s..<brk s + n + 1}) A"
    by (rule db_rep_write [OF rep s1(3,6)]) (use b s1(5) in auto)
  moreover have "bytes s1 (brk s + n) = None"
    using s1(1) env env_simps(3) [OF env] env_simps(6) [OF env]
    by (auto simp: malloc_bytes_step map_bytes_out env_def wf_bytes_def enough_mem_def)
  ultimately show ?thesis using that s1 b env_simps(6) [OF env] by simp
qed

lemma db_rep_block:
  assumes rep: "db_rep s db buf F A"
  obtains s' where "malloc_bytes n s = Inr (brk s, s')" "mapped s' (brk s) n"
    "db_rep s' db buf (F \<union> {brk s..<brk s + n}) A" "brk s' = brk s + n + 1"
    "\<forall>a < brk s. bytes s' a = bytes s a" "brk s \<noteq> NULL"
proof (rule db_rep_block_gap [OF rep, of n])
  fix s'
  assume s': "malloc_bytes n s = Inr (brk s, s')" "mapped s' (brk s) n"
    "db_rep s' db buf (F \<union> {brk s..<brk s + n + 1}) A" "brk s' = brk s + n + 1"
    "\<forall>a < brk s. bytes s' a = bytes s a" "brk s \<noteq> NULL"
  have "db_rep s' db buf (F \<union> {brk s..<brk s + n}) A" by (rule db_rep_shrink [OF s'(3)]) auto
  then show thesis using that s' by blast
qed

lemma db_rep_array:
  assumes rep: "db_rep s db buf F A" and n: "0 < n"
  obtains s' where "stack_array n s = Inr (brk s, s')" "mapped s' (brk s) n"
    "db_rep s' db buf (F \<union> {brk s..<brk s + n}) A" "brk s' = brk s + n + 1"
    "\<forall>a < brk s. bytes s' a = bytes s a" "str_at s' (brk s) []"
proof -
  note env = db_rep_env [OF rep]
  have z: "0 < brk s" using env_simps(6) [OF env] .
  let ?s = "s\<lparr>brk := brk s + n + 1, bytes := map_bytes (brk s) (replicate n 0) (bytes s)\<rparr>"
  have e: "env ?s" using env
    by (auto simp: env_def wf_bytes_def wf_hash_mem_def wf_list_mem_def enough_mem_def zeroed_def map_bytes_out)
  have "db_rep ?s db buf (F \<union> {brk s..<brk s + n}) A"
    by (rule db_rep_write [OF rep e]) (auto simp: map_bytes_out)
  moreover have "str_at ?s (brk s) []" using z n by (simp add: str_at_Nil map_bytes_def)
  moreover have "mapped ?s (brk s) n" using z by (simp add: mapped_def map_bytes_in)
  ultimately show ?thesis by (intro that [of ?s]) (simp_all add: stack_array_def map_bytes_out)
qed

lemma db_rep_scope:
  assumes rep: "db_rep s db buf F A" and p: "{p..<p + n} \<subseteq> F"
  obtains s' where "end_of_scope p n s = Inr ((), s')" "db_rep s' db buf F A" "brk s' = brk s"
    "\<forall>a. a < p \<or> p + n \<le> a \<longrightarrow> bytes s' a = bytes s a"
proof -
  let ?s = "s\<lparr>bytes := unmap_bytes p n (bytes s)\<rparr>"
  have e: "env ?s" using db_rep_env [OF rep]
    by (simp add: env_def wf_bytes_def wf_hash_mem_def wf_list_mem_def enough_mem_def zeroed_def unmap_bytes_def)
  have "db_rep ?s db buf F A"
    by (rule db_rep_write [OF rep e]) (use p in \<open>auto simp: unmap_bytes_def\<close>)
  then show ?thesis by (intro that [of ?s]) (auto simp: end_of_scope_def unmap_bytes_def)
qed

lemma mapped_cong: "mapped s p n \<Longrightarrow> (\<And>a. p \<le> a \<Longrightarrow> a < p + n \<Longrightarrow> bytes s' a = bytes s a) \<Longrightarrow> mapped s' p n"
  by (simp add: mapped_def)

text \<open>Storing the code of an answer of \<open>n\<close> bytes at \<open>a\<close>, and packing it.\<close>

lemma store_code:
  fixes s :: "'a db_mem_scheme"
  assumes rep: "db_rep s db buf F' A" and m: "mapped s a n" and F': "{a..<a + n} \<subseteq> F'"
    and off: "off + 4 \<le> n"
  obtains s4 where "wr_u32 (a + off) c s = Inr ((), s4)" "db_rep s4 db buf F' A" "brk s4 = brk s"
    "bytes_at s4 (a + off) (le_bytes c)"
    "\<forall>b. b < a + off \<or> a + off + 4 \<le> b \<longrightarrow> bytes s4 b = bytes s b" "mapped s4 a n"
proof -
  let ?s4 = "stored (a + off) (le_bytes c) s"
  have m1: "mapped s (a + off) 4" using mapped_sub [OF m, of off 4] off by simp
  have w: "wr_u32 (a + off) c s = Inr ((), ?s4)"
    unfolding wr_u32_def using put_stored [OF m1, of "le_bytes c"] by simp
  have r4: "db_rep ?s4 db buf F' A" by (rule db_rep_stored [OF rep]) (use m1 F' off in auto)
  have c4: "bytes_at ?s4 (a + off) (le_bytes c)"
    by (rule bytes_at_stored_new) (use m in \<open>simp add: mapped_def\<close>)
  have "\<forall>b. b < a + off \<or> a + off + 4 \<le> b \<longrightarrow> bytes ?s4 b = bytes s b"
    by (simp add: stored_def map_bytes_out)
  from that [OF w r4 _ c4 this mapped_stored [OF m]] show ?thesis by simp
qed

lemma pack_code:
  fixes s :: "'a db_mem_scheme"
  assumes rep: "db_rep s db buf F' A" and F': "{a + off..<a + off + 4} \<subseteq> F'"
    and off: "1 \<le> off" and t: "bytes s a = Some t" and c: "bytes_at s (a + off) (le_bytes c)"
    and a: "a \<noteq> NULL"
    and pack: "\<And>(s :: 'a db_mem_scheme) w. bytes_at s (a + off) (le_bytes w) \<Longrightarrow> bytes s a \<noteq> None \<Longrightarrow>
      Pack t a s = Inr (0, s\<lparr>bytes := map_bytes (a + off) (rev (le_bytes w)) ((bytes s)(a \<mapsto> t))\<rparr>)"
  obtains s5 where "rd_byte a s = Inr (t, s)"
    "Pack t a s = Inr (0, s5)" "db_rep s5 db buf F' A" "brk s5 = brk s"
    "bytes_at s5 (a + off) (rev (le_bytes c))"
    "\<forall>b. b < a + off \<or> a + off + 4 \<le> b \<longrightarrow> bytes s5 b = bytes s b"
proof -
  let ?cs = "rev (le_bytes c)"
  let ?s5 = "stored (a + off) ?cs s"
  have "(bytes s)(a \<mapsto> t) = bytes s" using t by auto
  with pack [OF c] t have p: "Pack t a s = Inr (0, ?s5)" by (simp add: stored_def)
  have m: "mapped s (a + off) 4"
    using c unfolding mapped_def by (metis bytes_at_def bytes_at_mapped length_le_bytes)
  have r5: "db_rep ?s5 db buf F' A" by (rule db_rep_stored [OF rep]) (use m F' in auto)
  have "\<forall>b. b < a + off \<or> a + off + 4 \<le> b \<longrightarrow> bytes ?s5 b = bytes s b"
    by (simp add: stored_def map_bytes_out)
  moreover have "bytes_at ?s5 (a + off) ?cs" by (rule bytes_at_stored_new) (use a in simp)
  ultimately show ?thesis using that [OF _ p r5] t a by (simp add: rd_byte_step)
qed

lemma user_request_cong:
  assumes r: "user_request s buf name pw" and le: "brk s \<le> brk s'"
    and same: "\<And>a. a < brk s \<Longrightarrow> bytes s' a = bytes s a"
  shows "user_request s' buf name pw"
proof -
  have n: "str_at s (UserDetails_password buf) pw" "str_at s (UserDetails_userName buf) name"
    using r by (simp_all add: user_request_def)
  have "str_at s' (UserDetails_password buf) pw"
    by (rule str_at_cong [OF n(1) le], rule same) (use n in \<open>auto simp: str_at_def\<close>)
  moreover have "str_at s' (UserDetails_userName buf) name"
    by (rule str_at_cong [OF n(2) le], rule same) (use n in \<open>auto simp: str_at_def\<close>)
  ultimately show ?thesis using r by (simp add: user_request_def)
qed

section \<open>Requests about users\<close>

lemma user_served:
  fixes s :: "'a db_mem_scheme" and op :: "('a db_mem_scheme, 'r) prog"
  assumes rep: "db_rep s db buf F A" and buf: "buf \<noteq> NULL" and ureq: "user_request s buf name pw"
    and ty: "bytes s buf = Some (type_code rq)" "rq = REGISTER_REQ \<or> rq = LOGIN_REQ"
    and code: "CheckUserNameOnDB buf db (type_code rq) s = chain (malloc_bytes 8) (\<lambda>a.
      if a = NULL then ret NULL
      else chain (wr_byte a t) (\<lambda>_. chain op (\<lambda>res. chain (put a res) (\<lambda>_. ret a)))) s"
    and put: "\<And>a. put a r = wr_u32 (a + 4) (answer_code c)"
    and op: "\<And>(s2 :: 'a db_mem_scheme) F'. db_rep s2 db buf F' A \<Longrightarrow> user_request s2 buf name pw \<Longrightarrow>
      \<exists>s3. op s2 = Inr (r, s3) \<and> db_rep s3 db buf F' A' \<and> brk s2 \<le> brk s3 \<and>
        (\<forall>b < brk s2. bytes s3 b = bytes s2 b)"
    and pack: "\<And>a (s :: 'a db_mem_scheme) w. a \<noteq> NULL \<Longrightarrow> bytes s a \<noteq> None \<Longrightarrow>
      bytes_at s (a + 4) (le_bytes w) \<Longrightarrow>
      Pack t a s = Inr (0, s\<lparr>bytes := map_bytes (a + 4) (rev (le_bytes w)) ((bytes s)(a \<mapsto> t))\<rparr>)"
  shows "\<exists>p s'. GetFromClientAndSendToServer buf db s = Inr (p, s') \<and>
    p \<noteq> NULL \<and> bytes s' p = Some t \<and> bytes_at s' (p + 4) (rev (le_bytes (answer_code c))) \<and>
    bytes s' (p + 8) = None \<and>
    db_rep s' db buf F A' \<and> (\<forall>a \<in> F. bytes s' a = bytes s a) \<and> brk s \<le> brk s'"
proof -
  let ?a = "brk s"
  have Fb: "F \<subseteq> {..<?a}" using rep by (simp add: db_rep_def)
  have unp: "UnPack buf s = Inr ((0, type_code rq), s)"
    by (rule UnPack_request [OF buf ty(1)]) (use ty(2) in auto)
  obtain s1 where s1: "malloc_bytes 8 s = Inr (?a, s1)" "mapped s1 ?a 8"
    "db_rep s1 db buf (F \<union> {?a..<?a + 8}) A" "brk s1 = ?a + 8 + 1" "\<forall>b < ?a. bytes s1 b = bytes s b"
    and nz: "?a \<noteq> NULL" by (rule db_rep_block [OF rep])
  let ?s2 = "stored ?a [t] s1"
  have m1: "mapped s1 ?a 1" using mapped_sub [OF s1(2), of 0 1] by simp
  have w: "wr_byte ?a t s1 = Inr ((), ?s2)" unfolding wr_byte_def by (rule put_stored [OF m1]) simp
  have r2: "db_rep ?s2 db buf (F \<union> {?a..<?a + 8}) A"
    by (rule db_rep_stored [OF s1(3)]) (use m1 in auto)
  have b2: "bytes ?s2 b = bytes s b" if "b < ?a" for b
    using s1(5) that by (simp add: stored_def map_bytes_out)
  have ur2: "user_request ?s2 buf name pw"
    by (rule user_request_cong [OF ureq _ b2]) (use s1(4) in simp)
  obtain s3 where s3: "op ?s2 = Inr (r, s3)"
    "db_rep s3 db buf (F \<union> {?a..<?a + 8}) A'" "brk ?s2 \<le> brk s3" "\<forall>b < brk ?s2. bytes s3 b = bytes ?s2 b"
    using op [OF r2 ur2] by blast
  have b3: "bytes s3 b = bytes ?s2 b" if "b < ?a + 8" for b using s3(4) s1(4) that by simp
  have m3: "mapped s3 ?a 8" by (rule mapped_cong [OF mapped_stored [OF s1(2)]]) (use b3 in simp)
  have t3: "bytes s3 ?a = Some t" using b3 [of ?a] by (simp add: stored_def map_bytes_def)
  obtain s4 where s4: "wr_u32 (?a + 4) (answer_code c) s3 = Inr ((), s4)"
    "db_rep s4 db buf (F \<union> {?a..<?a + 8}) A'" "brk s4 = brk s3"
    "bytes_at s4 (?a + 4) (le_bytes (answer_code c))"
    "\<forall>b. b < ?a + 4 \<or> ?a + 4 + 4 \<le> b \<longrightarrow> bytes s4 b = bytes s3 b"
    by (rule store_code [OF s3(2) m3, of 4 "answer_code c"]) auto
  have t4: "bytes s4 ?a = Some t" using s4(5) t3 by simp
  obtain s5 where s5: "rd_byte ?a s4 = Inr (t, s4)" "Pack t ?a s4 = Inr (0, s5)"
    "db_rep s5 db buf (F \<union> {?a..<?a + 8}) A'" "brk s5 = brk s4"
    "bytes_at s5 (?a + 4) (rev (le_bytes (answer_code c)))"
    "\<forall>b. b < ?a + 4 \<or> ?a + 4 + 4 \<le> b \<longrightarrow> bytes s5 b = bytes s4 b"
    by (rule pack_code [OF s4(2) _ _ t4 s4(4) nz pack [OF nz]]) auto
  have "CheckUserNameOnDB buf db (type_code rq) s = Inr (?a, s4)"
    unfolding code using nz s1(1) w s3(1) s4(1) put by simp
  then have "GetFromClientAndSendToServer buf db s = Inr (?a, s5)"
    using unp nz s5(1,2) ty(2) by (auto simp: GetFromClientAndSendToServer_def)
  moreover have "bytes s5 ?a = Some t" using s5(6) t4 by simp
  moreover have "db_rep s5 db buf F A'" by (rule db_rep_shrink [OF s5(3)]) simp
  moreover have "bytes s5 b = bytes s b" if "b \<in> F" for b
  proof -
    have "b < ?a" using that Fb by auto
    then show ?thesis using s5(6) s4(5) b3 [of b] b2 [of b] by simp
  qed
  moreover have "?a \<le> brk s5" using s5(4) s4(3) s3(3) s1(4) by simp
  moreover have "bytes s5 (?a + 8) = None"
  proof -
    obtain z where "malloc_bytes 8 s = Inr (?a, z)" "bytes z (?a + 8) = None" by (rule db_rep_block_gap [OF rep])
    then have "bytes s1 (?a + 8) = None" using s1(1) by simp
    then have "bytes ?s2 (?a + 8) = None" by (simp add: stored_def map_bytes_out)
    then have "bytes s3 (?a + 8) = None" using s3(4) s1(4) by simp
    then show ?thesis using s5(6) s4(5) by simp
  qed
  ultimately show ?thesis using s5(5) nz by blast
qed

lemma db_not_null: "db_rep s db buf F A \<Longrightarrow> db \<noteq> NULL"
  by (auto simp: db_rep_def view_ok_def base_ok_def)

lemma register_result: "fst (spec_register name pw A) = UNIQE \<or> fst (spec_register name pw A) = ALREADY_EXIST"
  "UNIQE \<noteq> ALREADY_EXIST"
  by (auto simp: spec_register_def UNIQE_def ALREADY_EXIST_def split: option.splits)

lemma register_served:
  fixes s :: "'a db_mem_scheme"
  assumes rep: "db_rep s db buf F A" and buf: "buf \<noteq> NULL" and req: "buffer_holds s buf (Register name pw)"
  shows "\<exists>p s'. GetFromClientAndSendToServer buf db s = Inr (p, s') \<and>
    answer_block s' p (fst (serve (Register name pw) A)) \<and>
    db_rep s' db buf F (snd (serve (Register name pw) A)) \<and> (\<forall>a \<in> F. bytes s' a = bytes s a) \<and>
    brk s \<le> brk s'"
proof -
  let ?r = "fst (spec_register name pw A)"
  let ?c = "if ?r = UNIQE then REGISTER_SUCCESS else REGISTER_USER_NAME_ALLREADY_EXIST"
  let ?put = "\<lambda>a res. if res = UNIQE then wr_u32 (Register_Ans_answer a) (answer_code REGISTER_SUCCESS)
    else if res = ALREADY_EXIST
      then wr_u32 (Register_Ans_answer a) (answer_code REGISTER_USER_NAME_ALLREADY_EXIST) else ret ()"
  have "\<exists>p s'. GetFromClientAndSendToServer buf db s = Inr (p, s') \<and>
    p \<noteq> NULL \<and> bytes s' p = Some (type_code REGISTER_ANS) \<and> bytes_at s' (p + 4) (rev (le_bytes (answer_code ?c))) \<and>
    bytes s' (p + 8) = None \<and>
    db_rep s' db buf F (snd (spec_register name pw A)) \<and> (\<forall>a \<in> F. bytes s' a = bytes s a) \<and> brk s \<le> brk s'"
  proof (rule user_served [OF rep buf, where op = "IsUserNameUnique db buf" and put = ?put
        and r = ?r and rq = REGISTER_REQ])
    show "?put a ?r = wr_u32 (a + 4) (answer_code ?c)" for a
      using register_result(1) [of name pw A] register_result(2) by (auto simp: Register_Ans_answer_def)
  next
    show "Pack (type_code REGISTER_ANS) a s = Inr (0, s\<lparr>bytes := map_bytes (a + 4) (rev (le_bytes w))
        ((bytes s)(a \<mapsto> type_code REGISTER_ANS))\<rparr>)"
      if "a \<noteq> NULL" "bytes s a \<noteq> None" "bytes_at s (a + 4) (le_bytes w)" for a w and s :: "'a db_mem_scheme"
      using that by (rule register_ans.packed)
  qed (use req buf db_not_null [OF rep] IsUserNameUnique_refines in \<open>auto simp: CheckUserNameOnDB_def\<close>)
  then show ?thesis by (auto simp: code_bytes_def answer_block_def)
qed

lemma login_served:
  fixes s :: "'a db_mem_scheme"
  assumes rep: "db_rep s db buf F A" and buf: "buf \<noteq> NULL" and req: "buffer_holds s buf (Login name pw)"
  shows "\<exists>p s'. GetFromClientAndSendToServer buf db s = Inr (p, s') \<and>
    answer_block s' p (fst (serve (Login name pw) A)) \<and>
    db_rep s' db buf F A \<and> (\<forall>a \<in> F. bytes s' a = bytes s a) \<and> brk s \<le> brk s'"
proof -
  let ?r = "spec_login name pw A"
  let ?c = "if ?r = DB_CONNECT_SUCCESFULLY then LOGIN_USER_SUCCESSFULLY_CONNECTED
        else if ?r = DB_WORNG_PSW then LOGIN_WRONG_PSW else LOGIN_USER_NAME_NOT_EXIST"
  let ?put = "\<lambda>a rcv. (case rcv of
      DB_CONNECT_SUCCESFULLY \<Rightarrow> wr_u32 (Login_Ans_answer a) (answer_code LOGIN_USER_SUCCESSFULLY_CONNECTED)
    | DB_ALREADY_CONNECTED \<Rightarrow> wr_u32 (Login_Ans_answer a) (answer_code LOGIN_ALLREADY_CONNECTED)
    | DB_WORNG_USER_NAME \<Rightarrow> wr_u32 (Login_Ans_answer a) (answer_code LOGIN_USER_NAME_NOT_EXIST)
    | DB_WORNG_PSW \<Rightarrow> wr_u32 (Login_Ans_answer a) (answer_code LOGIN_WRONG_PSW)
    | _ \<Rightarrow> ret ())"
  have "\<exists>p s'. GetFromClientAndSendToServer buf db s = Inr (p, s') \<and>
    p \<noteq> NULL \<and> bytes s' p = Some (type_code LOGIN_ANS) \<and> bytes_at s' (p + 4) (rev (le_bytes (answer_code ?c))) \<and>
    bytes s' (p + 8) = None \<and>
    db_rep s' db buf F A \<and> (\<forall>a \<in> F. bytes s' a = bytes s a) \<and> brk s \<le> brk s'"
  proof (rule user_served [OF rep buf, where op = "CheckClientStatusAndConnect db buf" and put = ?put
        and r = ?r and rq = LOGIN_REQ])
    show "?put a ?r = wr_u32 (a + 4) (answer_code ?c)" for a
      by (auto simp: Login_Ans_answer_def spec_login_def split: option.splits)
  next
    show "Pack (type_code LOGIN_ANS) a s = Inr (0, s\<lparr>bytes := map_bytes (a + 4) (rev (le_bytes w))
        ((bytes s)(a \<mapsto> type_code LOGIN_ANS))\<rparr>)"
      if "a \<noteq> NULL" "bytes s a \<noteq> None" "bytes_at s (a + 4) (le_bytes w)" for a w and s :: "'a db_mem_scheme"
      using that by (rule login_ans.packed)
  qed (use req buf db_not_null [OF rep] CheckClientStatusAndConnect_refines in \<open>auto simp: CheckUserNameOnDB_def\<close>)
  then show ?thesis by (auto simp: code_bytes_def answer_block_def)
qed

end
