(* ===== verification/ServerGroups.thy ===== *)
theory ServerGroups
  imports ServerAppSpec
begin

text \<open>
  The requests about groups: \<open>ANSForGroupRequests\<close> allocates four arrays and the answer, calls
  the data base (\<open>group_call\<close>), fills in the answer and leaves its scope. Together with
  \<open>ServerAppSpec\<close> this gives the refinement of \<open>serve\<close> for every request.
\<close>

section \<open>The shape of a request\<close>

definition group_req :: "Protocol_Type \<Rightarrow> bool" where
  "group_req q \<longleftrightarrow> q \<in> {CREATE_GROUP_CONVERSATION_REQ, JOIN_CONVERSATION_REQ, LEAVE_CONVERSATION_REQ}"

fun group_reply :: "Protocol_Type \<Rightarrow> Protocol_Type" where
  "group_reply CREATE_GROUP_CONVERSATION_REQ = CREATE_GROUP_CONVERSATION_ANS"
| "group_reply JOIN_CONVERSATION_REQ = JOIN_CONVERSATION_ANS"
| "group_reply q = LEAVE_CONVERSATION_ANS"

fun group_call :: "Protocol_Type \<Rightarrow> addr \<Rightarrow> addr \<Rightarrow> addr \<Rightarrow> addr \<Rightarrow> addr \<Rightarrow> addr \<Rightarrow>
    ('a db_mem_scheme, DB_Err) prog" where
  "group_call CREATE_GROUP_CONVERSATION_REQ grp db i1 i2 i3 i4 = Check_Group_Name_And_Insert grp db i1"
| "group_call JOIN_CONVERSATION_REQ grp db i1 i2 i3 i4 = Try_to_Join_To_Group grp db i4 i2"
| "group_call q grp db i1 i2 i3 i4 = Try_to_Leave_To_Group grp db i3"

definition leave_scope :: "addr \<Rightarrow> addr \<Rightarrow> addr \<Rightarrow> addr \<Rightarrow> addr \<Rightarrow> ('a bmem_scheme, addr) prog" where
  "leave_scope i1 i2 i3 i4 p =
     chain (end_of_scope i1 MAX_IP_ADDR) (\<lambda>_. chain (end_of_scope i2 MAX_IP_ADDR) (\<lambda>_.
     chain (end_of_scope i3 MAX_IP_ADDR) (\<lambda>_. chain (end_of_scope i4 MAX_IP_ADDR) (\<lambda>_. ret p))))"

definition zone :: "addr \<Rightarrow> addr set" where
  "zone i = {i..<i + 16}"

text \<open>The four arrays and the answer, one after the other above \<open>b\<close>.\<close>

definition arrays :: "addr \<Rightarrow> addr \<Rightarrow> addr \<Rightarrow> addr \<Rightarrow> addr \<Rightarrow> addr \<Rightarrow> bool" where
  "arrays b i1 i2 i3 i4 a \<longleftrightarrow> b \<le> i1 \<and> i1 + 16 < i2 \<and> i2 + 16 < i3 \<and> i3 + 16 < i4 \<and> i4 + 16 < a"

lemma stack_array_frame:
  assumes rep: "db_rep s db buf F A"
  obtains s' where "stack_array MAX_IP_ADDR s = Inr (brk s, s')" "mapped s' (brk s) 16"
    "db_rep s' db buf (F \<union> zone (brk s)) A" "brk s' = brk s + 17" "str_at s' (brk s) []"
    "\<forall>b < brk s. bytes s' b = bytes s b"
  by (rule db_rep_array [OF rep, of MAX_IP_ADDR]) (auto simp: MAX_IP_ADDR_def zone_def)

lemma group_setup:
  fixes s :: "'a db_mem_scheme"
  assumes rep: "db_rep s db buf F A" and q: "group_req q"
  obtains i1 i2 i3 i4 a s' where
    "ANSForGroupRequests grp db (type_code q) s =
       chain (group_call q grp db i1 i2 i3 i4) (\<lambda>r. chain (group_answer a r i1 i2 i3) (\<lambda>_.
       leave_scope i1 i2 i3 i4 a)) s'"
    "arrays (brk s) i1 i2 i3 i4 a" "a + 24 < brk s'" "mapped s' a 24"
    "mapped s' i1 16" "mapped s' i2 16" "mapped s' i3 16" "mapped s' i4 16"
    "str_at s' i1 []" "str_at s' i3 []" "bytes s' a = Some (type_code (group_reply q))"
    "db_rep s' db buf (F \<union> zone i1 \<union> zone i2 \<union> zone i3 \<union> zone i4 \<union> {a..<a + 25}) A"
    "\<forall>b < brk s. bytes s' b = bytes s b" "bytes s' (a + 24) = None"
proof -
  let ?i1 = "brk s"
  have nz: "?i1 \<noteq> NULL" using env_simps(6) [OF db_rep_env [OF rep]] by simp
  obtain s1 where s1: "stack_array MAX_IP_ADDR s = Inr (?i1, s1)" "mapped s1 ?i1 16"
    "db_rep s1 db buf (F \<union> zone ?i1) A" "brk s1 = ?i1 + 17" "str_at s1 ?i1 []"
    "\<forall>b < ?i1. bytes s1 b = bytes s b" by (rule stack_array_frame [OF rep])
  let ?i2 = "?i1 + 17"
  obtain s2 where s2: "stack_array MAX_IP_ADDR s1 = Inr (?i2, s2)" "mapped s2 ?i2 16"
    "db_rep s2 db buf (F \<union> zone ?i1 \<union> zone ?i2) A" "brk s2 = ?i2 + 17" "str_at s2 ?i2 []"
    "\<forall>b < ?i2. bytes s2 b = bytes s1 b" using stack_array_frame [OF s1(3)] unfolding s1(4) by blast
  let ?i3 = "?i2 + 17"
  obtain s3 where s3: "stack_array MAX_IP_ADDR s2 = Inr (?i3, s3)" "mapped s3 ?i3 16"
    "db_rep s3 db buf (F \<union> zone ?i1 \<union> zone ?i2 \<union> zone ?i3) A" "brk s3 = ?i3 + 17" "str_at s3 ?i3 []"
    "\<forall>b < ?i3. bytes s3 b = bytes s2 b" using stack_array_frame [OF s2(3)] unfolding s2(4) by blast
  let ?i4 = "?i3 + 17"
  obtain s4 where s4: "stack_array MAX_IP_ADDR s3 = Inr (?i4, s4)" "mapped s4 ?i4 16"
    "db_rep s4 db buf (F \<union> zone ?i1 \<union> zone ?i2 \<union> zone ?i3 \<union> zone ?i4) A" "brk s4 = ?i4 + 17"
    "str_at s4 ?i4 []" "\<forall>b < ?i4. bytes s4 b = bytes s3 b"
    using stack_array_frame [OF s3(3)] unfolding s3(4) by blast
  let ?a = "?i4 + 17" and ?F = "F \<union> zone ?i1 \<union> zone ?i2 \<union> zone ?i3 \<union> zone ?i4"
  let ?t = "type_code (group_reply q)"
  obtain s5 where s5: "malloc_bytes 24 s4 = Inr (?a, s5)" "mapped s5 ?a 24"
    "db_rep s5 db buf (?F \<union> {?a..<?a + 25}) A" "brk s5 = ?a + 24 + 1" "\<forall>b < ?a. bytes s5 b = bytes s4 b"
    "bytes s5 (?a + 24) = None"
    using db_rep_block_gap [OF s4(3), of 24] unfolding s4(4) by auto
  let ?s = "stored ?a [?t] s5"
  have m1: "mapped s5 ?a 1" using mapped_sub [OF s5(2), of 0 1] by simp
  have w: "wr_byte ?a ?t s5 = Inr ((), ?s)" unfolding wr_byte_def by (rule put_stored [OF m1]) simp
  have rF: "db_rep ?s db buf (?F \<union> {?a..<?a + 25}) A"
    by (rule db_rep_stored [OF s5(3)]) (use m1 in auto)
  have b5: "bytes ?s b = bytes s5 b" if "b < ?a" for b using that by (simp add: stored_def map_bytes_out)
  have b1: "bytes ?s b = bytes s1 b" if "b < ?i2" for b
    using that b5 s5(5) s4(6) s3(6) s2(6) by simp
  have b2: "bytes ?s b = bytes s2 b" if "b < ?i3" for b using that b5 s5(5) s4(6) s3(6) by simp
  have b3: "bytes ?s b = bytes s3 b" if "b < ?i4" for b using that b5 s5(5) s4(6) by simp
  have b4: "bytes ?s b = bytes s4 b" if "b < ?a" for b using that b5 s5(5) by simp
  have run: "ANSForGroupRequests grp db (type_code q) s =
    chain (group_call q grp db ?i1 ?i2 ?i3 ?i4) (\<lambda>r. chain (group_answer ?a r ?i1 ?i2 ?i3) (\<lambda>_.
       leave_scope ?i1 ?i2 ?i3 ?i4 ?a)) ?s"
    using q s1(1) s2(1) s3(1) s4(1) s5(1) w nz
    by (auto simp: ANSForGroupRequests_def group_req_def leave_scope_def chain_assoc)
  show ?thesis
  proof (rule that [OF run])
    show "arrays (brk s) ?i1 ?i2 ?i3 ?i4 ?a" by (simp add: arrays_def)
    show "mapped ?s ?a 24" by (rule mapped_stored [OF s5(2)])
    show "mapped ?s ?i1 16" by (rule mapped_cong [OF s1(2)]) (use b1 in simp)
    show "mapped ?s ?i2 16" by (rule mapped_cong [OF s2(2)]) (use b2 in simp)
    show "mapped ?s ?i3 16" by (rule mapped_cong [OF s3(2)]) (use b3 in simp)
    show "mapped ?s ?i4 16" by (rule mapped_cong [OF s4(2)]) (use b4 in simp)
    show "str_at ?s ?i1 []" by (rule str_at_cong [OF s1(5)]) (use b1 s1(4) s5(4) in simp_all)
    show "str_at ?s ?i3 []" by (rule str_at_cong [OF s3(5)]) (use b3 s3(4) s5(4) in simp_all)
    show "bytes ?s ?a = Some ?t" by (simp add: stored_def map_bytes_def)
    show "\<forall>b < brk s. bytes ?s b = bytes s b" using b1 s1(6) by simp
    from s5(6) show "bytes ?s (?a + 24) = None" by (simp add: stored_def map_bytes_out)
  qed (use rF s5(4) in simp_all)
qed

section \<open>Filling in the answer\<close>

lemma leave_scope_ok:
  assumes rep: "db_rep s db buf F A" and "zone i1 \<union> zone i2 \<union> zone i3 \<union> zone i4 \<subseteq> F"
  obtains s' where "leave_scope i1 i2 i3 i4 a s = Inr (a, s')" "db_rep s' db buf F A" "brk s' = brk s"
    "\<forall>b. b \<notin> zone i1 \<union> zone i2 \<union> zone i3 \<union> zone i4 \<longrightarrow> bytes s' b = bytes s b"
proof -
  have z: "{i1..<i1 + 16} \<subseteq> F" "{i2..<i2 + 16} \<subseteq> F" "{i3..<i3 + 16} \<subseteq> F" "{i4..<i4 + 16} \<subseteq> F"
    using assms(2) by (simp_all add: zone_def)
  obtain s1 where s1: "end_of_scope i1 16 s = Inr ((), s1)" "db_rep s1 db buf F A" "brk s1 = brk s"
    "\<forall>b. b < i1 \<or> i1 + 16 \<le> b \<longrightarrow> bytes s1 b = bytes s b" by (rule db_rep_scope [OF rep z(1)])
  obtain s2 where s2: "end_of_scope i2 16 s1 = Inr ((), s2)" "db_rep s2 db buf F A" "brk s2 = brk s1"
    "\<forall>b. b < i2 \<or> i2 + 16 \<le> b \<longrightarrow> bytes s2 b = bytes s1 b" by (rule db_rep_scope [OF s1(2) z(2)])
  obtain s3 where s3: "end_of_scope i3 16 s2 = Inr ((), s3)" "db_rep s3 db buf F A" "brk s3 = brk s2"
    "\<forall>b. b < i3 \<or> i3 + 16 \<le> b \<longrightarrow> bytes s3 b = bytes s2 b" by (rule db_rep_scope [OF s2(2) z(3)])
  obtain s4 where s4: "end_of_scope i4 16 s3 = Inr ((), s4)" "db_rep s4 db buf F A" "brk s4 = brk s3"
    "\<forall>b. b < i4 \<or> i4 + 16 \<le> b \<longrightarrow> bytes s4 b = bytes s3 b" by (rule db_rep_scope [OF s3(2) z(4)])
  have "leave_scope i1 i2 i3 i4 a s = Inr (a, s4)"
    using s1(1) s2(1) s3(1) s4(1) by (simp add: leave_scope_def MAX_IP_ADDR_def)
  moreover have "bytes s4 b = bytes s b" if "b \<notin> zone i1 \<union> zone i2 \<union> zone i3 \<union> zone i4" for b
  proof -
    have o: "b < i1 \<or> i1 + 16 \<le> b" "b < i2 \<or> i2 + 16 \<le> b" "b < i3 \<or> i3 + 16 \<le> b" "b < i4 \<or> i4 + 16 \<le> b"
      using that by (auto simp: zone_def)
    show ?thesis
      using s1(4) [rule_format, OF o(1)] s2(4) [rule_format, OF o(2)] s3(4) [rule_format, OF o(3)]
        s4(4) [rule_format, OF o(4)] by simp
  qed
  ultimately show ?thesis using that s4(2,3) s3(3) s2(3) s1(3) by simp
qed

text \<open>Copying the address (if there is one) and storing the code.\<close>

definition fill_answer :: "addr \<Rightarrow> addr option \<Rightarrow> Answers \<Rightarrow> ('a bmem_scheme, unit) prog" where
  "fill_answer a src c =
     (case src of None \<Rightarrow> wr_u32 (a + 20) (answer_code c)
      | Some p \<Rightarrow> chain (strcpy (a + 1) p) (\<lambda>_. wr_u32 (a + 20) (answer_code c)))"

lemma fill_answer_ok:
  fixes s :: "'a db_mem_scheme"
  assumes rep: "db_rep s db buf F A" and m: "mapped s a 24" and F: "{a..<a + 24} \<subseteq> F"
    and a: "a + 24 < brk s"
    and src: "\<forall>p. src = Some p \<longrightarrow> str_at s p xs" "src \<noteq> None \<longrightarrow> length xs \<le> 18"
  obtains s' where "fill_answer a src c s = Inr ((), s')" "db_rep s' db buf F A" "brk s' = brk s"
    "bytes_at s' (a + 20) (le_bytes (answer_code c))" "src \<noteq> None \<longrightarrow> str_at s' (a + 1) xs"
    "\<forall>b. b < a + 1 \<or> a + 24 \<le> b \<longrightarrow> bytes s' b = bytes s b"
proof (cases src)
  case None
  obtain s' where s': "wr_u32 (a + 20) (answer_code c) s = Inr ((), s')" "db_rep s' db buf F A" "brk s' = brk s"
    "bytes_at s' (a + 20) (le_bytes (answer_code c))"
    "\<forall>b. b < a + 20 \<or> a + 20 + 4 \<le> b \<longrightarrow> bytes s' b = bytes s b" "mapped s' a 24"
    by (rule store_code [OF rep m F, of 20 "answer_code c"]) simp
  show ?thesis by (rule that [OF _ s'(2,3,4)]) (use None s'(1,5) in \<open>simp_all add: fill_answer_def\<close>)
next
  case (Some p)
  have str: "str_at s p xs" "0 \<notin> set xs" and len: "length xs \<le> 18" using src Some by (auto simp: str_at_def)
  have m1: "mapped s (a + 1) 19" by (rule mapped_sub [OF m]) simp
  let ?s1 = "stored (a + 1) (xs @ [0]) s"
  have cp: "strcpy (a + 1) p s = Inr ((), ?s1)"
    by (rule strcpy_stored [OF str(1) m1]) (use len in simp)
  have r1: "db_rep ?s1 db buf F A"
    by (rule db_rep_stored [OF rep]) (use mapped_sub [OF m, of 1 "length xs + 1"] len F in auto)
  obtain s' where s': "wr_u32 (a + 20) (answer_code c) ?s1 = Inr ((), s')" "db_rep s' db buf F A" "brk s' = brk ?s1"
    "bytes_at s' (a + 20) (le_bytes (answer_code c))"
    "\<forall>b. b < a + 20 \<or> a + 20 + 4 \<le> b \<longrightarrow> bytes s' b = bytes ?s1 b" "mapped s' a 24"
    by (rule store_code [OF r1 mapped_stored [OF m] F, of 20 "answer_code c"]) simp
  have "str_at ?s1 (a + 1) xs" by (rule str_at_stored_new) (use str(2) a len in simp_all)
  then have "str_at s' (a + 1) xs" by (rule str_at_cong) (use s'(3,5) len in simp_all)
  moreover have "bytes s' b = bytes s b" if "b < a + 1 \<or> a + 24 \<le> b" for b
  proof -
    have "bytes s' b = bytes ?s1 b" using s'(5) that by auto
    also have "\<dots> = bytes s b" using that len by (auto simp: stored_def map_bytes_out)
    finally show ?thesis .
  qed
  ultimately show ?thesis using that [OF _ s'(2)] s'(1,3,4) cp Some by (simp add: fill_answer_def)
qed

text \<open>Packing the answer; the code of a leave answer stays as it is.\<close>

lemma pack_group:
  fixes s :: "'a db_mem_scheme"
  assumes rep: "db_rep s db buf F A" and F: "{a..<a + 24} \<subseteq> F" and a: "a \<noteq> NULL" and q: "group_req q"
    and t: "bytes s a = Some (type_code (group_reply q))"
    and c: "bytes_at s (a + 20) (le_bytes (answer_code c))"
  obtains s' where "rd_byte a s = Inr (type_code (group_reply q), s)"
    "Pack (type_code (group_reply q)) a s = Inr (0, s')" "db_rep s' db buf F A" "brk s' = brk s"
    "bytes_at s' (a + 20) (code_bytes (group_reply q) c)"
    "\<forall>b. b < a + 20 \<or> a + 24 \<le> b \<longrightarrow> bytes s' b = bytes s b"
proof (cases "q = LEAVE_CONVERSATION_REQ")
  case True
  show ?thesis
    by (rule that [of s]) (use True rep t c a Pack_leave_answer [of a s] in \<open>simp_all add: rd_byte_step code_bytes_def\<close>)
next
  case False
  then have q2: "q = CREATE_GROUP_CONVERSATION_REQ \<or> q = JOIN_CONVERSATION_REQ" using q by (auto simp: group_req_def)
  have pk: "Pack (type_code (group_reply q)) a s = Inr (0, s\<lparr>bytes :=
      map_bytes (a + 20) (rev (le_bytes w)) ((bytes s)(a \<mapsto> type_code (group_reply q)))\<rparr>)"
    if "bytes_at s (a + 20) (le_bytes w)" "bytes s a \<noteq> None" for w and s :: "'a db_mem_scheme"
    using q2
  proof
    assume "q = CREATE_GROUP_CONVERSATION_REQ"
    then show ?thesis using create_ans.packed [OF a that(2,1)] by simp
  next
    assume "q = JOIN_CONVERSATION_REQ"
    then show ?thesis using join_ans.packed [OF a that(2,1)] by simp
  qed
  obtain s5 where s5: "rd_byte a s = Inr (type_code (group_reply q), s)"
    "Pack (type_code (group_reply q)) a s = Inr (0, s5)" "db_rep s5 db buf F A" "brk s5 = brk s"
    "bytes_at s5 (a + 20) (rev (le_bytes (answer_code c)))"
    "\<forall>b. b < a + 20 \<or> a + 20 + 4 \<le> b \<longrightarrow> bytes s5 b = bytes s b"
    by (rule pack_code [OF rep _ _ t c a pk]) (use F in auto)
  show ?thesis
    by (rule that [OF s5(1-4)]) (use s5(5,6) q2 in \<open>auto simp: code_bytes_def\<close>)
qed

section \<open>Requests about groups\<close>

text \<open>What a request needs of the call of the data base, and gets from \<open>DataBaseOps\<close>.\<close>

definition call_ok :: "'a db_mem_scheme \<Rightarrow> addr \<Rightarrow> addr \<Rightarrow> addr set \<Rightarrow> addr \<Rightarrow> addr \<Rightarrow> addr \<Rightarrow> addr \<Rightarrow>
    u8 list \<Rightarrow> u8 list \<Rightarrow> bool" where
  "call_ok s db buf F i1 i2 i3 i4 g u \<longleftrightarrow> group_request s buf g u \<and>
     ip_array s F buf i1 \<and> ip_array s F buf i2 \<and> ip_array s F buf i3 \<and> ip_array s F buf i4 \<and>
     i1 + 16 < i2 \<and> i2 + 16 < i3 \<and> i3 + 16 < i4 \<and> str_at s i1 [] \<and> str_at s i3 []"

lemma group_served:
  fixes s :: "'a db_mem_scheme"
  assumes rep: "db_rep s db buf F A" and buf: "buf \<noteq> NULL" "{buf..<buf + 36} \<subseteq> F"
    and q: "group_req q" and ty: "bytes s buf = Some (type_code q)" and req: "group_request s buf g u"
    and call: "\<And>(s2 :: 'a db_mem_scheme) F' i1 i2 i3 i4. db_rep s2 db buf F' A \<Longrightarrow>
      call_ok s2 db buf F' i1 i2 i3 i4 g u \<Longrightarrow>
      \<exists>s3. group_call q buf db i1 i2 i3 i4 s2 = Inr (r, s3) \<and> db_rep s3 db buf F' A' \<and> brk s2 \<le> brk s3 \<and>
        (\<forall>b \<in> F'. b \<notin> zone i1 \<union> zone i2 \<union> zone i4 \<longrightarrow> bytes s3 b = bytes s2 b) \<and>
        (\<forall>p. src i1 i2 i3 = Some p \<longrightarrow> str_at s3 p (the ip)) \<and> (src i1 i2 i3 = None \<longleftrightarrow> ip = None)"
    and fill: "\<And>a i1 i2 i3. (group_answer a r i1 i2 i3 :: ('a db_mem_scheme, unit) prog) = fill_answer a (src i1 i2 i3) c"
    and ip: "ip \<noteq> None \<longrightarrow> length (the ip) \<le> 18"
  shows "\<exists>p s'. GetFromClientAndSendToServer buf db s = Inr (p, s') \<and>
    answer_block s' p (GroupAnswer (group_reply q) c ip) \<and>
    db_rep s' db buf F A' \<and> (\<forall>a \<in> F. bytes s' a = bytes s a) \<and> brk s \<le> brk s'"
proof -
  have Fb: "F \<subseteq> {..<brk s}" using rep by (simp add: db_rep_def)
  then have bufb: "buf + 36 \<le> brk s" using buf(2) subsetD [OF subset_trans [OF buf(2) Fb], of "buf + 35"] by simp
  obtain i1 i2 i3 i4 a s1 where
    run: "ANSForGroupRequests buf db (type_code q) s =
       chain (group_call q buf db i1 i2 i3 i4) (\<lambda>r. chain (group_answer a r i1 i2 i3) (\<lambda>_.
       leave_scope i1 i2 i3 i4 a)) s1"
    and ar: "arrays (brk s) i1 i2 i3 i4 a" "a + 24 < brk s1" "mapped s1 a 24"
    and m: "mapped s1 i1 16" "mapped s1 i2 16" "mapped s1 i3 16" "mapped s1 i4 16"
    and str: "str_at s1 i1 []" "str_at s1 i3 []" and t: "bytes s1 a = Some (type_code (group_reply q))"
    and r1: "db_rep s1 db buf (F \<union> zone i1 \<union> zone i2 \<union> zone i3 \<union> zone i4 \<union> {a..<a + 25}) A"
    and b1: "\<forall>b < brk s. bytes s1 b = bytes s b" and gap: "bytes s1 (a + 24) = None" by (rule group_setup [OF rep q])
  let ?F = "F \<union> zone i1 \<union> zone i2 \<union> zone i3 \<union> zone i4 \<union> {a..<a + 25}"
  let ?Z = "zone i1 \<union> zone i2 \<union> zone i3 \<union> zone i4"
  have sub24: "{a..<a + 24} \<subseteq> ?F" by auto
  have le: "brk s \<le> i1" "i1 + 16 < i2" "i2 + 16 < i3" "i3 + 16 < i4" "i4 + 16 < a"
    using ar(1) by (simp_all add: arrays_def)
  have oZ: "b \<notin> ?Z" if "b < brk s \<or> a \<le> b" for b using that le by (auto simp: zone_def)
  have "call_ok s1 db buf ?F i1 i2 i3 i4 g u"
    using m str le bufb group_request_cong [OF req, of s1] b1 ar(2)
    by (auto simp: call_ok_def ip_array_def zone_def)
  from call [OF r1 this] obtain s2 where s2: "group_call q buf db i1 i2 i3 i4 s1 = Inr (r, s2)"
    "db_rep s2 db buf ?F A'" "brk s1 \<le> brk s2"
    "\<forall>b \<in> ?F. b \<notin> zone i1 \<union> zone i2 \<union> zone i4 \<longrightarrow> bytes s2 b = bytes s1 b"
    "\<forall>p. src i1 i2 i3 = Some p \<longrightarrow> str_at s2 p (the ip)" "src i1 i2 i3 = None \<longleftrightarrow> ip = None"
    by (elim exE conjE) (rule that; assumption)
  have b2: "bytes s2 b = bytes s1 b" if "b \<in> F \<or> a \<le> b \<and> b < a + 25" for b
  proof -
    have "b < brk s \<or> a \<le> b" using that Fb by auto
    then have n: "b \<notin> zone i1 \<union> zone i2 \<union> zone i4" using oZ [of b] by auto
    have F: "b \<in> ?F" using that by auto
    show ?thesis by (rule mp [OF bspec [OF s2(4) F] n])
  qed
  have m2: "mapped s2 a 24" by (rule mapped_cong [OF ar(3)]) (use b2 in simp)
  have a: "a \<noteq> NULL" using m2 by (simp add: mapped_def)
  obtain s3 where s3: "fill_answer a (src i1 i2 i3) c s2 = Inr ((), s3)" "db_rep s3 db buf ?F A'"
    "brk s3 = brk s2" "bytes_at s3 (a + 20) (le_bytes (answer_code c))"
    "src i1 i2 i3 \<noteq> None \<longrightarrow> str_at s3 (a + 1) (the ip)"
    "\<forall>b. b < a + 1 \<or> a + 24 \<le> b \<longrightarrow> bytes s3 b = bytes s2 b"
    by (rule fill_answer_ok [OF s2(2) m2 _ _ s2(5), where c = c]) (use ar(2) s2(3,6) ip sub24 in simp_all)
  obtain s4 where s4: "leave_scope i1 i2 i3 i4 a s3 = Inr (a, s4)" "db_rep s4 db buf ?F A'" "brk s4 = brk s3"
    "\<forall>b. b \<notin> ?Z \<longrightarrow> bytes s4 b = bytes s3 b" by (rule leave_scope_ok [OF s3(2), of i1 i2 i3 i4 a]) auto
  have b4: "bytes s4 b = bytes s3 b" if "b < brk s \<or> a \<le> b" for b using s4(4) oZ [OF that] by blast
  have t4: "bytes s4 a = Some (type_code (group_reply q))" using b4 [of a] s3(6) b2 [of a] t by simp
  have c4: "bytes_at s4 (a + 20) (le_bytes (answer_code c))"
    by (rule bytes_at_cong [OF s3(4)]) (use b4 in simp)
  obtain s5 where s5: "rd_byte a s4 = Inr (type_code (group_reply q), s4)"
    "Pack (type_code (group_reply q)) a s4 = Inr (0, s5)" "db_rep s5 db buf ?F A'" "brk s5 = brk s4"
    "bytes_at s5 (a + 20) (code_bytes (group_reply q) c)"
    "\<forall>b. b < a + 20 \<or> a + 24 \<le> b \<longrightarrow> bytes s5 b = bytes s4 b"
    by (rule pack_group [OF s4(2) _ a q t4 c4]) (use sub24 in auto)
  have b5: "bytes s5 b = bytes s3 b" if "b < brk s \<or> a \<le> b" "b < a + 20" for b
    using s5(6) b4 [OF that(1)] that(2) by simp
  have "ANSForGroupRequests buf db (type_code q) s = Inr (a, s4)"
    using run s2(1) s3(1) s4(1) fill by simp
  moreover have "UnPack buf s = Inr ((0, type_code q), s)"
    by (rule UnPack_request [OF buf(1) ty]) (use q in \<open>auto simp: group_req_def\<close>)
  ultimately have "GetFromClientAndSendToServer buf db s = Inr (a, s5)"
    using s5(1,2) q by (auto simp: GetFromClientAndSendToServer_def group_req_def)
  moreover have "answer_block s5 a (GroupAnswer (group_reply q) c ip)"
  proof -
    have "str_at s5 (a + 1) (the ip)" if "ip \<noteq> None"
      by (rule str_at_cong [of s3])
        (use that s2(6) s3(5) b5 ip s5(4) s4(3) in auto)
    moreover have "bytes s5 (a + 24) = None"
      using gap b2 [of "a + 24"] s5(6) s3(6) b4 [of "a + 24"] by simp
    ultimately show ?thesis using a s5(5) b5 [of a] s3(6) b2 [of a] t by (auto simp: answer_block_def split: option.splits)
  qed
  moreover have "db_rep s5 db buf F A'" by (rule db_rep_shrink [OF s5(3)]) blast
  moreover have "bytes s5 b = bytes s b" if "b \<in> F" for b
  proof -
    have "b < brk s" using that Fb by auto
    then show ?thesis using b5 [of b] s3(6) b2 [of b] b1 that le by simp
  qed
  moreover have "brk s \<le> brk s5" using s5(4) s4(3) s3(3) s2(3) ar(2) le by simp
  ultimately show ?thesis by blast
qed


lemma call_ok_facts:
  "call_ok s db buf F i1 i2 i3 i4 g u \<Longrightarrow> group_request s buf g u"
  "call_ok s db buf F i1 i2 i3 i4 g u \<Longrightarrow> ip_array s F buf i1"
  "call_ok s db buf F i1 i2 i3 i4 g u \<Longrightarrow> ip_array s F buf i2"
  "call_ok s db buf F i1 i2 i3 i4 g u \<Longrightarrow> ip_array s F buf i4"
  "call_ok s db buf F i1 i2 i3 i4 g u \<Longrightarrow> zone i1 \<subseteq> F"
  "call_ok s db buf F i1 i2 i3 i4 g u \<Longrightarrow> str_at s i1 []"
  "call_ok s db buf F i1 i2 i3 i4 g u \<Longrightarrow> str_at s i3 []"
  "call_ok s db buf F i1 i2 i3 i4 g u \<Longrightarrow> i4 + 16 \<le> i2 \<or> i2 + 16 \<le> i4"
  "call_ok s db buf F i1 i2 i3 i4 g u \<Longrightarrow> i1 + 16 \<le> i2 \<and> i1 + 16 \<le> i4"
  by (auto simp: call_ok_def ip_array_def zone_def)

lemma leave_served:
  fixes s :: "'a db_mem_scheme"
  assumes rep: "db_rep s db buf F A" and buf: "buf \<noteq> NULL" "{buf..<buf + 36} \<subseteq> F"
    and req: "buffer_holds s buf (LeaveGroup g u)"
  shows "\<exists>p s'. GetFromClientAndSendToServer buf db s = Inr (p, s') \<and>
    answer_block s' p (fst (serve (LeaveGroup g u) A)) \<and>
    db_rep s' db buf F A \<and> (\<forall>a \<in> F. bytes s' a = bytes s a) \<and> brk s \<le> brk s'"
proof -
  let ?q = LEAVE_CONVERSATION_REQ
  have "\<exists>p s'. GetFromClientAndSendToServer buf db s = Inr (p, s') \<and>
    answer_block s' p (GroupAnswer (group_reply ?q) GROUP_NAME_NOT_EXIST (Some [])) \<and>
    db_rep s' db buf F A \<and> (\<forall>a \<in> F. bytes s' a = bytes s a) \<and> brk s \<le> brk s'"
  proof (rule group_served [OF rep buf, where r = DB_GROUP_NAME_NOT_EXIST and src = "\<lambda>i1 i2 i3. Some i1"])
    fix s2 :: "'a db_mem_scheme" and F' i1 i2 i3 i4
    assume r2: "db_rep s2 db buf F' A" and ok: "call_ok s2 db buf F' i1 i2 i3 i4 g u"
    show "\<exists>s3. group_call ?q buf db i1 i2 i3 i4 s2 = Inr (DB_GROUP_NAME_NOT_EXIST, s3) \<and>
        db_rep s3 db buf F' A \<and> brk s2 \<le> brk s3 \<and>
        (\<forall>b \<in> F'. b \<notin> zone i1 \<union> zone i2 \<union> zone i4 \<longrightarrow> bytes s3 b = bytes s2 b) \<and>
        (\<forall>p. Some i1 = Some p \<longrightarrow> str_at s3 p (the (Some []))) \<and> (Some i1 = None \<longleftrightarrow> Some ([] :: u8 list) = None)"
      using Try_to_Leave_refines [OF r2 call_ok_facts(1) [OF ok] buf(1)] r2 call_ok_facts(6) [OF ok] by simp
  qed (use req in \<open>simp_all add: group_req_def fill_answer_def group_answer_def
      Create_Group_Ans_groupIP_def Create_Group_Ans_answer_def\<close>)
  then show ?thesis by simp
qed

lemma create_served:
  fixes s :: "'a db_mem_scheme"
  assumes rep: "db_rep s db buf F A" and buf: "buf \<noteq> NULL" "{buf..<buf + 36} \<subseteq> F"
    and req: "buffer_holds s buf (CreateGroup g u)"
  shows "\<exists>p s'. GetFromClientAndSendToServer buf db s = Inr (p, s') \<and>
    answer_block s' p (fst (serve (CreateGroup g u) A)) \<and>
    db_rep s' db buf F (snd (serve (CreateGroup g u) A)) \<and> (\<forall>a \<in> F. bytes s' a = bytes s a) \<and> brk s \<le> brk s'"
proof (cases "a_groups A (slot g)")
  case (Some G)
  let ?q = CREATE_GROUP_CONVERSATION_REQ
  have "\<exists>p s'. GetFromClientAndSendToServer buf db s = Inr (p, s') \<and>
    answer_block s' p (GroupAnswer (group_reply ?q) GROUP_NAME_ALREADY_EXIST None) \<and>
    db_rep s' db buf F A \<and> (\<forall>a \<in> F. bytes s' a = bytes s a) \<and> brk s \<le> brk s'"
  proof (rule group_served [OF rep buf, where r = DB_GROUP_NAME_ALREADY_EXIST and src = "\<lambda>i1 i2 i3. None"])
    fix s2 :: "'a db_mem_scheme" and F' i1 i2 i3 i4
    assume r2: "db_rep s2 db buf F' A" and ok: "call_ok s2 db buf F' i1 i2 i3 i4 g u"
    obtain s3 where s3: "Check_Group_Name_And_Insert buf db i1 s2 = Inr (DB_GROUP_NAME_ALREADY_EXIST, s3)"
      "db_rep s3 db buf F' A" "brk s2 \<le> brk s3" "\<forall>a < brk s2. bytes s3 a = bytes s2 a"
      using Check_Group_dup [OF r2 call_ok_facts(1) [OF ok] buf(1)] Some by blast
    moreover have "F' \<subseteq> {..<brk s2}" using r2 by (simp add: db_rep_def)
    ultimately show "\<exists>s3. group_call ?q buf db i1 i2 i3 i4 s2 = Inr (DB_GROUP_NAME_ALREADY_EXIST, s3) \<and>
        db_rep s3 db buf F' A \<and> brk s2 \<le> brk s3 \<and>
        (\<forall>b \<in> F'. b \<notin> zone i1 \<union> zone i2 \<union> zone i4 \<longrightarrow> bytes s3 b = bytes s2 b) \<and>
        (\<forall>p. None = Some p \<longrightarrow> str_at s3 p (the None)) \<and> ((None :: addr option) = None \<longleftrightarrow> (None :: u8 list option) = None)"
      by (intro exI [of _ s3]) auto
  qed (use req in \<open>simp_all add: group_req_def fill_answer_def group_answer_def
      Create_Group_Ans_groupIP_def Create_Group_Ans_answer_def\<close>)
  then show ?thesis using Some by (simp add: spec_create_def)
next
  case None
  let ?q = CREATE_GROUP_CONVERSATION_REQ and ?A = "snd (spec_create g A)"
  have "\<exists>p s'. GetFromClientAndSendToServer buf db s = Inr (p, s') \<and>
    answer_block s' p (GroupAnswer (group_reply ?q) GROUP_SUCCESSFULLY_INSERT (Some (next_ip A))) \<and>
    db_rep s' db buf F ?A \<and> (\<forall>a \<in> F. bytes s' a = bytes s a) \<and> brk s \<le> brk s'"
  proof (rule group_served [OF rep buf, where r = DB_GROUP_SUCCESSFULLY_INSERT and src = "\<lambda>i1 i2 i3. Some i1"])
    fix s2 :: "'a db_mem_scheme" and F' i1 i2 i3 i4
    assume r2: "db_rep s2 db buf F' A" and ok: "call_ok s2 db buf F' i1 i2 i3 i4 g u"
    obtain s3 where s3: "Check_Group_Name_And_Insert buf db i1 s2 = Inr (DB_GROUP_SUCCESSFULLY_INSERT, s3)"
      "db_rep s3 db buf F' ?A" "str_at s3 i1 (next_ip A)" "brk s2 \<le> brk s3"
      "\<forall>a < brk s2. a \<notin> {i1..<i1 + 16} \<longrightarrow> bytes s3 a = bytes s2 a"
      using Check_Group_new [OF r2 call_ok_facts(1) [OF ok] buf(1) None call_ok_facts(2) [OF ok]] by blast
    moreover have "F' \<subseteq> {..<brk s2}" using r2 by (simp add: db_rep_def)
    ultimately show "\<exists>s3. group_call ?q buf db i1 i2 i3 i4 s2 = Inr (DB_GROUP_SUCCESSFULLY_INSERT, s3) \<and>
        db_rep s3 db buf F' ?A \<and> brk s2 \<le> brk s3 \<and>
        (\<forall>b \<in> F'. b \<notin> zone i1 \<union> zone i2 \<union> zone i4 \<longrightarrow> bytes s3 b = bytes s2 b) \<and>
        (\<forall>p. Some i1 = Some p \<longrightarrow> str_at s3 p (the (Some (next_ip A)))) \<and>
        (Some i1 = None \<longleftrightarrow> Some (next_ip A) = None)"
      by (intro exI [of _ s3]) (auto simp: zone_def)
  qed (use req next_ip_facts(1) [of A] in \<open>simp_all add: group_req_def fill_answer_def group_answer_def
      Create_Group_Ans_groupIP_def Create_Group_Ans_answer_def\<close>)
  then show ?thesis using None by (simp add: spec_create_def)
qed

lemma group_ip_length:
  assumes rep: "db_rep s db buf F A" and G: "a_groups A i = Some G"
  shows "length (g_ip G) \<le> 13"
proof -
  obtain V where V: "view_ok s db buf A V" using rep by (auto simp: db_rep_def)
  then have "rel_option (group_rep s) (v_gvals V i) (Some G)" using view_group [OF V, of i] G by simp
  then show ?thesis by (auto simp: option_rel_Some2 group_rep_def)
qed

lemma join_served:
  fixes s :: "'a db_mem_scheme"
  assumes rep: "db_rep s db buf F A" and buf: "buf \<noteq> NULL" "{buf..<buf + 36} \<subseteq> F"
    and req: "buffer_holds s buf (JoinGroup g u)"
    and count: "\<forall>G. a_groups A (slot g) = Some G \<longrightarrow> g_count G + 1 < 2 ^ 31"
  shows "\<exists>p s'. GetFromClientAndSendToServer buf db s = Inr (p, s') \<and>
    answer_block s' p (fst (serve (JoinGroup g u) A)) \<and>
    db_rep s' db buf F (snd (serve (JoinGroup g u) A)) \<and> (\<forall>a \<in> F. bytes s' a = bytes s a) \<and> brk s \<le> brk s'"
proof -
  let ?q = JOIN_CONVERSATION_REQ
  obtain r ip A' where j: "spec_join g A = (r, ip, A')" by (cases "spec_join g A")
  let ?src = "\<lambda>i1 i2 i3 :: addr. Some (if r = DB_GROUP_JOIN_SUCCESSFULLY then i2 else i1 :: addr)"
  let ?c = "if r = DB_GROUP_JOIN_SUCCESSFULLY then GROUP_SUCCESSFULLY_JOIN
    else if r = DB_GROUP_NAME_NOT_EXIST then GROUP_NAME_NOT_EXIST else GROUP_SUCCESSFULLY_INSERT"
  have r: "r = DB_GROUP_JOIN_SUCCESSFULLY \<or> r = DB_GROUP_NAME_NOT_EXIST \<and> ip = [] \<or>
      r = DB_GROUP_SUCCESSFULLY_INSERT \<and> ip = []"
    and len: "length ip \<le> 18"
    using j group_ip_length [OF rep, of "slot g"]
    by (force simp: spec_join_def split: option.splits if_splits)+
  have "\<exists>p s'. GetFromClientAndSendToServer buf db s = Inr (p, s') \<and>
    answer_block s' p (GroupAnswer (group_reply ?q) ?c (Some ip)) \<and>
    db_rep s' db buf F A' \<and> (\<forall>a \<in> F. bytes s' a = bytes s a) \<and> brk s \<le> brk s'"
  proof (rule group_served [OF rep buf, where r = r and src = ?src])
    fix s2 :: "'a db_mem_scheme" and F' i1 i2 i3 i4
    assume r2: "db_rep s2 db buf F' A" and ok: "call_ok s2 db buf F' i1 i2 i3 i4 g u"
    obtain s3 where s3: "Try_to_Join_To_Group buf db i4 i2 s2 = Inr (r, s3)" "db_rep s3 db buf F' A'"
      "r = DB_GROUP_JOIN_SUCCESSFULLY \<longrightarrow> str_at s3 i2 ip" "brk s2 \<le> brk s3"
      "\<forall>a \<in> F'. a \<notin> {i4..<i4 + 16} \<longrightarrow> a \<notin> {i2..<i2 + 16} \<longrightarrow> bytes s3 a = bytes s2 a"
      using Try_to_Join_refines [OF r2 call_ok_facts(1) [OF ok] buf(1) call_ok_facts(4) [OF ok]
        call_ok_facts(3,8) [OF ok] count] unfolding j by auto
    have "i1 \<in> F'" using call_ok_facts(5) [OF ok] by (auto simp: zone_def)
    then have "bytes s3 i1 = bytes s2 i1" using s3(5) call_ok_facts(9) [OF ok] by simp
    with call_ok_facts(6) [OF ok] s3(4) have "str_at s3 i1 []" by (simp add: str_at_Nil)
    with s3 r show "\<exists>s3. group_call ?q buf db i1 i2 i3 i4 s2 = Inr (r, s3) \<and>
        db_rep s3 db buf F' A' \<and> brk s2 \<le> brk s3 \<and>
        (\<forall>b \<in> F'. b \<notin> zone i1 \<union> zone i2 \<union> zone i4 \<longrightarrow> bytes s3 b = bytes s2 b) \<and>
        (\<forall>p. ?src i1 i2 i3 = Some p \<longrightarrow> str_at s3 p (the (Some ip))) \<and> (?src i1 i2 i3 = None \<longleftrightarrow> Some ip = None)"
      by (intro exI [of _ s3]) (auto simp: zone_def)
  next
    show "(group_answer a r i1 i2 i3 :: ('a db_mem_scheme, unit) prog) = fill_answer a (?src i1 i2 i3) ?c" for a i1 i2 i3
      using r by (auto simp: fill_answer_def group_answer_def
        Create_Group_Ans_groupIP_def Create_Group_Ans_answer_def)
  qed (use req len in \<open>simp_all add: group_req_def\<close>)
  then show ?thesis using r by (auto simp: j)
qed

section \<open>Every request\<close>

text \<open>A join must not overflow the participant count, a C \<open>int\<close>.\<close>

fun count_ok :: "request \<Rightarrow> chat \<Rightarrow> bool" where
  "count_ok (JoinGroup g u) A \<longleftrightarrow>
     (case a_groups A (slot g) of None \<Rightarrow> True | Some G \<Rightarrow> g_count G + 1 < 2 ^ 31)"
| "count_ok _ A \<longleftrightarrow> True"

lemma every_request_served:
  fixes s :: "'a db_mem_scheme"
  assumes rep: "db_rep s db buf F A" and buf: "buf \<noteq> NULL" "{buf..<buf + 36} \<subseteq> F"
    and req: "buffer_holds s buf r" and count: "count_ok r A"
  shows "\<exists>p s'. GetFromClientAndSendToServer buf db s = Inr (p, s') \<and>
    answer_block s' p (fst (serve r A)) \<and> db_rep s' db buf F (snd (serve r A)) \<and>
    (\<forall>a \<in> F. bytes s' a = bytes s a) \<and> brk s \<le> brk s'"
proof (cases r)
  case (Register n p)
  with register_served [OF rep buf(1)] req show ?thesis by simp
next
  case (Login n p)
  with login_served [OF rep buf(1)] req show ?thesis by simp
next
  case (CreateGroup g u)
  show ?thesis using req unfolding CreateGroup by (rule create_served [OF rep buf])
next
  case (JoinGroup g u)
  moreover have "\<forall>G. a_groups A (slot g) = Some G \<longrightarrow> g_count G + 1 < 2 ^ 31"
    using count JoinGroup by (auto split: option.splits)
  ultimately show ?thesis using join_served [OF rep buf] req by blast
next
  case (LeaveGroup g u)
  have "snd (serve (LeaveGroup g u) A) = A" by simp
  then show ?thesis using leave_served [OF rep buf req [unfolded LeaveGroup]] unfolding LeaveGroup by metis
qed

end
