(* ===== verification/ServerSession.thy ===== *)
theory ServerSession
  imports ServerGroups
begin

text \<open>
  A whole run of the application: the data base is created, and requests arrive one after the
  other in the one receive buffer of the server (\<open>m_buffer_rcv\<close>, \<^verbatim>\<open>src/ServerTCP/server_tcp.c\<close>).
\<close>

section \<open>Requests on the wire\<close>

text \<open>The structs \<open>UserDetails\<close> and \<open>GroupDetails\<close>; unused characters are 0.\<close>

definition pad :: "nat \<Rightarrow> u8 list \<Rightarrow> u8 list" where
  "pad n xs = xs @ replicate (n - length xs) 0"

definition user_struct :: "Protocol_Type \<Rightarrow> u8 list \<Rightarrow> u8 list \<Rightarrow> u8 list" where
  "user_struct t name pw = type_code t # pad 17 pw @ pad 17 name"

definition group_struct :: "Protocol_Type \<Rightarrow> u8 list \<Rightarrow> u8 list \<Rightarrow> u8 list" where
  "group_struct t g u = type_code t # pad 18 g @ pad 17 u"

fun request_bytes :: "request \<Rightarrow> u8 list" where
  "request_bytes (Register name pw) = user_struct REGISTER_REQ name pw"
| "request_bytes (Login name pw) = user_struct LOGIN_REQ name pw"
| "request_bytes (CreateGroup g u) = group_struct CREATE_GROUP_CONVERSATION_REQ g u"
| "request_bytes (JoinGroup g u) = group_struct JOIN_CONVERSATION_REQ g u"
| "request_bytes (LeaveGroup g u) = group_struct LEAVE_CONVERSATION_REQ g u"

text \<open>Strings that fit into their arrays; a group request names a user.\<close>

fun valid_request :: "request \<Rightarrow> bool" where
  "valid_request (Register name pw) \<longleftrightarrow> 0 \<notin> set name \<and> length name \<le> 16 \<and> 0 \<notin> set pw \<and> length pw \<le> 16"
| "valid_request (Login name pw) \<longleftrightarrow> 0 \<notin> set name \<and> length name \<le> 16 \<and> 0 \<notin> set pw \<and> length pw \<le> 16"
| "valid_request (CreateGroup g u) \<longleftrightarrow> 0 \<notin> set g \<and> length g \<le> 17 \<and> 0 \<notin> set u \<and> length u \<le> 16 \<and> u \<noteq> []"
| "valid_request (JoinGroup g u) \<longleftrightarrow> 0 \<notin> set g \<and> length g \<le> 17 \<and> 0 \<notin> set u \<and> length u \<le> 16 \<and> u \<noteq> []"
| "valid_request (LeaveGroup g u) \<longleftrightarrow> 0 \<notin> set g \<and> length g \<le> 17 \<and> 0 \<notin> set u \<and> length u \<le> 16 \<and> u \<noteq> []"

section \<open>Runs\<close>

text \<open>One request: it is received into the buffer and handed to the application.\<close>

definition handle :: "addr \<Rightarrow> addr \<Rightarrow> request \<Rightarrow> ('a db_mem_scheme, addr) prog" where
  "handle buf db r = chain (put_bytes buf (request_bytes r)) (\<lambda>_. GetFromClientAndSendToServer buf db)"

text \<open>\<open>session buf db s rs as s'\<close>: the requests \<open>rs\<close> are answered by \<open>as\<close>, from \<open>s\<close> to \<open>s'\<close>.\<close>

fun session :: "addr \<Rightarrow> addr \<Rightarrow> 'a db_mem_scheme \<Rightarrow> request list \<Rightarrow> answer list \<Rightarrow> 'a db_mem_scheme \<Rightarrow> bool" where
  "session buf db s [] as s' \<longleftrightarrow> as = [] \<and> s' = s"
| "session buf db s (r # rs) as s' \<longleftrightarrow>
     (\<exists>p s1 a as'. handle buf db r s = Inr (p, s1) \<and> as = a # as' \<and> answer_at s1 p a \<and>
        session buf db s1 rs as' s')"

fun serve_all :: "request list \<Rightarrow> chat \<Rightarrow> answer list \<times> chat" where
  "serve_all [] A = ([], A)"
| "serve_all (r # rs) A = (let (a, A1) = serve r A; (as, A2) = serve_all rs A1 in (a # as, A2))"

lemma serve_all_append:
  "serve_all (rs @ qs) A = (fst (serve_all rs A) @ fst (serve_all qs (snd (serve_all rs A))),
     snd (serve_all qs (snd (serve_all rs A))))"
  by (induction rs arbitrary: A) (auto simp: Let_def split: prod.splits)

section \<open>Answers on the wire\<close>

text \<open>The bytes that are sent, of which an answer takes the first 8 or 24.\<close>

fun wire :: "answer \<Rightarrow> u8 option list \<Rightarrow> bool" where
  "wire (UserAnswer t a) xs \<longleftrightarrow> length xs = 1024 \<and> xs ! 0 = Some (type_code t) \<and> take 4 (drop 4 xs) = map Some (code_bytes t a)"
| "wire (GroupAnswer t a ip) xs \<longleftrightarrow> length xs = 1024 \<and> xs ! 0 = Some (type_code t) \<and>
     take 4 (drop 20 xs) = map Some (code_bytes t a) \<and>
     (case ip of None \<Rightarrow> True
      | Some cs \<Rightarrow> \<forall>i \<le> length cs. i < 1023 \<longrightarrow> xs ! (1 + i) = Some ((cs @ [0]) ! i))"

text \<open>A message that runs past the block of the answer: the byte behind the struct is not allocated.\<close>

definition spilled :: "answer \<Rightarrow> u8 option list \<Rightarrow> bool" where
  "spilled a xs \<longleftrightarrow> wire a xs \<and> xs ! answer_size a = None"

lemma length_code_bytes [simp]: "length (code_bytes t a) = 4"
  by (simp add: code_bytes_def le_bytes_def)

section \<open>Received bytes\<close>

lemma length_pad: "length xs \<le> n \<Longrightarrow> length (pad n xs) = n"
  by (simp add: pad_def)

lemma length_request_bytes: "valid_request r \<Longrightarrow> length (request_bytes r) \<le> 36"
  by (cases r) (simp_all add: user_struct_def group_struct_def length_pad)

lemma stored_string:
  assumes "0 \<notin> set xs" and "length xs < n" and "p \<noteq> NULL" and "p + n \<le> brk s"
    and "bytes_at s p (pad n xs)"
  shows "str_at s p xs"
proof -
  obtain k where k: "n - length xs = Suc k" using assms(2) by (metis Suc_diff_Suc)
  then have "bytes_at s p (xs @ [0] @ replicate k 0)" using assms(5) by (simp add: pad_def)
  then have "bytes_at s p xs" "bytes s (p + length xs) = Some 0"
    by (simp_all add: bytes_at_append bytes_at_Cons)
  then show ?thesis using assms by (simp add: str_at_def bytes_at_def)
qed

lemma user_struct_received:
  assumes b: "bytes_at s buf (user_struct t name pw)" and "buf + 36 \<le> brk s"
    and v: "0 \<notin> set name" "length name \<le> 16" "0 \<notin> set pw" "length pw \<le> 16"
  shows "bytes s buf = Some (type_code t) \<and> user_request s buf name pw"
proof -
  have p: "buf \<noteq> NULL" "bytes s buf = Some (type_code t)" "bytes_at s (Suc buf) (pad 17 pw)"
    "bytes_at s (buf + 18) (pad 17 name)"
    using b v(4) by (simp_all add: user_struct_def bytes_at_Cons bytes_at_append length_pad add.commute)
  have "str_at s (Suc buf) pw" by (rule stored_string [OF v(3) _ _ _ p(3)]) (use v assms(2) in simp_all)
  moreover have "str_at s (buf + 18) name" by (rule stored_string [OF v(1) _ _ _ p(4)]) (use v assms(2) in simp_all)
  ultimately show ?thesis using p(2) v
    by (simp add: user_request_def UserDetails_password_def UserDetails_userName_def)
qed

lemma group_struct_received:
  assumes b: "bytes_at s buf (group_struct t g u)" and "buf + 36 \<le> brk s"
    and v: "0 \<notin> set g" "length g \<le> 17" "0 \<notin> set u" "length u \<le> 16" "u \<noteq> []"
  shows "bytes s buf = Some (type_code t) \<and> group_request s buf g u"
proof -
  have p: "buf \<noteq> NULL" "bytes s buf = Some (type_code t)" "bytes_at s (Suc buf) (pad 18 g)"
    "bytes_at s (buf + 19) (pad 17 u)"
    using b v(2) by (simp_all add: group_struct_def bytes_at_Cons bytes_at_append length_pad add.commute)
  have "str_at s (Suc buf) g" by (rule stored_string [OF v(1) _ _ _ p(3)]) (use v assms(2) in simp_all)
  moreover have "str_at s (buf + 19) u" by (rule stored_string [OF v(3) _ _ _ p(4)]) (use v assms(2) in simp_all)
  moreover have "bytes s (buf + 18) \<noteq> None"
    using bytes_at_mapped [OF p(3), of 17] v(2) by (simp add: length_pad add.commute)
  ultimately show ?thesis using p(2) v
    by (simp add: group_request_def GroupDetails_groupName_def GroupDetails_userName_def)
qed

lemma request_received:
  assumes "bytes_at s buf (request_bytes r)" and "valid_request r" and "buf + 36 \<le> brk s"
  shows "buffer_holds s buf r"
  using assms by (cases r) (simp_all add: user_struct_received group_struct_received)

section \<open>Refinement\<close>

lemma handle_refines:
  fixes s :: "'a db_mem_scheme"
  assumes rep: "db_rep s db buf F A" and m: "mapped s buf 36" "{buf..<buf + 36} \<subseteq> F"
    and v: "valid_request r" and count: "count_ok r A"
  shows "\<exists>p s'. handle buf db r s = Inr (p, s') \<and> answer_at s' p (fst (serve r A)) \<and>
    db_rep s' db buf F (snd (serve r A)) \<and> mapped s' buf 36"
proof -
  let ?s1 = "stored buf (request_bytes r) s"
  note len = length_request_bytes [OF v]
  have buf: "buf \<noteq> NULL" using m(1) by (simp add: mapped_def)
  have put: "put_bytes buf (request_bytes r) s = Inr ((), ?s1)" by (rule put_stored [OF m(1) len])
  have Fb: "F \<subseteq> {..<brk s}" using rep by (simp add: db_rep_def)
  have le: "buf + 36 \<le> brk ?s1" using subsetD [OF subset_trans [OF m(2) Fb], of "buf + 35"] by simp
  have r1: "db_rep ?s1 db buf F A"
    by (rule db_rep_stored [OF rep]) (use mapped_sub [OF m(1), of 0] len m(2) in auto)
  have holds: "buffer_holds ?s1 buf r"
    by (rule request_received [OF bytes_at_stored_new [OF buf] v le])
  obtain p s2 where s2: "GetFromClientAndSendToServer buf db ?s1 = Inr (p, s2)"
    "answer_at s2 p (fst (serve r A))" "db_rep s2 db buf F (snd (serve r A))"
    "\<forall>a \<in> F. bytes s2 a = bytes ?s1 a"
    using every_request_served [OF r1 buf m(2) holds count] answer_blockD(1) by blast
  have "mapped s2 buf 36"
    by (rule mapped_cong [OF mapped_stored [OF m(1)]]) (use s2(4) m(2) in auto)
  then show ?thesis using put s2 by (auto simp: handle_def)
qed

text \<open>No group has more participants than there were requests.\<close>

definition counts_below :: "nat \<Rightarrow> chat \<Rightarrow> bool" where
  "counts_below n A \<longleftrightarrow> (\<forall>G \<in> ran (a_groups A). g_count G \<le> n)"

lemma counts_below_empty: "counts_below n chat_empty"
  by (simp add: counts_below_def chat_empty_def)

lemma counts_below_upd: "counts_below n A \<Longrightarrow> g_count G \<le> Suc n \<Longrightarrow>
  counts_below (Suc n) (A\<lparr>a_groups := (a_groups A)(i \<mapsto> G)\<rparr>)"
  by (auto simp: counts_below_def ran_def le_Suc_eq split: if_splits)

lemma counts_below_serve:
  assumes "counts_below n A"
  shows "counts_below (Suc n) (snd (serve r A))"
proof -
  have mono: "counts_below (Suc n) A" using assms by (auto simp: counts_below_def)
  have reg: "counts_below (Suc n) (snd (spec_register name pw A))" for name pw
    using mono by (auto simp: spec_register_def counts_below_def split: option.splits)
  have cr: "counts_below (Suc n) (snd (spec_create g A))" for g
    using mono counts_below_upd [OF assms, of "\<lparr>g_name = stored_name g (next_ip A), g_ip = next_ip A, g_count = 1\<rparr>" "slot g"]
    by (auto simp: spec_create_def counts_below_def split: option.splits)
  have jn: "counts_below (Suc n) (snd (snd (spec_join g A)))" for g
  proof (cases "a_groups A (slot g)")
    case (Some G)
    then have "g_count G \<le> n" using assms by (auto simp: counts_below_def ran_def)
    with Some show ?thesis using mono counts_below_upd [OF assms, of "G\<lparr>g_count := g_count G + 1\<rparr>" "slot g"]
      by (simp add: spec_join_def)
  qed (use mono in \<open>simp add: spec_join_def\<close>)
  show ?thesis
  proof (cases r)
    case (JoinGroup g u)
    then show ?thesis using jn [of g] by (auto simp: Let_def split: prod.splits)
  qed (use mono reg cr in auto)
qed

lemma count_ok_below: "counts_below n A \<Longrightarrow> n + 1 < 2 ^ 31 \<Longrightarrow> count_ok r A"
  by (cases r) (force simp: counts_below_def ran_def split: option.splits)+

lemma session_refines:
  fixes s :: "'a db_mem_scheme"
  assumes "db_rep s db buf F A" and "mapped s buf 36" and F: "{buf..<buf + 36} \<subseteq> F"
    and "\<forall>r \<in> set rs. valid_request r" and "counts_below n A" and "n + length rs < 2 ^ 31"
  shows "\<exists>s'. session buf db s rs (fst (serve_all rs A)) s' \<and> db_rep s' db buf F (snd (serve_all rs A)) \<and>
    mapped s' buf 36"
  using assms(1,2,4-)
proof (induction rs arbitrary: s A n)
  case Nil
  then show ?case by simp
next
  case (Cons r rs)
  have "count_ok r A" by (rule count_ok_below [OF Cons.prems(4)]) (use Cons.prems(5) in simp)
  moreover have "valid_request r" using Cons.prems(3) by simp
  ultimately obtain p s1 where s1: "handle buf db r s = Inr (p, s1)" "answer_at s1 p (fst (serve r A))"
    "db_rep s1 db buf F (snd (serve r A))" "mapped s1 buf 36"
    using handle_refines [OF Cons.prems(1,2) F, of r] by blast
  obtain s' where s': "session buf db s1 rs (fst (serve_all rs (snd (serve r A)))) s'"
    "db_rep s' db buf F (snd (serve_all rs (snd (serve r A))))" "mapped s' buf 36"
    using Cons.IH [OF s1(3,4) _ counts_below_serve [OF Cons.prems(4)]] Cons.prems(3,5) by auto
  have e: "serve_all (r # rs) A = (fst (serve r A) # fst (serve_all rs (snd (serve r A))),
      snd (serve_all rs (snd (serve r A))))"
    by (simp add: Let_def split: prod.splits)
  show ?case unfolding e using s1(1,2) s' by auto
qed

text \<open>The start of the server: memory with a receive buffer, and the new data base.\<close>

definition booted :: "'a db_mem_scheme \<Rightarrow> addr \<Rightarrow> bool" where
  "booted s buf \<longleftrightarrow> env s \<and> mapped s buf 36 \<and> buf + 36 \<le> brk s"

lemma booted_refines:
  fixes s :: "'a db_mem_scheme"
  assumes b: "booted s buf" and v: "\<forall>r \<in> set rs. valid_request r" and n: "length rs < 2 ^ 31"
  shows "\<exists>db s1 s2. CreateMainDataBase s = Inr (db, s1) \<and>
    session buf db s1 rs (fst (serve_all rs chat_empty)) s2 \<and>
    db_rep s2 db buf {buf..<buf + 36} (snd (serve_all rs chat_empty))"
proof -
  let ?F = "{buf..<buf + 36}"
  have F: "?F \<subseteq> {..<brk s}" using b by (auto simp: booted_def)
  obtain s1 where s1: "CreateMainDataBase s = Inr (brk s, s1)" "db_rep s1 (brk s) buf ?F chat_empty"
    "\<forall>a < brk s. bytes s1 a = bytes s a"
    using CreateMainDataBase_refines [OF _ F, of buf] b unfolding booted_def by blast
  have "mapped s1 buf 36"
    by (rule mapped_cong [of s]) (use b s1(3) in \<open>auto simp: booted_def\<close>)
  then show ?thesis
    using session_refines [OF s1(2) _ subset_refl v counts_below_empty, of 0] n s1(1) by (metis add_0)
qed

text \<open>A concrete start: a buffer of 1024 bytes at address 1.\<close>

definition start_state :: db_mem where
  "start_state = \<lparr>brk = 1100, bytes = map_bytes 1 (replicate 1024 0) (\<lambda>_. None),
     oom = (\<lambda>_. False), junk = (\<lambda>_ _. 0), nodes = (\<lambda>_. None), ditems = (\<lambda>_. None),
     queues = (\<lambda>_. None), pools = (\<lambda>_. None), user_groups = (\<lambda>_. None), users_dbs = (\<lambda>_. None),
     groups_dbs = (\<lambda>_. None), databases = (\<lambda>_. None)\<rparr>"

lemma start_state_booted: "booted start_state 1"
  by (auto simp: booted_def start_state_def env_def wf_hash_mem_def wf_list_mem_def wf_bytes_def
    enough_mem_def zeroed_def mapped_def map_bytes_def)

end
