(* ===== verification/ClientRun.thy ===== *)
theory ClientRun
  imports Client ServerSession
begin

text \<open>
  What the steps of the client do: building a request, exchanging it for an answer, and the
  bookkeeping of the chat windows. \<open>kept b s s'\<close> is the frame of a step: it changed nothing but
  the end of the memory, bytes from \<open>b\<close> on, the number of system calls and the events.
\<close>

section \<open>The frame\<close>

definition kept :: "addr \<Rightarrow> 'a client_mem_scheme \<Rightarrow> 'a client_mem_scheme \<Rightarrow> bool" where
  "kept b s s' \<longleftrightarrow>
     s' = s\<lparr>brk := brk s', bytes := bytes s', asked := asked s', events := events s'\<rparr> \<and>
     env s' \<and> brk s \<le> brk s' \<and> (\<forall>a < b. bytes s' a = bytes s a)"

lemma kept_refl: "env s \<Longrightarrow> kept b s s"
  by (simp add: kept_def)

lemma kept_trans:
  assumes "kept b s s1" and "kept b s1 s2"
  shows "kept b s s2"
proof -
  obtain k h n es where 1: "s1 = s\<lparr>brk := k, bytes := h, asked := n, events := es\<rparr>"
    using assms(1) unfolding kept_def by blast
  obtain k' h' n' es' where 2: "s2 = s1\<lparr>brk := k', bytes := h', asked := n', events := es'\<rparr>"
    using assms(2) unfolding kept_def by blast
  have "s2 = s\<lparr>brk := k', bytes := h', asked := n', events := es'\<rparr>" unfolding 2 1 by simp
  then show ?thesis using assms unfolding kept_def by auto
qed

lemma kept_mono: "kept b s s' \<Longrightarrow> c \<le> b \<Longrightarrow> kept c s s'"
  by (simp add: kept_def)

lemma kept_rest:
  assumes "kept b s s'"
  shows "nodes s' = nodes s" "ditems s' = ditems s" "nets s' = nets s" "client_objs s' = client_objs s"
    "pids s' = pids s" "interfaces s' = interfaces s" "cos s' = cos s" "junk s' = junk s" "oom s' = oom s"
proof -
  obtain k h n es where s': "s' = s\<lparr>brk := k, bytes := h, asked := n, events := es\<rparr>"
    using assms unfolding kept_def by blast
  show "nodes s' = nodes s" "ditems s' = ditems s" "nets s' = nets s" "client_objs s' = client_objs s"
    "pids s' = pids s" "interfaces s' = interfaces s" "cos s' = cos s" "junk s' = junk s" "oom s' = oom s"
    by (simp_all add: s')
qed

lemma kept_env: "kept b s s' \<Longrightarrow> env s'" "kept b s s' \<Longrightarrow> brk s \<le> brk s'"
  "kept b s s' \<Longrightarrow> a < b \<Longrightarrow> bytes s' a = bytes s a"
  by (simp_all add: kept_def)

lemma kept_str: "str_at s a xs \<Longrightarrow> kept b s s' \<Longrightarrow> a + length xs < b \<Longrightarrow> str_at s' a xs"
  by (erule str_at_cong) (simp_all add: kept_def)

lemma kept_bytes_at: "bytes_at s a xs \<Longrightarrow> kept b s s' \<Longrightarrow> a + length xs \<le> b \<Longrightarrow> bytes_at s' a xs"
  by (erule bytes_at_cong) (simp add: kept_def)

text \<open>The steps that change only those parts.\<close>

lemma env_bytes:
  fixes s :: "'a client_mem_scheme"
  assumes "env s" and "brk s \<le> k" and "\<forall>a \<ge> k. h a = None"
  shows "env (s\<lparr>brk := k, bytes := h\<rparr>)"
  using assms by (auto simp: env_def wf_hash_mem_def wf_list_mem_def wf_bytes_def enough_mem_def zeroed_def)

lemma env_cong:
  fixes s s' :: "'a client_mem_scheme"
  assumes "env s" and "brk s' = brk s" "bytes s' = bytes s" "nodes s' = nodes s" "ditems s' = ditems s"
    "oom s' = oom s" "junk s' = junk s"
  shows "env s'"
  using assms by (simp add: env_def wf_hash_mem_def wf_list_mem_def wf_bytes_def enough_mem_def zeroed_def)

lemma env_io [simp]: "env (s\<lparr>asked := n\<rparr>) = env (s :: 'a client_mem_scheme)"
  "env (s\<lparr>events := es\<rparr>) = env s"
  by (simp_all add: env_def wf_hash_mem_def wf_list_mem_def wf_bytes_def enough_mem_def zeroed_def)

lemma kept_bytes:
  fixes s :: "'a client_mem_scheme"
  assumes "env s" and "brk s \<le> k" and "\<forall>a \<ge> k. h a = None" and "\<forall>a < b. h a = bytes s a"
  shows "kept b s (s\<lparr>brk := k, bytes := h\<rparr>)"
  using env_bytes [OF assms(1-3)] assms by (simp add: kept_def)

lemma kept_block:
  fixes s :: "'a client_mem_scheme"
  assumes "env s" and "b \<le> brk s"
  shows "kept b s (s\<lparr>brk := brk s + length xs + 1, bytes := map_bytes (brk s) xs (bytes s)\<rparr>)"
  by (rule kept_bytes) (use assms in \<open>auto simp: map_bytes_def env_def wf_bytes_def\<close>)

lemma kept_stored:
  fixes s :: "'a client_mem_scheme"
  assumes "env s" and "mapped s p (length xs)" and "b \<le> p"
  shows "kept b s (stored p xs s)"
  using stored_env [OF assms(1,2)] assms(3) by (simp add: kept_def stored_def map_bytes_out)

lemma kept_asked: "env s \<Longrightarrow> kept b s (s\<lparr>asked := n\<rparr>)"
  by (simp add: kept_def)

lemma kept_events: "env s \<Longrightarrow> kept b s (s\<lparr>events := es\<rparr>)"
  by (simp add: kept_def)

lemma mapped_kept: "mapped s p n \<Longrightarrow> kept b s s' \<Longrightarrow> p + n \<le> b \<Longrightarrow> mapped s' p n"
  by (simp add: mapped_def kept_def)

section \<open>Local arrays\<close>

definition in_scope :: "nat \<Rightarrow> 'a bmem_scheme \<Rightarrow> 'a bmem_scheme" where
  "in_scope n s = s\<lparr>brk := brk s + n + 1, bytes := map_bytes (brk s) (replicate n 0) (bytes s)\<rparr>"

definition out_of_scope :: "addr \<Rightarrow> nat \<Rightarrow> 'a bmem_scheme \<Rightarrow> 'a bmem_scheme" where
  "out_of_scope p n s = s\<lparr>bytes := unmap_bytes p n (bytes s)\<rparr>"

lemma with_array_exec:
  "with_array n body s = (case body (brk s) (in_scope n s) of Inl e \<Rightarrow> Inl e
     | Inr (r, s') \<Rightarrow> Inr (r, out_of_scope (brk s) n s'))"
  by (auto simp: with_array_def stack_array_def in_scope_def end_of_scope_def out_of_scope_def chain_def split: sum.splits)

lemma with_array_fault:
  "body (brk s) (in_scope n s) = Inl e \<Longrightarrow> with_array n body s = Inl e"
  by (simp add: with_array_def stack_array_def in_scope_def)

lemma with_array_run:
  "body (brk s) (in_scope n s) = Inr (r, s') \<Longrightarrow> with_array n body s = Inr (r, out_of_scope (brk s) n s')"
  by (simp add: with_array_def stack_array_def in_scope_def end_of_scope_def out_of_scope_def)

lemma kept_in_scope:
  fixes s :: "'a client_mem_scheme"
  assumes "env s"
  shows "kept (brk s) s (in_scope n s)" "mapped (in_scope n s) (brk s) n"
    "asked (in_scope n s) = asked s" "events (in_scope n s) = events s" "brk (in_scope n s) = brk s + n + 1"
  using kept_block [OF assms, of "brk s" "replicate n 0"] env_simps(6) [OF assms]
  by (simp_all add: in_scope_def mapped_def map_bytes_def)

lemma kept_out_of_scope:
  fixes s :: "'a client_mem_scheme"
  assumes "env s" and "b \<le> p"
  shows "kept b s (out_of_scope p n s)"
    "asked (out_of_scope p n s) = asked s" "events (out_of_scope p n s) = events s"
proof -
  have "kept b s (s\<lparr>brk := brk s, bytes := unmap_bytes p n (bytes s)\<rparr>)"
    by (rule kept_bytes) (use assms in \<open>auto simp: unmap_bytes_def env_def wf_bytes_def\<close>)
  then show "kept b s (out_of_scope p n s)" by (simp add: out_of_scope_def)
qed (simp_all add: out_of_scope_def)

text \<open>A body that keeps everything below the array keeps it with the array around it.\<close>

lemma kept_scope:
  fixes s :: "'a client_mem_scheme"
  assumes e: "env s" and k: "kept (brk s) (in_scope n s) s1"
  shows "kept (brk s) s (out_of_scope (brk s) n s1)" "asked (out_of_scope (brk s) n s1) = asked s1"
    "events (out_of_scope (brk s) n s1) = events s1"
proof -
  note o = kept_out_of_scope [OF kept_env(1) [OF k] order_refl, where n = n]
  show "kept (brk s) s (out_of_scope (brk s) n s1)" "asked (out_of_scope (brk s) n s1) = asked s1"
    "events (out_of_scope (brk s) n s1) = events s1"
    using kept_trans [OF kept_in_scope(1) [OF e] kept_trans [OF k o(1)]] o(2,3) by auto
qed

section \<open>Building a request\<close>

lemma map_bytes_sub:
  assumes "p + i = q" and "i + length ys \<le> length xs"
  shows "map_bytes q ys (map_bytes p xs h) = map_bytes p (take i xs @ ys @ drop (i + length ys) xs) h"
proof
  fix a
  have d: "a - p = a - q + i" if "q \<le> a" using assms(1) that by simp
  show "map_bytes q ys (map_bytes p xs h) a = map_bytes p (take i xs @ ys @ drop (i + length ys) xs) h a"
    using assms d [symmetric] by (auto simp: map_bytes_def nth_append min_def)
qed

lemma pad_zero: "length xs < n \<Longrightarrow> pad n xs = xs @ 0 # replicate (n - 1 - length xs) 0"
  by (simp add: pad_def replicate_Suc [symmetric] Suc_diff_Suc del: replicate_Suc)

lemma new_struct:
  fixes s :: "'a client_mem_scheme"
  assumes "env s"
  shows "malloc_bytes n s = Inr (brk s, s\<lparr>brk := brk s + n + 1,
    bytes := map_bytes (brk s) (replicate n 0) (bytes s)\<rparr>)"
proof -
  have "junk_bytes (junk s) (brk s) n = replicate n 0"
    using assms by (simp add: junk_bytes_def env_def zeroed_def map_replicate_const)
  then show ?thesis using assms env_simps(6) [OF assms]
    by (simp add: malloc_bytes_step env_def enough_mem_def)
qed

lemma CreateUserDetails_ok:
  fixes s :: "'a client_mem_scheme"
  assumes e: "env s" and u: "str_at s u name" "length name \<le> 16" and p: "str_at s p pw" "length pw \<le> 16"
  shows "CreateUserDetails u p s = Inr (brk s, s\<lparr>brk := brk s + 36,
    bytes := map_bytes (brk s) (0 # pad 17 pw @ pad 17 name) (bytes s)\<rparr>)"
proof -
  let ?U = "brk s" and ?s1 = "s\<lparr>brk := brk s + 36, bytes := map_bytes (brk s) (replicate 35 0) (bytes s)\<rparr>"
  let ?s2 = "?s1\<lparr>bytes := map_bytes (?U + 18) (name @ [0]) (bytes ?s1)\<rparr>"
  have below: "u + length name < brk s" "p + length pw < brk s" using u p by (simp_all add: str_at_def)
  have U: "?U \<noteq> NULL" using env_simps(6) [OF e] by simp
  have u1: "str_at ?s1 u name" by (rule str_at_cong [OF u(1)]) (use below in \<open>auto simp: map_bytes_out\<close>)
  have p1: "str_at ?s2 p pw" by (rule str_at_cong [OF p(1)]) (use below in \<open>auto simp: map_bytes_out\<close>)
  have nb: "malloc_bytes 35 s = Inr (?U, ?s1)" using new_struct [OF e, of 35] by (simp add: add.commute)
  have c1: "strcpy (?U + 18) u ?s1 = Inr ((), ?s2)"
    by (rule strcpy_ok [OF u1]) (use u(2) in \<open>auto simp: map_bytes_def\<close>)
  have c2: "strcpy (?U + 1) p ?s2 = Inr ((), ?s2\<lparr>bytes := map_bytes (?U + 1) (pw @ [0]) (bytes ?s2)\<rparr>)"
    by (rule strcpy_ok [OF p1]) (use p(2) in \<open>auto simp: map_bytes_def\<close>)
  have m: "map_bytes (?U + 1) (pw @ [0]) (map_bytes (?U + 18) (name @ [0]) (map_bytes ?U (replicate 35 0) (bytes s)))
      = map_bytes ?U (0 # pad 17 pw @ pad 17 name) (bytes s)"
    using u(2) p(2)
    by (simp add: map_bytes_sub [of _ 18] map_bytes_sub [of _ 1] pad_zero min_def)
  show ?thesis
    using nb U c1 c2 m
    by (simp add: CreateUserDetails_def sizeof_UserDetails_def UserDetails_userName_def UserDetails_password_def)
qed

lemma Init_Group_struct_ok:
  fixes s :: "'a client_mem_scheme"
  assumes e: "env s" and u: "str_at s u name" "length name \<le> 16" and g: "str_at s g gname" "length gname \<le> 17"
  shows "Init_Group_struct u g s = Inr (brk s, s\<lparr>brk := brk s + 37,
    bytes := map_bytes (brk s) (0 # pad 18 gname @ pad 17 name) (bytes s)\<rparr>)"
proof -
  let ?U = "brk s" and ?s1 = "s\<lparr>brk := brk s + 37, bytes := map_bytes (brk s) (replicate 36 0) (bytes s)\<rparr>"
  let ?s2 = "?s1\<lparr>bytes := map_bytes (?U + 1) (gname @ [0]) (bytes ?s1)\<rparr>"
  have below: "u + length name < brk s" "g + length gname < brk s" using u g by (simp_all add: str_at_def)
  have U: "?U \<noteq> NULL" using env_simps(6) [OF e] by simp
  have g1: "str_at ?s1 g gname" by (rule str_at_cong [OF g(1)]) (use below in \<open>auto simp: map_bytes_out\<close>)
  have u1: "str_at ?s2 u name" by (rule str_at_cong [OF u(1)]) (use below in \<open>auto simp: map_bytes_out\<close>)
  have nb: "malloc_bytes 36 s = Inr (?U, ?s1)" using new_struct [OF e, of 36] by (simp add: add.commute)
  have c1: "strcpy (?U + 1) g ?s1 = Inr ((), ?s2)"
    by (rule strcpy_ok [OF g1]) (use g(2) in \<open>auto simp: map_bytes_def\<close>)
  have c2: "strcpy (?U + 19) u ?s2 = Inr ((), ?s2\<lparr>bytes := map_bytes (?U + 19) (name @ [0]) (bytes ?s2)\<rparr>)"
    by (rule strcpy_ok [OF u1]) (use u(2) in \<open>auto simp: map_bytes_def\<close>)
  have m: "map_bytes (?U + 19) (name @ [0]) (map_bytes (?U + 1) (gname @ [0]) (map_bytes ?U (replicate 36 0) (bytes s)))
      = map_bytes ?U (0 # pad 18 gname @ pad 17 name) (bytes s)"
    using u(2) g(2)
    by (simp add: map_bytes_sub [of _ 1] map_bytes_sub [of _ 19] pad_zero min_def take_Cons' drop_Cons')
  show ?thesis
    using nb U c1 c2 m
    by (simp add: Init_Group_struct_def sizeof_GroupDetails_def GroupDetails_userName_def GroupDetails_groupName_def)
qed

text \<open>A packed request at the end of the memory.\<close>

definition built :: "u8 list \<Rightarrow> 'a bmem_scheme \<Rightarrow> 'a bmem_scheme" where
  "built xs s = s\<lparr>brk := brk s + length xs + 1, bytes := map_bytes (brk s) xs (bytes s)\<rparr>"

lemma kept_built:
  fixes s :: "'a client_mem_scheme"
  assumes "env s"
  shows "kept (brk s) s (built xs s)" "bytes_at (built xs s) (brk s) xs"
    "asked (built xs s) = asked s" "events (built xs s) = events s"
  using kept_block [OF assms order_refl, of xs] env_simps(6) [OF assms]
  by (simp_all add: built_def bytes_at_def map_bytes_in)

lemma Pack_built:
  assumes "0 < brk s" and "t \<in> {REGISTER_REQ, LOGIN_REQ, CREATE_GROUP_CONVERSATION_REQ, JOIN_CONVERSATION_REQ}"
  shows "Pack (type_code t) (brk s) (built (x # xs) s) = Inr (0, built (type_code t # xs) s)"
proof -
  have "(map_bytes (brk s) (x # xs) (bytes s))(brk s \<mapsto> type_code t) = map_bytes (brk s) (type_code t # xs) (bytes s)"
    by (rule ext) (auto simp: map_bytes_def nth_Cons')
  then show ?thesis using Pack_request [of "brk s" "built (x # xs) s" t] assms
    by (simp add: built_def map_bytes_def)
qed

lemma user_request_built:
  fixes s :: "'a client_mem_scheme"
  assumes "env s" and "str_at s u name" "length name \<le> 16" and "str_at s p pw" "length pw \<le> 16"
    and t: "t \<in> {REGISTER_REQ, LOGIN_REQ}"
  obtains s1 where "CreateUserDetails u p s = Inr (brk s, s1)"
    "Pack (type_code t) (brk s) s1 = Inr (0, built (user_struct t name pw) s)"
proof (rule that [of "built (0 # pad 17 pw @ pad 17 name) s"])
  show "CreateUserDetails u p s = Inr (brk s, built (0 # pad 17 pw @ pad 17 name) s)"
    using CreateUserDetails_ok [OF assms(1-5)] assms(3,5) by (simp add: built_def length_pad)
  show "Pack (type_code t) (brk s) (built (0 # pad 17 pw @ pad 17 name) s) = Inr (0, built (user_struct t name pw) s)"
    unfolding user_struct_def by (rule Pack_built) (use t env_simps(6) [OF assms(1)] in auto)
qed

lemma group_request_built:
  fixes s :: "'a client_mem_scheme"
  assumes "env s" and "str_at s u name" "length name \<le> 16" and "str_at s g gname" "length gname \<le> 17"
    and t: "t \<in> {CREATE_GROUP_CONVERSATION_REQ, JOIN_CONVERSATION_REQ}"
  obtains s1 where "Init_Group_struct u g s = Inr (brk s, s1)"
    "Pack (type_code t) (brk s) s1 = Inr (0, built (group_struct t gname name) s)"
proof (rule that [of "built (0 # pad 18 gname @ pad 17 name) s"])
  show "Init_Group_struct u g s = Inr (brk s, built (0 # pad 18 gname @ pad 17 name) s)"
    using Init_Group_struct_ok [OF assms(1-5)] assms(3,5) by (simp add: built_def length_pad)
  show "Pack (type_code t) (brk s) (built (0 # pad 18 gname @ pad 17 name) s) = Inr (0, built (group_struct t gname name) s)"
    unfolding group_struct_def by (rule Pack_built) (use t env_simps(6) [OF assms(1)] in auto)
qed

end
