(* ===== verification/ClientExchange.thy ===== *)
theory ClientExchange
  imports ClientRun
begin

text \<open>
  The exchange of a request for an answer: what the client sends, what it stores in its local
  buffer, and what it reads there after \<open>UnPack\<close>.
\<close>

section \<open>Answers in the buffer\<close>

text \<open>The types the server answers with, and names of addresses that fit into an answer.\<close>

fun sound_answer :: "answer \<Rightarrow> bool" where
  "sound_answer (UserAnswer t a) \<longleftrightarrow> t = REGISTER_ANS \<or> t = LOGIN_ANS"
| "sound_answer (GroupAnswer t a ip) \<longleftrightarrow>
     (t = CREATE_GROUP_CONVERSATION_ANS \<or> t = JOIN_CONVERSATION_ANS \<or> t = LEAVE_CONVERSATION_ANS) \<and>
     (case ip of None \<Rightarrow> True | Some xs \<Rightarrow> 0 \<notin> set xs \<and> length xs \<le> 16)"

fun code_offset :: "answer \<Rightarrow> nat" where
  "code_offset (UserAnswer t a) = 4"
| "code_offset (GroupAnswer t a ip) = 20"

text \<open>The code the client reads: that of an answer to a leave request is reversed.\<close>

fun code_read :: "answer \<Rightarrow> 32 word" where
  "code_read (UserAnswer t a) = answer_code a"
| "code_read (GroupAnswer t a ip) = (if t = LEAVE_CONVERSATION_ANS then htonl (answer_code a) else answer_code a)"

fun answer_type :: "answer \<Rightarrow> Protocol_Type" where
  "answer_type (UserAnswer t a) = t"
| "answer_type (GroupAnswer t a ip) = t"

text \<open>The 1024 bytes \<open>ys\<close> that arrive are those of the answer \<open>a\<close>.\<close>

definition holds_answer :: "answer \<Rightarrow> u8 list \<Rightarrow> bool" where
  "holds_answer a ys \<longleftrightarrow> length ys = 1024 \<and> wire a (map Some ys)"

lemma sub_bytes_at:
  assumes "bytes_at s p ys" and "take (length cs) (drop off (map Some ys)) = map Some cs"
  shows "bytes_at s (p + off) cs"
proof -
  have e: "take (length cs) (drop off ys) = cs"
    using assms(2) by (simp flip: map_map add: take_map drop_map inj_map_eq_map)
  have "bytes s (p + off + i) = Some (cs ! i)" if "i < length cs" for i
  proof -
    have "off + i < length ys" using arg_cong [OF e, of length] that by auto
    moreover have "ys ! (off + i) = cs ! i" using arg_cong [OF e, of "\<lambda>l. l ! i"] that calculation by simp
    ultimately show ?thesis using assms(1) by (simp add: bytes_at_def add.assoc)
  qed
  then show ?thesis using assms(1) by (simp add: bytes_at_def)
qed

lemma arrived_answer:
  assumes "bytes_at s p ys" and "holds_answer a ys" and "sound_answer a" and "p + 1024 < brk s"
  shows "answer_at s p a"
proof (cases a)
  case (UserAnswer t c)
  have "bytes s (p + 0) = Some (ys ! 0)" using assms(1,2) by (simp only: bytes_at_def holds_answer_def)
  moreover have "bytes_at s (p + 4) (code_bytes t c)"
    by (rule sub_bytes_at [OF assms(1)]) (use assms(2) UserAnswer in \<open>simp add: holds_answer_def\<close>)
  ultimately show ?thesis using assms UserAnswer by (auto simp: holds_answer_def bytes_at_def)
next
  case (GroupAnswer t c ip)
  have "bytes s (p + 0) = Some (ys ! 0)" using assms(1,2) by (simp only: bytes_at_def holds_answer_def)
  moreover have "bytes_at s (p + 20) (code_bytes t c)"
    by (rule sub_bytes_at [OF assms(1)]) (use assms(2) GroupAnswer in \<open>simp add: holds_answer_def\<close>)
  moreover have "str_at s (p + 1) xs" if ip: "ip = Some xs" for xs
  proof -
    have xs: "0 \<notin> set xs" "length xs \<le> 16" using assms(3) ip GroupAnswer by simp_all
    have "bytes s (p + (1 + i)) = Some ((xs @ [0]) ! i)" if "i \<le> length xs" for i
    proof -
      have i: "1 + i < length ys" using that xs(2) assms(2) by (simp add: holds_answer_def)
      then have "bytes s (p + (1 + i)) = Some (ys ! (1 + i))" using assms(1) by (simp only: bytes_at_def)
      then show ?thesis using assms(2) that xs(2) ip i GroupAnswer by (auto simp: holds_answer_def)
    qed
    then show ?thesis using xs assms(4) by (auto simp: str_at_def nth_append)
  qed
  ultimately show ?thesis using assms GroupAnswer by (auto simp: holds_answer_def bytes_at_def split: option.splits)
qed

lemma UnPack_answer:
  assumes "answer_at s p a" and "sound_answer a"
  shows "UnPack p s = Inr ((0, type_code (answer_type a)),
    s\<lparr>bytes := map_bytes (p + code_offset a) (le_bytes (code_read a)) (bytes s)\<rparr>)"
  using assms
  by (cases a) (auto simp: code_bytes_def register_ans.received login_ans.received create_ans.received
    join_ans.received UnPack_leave_answer)

section \<open>The exchange\<close>

text \<open>The client \<open>cl\<close> with its connection over the socket \<open>sock\<close>.\<close>

definition client_conn :: "'a client_mem_scheme \<Rightarrow> addr \<Rightarrow> addr \<Rightarrow> int \<Rightarrow> bool" where
  "client_conn s cl net sock \<longleftrightarrow> cl \<noteq> NULL \<and> net \<noteq> NULL \<and>
     (\<exists>c. client_objs s cl = Some c \<and> m_clientNet c = net) \<and>
     (\<exists>n. nets s net = Some n \<and> m_socket n = sock)"

lemma client_conn_kept: "kept b s s' \<Longrightarrow> client_conn s' cl net sock = client_conn s cl net sock"
  by (simp add: client_conn_def kept_rest)

lemma request_exchange:
  fixes s :: "'a client_mem_scheme"
  assumes e: "env s" and conn: "client_conn s cl net sock" and B: "mapped s B n" "b \<le> B" "B + n < brk s"
    and U: "bytes_at s U xs" and send: "0 \<le> net_send (cos s) (asked s)"
    and recv: "net_recv (cos s) (asked s + 1) = Some ys" and n: "1024 \<le> n"
    and a: "holds_answer a ys" "sound_answer a"
  obtains s1 s2 s3 where "Send_To_Server U (length xs) net s = Inr (0, s1)"
    "Recive_From_Server B n net s1 = Inr (0, s2)" "UnPack B s2 = Inr ((0, type_code (answer_type a)), s3)"
    "rd_u32 (B + code_offset a) s3 = Inr (code_read a, s3)" "kept b s s3" "brk s3 = brk s"
    "mapped s3 B n" "asked s3 = asked s + 2"
    "events s3 = events s @ [SentOut sock (map Some xs), Arrived sock ys]"
    "\<And>t c ipn. a = GroupAnswer t c (Some ipn) \<Longrightarrow> str_at s3 (B + 1) ipn"
    "\<And>q. q < B \<or> B + n \<le> q \<Longrightarrow> bytes s3 q = bytes s q"
proof -
  obtain N where N: "net \<noteq> NULL" "nets s net = Some N" "m_socket N = sock"
    using conn by (auto simp: client_conn_def)
  have len: "length ys = 1024" using a(1) by (simp add: holds_answer_def)
  have xs: "map (\<lambda>i. bytes s (U + i)) [0..<length xs] = map Some xs"
    using U by (auto simp: bytes_at_def intro: nth_equalityI)
  define s1 where "s1 = s\<lparr>asked := asked s + 1, events := events s @ [SentOut sock (map Some xs)]\<rparr>"
  define s2 where "s2 = stored B ys (s1\<lparr>asked := asked s1 + 1\<rparr>)\<lparr>events := events s1 @ [Arrived sock ys]\<rparr>"
  define s3 where "s3 = s2\<lparr>bytes := map_bytes (B + code_offset a) (le_bytes (code_read a)) (bytes s2)\<rparr>"
  have off: "code_offset a + 4 \<le> 24" "1 \<le> code_offset a" by (cases a; simp)+
  have B0: "B \<noteq> NULL" using B(1) by (simp add: mapped_def)
  have e1: "env s1" "mapped s1 B n" using e B(1) by (simp_all add: s1_def mapped_def)
  have send1: "Send_To_Server U (length xs) net s = Inr (0, s1)"
    using Send_To_Server_ok [OF N(1,2) _ send, of U "length xs"] U N(3) by (simp add: s1_def xs bytes_at_def)
  have recv1: "Recive_From_Server B n net s1 = Inr (0, s2)"
    unfolding s2_def N(3) [symmetric]
    by (rule Recive_From_Server_ok [OF N(1) _ _ _ e1(2)]) (use N(2) recv len n in \<open>simp_all add: s1_def\<close>)
  have by2: "bytes s2 = map_bytes B ys (bytes s)" by (simp add: s2_def s1_def stored_def)
  have "bytes_at s2 B ys" by (rule bytes_at_map_bytes [OF B0 by2])
  then have at: "answer_at s2 B a"
    by (rule arrived_answer [OF _ a]) (use B(3) n in \<open>simp add: s2_def s1_def\<close>)
  have up: "UnPack B s2 = Inr ((0, type_code (answer_type a)), s3)"
    unfolding s3_def by (rule UnPack_answer [OF at a(2)])
  have rd: "rd_u32 (B + code_offset a) s3 = Inr (code_read a, s3)"
    by (rule rd_u32_step, rule bytes_at_map_bytes) (use B0 in \<open>simp_all add: s3_def\<close>)
  let ?h = "map_bytes (B + code_offset a) (le_bytes (code_read a)) (map_bytes B ys (bytes s))"
  have out: "?h q = bytes s q" if "q < B \<or> B + n \<le> q" for q
    using that off len n by (subst map_bytes_out, force, subst map_bytes_out, force, simp)
  have "kept b s (s\<lparr>brk := brk s, bytes := ?h\<rparr>)"
    by (rule kept_bytes [OF e order_refl]) (use e B(2,3) out in \<open>auto simp: env_def wf_bytes_def\<close>)
  moreover have "env s3" if "env (s\<lparr>brk := brk s, bytes := ?h\<rparr>)"
    by (rule env_cong [OF that]) (simp_all add: s3_def s2_def s1_def stored_def)
  ultimately have k: "kept b s s3" by (simp add: kept_def s3_def s2_def s1_def stored_def)
  have "mapped s3 B n"
    using B(1) by (auto simp: mapped_def s3_def by2 map_bytes_def)
  moreover have "str_at s3 (B + 1) ipn" if "a = GroupAnswer t c (Some ipn)" for t c ipn
  proof (rule str_at_cong)
    show "str_at s2 (B + 1) ipn" using at that by simp
    show "bytes s3 (B + 1 + i) = bytes s2 (B + 1 + i)" if "i \<le> length ipn" for i
      using that a(2) \<open>a = GroupAnswer t c (Some ipn)\<close> by (simp add: s3_def map_bytes_out)
  qed (simp add: s3_def)
  moreover have "bytes s3 q = bytes s q" if "q < B \<or> B + n \<le> q" for q
    using out [OF that] by (simp add: s3_def by2)
  ultimately show ?thesis
    by (intro that [OF send1 recv1 up rd k]) (simp_all add: s3_def s2_def s1_def stored_def)
qed

end
