(* ===== verification/ClientWindows.thy ===== *)
theory ClientWindows
  imports ClientExchange
begin

text \<open>
  The chat windows of the client and the map of their processes. The keys of that map are
  pointers to the names the caller passes, so the map means something only while those names
  stay: \<open>key_below b\<close> are the strings below the address \<open>b\<close>, and a step that keeps the memory
  below \<open>b\<close> keeps the map.
\<close>

section \<open>The map of processes\<close>

definition key_below :: "addr \<Rightarrow> bmem \<Rightarrow> addr \<Rightarrow> u8 list \<Rightarrow> bool" where
  "key_below b m a cs \<longleftrightarrow> string_key m a cs \<and> a + length cs < b"

interpretation process_names: string_functions HashFunctionGroups_client EqualityFunctionForGroups_client
proof
  show "HashFunctionGroups_client m a = Inr (char_hash cs)" if "str_at m a cs" "length cs < 2 ^ 23" for m a cs
    using HashFunctionGroups_ok [OF that] by (simp add: HashFunctionGroups_client_def HashFunctionGroups_def)
  show "EqualityFunctionForGroups_client m a b = Inr (if xs = ys then 1 else 0)"
    if "str_at m a xs" "str_at m b ys" for m a b xs ys
    using EqualityFunctionForGroups_ok [OF that]
    by (simp add: EqualityFunctionForGroups_client_def EqualityFunctionForGroups_def)
qed

interpretation processes: key_functions HashFunctionGroups_client EqualityFunctionForGroups_client
  "key_below b" char_hash for b
proof
  show "HashFunctionGroups_client bm a = Inr (char_hash k)" if "key_below b bm a k" for bm a k
    using that by (simp add: key_below_def string_key_def process_names.hash_str)
  show "\<exists>r. EqualityFunctionForGroups_client bm a a' = Inr r \<and> (r = 1 \<longleftrightarrow> k = k')"
    if "key_below b bm a k" "key_below b bm a' k'" for bm a k a' k'
    using process_names.equal_str [of bm a k a' k'] that by (auto simp: key_below_def string_key_def)
qed (auto simp: key_below_def dest: string_key_laws)

definition pid_map :: "addr \<Rightarrow> 'a client_mem_scheme \<Rightarrow> addr \<Rightarrow> (u8 list \<rightharpoonup> addr) \<Rightarrow> bool" where
  "pid_map b s cl M \<longleftrightarrow> (\<exists>c m. client_objs s cl = Some c \<and> m_pidHash c = Some m \<and>
     map_abs HashFunctionGroups_client EqualityFunctionForGroups_client (key_below b) char_hash s m M)"

lemma map_abs_below:
  assumes abs: "map_abs hf ef (key_below b) H s m M" and "brk s \<le> brk s'"
    and "\<forall>a < b. bytes s' a = bytes s a" and same: "nodes s' = nodes s" "ditems s' = ditems s" and "b \<le> b'"
  shows "map_abs hf ef (key_below b') H s' m M"
proof -
  have k: "key_below b' (bmem.truncate s') a cs" if "key_below b (bmem.truncate s) a cs" for a cs
  proof -
    have "str_at s a cs" "a + length cs < b" "length cs < 2 ^ 23"
      using that by (simp_all add: key_below_def string_key_def)
    moreover have "str_at s' a cs" by (rule str_at_cong [OF calculation(1)]) (use assms(2,3) calculation in auto)
    ultimately show ?thesis using assms(6) by (simp add: key_below_def string_key_def)
  qed
  obtain dss K where a: "hmap_rep s m dss" "wf_hash_mem s"
    "m_hashFunc m = Some hf" "m_keysEqualFunc m = Some ef" "map_keys (key_below b) s (concat dss) K"
    "inj_on K (set (concat dss))"
    "\<forall>i < length dss. \<forall>d \<in> set (dss ! i). unat (H (K d) mod m_allocSize m) = i"
    "\<forall>k v. M k = Some v \<longleftrightarrow> (\<exists>d \<in> set (concat dss). K d = k \<and> m_value (the (ditems s d)) = v)"
    using abs unfolding map_abs_def by blast
  have "hmap_rep s' m dss" using a(1) hmap_rep_heaps [OF same] by blast
  moreover have "wf_hash_mem s'" using a(2) same assms(2) by (simp add: wf_hash_mem_def wf_list_mem_def)
  moreover have "map_keys (key_below b') s' (concat dss) K"
    using a(5) k unfolding map_keys_def same by blast
  ultimately show ?thesis unfolding map_abs_def same using a(3,4,6-8) by blast
qed

lemma pid_map_kept:
  assumes "pid_map b s cl M" and k: "kept b s s'" and "b \<le> b'"
  shows "pid_map b' s' cl M"
proof -
  obtain c m where c: "client_objs s cl = Some c" "m_pidHash c = Some m"
    and abs: "map_abs HashFunctionGroups_client EqualityFunctionForGroups_client (key_below b) char_hash s m M"
    using assms(1) by (auto simp: pid_map_def)
  have "\<forall>a < b. bytes s' a = bytes s a" using kept_env(3) [OF k] by blast
  then have "map_abs HashFunctionGroups_client EqualityFunctionForGroups_client (key_below b') char_hash s' m M"
    by (rule map_abs_below [OF abs kept_env(2) [OF k] _ kept_rest(1,2) [OF k] assms(3)])
  with c show ?thesis by (auto simp: pid_map_def kept_rest(4) [OF k])
qed

section \<open>The state of a client\<close>

definition client_rep :: "addr \<Rightarrow> 'a client_mem_scheme \<Rightarrow> addr \<Rightarrow> addr \<Rightarrow> int \<Rightarrow> int \<Rightarrow> (u8 list \<rightharpoonup> addr) \<Rightarrow> bool" where
  "client_rep b s cl net sock port M \<longleftrightarrow> env s \<and> b \<le> brk s \<and> client_conn s cl net sock \<and> pid_map b s cl M \<and>
     (\<exists>c. client_objs s cl = Some c \<and> m_serverPort c = port)"

lemma client_rep_kept:
  assumes "client_rep b s cl net sock port M" and k: "kept b s s'" and "b \<le> b'" "b' \<le> brk s'"
  shows "client_rep b' s' cl net sock port M"
  using assms pid_map_kept [OF _ k assms(3)] kept_env [OF k] client_conn_kept [OF k]
  by (auto simp: client_rep_def kept_rest)

lemma InsertPID_ok:
  fixes s :: "'a client_mem_scheme"
  assumes rep: "client_rep b s cl net sock port M" and g: "str_at s g gname" "length gname \<le> 17" "g + length gname < b"
  obtains s' p where
    "InsertPID x y g cl s = Inr (if M gname = None then 1 else - 1, s')"
    "client_rep b s' cl net sock port (if M gname = None then M(gname \<mapsto> p) else M)"
    "bytes s' = bytes s" "brk s \<le> brk s'" "cos s' = cos s" "asked s' = asked s" "events s' = events s"
    "pids s' = (pids s)(p \<mapsto> \<lparr>m_sender = x, m_listen = y\<rparr>)" "brk s \<le> p"
proof -
  have e: "env s" and b: "b \<le> brk s" using rep by (simp_all add: client_rep_def)
  let ?p = "brk s"
  define s1 where "s1 = s\<lparr>brk := brk s + 2, pids := (pids s)(?p \<mapsto> \<lparr>m_sender = x, m_listen = y\<rparr>)\<rparr>"
  have cl0: "cl \<noteq> NULL" using rep by (simp add: client_rep_def client_conn_def)
  obtain c m where c: "client_objs s cl = Some c" "m_pidHash c = Some m"
    and abs: "map_abs HashFunctionGroups_client EqualityFunctionForGroups_client (key_below b) char_hash s m M"
    using rep by (auto simp: client_rep_def pid_map_def)
  have abs1: "map_abs HashFunctionGroups_client EqualityFunctionForGroups_client (key_below b) char_hash s1 m M"
    by (rule map_abs_below [OF abs]) (simp_all add: s1_def)
  have key: "key_below b (bmem.truncate s1) g gname"
  proof -
    have "str_at s1 g gname" by (rule str_at_cong [OF g(1)]) (simp_all add: s1_def)
    then show ?thesis using g(2,3) by (simp add: key_below_def string_key_def)
  qed
  have e1: "env s1"
    using e by (simp add: s1_def env_def wf_hash_mem_def wf_list_mem_def wf_bytes_def enough_mem_def zeroed_def)
  have start: "InsertPID x y g cl s = chain (HashMap_Insert (Some m) g ?p) (\<lambda>(r, mp).
      chain (set_pid_hash cl mp) (\<lambda>_. ret (if r = MAP_SUCCESS then 1 else - 1))) s1"
    using e env_simps(6) [OF e] c cl0
    by (simp add: InsertPID_def malloc_def env_def enough_mem_def obj_step s1_def)
  have conn: "client_conn s1 cl net sock" "m_serverPort c = port" "client_objs s1 cl = Some c"
    using rep c by (auto simp: client_rep_def client_conn_def s1_def)
  show ?thesis
  proof (cases "M gname")
    case (Some v)
    have "HashMap_Insert (Some m) g ?p s1 = Inr ((MAP_KEY_DUPLICATE_ERROR, Some m), s1)"
      by (rule processes.insert_duplicate [OF abs1 key]) (simp add: Some)
    moreover have "set_pid_hash cl (Some m) s1 = Inr ((), s1)"
      using conn(3) cl0 c(2) by (simp add: set_pid_hash_def set_client_def obj_step) (auto simp: fun_upd_idem)
    ultimately have "InsertPID x y g cl s = Inr (- 1, s1)" using start by simp
    moreover have "client_rep b s1 cl net sock port M"
      using conn e1 b c(2) abs1 by (auto simp: client_rep_def pid_map_def) (simp add: s1_def)
    ultimately show ?thesis using Some by (intro that [of s1 ?p]) (simp_all add: s1_def)
  next
    case None
    obtain s2 m' where s2: "HashMap_Insert (Some m) g ?p s1 = Inr ((MAP_SUCCESS, Some m'), s2)"
      "map_abs HashFunctionGroups_client EqualityFunctionForGroups_client (key_below b) char_hash s2 m' (M(gname \<mapsto> ?p))"
      "bytes s2 = bytes s1" "enough_mem s2" "brk s1 \<le> brk s2" "hash_only s1 s2"
      using processes.insert_refines [OF abs1 key None env_simps(3,5) [OF e1], of ?p] by blast
    obtain k nn dd where h: "s2 = s1\<lparr>brk := k, nodes := nn, ditems := dd\<rparr>"
      using s2(6) unfolding hash_only_def by blast
    have same: "client_objs s2 = client_objs s" "nets s2 = nets s" "cos s2 = cos s" "asked s2 = asked s"
      "events s2 = events s" "pids s2 = pids s1" "junk s2 = junk s" "oom s2 = oom s" by (simp_all add: h s1_def)
    define s3 where "s3 = s2\<lparr>client_objs := (client_objs s)(cl \<mapsto> c\<lparr>m_pidHash := Some m'\<rparr>)\<rparr>"
    have set: "set_pid_hash cl (Some m') s2 = Inr ((), s3)"
      using same c(1) cl0 by (simp add: set_pid_hash_def set_client_def obj_step s3_def)
    have abs3: "map_abs HashFunctionGroups_client EqualityFunctionForGroups_client (key_below b) char_hash s3 m' (M(gname \<mapsto> ?p))"
      by (rule map_abs_below [OF s2(2)]) (simp_all add: s3_def)
    have wf: "wf_hash_mem s2" using s2(2) by (auto simp: map_abs_def)
    have bb: "brk s \<le> brk s2" "bytes s2 = bytes s" using s2(3,5) by (simp_all add: s1_def)
    have "env s3" using e wf s2(4) bb same
      by (auto simp: s3_def env_def wf_hash_mem_def wf_list_mem_def wf_bytes_def enough_mem_def zeroed_def)
    moreover have "client_conn s3 cl net sock" using conn by (auto simp: client_conn_def s3_def same s1_def)
    ultimately have "client_rep b s3 cl net sock port (M(gname \<mapsto> ?p))"
      using b bb abs3 conn(2) by (auto simp: client_rep_def pid_map_def s3_def)
    moreover have "InsertPID x y g cl s = Inr (1, s3)" using start s2(1) set by simp
    ultimately show ?thesis using None bb same by (intro that [of s3 ?p]) (simp_all add: s3_def s1_def)
  qed
qed

section \<open>The commands\<close>

lemma dec_length_bound: "n < 10 ^ Suc k \<Longrightarrow> length (dec n) \<le> Suc k"
proof (induction k arbitrary: n)
  case 0
  then show ?case by (subst dec.simps) simp
next
  case (Suc k)
  then have "n div 10 < 10 ^ Suc k" by (simp add: div_less_iff_less_mult)
  then show ?case using Suc.IH [of "n div 10"] by (subst dec.simps) simp
qed

lemma dec_int_text:
  assumes "int_ok i"
  shows "length (dec_int i) \<le> 11" "0 \<notin> set (dec_int i)"
proof -
  have "nat i < 10 ^ Suc 9" "nat (- i) < 10 ^ Suc 9" using assms by (auto simp: int_ok_def nat_less_iff)
  then have "length (dec (nat i)) \<le> Suc 9" "length (dec (nat (- i))) \<le> Suc 9" by (blast intro: dec_length_bound)+
  then show "length (dec_int i) \<le> 11" "0 \<notin> set (dec_int i)"
    using dec_no_zero by (simp_all add: dec_int_def)
qed

lemma window_texts:
  "length listen_window \<le> 60" "0 \<notin> set listen_window" "length sender_window \<le> 60" "0 \<notin> set sender_window"
  by (simp_all add: listen_window_def sender_window_def ascii_def)

lemma sprintf_window_ok:
  fixes s :: "'a client_mem_scheme"
  assumes e: "env s" and dst: "mapped s dst CLIENT_BUFF_SIZE" "b \<le> dst" "dst + CLIENT_BUFF_SIZE < brk s"
    and w: "length win \<le> 60" "0 \<notin> set win" and port: "int_ok port"
    and ip: "str_at s ip ipn" "length ipn \<le> 16" and u: "str_at s u un" "length un \<le> 16"
    and g: "str_at s g gn" "length gn \<le> 17"
  obtains s' where "sprintf_window dst win ip port u g s = Inr ((), s')" "kept b s s'"
    "str_at s' dst (window_command win ipn port un gn)" "brk s' = brk s" "asked s' = asked s" "events s' = events s"
    "\<And>q. q < dst \<or> dst + CLIENT_BUFF_SIZE \<le> q \<Longrightarrow> bytes s' q = bytes s q"
proof -
  let ?cmd = "window_command win ipn port un gn"
  note d = dec_int_text [OF port]
  have len: "length ?cmd < CLIENT_BUFF_SIZE"
    using w ip u g d by (simp add: window_command_def CLIENT_BUFF_SIZE_def)
  have z: "0 \<notin> set ?cmd"
    using w ip u g d by (auto simp: window_command_def str_at_def)
  let ?s' = "stored dst (?cmd @ [0]) s"
  have m: "mapped s dst (length (?cmd @ [0]))" by (rule mapped_sub [OF dst(1), of 0, simplified]) (use len in simp)
  have "sprintf_window dst win ip port u g s = Inr ((), ?s')"
    using str_at_c_str [OF ip(1)] str_at_c_str [OF u(1)] str_at_c_str [OF g(1)] put_stored [OF m order_refl]
    by (simp add: sprintf_window_def)
  moreover have "kept b s ?s'" by (rule kept_stored [OF e m dst(2)])
  moreover have "str_at ?s' dst ?cmd"
    by (rule str_at_stored_new) (use dst len z in \<open>auto simp: mapped_def\<close>)
  moreover have "bytes ?s' q = bytes s q" if "q < dst \<or> dst + CLIENT_BUFF_SIZE \<le> q" for q
    using that len by (auto simp: stored_def map_bytes_def)
  ultimately show ?thesis by (intro that [of ?s']) (simp_all add: stored_def)
qed

lemma run_system_ok [c_step]:
  "str_at s cmd cs \<Longrightarrow> run_system cmd s = Inr ((), s\<lparr>events := events s @ [Ran cs]\<rparr>)"
  by (simp add: run_system_def str_at_c_str)

section \<open>Opening the windows\<close>

definition window_events ::
  "client_os \<Rightarrow> nat \<Rightarrow> u8 list \<Rightarrow> int \<Rightarrow> u8 list \<Rightarrow> u8 list \<Rightarrow> client_event list" where
  "window_events w n ip port un gn =
     Ran (window_command listen_window ip port un gn) #
     (case pid_file w n of None \<Rightarrow> [] | Some _ \<Rightarrow> [Ran (window_command sender_window ip port un gn)])"

text \<open>The two process ids that are read back, of the listener and of the sender.\<close>

definition window_pids :: "client_os \<Rightarrow> nat \<Rightarrow> (int \<times> int) option" where
  "window_pids w n = (case pid_file w n of None \<Rightarrow> None
     | Some l \<Rightarrow> (case pid_file w (n + 1) of None \<Rightarrow> None | Some r \<Rightarrow> Some (l, r)))"

definition window_calls :: "client_os \<Rightarrow> nat \<Rightarrow> nat" where
  "window_calls w n = (case pid_file w n of None \<Rightarrow> 1 | Some _ \<Rightarrow> 2)"

text \<open>What the windows leave in the map: the ids, under the name of the group, if it is new.\<close>

definition recorded ::
  "client_os \<Rightarrow> nat \<Rightarrow> u8 list \<Rightarrow> (u8 list \<rightharpoonup> addr) \<Rightarrow> (addr \<rightharpoonup> PID) \<Rightarrow> (u8 list \<rightharpoonup> addr) \<Rightarrow> bool" where
  "recorded w n gn M P M' \<longleftrightarrow>
     (case window_pids w n of
        None \<Rightarrow> M' = M
      | Some (l, r) \<Rightarrow> if M gn = None
          then (\<exists>p. M' = M(gn \<mapsto> p) \<and> P p = Some \<lparr>m_sender = l, m_listen = r\<rparr>) else M' = M)"

definition window_result ::
  "addr \<Rightarrow> 'a client_mem_scheme \<Rightarrow> 'a client_mem_scheme \<Rightarrow> addr \<Rightarrow> addr \<Rightarrow> int \<Rightarrow> int \<Rightarrow> (u8 list \<rightharpoonup> addr) \<Rightarrow>
   u8 list \<Rightarrow> u8 list \<Rightarrow> u8 list \<Rightarrow> bool" where
  "window_result b s s' cl net sock port M ipn un gn \<longleftrightarrow>
     (\<exists>M'. client_rep b s' cl net sock port M' \<and> recorded (cos s) (asked s) gn M (pids s') M') \<and>
     (\<forall>a < b. bytes s' a = bytes s a) \<and> brk s \<le> brk s' \<and> cos s' = cos s \<and>
     asked s' = asked s + window_calls (cos s) (asked s) \<and>
     events s' = events s @ window_events (cos s) (asked s) ipn port un gn"

lemma window_result_out:
  fixes s :: "'a client_mem_scheme"
  assumes r: "window_result b s0 s' cl net sock port M ipn un gn" and "b \<le> p"
  shows "window_result b s0 (out_of_scope p n s') cl net sock port M ipn un gn"
proof -
  obtain M' where M': "client_rep b s' cl net sock port M'" "recorded (cos s0) (asked s0) gn M (pids s') M'"
    using r by (auto simp: window_result_def)
  have e: "env s'" using M'(1) by (simp add: client_rep_def)
  note k = kept_out_of_scope [OF e assms(2), where n = n]
  have "client_rep b (out_of_scope p n s') cl net sock port M'"
    by (rule client_rep_kept [OF M'(1) k(1) order_refl]) (use M'(1) in \<open>simp add: client_rep_def out_of_scope_def\<close>)
  then show ?thesis using r M'(2) k kept_env(3) [OF k(1)]
    unfolding window_result_def by (auto simp: kept_rest [OF k(1)] out_of_scope_def [of p n s'])
qed

text \<open>What is shown of a body is shown of the body with an array around it.\<close>

lemma window_result_array:
  fixes s :: "'a client_mem_scheme"
  assumes "body (brk s1) (in_scope n s1) = Inr (r, s')" and "window_result b s s' cl net sock port M ipn un gn"
    and "b \<le> brk s1"
  shows "\<exists>s'. with_array n body s1 = Inr (r, s') \<and> window_result b s s' cl net sock port M ipn un gn"
  using with_array_run [where body = body, OF assms(1)] window_result_out [OF assms(2,3)] by blast

text \<open>One window: the command is written, run, and the process id is read.\<close>

lemma one_window:
  fixes s :: "'a client_mem_scheme"
  assumes e: "env s" and B: "mapped s B CLIENT_BUFF_SIZE" "b \<le> B" "B + CLIENT_BUFF_SIZE < brk s"
    and w: "length win \<le> 60" "0 \<notin> set win" and port: "int_ok port"
    and ip: "str_at s ip ipn" "length ipn \<le> 16" and u: "str_at s u un" "length un \<le> 16"
    and g: "str_at s g gn" "length gn \<le> 17"
  obtains s' where "\<And>f. chain (sprintf_window B win ip port u g) (\<lambda>_. chain (run_system B) (\<lambda>_.
      chain (ask pid_file) f)) s = f (pid_file (cos s) (asked s)) s'"
    "kept b s s'" "brk s' = brk s" "asked s' = asked s + 1"
    "events s' = events s @ [Ran (window_command win ipn port un gn)]"
    "\<And>q. q < B \<or> B + CLIENT_BUFF_SIZE \<le> q \<Longrightarrow> bytes s' q = bytes s q"
proof -
  obtain s1 where s1: "sprintf_window B win ip port u g s = Inr ((), s1)" "kept b s s1"
    "str_at s1 B (window_command win ipn port un gn)" "brk s1 = brk s" "asked s1 = asked s" "events s1 = events s"
    "\<And>q. q < B \<or> B + CLIENT_BUFF_SIZE \<le> q \<Longrightarrow> bytes s1 q = bytes s q"
    by (rule sprintf_window_ok [OF assms]) blast
  define s2 where "s2 = s1\<lparr>events := events s @ [Ran (window_command win ipn port un gn)], asked := asked s + 1\<rparr>"
  have "run_system B s1 = Inr ((), s1\<lparr>events := events s @ [Ran (window_command win ipn port un gn)]\<rparr>)"
    using run_system_ok [OF s1(3)] by (simp add: s1(6))
  moreover have "kept b s s2"
    using kept_trans [OF s1(2) kept_trans [OF kept_events kept_asked]] kept_env(1) [OF s1(2)] by (simp add: s2_def)
  ultimately show ?thesis
    by (intro that [of s2]) (use s1 kept_rest(7) [OF s1(2)] in \<open>simp_all add: s2_def\<close>)
qed

text \<open>After the second window the ids are recorded.\<close>

lemma ids_recorded:
  fixes s s1 :: "'a client_mem_scheme"
  assumes k: "kept (brk s) s s1" and rep: "client_rep b s cl net sock port M" and g: "str_at s g gn" "length gn \<le> 17" "g + length gn < b"
    and io: "asked s1 = asked s + 2" "events s1 = events s @ window_events (cos s) (asked s) ipn port un gn"
    and l: "pid_file (cos s) (asked s) = Some l"
  shows "\<exists>s'. (case pid_file (cos s) (asked s + 1) of None \<Rightarrow> ret ()
      | Some r \<Rightarrow> chain (InsertPID l r g cl) (\<lambda>_. ret ())) s1 = Inr ((), s') \<and>
    window_result b s s' cl net sock port M ipn un gn"
proof -
  have le: "b \<le> brk s" using rep by (simp add: client_rep_def)
  note kb = kept_mono [OF k le]
  have up: "client_rep b s1 cl net sock port M"
    by (rule client_rep_kept [OF rep kb order_refl]) (use le kept_env(2) [OF k] in simp)
  show ?thesis
  proof (cases "pid_file (cos s) (asked s + 1)")
    case None
    then have "window_result b s s1 cl net sock port M ipn un gn"
      unfolding window_result_def using up kept_env(2,3) [OF kb] kept_rest(7) [OF k] io l
      by (auto simp: recorded_def window_pids_def window_calls_def)
    then show ?thesis using None by auto
  next
    case (Some r)
    obtain s2 p where s2: "InsertPID l r g cl s1 = Inr (if M gn = None then 1 else - 1, s2)"
      "client_rep b s2 cl net sock port (if M gn = None then M(gn \<mapsto> p) else M)"
      "bytes s2 = bytes s1" "brk s1 \<le> brk s2" "cos s2 = cos s1" "asked s2 = asked s1" "events s2 = events s1"
      "pids s2 = (pids s1)(p \<mapsto> \<lparr>m_sender = l, m_listen = r\<rparr>)"
      by (rule InsertPID_ok [OF up kept_str [OF g(1) kb g(3)] g(2) g(3)]) blast
    have "recorded (cos s) (asked s) gn M (pids s2) (if M gn = None then M(gn \<mapsto> p) else M)"
      using s2(8) Some l by (auto simp: recorded_def window_pids_def)
    then have "window_result b s s2 cl net sock port M ipn un gn"
      unfolding window_result_def using s2(2-7) kept_env(2,3) [OF kb] kept_rest(7) [OF k] io l
      by (auto simp: window_calls_def intro: order_trans)
    then show ?thesis using Some s2(1) by auto
  qed
qed

lemma OpenChatWindow_ok:
  fixes s :: "'a client_mem_scheme"
  assumes rep: "client_rep b s cl net sock port M" and port: "int_ok port"
    and ip: "str_at s ip ipn" "length ipn \<le> 16" and u: "str_at s u un" "length un \<le> 16"
    and g: "str_at s g gn" "length gn \<le> 17" "g + length gn < b"
  shows "\<exists>s'. OpenChatWindow ip port u g cl s = Inr ((), s') \<and> window_result b s s' cl net sock port M ipn un gn"
proof -
  have e: "env s" and b: "b \<le> brk s" using rep by (simp_all add: client_rep_def)
  let ?N = CLIENT_BUFF_SIZE
  define s1 where "s1 = in_scope ?N s"
  define s2 where "s2 = in_scope ?N s1"
  note i1 = kept_in_scope [OF e, of ?N, folded s1_def]
  note i2 = kept_in_scope [OF kept_env(1) [OF i1(1)], of ?N, folded s2_def]
  have le: "brk s \<le> brk s1" using i1(5) by simp
  have k2: "kept (brk s) s s2" using kept_trans [OF i1(1) kept_mono [OF i2(1) le]] .
  have below: "ip + length ipn < brk s" "u + length un < brk s" "g + length gn < brk s"
    using ip u g by (simp_all add: str_at_def)
  have m1: "mapped s2 (brk s) ?N" by (rule mapped_kept [OF i1(2) i2(1)]) (simp add: i1(5))
  have b2: "brk s + ?N < brk s2" "brk s1 + ?N < brk s2" using i1(5) i2(5) by simp_all
  note strs = kept_str [OF ip(1) _ below(1)] ip(2) kept_str [OF u(1) _ below(2)] u(2) kept_str [OF g(1) _ below(3)] g(2)
  have io2: "cos s2 = cos s" "asked s2 = asked s" "events s2 = events s"
    using kept_rest(7) [OF k2] i1(3,4) i2(3,4) by simp_all
  obtain s3 where s3: "\<And>f :: int option \<Rightarrow> ('a client_mem_scheme, unit) prog. chain (sprintf_window (brk s) listen_window ip port u g) (\<lambda>_.
      chain (run_system (brk s)) (\<lambda>_. chain (ask pid_file) f)) s2 = f (pid_file (cos s) (asked s)) s3"
    "kept (brk s) s2 s3" "brk s3 = brk s2" "asked s3 = asked s + 1"
    "events s3 = events s @ [Ran (window_command listen_window ipn port un gn)]"
    "\<And>q. q < brk s \<or> brk s + ?N \<le> q \<Longrightarrow> bytes s3 q = bytes s2 q"
    by (rule one_window [OF kept_env(1) [OF k2] m1 order_refl b2(1) window_texts(1,2) port
      strs(1) [OF k2] strs(2) strs(3) [OF k2] strs(4) strs(5) [OF k2] strs(6), unfolded io2]) (rule that; assumption)
  have k3: "kept (brk s) s s3" by (rule kept_trans [OF k2 s3(2)])
  let ?B = "\<lambda>B1 B2. chain (sprintf_window B1 listen_window ip port u g) (\<lambda>_. chain (run_system B1) (\<lambda>_.
     chain (ask pid_file) (\<lambda>fdListen. case fdListen of None \<Rightarrow> ret ()
     | Some l \<Rightarrow> chain (sprintf_window B2 sender_window ip port u g) (\<lambda>_. chain (run_system B2) (\<lambda>_.
         chain (ask pid_file) (\<lambda>fdSender. case fdSender of None \<Rightarrow> ret ()
         | Some r \<Rightarrow> chain (InsertPID l r g cl) (\<lambda>_. ret ())))))))"
  have inner: "\<exists>s'. ?B (brk s) (brk s1) s2 = Inr ((), s') \<and> window_result b s s' cl net sock port M ipn un gn"
  proof (cases "pid_file (cos s) (asked s)")
    case None
    have "client_rep b s3 cl net sock port M"
      by (rule client_rep_kept [OF rep kept_mono [OF k3 b] order_refl]) (use b kept_env(2) [OF k3] in simp)
    then have "window_result b s s3 cl net sock port M ipn un gn"
      unfolding window_result_def using kept_env(2,3) [OF kept_mono [OF k3 b]] kept_rest(7) [OF k3] None s3(4,5)
      by (auto simp: recorded_def window_pids_def window_calls_def window_events_def)
    then show ?thesis using s3(1) None by auto
  next
    case (Some l)
    have m3: "mapped s3 (brk s1) ?N" using i2(2) s3(6) i1(5) by (simp add: mapped_def)
    have b3: "brk s1 + ?N < brk s3" using b2(2) s3(3) by simp
    obtain s4 where s4: "\<And>f :: int option \<Rightarrow> ('a client_mem_scheme, unit) prog. chain (sprintf_window (brk s1) sender_window ip port u g) (\<lambda>_.
        chain (run_system (brk s1)) (\<lambda>_. chain (ask pid_file) f)) s3 = f (pid_file (cos s3) (asked s3)) s4"
      "kept (brk s) s3 s4" "asked s4 = asked s3 + 1"
      "events s4 = events s3 @ [Ran (window_command sender_window ipn port un gn)]"
      by (rule one_window [OF kept_env(1) [OF k3] m3 le b3 window_texts(3,4) port
        strs(1) [OF k3] strs(2) strs(3) [OF k3] strs(4) strs(5) [OF k3] strs(6)]) (rule that; assumption)
    have "asked s4 = asked s + 2" "events s4 = events s @ window_events (cos s) (asked s) ipn port un gn"
      using s4(3,4) s3(4,5) Some by (simp_all add: window_events_def)
    from ids_recorded [OF kept_trans [OF k3 s4(2)] rep g this Some]
    show ?thesis using Some kept_rest(7) [OF k3] s3(4) by (simp add: s3(1) s4(1))
  qed
  then obtain s' where s': "?B (brk s) (brk s1) s2 = Inr ((), s')" "window_result b s s' cl net sock port M ipn un gn" by blast
  from window_result_array [where body = "?B (brk s)", OF s'(1) [unfolded s2_def] s'(2) order_trans [OF b le]]
  obtain s'' where s'': "with_array ?N (?B (brk s)) s1 = Inr ((), s'')" "window_result b s s'' cl net sock port M ipn un gn"
    by blast
  from window_result_array [where body = "\<lambda>B1. with_array ?N (?B B1)", OF s''(1) [unfolded s1_def] s''(2) b]
  show ?thesis by (simp add: OpenChatWindow_def)
qed

end
