(* ===== verification/ClientSession.thy ===== *)
theory ClientSession
  imports ClientWindows
begin

text \<open>
  The calls of the client as a whole. For every answer of the server, \<open>User_Register\<close>,
  \<open>User_LogIn\<close>, \<open>Create_New_Group\<close>, \<open>Join_To_Group\<close> and \<open>Leave_Group_Conversation\<close> return the
  result the answer stands for, send exactly the bytes of the request, and leave the
  representation of the client intact.
\<close>

section \<open>Results\<close>

fun register_outcome :: "Answers \<Rightarrow> Client_err" where
  "register_outcome REGISTER_SUCCESS = CLIENT_SUCCESS"
| "register_outcome _ = CLIENT_FAIL"

fun login_result :: "Answers \<Rightarrow> Client_err option" where
  "login_result LOGIN_USER_SUCCESSFULLY_CONNECTED = Some CLIENT_SUCCESS"
| "login_result LOGIN_USER_NAME_NOT_EXIST = Some CLIENT_USER_NAME_NOT_EXIST"
| "login_result LOGIN_WRONG_PSW = Some CLIENT_WRONG_PSW"
| "login_result LOGIN_ALLREADY_CONNECTED = Some CLIENT_ALLREADY_CONNECTED"
| "login_result _ = None"

fun create_result :: "Answers \<Rightarrow> Client_err" where
  "create_result GROUP_NAME_ALREADY_EXIST = CLIENT_FAIL_GROUP_CREATE"
| "create_result _ = CLIENT_SUCCESS"

fun join_result :: "Answers \<Rightarrow> Client_err" where
  "join_result GROUP_NAME_NOT_EXIST = CLIENT_FAIL_GROUP_CREATE"
| "join_result _ = CLIENT_SUCCESS"

section \<open>Users\<close>

definition answered_call ::
  "addr \<Rightarrow> 'a client_mem_scheme \<Rightarrow> 'a client_mem_scheme \<Rightarrow> addr \<Rightarrow> addr \<Rightarrow> int \<Rightarrow> int \<Rightarrow>
   (u8 list \<rightharpoonup> addr) \<Rightarrow> u8 list \<Rightarrow> u8 list \<Rightarrow> bool" where
  "answered_call b s s' cl net sock port M xs ys \<longleftrightarrow> kept b s s' \<and> client_rep b s' cl net sock port M \<and>
     asked s' = asked s + 2 \<and> events s' = events s @ [SentOut sock (map Some xs), Arrived sock ys]"

lemma user_call:
  fixes s :: "'a client_mem_scheme"
  assumes e: "env s" and conn: "client_conn s cl net sock"
    and u: "str_at s u name" "length name \<le> 16" and p: "str_at s p pw" "length pw \<le> 16"
    and t: "t \<in> {REGISTER_REQ, LOGIN_REQ}" and send: "0 \<le> net_send (cos s) (asked s)"
    and recv: "net_recv (cos s) (asked s + 1) = Some ys"
    and a: "holds_answer (UserAnswer ta a) ys" "sound_answer (UserAnswer ta a)"
  obtains U s1 s2 c s3 s4 r s5 where "U \<noteq> NULL"
    "CreateUserDetails u p (in_scope CLIENT_BUFF_SIZE s) = Inr (U, s1)"
    "Pack (type_code t) U s1 = Inr (0, s2)" "obj client_objs cl s2 = Inr (c, s2)"
    "Send_To_Server U sizeof_UserDetails (m_clientNet c) s2 = Inr (0, s3)"
    "Recive_From_Server (brk s) CLIENT_BUFF_SIZE (m_clientNet c) s3 = Inr (0, s4)"
    "UnPack (brk s) s4 = Inr (r, s5)" "rd_u32 (brk s + 4) s5 = Inr (answer_code a, s5)"
    "kept (brk s) (in_scope CLIENT_BUFF_SIZE s) s5" "asked s5 = asked s + 2"
    "events s5 = events s @ [SentOut sock (map Some (user_struct t name pw)), Arrived sock ys]"
proof -
  let ?N = CLIENT_BUFF_SIZE
  define s0 where "s0 = in_scope ?N s"
  note i = kept_in_scope [OF e, of ?N, folded s0_def]
  note e0 = kept_env(1) [OF i(1)]
  have below: "u + length name < brk s" "p + length pw < brk s" using u p by (simp_all add: str_at_def)
  obtain s1 where b: "CreateUserDetails u p s0 = Inr (brk s0, s1)"
    "Pack (type_code t) (brk s0) s1 = Inr (0, built (user_struct t name pw) s0)"
    by (rule user_request_built [OF e0 kept_str [OF u(1) i(1) below(1)] u(2) kept_str [OF p(1) i(1) below(2)] p(2) t])
  let ?s2 = "built (user_struct t name pw) s0"
  note k = kept_built [OF e0, of "user_struct t name pw"]
  have le: "brk s \<le> brk s0" using i(5) by simp
  have k2: "kept (brk s) s ?s2" using kept_trans [OF i(1) kept_mono [OF k(1) le]] .
  have c2: "client_conn ?s2 cl net sock" using client_conn_kept [OF k2] conn by simp
  then obtain c where c: "obj client_objs cl ?s2 = Inr (c, ?s2)" "m_clientNet c = net"
    by (auto simp: client_conn_def obj_step)
  have m: "mapped ?s2 (brk s) ?N" by (rule mapped_kept [OF i(2) k(1)]) (simp add: i(5))
  have len: "length (user_struct t name pw) = sizeof_UserDetails"
    using u p by (simp add: user_struct_def length_pad sizeof_UserDetails_def)
  have io: "cos ?s2 = cos s" "asked ?s2 = asked s" "events ?s2 = events s" "brk s0 < brk ?s2"
    using kept_rest(7) [OF k2] k(3,4) i(3,4) by (simp_all add: built_def)
  have fits: "brk s + ?N < brk ?s2" using i(5) io(4) by simp
  have big: "1024 \<le> ?N" by (simp add: CLIENT_BUFF_SIZE_def)
  have "0 \<le> net_send (cos ?s2) (asked ?s2)" "net_recv (cos ?s2) (asked ?s2 + 1) = Some ys"
    using send recv io by simp_all
  then obtain s3 s4 s5 where x: "Send_To_Server (brk s0) (length (user_struct t name pw)) net ?s2 = Inr (0, s3)"
    "Recive_From_Server (brk s) ?N net s3 = Inr (0, s4)"
    "UnPack (brk s) s4 = Inr ((0, type_code (answer_type (UserAnswer ta a))), s5)"
    "rd_u32 (brk s + code_offset (UserAnswer ta a)) s5 = Inr (code_read (UserAnswer ta a), s5)"
    "kept (brk s) ?s2 s5" "asked s5 = asked ?s2 + 2"
    "events s5 = events ?s2 @ [SentOut sock (map Some (user_struct t name pw)), Arrived sock ys]"
    by (rule request_exchange [OF kept_env(1) [OF k2] c2 m order_refl fits k(2) _ _ big a]) (rule that; assumption)
  have "brk s0 \<noteq> NULL" using i(5) by simp
  then show ?thesis
    using b c x kept_trans [OF kept_mono [OF k(1) le] x(5)] io len unfolding s0_def
    by (intro that [of "brk (in_scope ?N s)" s1 _ c s3 s4 "(0, type_code ta)" s5]) simp_all
qed

lemma call_result:
  fixes s :: "'a client_mem_scheme"
  assumes rep: "client_rep b s cl net sock port M" and k: "kept (brk s) s s'"
    and "asked s' = asked s + 2" "events s' = events s @ [SentOut sock (map Some xs), Arrived sock ys]"
  shows "answered_call b s s' cl net sock port M xs ys"
proof -
  have b: "b \<le> brk s" using rep by (simp add: client_rep_def)
  have "client_rep b s' cl net sock port M"
    by (rule client_rep_kept [OF rep kept_mono [OF k b] order_refl]) (use b kept_env(2) [OF k] in simp)
  then show ?thesis using kept_mono [OF k b] assms(3,4) by (simp add: answered_call_def)
qed

lemma client_rep_parts:
  "client_rep b s cl net sock port M \<Longrightarrow> env s" "client_rep b s cl net sock port M \<Longrightarrow> b \<le> brk s"
  "client_rep b s cl net sock port M \<Longrightarrow> client_conn s cl net sock"
  "client_rep b s cl net sock port M \<Longrightarrow> cl \<noteq> NULL"
  by (simp_all add: client_rep_def client_conn_def)

lemma User_Register_ok:
  fixes s :: "'a client_mem_scheme"
  assumes rep: "client_rep b s cl net sock port M"
    and u: "str_at s u name" "length name \<le> 16" and p: "str_at s p pw" "length pw \<le> 16"
    and io: "0 \<le> net_send (cos s) (asked s)" "net_recv (cos s) (asked s + 1) = Some ys"
    and a: "holds_answer (UserAnswer ta a) ys" "sound_answer (UserAnswer ta a)"
  shows "\<exists>s'. User_Register u p cl s = Inr (register_outcome a, s') \<and>
    answered_call b s s' cl net sock port M (user_struct REGISTER_REQ name pw) ys"
proof -
  note r = client_rep_parts [OF rep]
  have nn: "u \<noteq> NULL" "p \<noteq> NULL" using u p by (simp_all add: str_at_def)
  obtain U s1 s2 c s3 s4 r0 s5 where x: "U \<noteq> NULL"
    "CreateUserDetails u p (in_scope CLIENT_BUFF_SIZE s) = Inr (U, s1)"
    "Pack (type_code REGISTER_REQ) U s1 = Inr (0, s2)" "obj client_objs cl s2 = Inr (c, s2)"
    "Send_To_Server U sizeof_UserDetails (m_clientNet c) s2 = Inr (0, s3)"
    "Recive_From_Server (brk s) CLIENT_BUFF_SIZE (m_clientNet c) s3 = Inr (0, s4)"
    "UnPack (brk s) s4 = Inr (r0, s5)" "rd_u32 (brk s + 4) s5 = Inr (answer_code a, s5)"
    and k: "kept (brk s) (in_scope CLIENT_BUFF_SIZE s) s5" "asked s5 = asked s + 2"
    "events s5 = events s @ [SentOut sock (map Some (user_struct REGISTER_REQ name pw)), Arrived sock ys]"
    by (rule user_call [OF r(1,3) u p _ io a, of REGISTER_REQ]) (simp, blast)
  have "User_Register u p cl s = Inr (register_outcome a, out_of_scope (brk s) CLIENT_BUFF_SIZE s5)"
    using x nn r(4)
    by (cases a; simp add: User_Register_def with_array_exec Register_Ans_answer_def del: type_code.simps)
  then show ?thesis using call_result [OF rep kept_scope(1) [OF r(1) k(1)]] kept_scope(2,3) [OF r(1) k(1)] k(2,3) by simp
qed

lemma User_LogIn_ok:
  fixes s :: "'a client_mem_scheme"
  assumes rep: "client_rep b s cl net sock port M"
    and u: "str_at s u name" "length name \<le> 16" and p: "str_at s p pw" "length pw \<le> 16"
    and io: "0 \<le> net_send (cos s) (asked s)" "net_recv (cos s) (asked s + 1) = Some ys"
    and a: "holds_answer (UserAnswer ta a) ys" "sound_answer (UserAnswer ta a)"
  shows "\<exists>s'. User_LogIn u p cl s = Inr (login_result a, s') \<and>
    answered_call b s s' cl net sock port M (user_struct LOGIN_REQ name pw) ys"
proof -
  note r = client_rep_parts [OF rep]
  have nn: "u \<noteq> NULL" "p \<noteq> NULL" using u p by (simp_all add: str_at_def)
  obtain U s1 s2 c s3 s4 r0 s5 where x: "U \<noteq> NULL"
    "CreateUserDetails u p (in_scope CLIENT_BUFF_SIZE s) = Inr (U, s1)"
    "Pack (type_code LOGIN_REQ) U s1 = Inr (0, s2)" "obj client_objs cl s2 = Inr (c, s2)"
    "Send_To_Server U sizeof_UserDetails (m_clientNet c) s2 = Inr (0, s3)"
    "Recive_From_Server (brk s) CLIENT_BUFF_SIZE (m_clientNet c) s3 = Inr (0, s4)"
    "UnPack (brk s) s4 = Inr (r0, s5)" "rd_u32 (brk s + 4) s5 = Inr (answer_code a, s5)"
    and k: "kept (brk s) (in_scope CLIENT_BUFF_SIZE s) s5" "asked s5 = asked s + 2"
    "events s5 = events s @ [SentOut sock (map Some (user_struct LOGIN_REQ name pw)), Arrived sock ys]"
    by (rule user_call [OF r(1,3) u p _ io a, of LOGIN_REQ]) (simp, blast)
  have "User_LogIn u p cl s = Inr (login_result a, out_of_scope (brk s) CLIENT_BUFF_SIZE s5)"
    using x nn r(4)
    by (cases a; simp add: User_LogIn_def with_array_exec Login_Ans_answer_def del: type_code.simps)
  then show ?thesis using call_result [OF rep kept_scope(1) [OF r(1) k(1)]] kept_scope(2,3) [OF r(1) k(1)] k(2,3) by simp
qed

section \<open>Groups\<close>

text \<open>The two arrays of the group calls; the state inside them.\<close>

definition two_arrays :: "'a client_mem_scheme \<Rightarrow> 'a client_mem_scheme" where
  "two_arrays s = in_scope CLIENT_BUFF_SIZE (in_scope CLIENT_BUFF_SIZE s)"

definition after_arrays :: "'a client_mem_scheme \<Rightarrow> 'a client_mem_scheme \<Rightarrow> 'a client_mem_scheme" where
  "after_arrays s s' = out_of_scope (brk s) CLIENT_BUFF_SIZE
     (out_of_scope (brk (in_scope CLIENT_BUFF_SIZE s)) CLIENT_BUFF_SIZE s')"

lemma two_arrays_exec:
  "with_array CLIENT_BUFF_SIZE (\<lambda>a. with_array CLIENT_BUFF_SIZE (body a)) s =
   (case body (brk s) (brk (in_scope CLIENT_BUFF_SIZE s)) (two_arrays s) of Inl e \<Rightarrow> Inl e
     | Inr (r, s') \<Rightarrow> Inr (r, after_arrays s s'))"
  by (auto simp: with_array_exec two_arrays_def after_arrays_def split: sum.splits)

lemma kept_two_arrays:
  fixes s :: "'a client_mem_scheme"
  assumes "env s"
  shows "kept (brk s) s (two_arrays s)" "mapped (two_arrays s) (brk s) CLIENT_BUFF_SIZE"
    "mapped (two_arrays s) (brk (in_scope CLIENT_BUFF_SIZE s)) CLIENT_BUFF_SIZE"
    "asked (two_arrays s) = asked s" "events (two_arrays s) = events s"
    "brk (in_scope CLIENT_BUFF_SIZE s) = brk s + CLIENT_BUFF_SIZE + 1"
    "brk (two_arrays s) = brk s + 2 * CLIENT_BUFF_SIZE + 2"
proof -
  let ?N = CLIENT_BUFF_SIZE
  note i1 = kept_in_scope [OF assms, of ?N]
  note i2 = kept_in_scope [OF kept_env(1) [OF i1(1)], of ?N, folded two_arrays_def]
  have le: "brk s \<le> brk (in_scope ?N s)" using i1(5) by simp
  show "kept (brk s) s (two_arrays s)" using kept_trans [OF i1(1) kept_mono [OF i2(1) le]] .
  show "mapped (two_arrays s) (brk s) ?N" by (rule mapped_kept [OF i1(2) i2(1)]) (simp add: i1(5))
qed (use kept_in_scope [OF assms, of CLIENT_BUFF_SIZE]
    kept_in_scope [OF kept_env(1) [OF kept_in_scope(1) [OF assms, of CLIENT_BUFF_SIZE]], of CLIENT_BUFF_SIZE]
    in \<open>simp_all add: two_arrays_def\<close>)

lemma kept_after_arrays:
  fixes s :: "'a client_mem_scheme"
  assumes e: "env s'" and "b \<le> brk s" and "brk s \<le> brk s'"
  shows "kept b s' (after_arrays s s')" "asked (after_arrays s s') = asked s'" "events (after_arrays s s') = events s'"
proof -
  let ?I = "brk (in_scope CLIENT_BUFF_SIZE s)"
  have b: "b \<le> ?I" using assms(2) by (simp add: in_scope_def)
  note o1 = kept_out_of_scope [OF e b, where n = CLIENT_BUFF_SIZE]
  note o2 = kept_out_of_scope [OF kept_env(1) [OF o1(1)] assms(2), where n = CLIENT_BUFF_SIZE]
  show "kept b s' (after_arrays s s')" "asked (after_arrays s s') = asked s'" "events (after_arrays s s') = events s'"
    using kept_trans [OF o1(1) o2(1)] o1 o2 by (simp_all add: after_arrays_def)
qed

text \<open>The exchange of a group request, packed as the bytes \<open>xs\<close>.\<close>

lemma group_exchange:
  fixes s :: "'a client_mem_scheme"
  assumes rep: "client_rep b s cl net sock port M" and len: "length xs = sizeof_GroupDetails"
    and io: "0 \<le> net_send (cos s) (asked s)" "net_recv (cos s) (asked s + 1) = Some ys"
    and a: "holds_answer (GroupAnswer ta a ip) ys" "sound_answer (GroupAnswer ta a ip)"
  obtains c s3 s4 r s5 where "obj client_objs cl (built xs (two_arrays s)) = Inr (c, built xs (two_arrays s))"
    "m_serverPort c = port"
    "Send_To_Server (brk (two_arrays s)) sizeof_GroupDetails (m_clientNet c) (built xs (two_arrays s)) = Inr (0, s3)"
    "Recive_From_Server (brk s) BUFF_RCV (m_clientNet c) s3 = Inr (0, s4)"
    "UnPack (brk s) s4 = Inr (r, s5)" "rd_u32 (brk s + 20) s5 = Inr (code_read (GroupAnswer ta a ip), s5)"
    "kept (brk s) s s5" "asked s5 = asked s + 2"
    "events s5 = events s @ [SentOut sock (map Some xs), Arrived sock ys]"
    "mapped s5 (brk (in_scope CLIENT_BUFF_SIZE s)) CLIENT_BUFF_SIZE" "brk (two_arrays s) \<le> brk s5"
    "\<And>ipn. ip = Some ipn \<Longrightarrow> str_at s5 (brk s + 1) ipn"
proof -
  let ?N = CLIENT_BUFF_SIZE and ?I = "brk (in_scope CLIENT_BUFF_SIZE s)"
  define s0 where "s0 = two_arrays s"
  let ?s2 = "built xs s0"
  note r = client_rep_parts [OF rep]
  note i = kept_two_arrays [OF r(1), folded s0_def]
  note k = kept_built [OF kept_env(1) [OF i(1)], of xs]
  have le: "brk s \<le> brk s0" using i(7) by simp
  have k2: "kept (brk s) s ?s2" using kept_trans [OF i(1) kept_mono [OF k(1) le]] .
  have c2: "client_conn ?s2 cl net sock" using client_conn_kept [OF k2] r(3) by simp
  obtain c where c: "obj client_objs cl ?s2 = Inr (c, ?s2)" "m_clientNet c = net" "m_serverPort c = port"
    using rep kept_rest(4) [OF k2] by (auto simp: client_rep_def client_conn_def obj_step)
  have big: "1024 \<le> BUFF_RCV" "BUFF_RCV \<le> ?N" by (simp_all add: BUFF_RCV_def CLIENT_BUFF_SIZE_def)
  have m: "mapped ?s2 (brk s) ?N" by (rule mapped_kept [OF i(2) k(1)]) (simp add: i(7))
  have mI: "mapped ?s2 ?I ?N" by (rule mapped_kept [OF i(3) k(1)]) (simp add: i(6,7))
  have m': "mapped ?s2 (brk s) BUFF_RCV" using mapped_sub [OF m, of 0] big(2) by simp
  have bb: "brk s0 < brk ?s2" by (simp add: built_def)
  have fits: "brk s + BUFF_RCV < brk ?s2" using i(7) bb big(2) by simp
  have io2: "cos ?s2 = cos s" "asked ?s2 = asked s" "events ?s2 = events s"
    using kept_rest(7) [OF k2] k(3,4) i(4,5) by simp_all
  have "0 \<le> net_send (cos ?s2) (asked ?s2)" "net_recv (cos ?s2) (asked ?s2 + 1) = Some ys"
    using io io2 by simp_all
  then obtain s3 s4 s5 where x: "Send_To_Server (brk s0) (length xs) net ?s2 = Inr (0, s3)"
    "Recive_From_Server (brk s) BUFF_RCV net s3 = Inr (0, s4)"
    "UnPack (brk s) s4 = Inr ((0, type_code (answer_type (GroupAnswer ta a ip))), s5)"
    "rd_u32 (brk s + code_offset (GroupAnswer ta a ip)) s5 = Inr (code_read (GroupAnswer ta a ip), s5)"
    "kept (brk s) ?s2 s5" "brk s5 = brk ?s2" "asked s5 = asked ?s2 + 2"
    "events s5 = events ?s2 @ [SentOut sock (map Some xs), Arrived sock ys]"
    "\<And>t c ipn. GroupAnswer ta a ip = GroupAnswer t c (Some ipn) \<Longrightarrow> str_at s5 (brk s + 1) ipn"
    "\<And>q. q < brk s \<or> brk s + BUFF_RCV \<le> q \<Longrightarrow> bytes s5 q = bytes ?s2 q"
    by (rule request_exchange [OF kept_env(1) [OF k2] c2 m' order_refl fits k(2) _ _ big(1) a]) (rule that; assumption)
  have "mapped s5 ?I ?N" using mI x(10) i(6) big(2) by (simp add: mapped_def)
  then show ?thesis
    using c x(1-9) kept_trans [OF k2 x(5)] io2 len bb unfolding s0_def
    by (intro that [of c s3 s4 _ s5]) simp_all
qed

lemma group_start:
  fixes s :: "'a client_mem_scheme"
  assumes rep: "client_rep b s cl net sock port M"
    and u: "str_at s u name" "length name \<le> 16" and g: "str_at s g gname" "length gname \<le> 17"
    and t: "t \<in> {CREATE_GROUP_CONVERSATION_REQ, JOIN_CONVERSATION_REQ}"
  obtains s1 where "Init_Group_struct u g (two_arrays s) = Inr (brk (two_arrays s), s1)"
    "Pack (type_code t) (brk (two_arrays s)) s1 = Inr (0, built (group_struct t gname name) (two_arrays s))"
proof -
  note r = client_rep_parts [OF rep]
  note k = kept_two_arrays [OF r(1)]
  have "u + length name < brk s" "g + length gname < brk s" using u g by (simp_all add: str_at_def)
  then show ?thesis
    by (rule group_request_built [OF kept_env(1) [OF k(1)] kept_str [OF u(1) k(1)] u(2) kept_str [OF g(1) k(1)] g(2) t])
      (rule that)
qed

lemma length_group_struct:
  "length name \<le> 16 \<Longrightarrow> length gname \<le> 17 \<Longrightarrow> length (group_struct t gname name) = sizeof_GroupDetails"
  by (simp add: group_struct_def length_pad sizeof_GroupDetails_def)

definition opened_call ::
  "addr \<Rightarrow> 'a client_mem_scheme \<Rightarrow> 'a client_mem_scheme \<Rightarrow> addr \<Rightarrow> addr \<Rightarrow> int \<Rightarrow> int \<Rightarrow>
   (u8 list \<rightharpoonup> addr) \<Rightarrow> u8 list \<Rightarrow> u8 list \<Rightarrow> u8 list \<Rightarrow> u8 list \<Rightarrow> u8 list \<Rightarrow> bool" where
  "opened_call b s s' cl net sock port M xs ys ipn un gn \<longleftrightarrow>
     (\<exists>M'. client_rep b s' cl net sock port M' \<and> recorded (cos s) (asked s + 2) gn M (pids s') M') \<and>
     (\<forall>a < b. bytes s' a = bytes s a) \<and> brk s \<le> brk s' \<and> cos s' = cos s \<and>
     asked s' = asked s + 2 + window_calls (cos s) (asked s + 2) \<and>
     events s' = events s @ [SentOut sock (map Some xs), Arrived sock ys] @
       window_events (cos s) (asked s + 2) ipn port un gn"

text \<open>After an answer with an address: it is copied and the windows are opened.\<close>

lemma windows_after_answer:
  fixes s s5 :: "'a client_mem_scheme"
  assumes rep: "client_rep b s cl net sock port M" and port: "int_ok port"
    and u: "str_at s u un" "length un \<le> 16" and g: "str_at s g gn" "length gn \<le> 17" "g + length gn < b"
    and k: "kept (brk s) s s5" and io: "asked s5 = asked s + 2"
      "events s5 = events s @ [SentOut sock (map Some xs), Arrived sock ys]"
    and I: "mapped s5 (brk (in_scope CLIENT_BUFF_SIZE s)) CLIENT_BUFF_SIZE" "brk (two_arrays s) \<le> brk s5"
    and ip: "str_at s5 (brk s + 1) ipn" "length ipn \<le> 16"
  obtains s6 s7 where "strcpy (brk (in_scope CLIENT_BUFF_SIZE s)) (brk s + 1) s5 = Inr ((), s6)"
    "OpenChatWindow (brk (in_scope CLIENT_BUFF_SIZE s)) port u g cl s6 = Inr ((), s7)"
    "opened_call b s (after_arrays s s7) cl net sock port M xs ys ipn un gn"
proof -
  let ?N = CLIENT_BUFF_SIZE and ?I = "brk (in_scope CLIENT_BUFF_SIZE s)"
  note r = client_rep_parts [OF rep]
  note i = kept_two_arrays [OF r(1)]
  have len: "length (ipn @ [0]) \<le> ?N" using ip(2) by (simp add: CLIENT_BUFF_SIZE_def)
  define s6 where "s6 = stored ?I (ipn @ [0]) s5"
  have cp: "strcpy ?I (brk s + 1) s5 = Inr ((), s6)"
    unfolding s6_def by (rule strcpy_stored [OF ip(1) I(1)]) (use len in simp)
  have m: "mapped s5 ?I (length (ipn @ [0]))" using mapped_sub [OF I(1), of 0] len by simp
  have k6: "kept (brk s) s s6"
    unfolding s6_def by (rule kept_trans [OF k kept_stored [OF kept_env(1) [OF k] m]]) (simp add: i(6))
  have rep6: "client_rep b s6 cl net sock port M"
    by (rule client_rep_kept [OF rep kept_mono [OF k6 r(2)] order_refl]) (use r(2) kept_env(2) [OF k6] in simp)
  have below: "u + length un < brk s" "g + length gn < brk s" using u g by (simp_all add: str_at_def)
  have "0 \<notin> set ipn" using ip(1) by (simp add: str_at_def)
  then have ip6: "str_at s6 ?I ipn"
    unfolding s6_def by (rule str_at_stored_new [rotated]) (use m I(2) i(6,7) len in \<open>auto simp: mapped_def\<close>)
  obtain s7 where s7: "OpenChatWindow ?I port u g cl s6 = Inr ((), s7)"
    "window_result b s6 s7 cl net sock port M ipn un gn"
    using OpenChatWindow_ok [OF rep6 port ip6 ip(2) kept_str [OF u(1) k6 below(1)] u(2)
      kept_str [OF g(1) k6 below(2)] g(2,3)] by blast
  obtain M' where M': "client_rep b s7 cl net sock port M'" "recorded (cos s6) (asked s6) gn M (pids s7) M'"
    using s7(2) by (auto simp: window_result_def)
  have le: "brk s \<le> brk s7" using s7(2) kept_env(2) [OF k6] by (simp add: window_result_def)
  note o = kept_after_arrays [OF client_rep_parts(1) [OF M'(1)] r(2) le]
  have io6: "asked s6 = asked s + 2" "events s6 = events s @ [SentOut sock (map Some xs), Arrived sock ys]"
    using io by (simp_all add: s6_def stored_def)
  have bk: "brk (after_arrays s s7) = brk s7" by (simp add: after_arrays_def out_of_scope_def)
  have "client_rep b (after_arrays s s7) cl net sock port M'"
    by (rule client_rep_kept [OF M'(1) o(1) order_refl]) (use le r(2) bk in simp)
  then have "opened_call b s (after_arrays s s7) cl net sock port M xs ys ipn un gn"
    using M'(2) s7(2) o(2,3) kept_env(3) [OF o(1)] kept_env(3) [OF k6] r(2) le bk
    unfolding opened_call_def window_result_def by (auto simp: kept_rest [OF o(1)] kept_rest [OF k6] io6)
  then show ?thesis by (rule that [OF cp s7(1)])
qed

lemma arrays_left:
  fixes s :: "'a client_mem_scheme"
  assumes rep: "client_rep b s cl net sock port M" and k: "kept (brk s) s s5" and "asked s5 = asked s + 2"
    "events s5 = events s @ [SentOut sock (map Some xs), Arrived sock ys]"
  shows "answered_call b s (after_arrays s s5) cl net sock port M xs ys"
proof -
  note o = kept_after_arrays [OF kept_env(1) [OF k] order_refl kept_env(2) [OF k]]
  show ?thesis by (rule call_result [OF rep kept_trans [OF k o(1)]]) (use o assms in simp_all)
qed

lemma Create_New_Group_ok:
  fixes s :: "'a client_mem_scheme"
  assumes rep: "client_rep b s cl net sock port M" and port: "int_ok port"
    and u: "str_at s u name" "length name \<le> 16" and g: "str_at s g gname" "length gname \<le> 17" "g + length gname < b"
    and io: "0 \<le> net_send (cos s) (asked s)" "net_recv (cos s) (asked s + 1) = Some ys"
    and a: "holds_answer (GroupAnswer CREATE_GROUP_CONVERSATION_ANS a ip) ys"
      "sound_answer (GroupAnswer CREATE_GROUP_CONVERSATION_ANS a ip)" "a = GROUP_SUCCESSFULLY_INSERT \<Longrightarrow> ip \<noteq> None"
  shows "\<exists>s'. Create_New_Group u g cl s = Inr (create_result a, s') \<and>
    (if a = GROUP_SUCCESSFULLY_INSERT
     then opened_call b s s' cl net sock port M (group_struct CREATE_GROUP_CONVERSATION_REQ gname name) ys (the ip) name gname
     else answered_call b s s' cl net sock port M (group_struct CREATE_GROUP_CONVERSATION_REQ gname name) ys)"
proof -
  let ?xs = "group_struct CREATE_GROUP_CONVERSATION_REQ gname name"
  note r = client_rep_parts [OF rep]
  have nn: "u \<noteq> NULL" "g \<noteq> NULL" using u g by (simp_all add: str_at_def)
  obtain s1 where b: "Init_Group_struct u g (two_arrays s) = Inr (brk (two_arrays s), s1)"
    "Pack (type_code CREATE_GROUP_CONVERSATION_REQ) (brk (two_arrays s)) s1 = Inr (0, built ?xs (two_arrays s))"
    by (rule group_start [OF rep u g(1,2), where t = CREATE_GROUP_CONVERSATION_REQ]) auto
  obtain c s3 s4 r0 s5 where x: "obj client_objs cl (built ?xs (two_arrays s)) = Inr (c, built ?xs (two_arrays s))"
    "m_serverPort c = port"
    "Send_To_Server (brk (two_arrays s)) sizeof_GroupDetails (m_clientNet c) (built ?xs (two_arrays s)) = Inr (0, s3)"
    "Recive_From_Server (brk s) BUFF_RCV (m_clientNet c) s3 = Inr (0, s4)"
    "UnPack (brk s) s4 = Inr (r0, s5)" "rd_u32 (brk s + 20) s5 = Inr (answer_code a, s5)"
    and k: "kept (brk s) s s5" "asked s5 = asked s + 2"
      "events s5 = events s @ [SentOut sock (map Some ?xs), Arrived sock ys]"
      "mapped s5 (brk (in_scope CLIENT_BUFF_SIZE s)) CLIENT_BUFF_SIZE" "brk (two_arrays s) \<le> brk s5"
      "\<And>ipn. ip = Some ipn \<Longrightarrow> str_at s5 (brk s + 1) ipn"
    by (rule group_exchange [OF rep length_group_struct [OF u(2) g(2)] io a(1,2)]) (simp, blast)
  note exec = Create_New_Group_def two_arrays_exec Create_Group_Ans_answer_def Create_Group_Ans_groupIP_def
  show ?thesis
  proof (cases "a = GROUP_SUCCESSFULLY_INSERT")
    case True
    then obtain ipn where ipn: "ip = Some ipn" using a(3) by blast
    have "length ipn \<le> 16" using a(2) ipn by simp
    then obtain s6 s7 where "strcpy (brk (in_scope CLIENT_BUFF_SIZE s)) (brk s + 1) s5 = Inr ((), s6)"
      "OpenChatWindow (brk (in_scope CLIENT_BUFF_SIZE s)) port u g cl s6 = Inr ((), s7)"
      "opened_call b s (after_arrays s s7) cl net sock port M ?xs ys ipn name gname"
      by (rule windows_after_answer [OF rep port u g k(1-5) k(6) [OF ipn]])
    then show ?thesis using True b x nn r(4) ipn by (simp add: exec del: type_code.simps)
  next
    case False
    then have "Create_New_Group u g cl s = Inr (create_result a, after_arrays s s5)"
      using b x nn r(4) by (cases a; simp add: exec del: type_code.simps)
    then show ?thesis using False arrays_left [OF rep k(1-3)] by simp
  qed
qed

lemma Join_To_Group_ok:
  fixes s :: "'a client_mem_scheme"
  assumes rep: "client_rep b s cl net sock port M" and port: "int_ok port"
    and u: "str_at s u name" "length name \<le> 16" and g: "str_at s g gname" "length gname \<le> 17" "g + length gname < b"
    and io: "0 \<le> net_send (cos s) (asked s)" "net_recv (cos s) (asked s + 1) = Some ys"
    and a: "holds_answer (GroupAnswer JOIN_CONVERSATION_ANS a ip) ys"
      "sound_answer (GroupAnswer JOIN_CONVERSATION_ANS a ip)" "a = GROUP_SUCCESSFULLY_JOIN \<Longrightarrow> ip \<noteq> None"
  shows "\<exists>s'. Join_To_Group u g cl s = Inr (join_result a, s') \<and>
    (if a = GROUP_SUCCESSFULLY_JOIN
     then opened_call b s s' cl net sock port M (group_struct JOIN_CONVERSATION_REQ gname name) ys (the ip) name gname
     else answered_call b s s' cl net sock port M (group_struct JOIN_CONVERSATION_REQ gname name) ys)"
proof -
  let ?xs = "group_struct JOIN_CONVERSATION_REQ gname name"
  note r = client_rep_parts [OF rep]
  have nn: "u \<noteq> NULL" "g \<noteq> NULL" using u g by (simp_all add: str_at_def)
  have G: "brk (two_arrays s) \<noteq> NULL" using kept_two_arrays(7) [OF r(1)] by simp
  obtain s1 where b: "Init_Group_struct u g (two_arrays s) = Inr (brk (two_arrays s), s1)"
    "Pack (type_code JOIN_CONVERSATION_REQ) (brk (two_arrays s)) s1 = Inr (0, built ?xs (two_arrays s))"
    by (rule group_start [OF rep u g(1,2), where t = JOIN_CONVERSATION_REQ]) auto
  obtain c s3 s4 r0 s5 where x: "obj client_objs cl (built ?xs (two_arrays s)) = Inr (c, built ?xs (two_arrays s))"
    "m_serverPort c = port"
    "Send_To_Server (brk (two_arrays s)) sizeof_GroupDetails (m_clientNet c) (built ?xs (two_arrays s)) = Inr (0, s3)"
    "Recive_From_Server (brk s) BUFF_RCV (m_clientNet c) s3 = Inr (0, s4)"
    "UnPack (brk s) s4 = Inr (r0, s5)" "rd_u32 (brk s + 20) s5 = Inr (answer_code a, s5)"
    and k: "kept (brk s) s s5" "asked s5 = asked s + 2"
      "events s5 = events s @ [SentOut sock (map Some ?xs), Arrived sock ys]"
      "mapped s5 (brk (in_scope CLIENT_BUFF_SIZE s)) CLIENT_BUFF_SIZE" "brk (two_arrays s) \<le> brk s5"
      "\<And>ipn. ip = Some ipn \<Longrightarrow> str_at s5 (brk s + 1) ipn"
    by (rule group_exchange [OF rep length_group_struct [OF u(2) g(2)] io a(1,2)]) (simp, blast)
  note exec = Join_To_Group_def two_arrays_exec Create_Group_Ans_answer_def Create_Group_Ans_groupIP_def
  show ?thesis
  proof (cases "a = GROUP_SUCCESSFULLY_JOIN")
    case True
    then obtain ipn where ipn: "ip = Some ipn" using a(3) by blast
    have "length ipn \<le> 16" using a(2) ipn by simp
    then obtain s6 s7 where "strcpy (brk (in_scope CLIENT_BUFF_SIZE s)) (brk s + 1) s5 = Inr ((), s6)"
      "OpenChatWindow (brk (in_scope CLIENT_BUFF_SIZE s)) port u g cl s6 = Inr ((), s7)"
      "opened_call b s (after_arrays s s7) cl net sock port M ?xs ys ipn name gname"
      by (rule windows_after_answer [OF rep port u g k(1-5) k(6) [OF ipn]])
    then show ?thesis using True b x nn r(4) ipn G by (simp add: exec del: type_code.simps)
  next
    case False
    then have "Join_To_Group u g cl s = Inr (join_result a, after_arrays s s5)"
      using b x nn r(4) G by (cases a; simp add: exec del: type_code.simps)
    then show ?thesis using False arrays_left [OF rep k(1-3)] by simp
  qed
qed

section \<open>Leaving a group\<close>

text \<open>A packed request to leave: bytes 4 to 7 are reversed.\<close>

definition garbled :: "u8 list \<Rightarrow> u8 list" where
  "garbled xs = take 4 xs @ rev (take 4 (drop 4 xs)) @ drop 8 xs"

lemma Pack_leave_built:
  assumes "0 < brk s" and "length xs = 35"
  shows "Pack (type_code LEAVE_CONVERSATION_REQ) (brk s) (built (x # xs) s) =
    Inr (0, built (garbled (type_code LEAVE_CONVERSATION_REQ # xs)) s)"
proof -
  let ?t = "type_code LEAVE_CONVERSATION_REQ" and ?p = "brk s"
  obtain x1 x2 x3 a b c d rest where xs: "xs = [x1, x2, x3, a, b, c, d] @ rest" "length rest = 28"
    using assms(2) by (auto simp: length_Suc_conv numeral_eq_Suc)
  let ?w = "le_word [a, b, c, d]"
  let ?s = "built (?t # xs) s"
  have st: "(built (x # xs) s)\<lparr>bytes := (bytes (built (x # xs) s))(?p \<mapsto> ?t)\<rparr> = ?s"
  proof -
    have "(map_bytes ?p (x # xs) (bytes s))(?p \<mapsto> ?t) = map_bytes ?p (?t # xs) (bytes s)"
      by (auto simp: map_bytes_def nth_Cons' fun_eq_iff)
    then show ?thesis by (simp add: built_def)
  qed
  have same: "(bytes ?s)(?p \<mapsto> ?t) = bytes ?s" by (auto simp: built_def map_bytes_def fun_eq_iff)
  have at: "bytes_at ?s ?p ([?t, x1, x2, x3] @ [a, b, c, d] @ rest)"
  proof -
    have "bytes_at ?s ?p (?t # xs)" using assms(1) by (simp add: built_def bytes_at_def map_bytes_in)
    then show ?thesis by (simp add: xs(1))
  qed
  have w: "bytes_at ?s (?p + 4) (le_bytes ?w)"
    using at unfolding le_bytes_word bytes_at_append by (simp add: eval_nat_numeral)
  have t0: "bytes ?s ?p = Some ?t" by (simp add: built_def map_bytes_def)
  have m0: "bytes (built (x # xs) s) ?p \<noteq> None" by (simp add: built_def map_bytes_def)
  have "Pack ?t ?p (built (x # xs) s) = chain (pack_answer ?t ?p (?p + 4)) (\<lambda>_. ret 0) ?s"
    using assms(1) wr_byte_step [OF _ m0, of ?t] st by (simp add: Pack_def Register_Ans_answer_def)
  also have "\<dots> = Inr (0, ?s\<lparr>bytes := map_bytes (?p + 4) [d, c, b, a] (bytes ?s)\<rparr>)"
    using pack_answer_ok [of ?p ?s 4 ?w ?t] assms(1) w t0
    by (simp add: le_bytes_word same del: le_word.simps type_code.simps)
  also have "map_bytes (?p + 4) [d, c, b, a] (bytes ?s) =
      map_bytes ?p (take 4 (?t # xs) @ [d, c, b, a] @ drop (4 + 4) (?t # xs)) (bytes s)"
    using map_bytes_sub [of ?p 4 "?p + 4" "[d, c, b, a]" "?t # xs" "bytes s"] assms(2) by (simp add: built_def)
  also have "take 4 (?t # xs) @ [d, c, b, a] @ drop (4 + 4) (?t # xs) = garbled (?t # xs)"
    by (simp add: garbled_def xs(1))
  finally show ?thesis using assms(2) by (simp add: built_def garbled_def)
qed

lemma leave_start:
  fixes s :: "'a client_mem_scheme"
  assumes rep: "client_rep b s cl net sock port M"
    and u: "str_at s u name" "length name \<le> 16" and g: "str_at s g gname" "length gname \<le> 17"
  obtains s1 where "Init_Group_struct u g (two_arrays s) = Inr (brk (two_arrays s), s1)"
    "Pack (type_code LEAVE_CONVERSATION_REQ) (brk (two_arrays s)) s1 =
       Inr (0, built (garbled (group_struct LEAVE_CONVERSATION_REQ gname name)) (two_arrays s))"
proof -
  note k = kept_two_arrays [OF client_rep_parts(1) [OF rep]]
  have below: "u + length name < brk s" "g + length gname < brk s" using u g by (simp_all add: str_at_def)
  let ?xs = "pad 18 gname @ pad 17 name"
  have len: "length ?xs = 35" using u(2) g(2) by (simp add: length_pad)
  have "Init_Group_struct u g (two_arrays s) = Inr (brk (two_arrays s), built (0 # ?xs) (two_arrays s))"
    using Init_Group_struct_ok [OF kept_env(1) [OF k(1)] kept_str [OF u(1) k(1) below(1)] u(2)
      kept_str [OF g(1) k(1) below(2)] g(2)] len by (simp add: built_def)
  moreover have "Pack (type_code LEAVE_CONVERSATION_REQ) (brk (two_arrays s)) (built (0 # ?xs) (two_arrays s)) =
      Inr (0, built (garbled (group_struct LEAVE_CONVERSATION_REQ gname name)) (two_arrays s))"
    unfolding group_struct_def by (rule Pack_leave_built [OF _ len]) (simp add: k(7))
  ultimately show ?thesis by (rule that)
qed

text \<open>No reversed code is the code of an answer that \<open>Leave_Group_Conversation\<close> handles.\<close>

lemma reversed_code:
  "htonl (answer_code a) \<noteq> answer_code GROUP_SUCCESSFULLY_FOUND" "htonl (answer_code a) \<noteq> answer_code GROUP_NAME_NOT_EXIST"
  by (cases a; simp add: htonl_def le_bytes_def)+

lemma Leave_Group_Conversation_ok:
  fixes s :: "'a client_mem_scheme"
  assumes rep: "client_rep b s cl net sock port M"
    and u: "str_at s u name" "length name \<le> 16" and g: "str_at s g gname" "length gname \<le> 17"
    and io: "0 \<le> net_send (cos s) (asked s)" "net_recv (cos s) (asked s + 1) = Some ys"
    and a: "holds_answer (GroupAnswer LEAVE_CONVERSATION_ANS a ip) ys" "sound_answer (GroupAnswer LEAVE_CONVERSATION_ANS a ip)"
  shows "\<exists>s'. Leave_Group_Conversation u g cl s = Inr (CLIENT_SUCCESS, s') \<and>
    answered_call b s s' cl net sock port M (garbled (group_struct LEAVE_CONVERSATION_REQ gname name)) ys"
proof -
  let ?xs = "garbled (group_struct LEAVE_CONVERSATION_REQ gname name)"
  note r = client_rep_parts [OF rep]
  have nn: "u \<noteq> NULL" "g \<noteq> NULL" using u g by (simp_all add: str_at_def)
  have G: "brk (two_arrays s) \<noteq> NULL" using kept_two_arrays(7) [OF r(1)] by simp
  obtain s1 where b: "Init_Group_struct u g (two_arrays s) = Inr (brk (two_arrays s), s1)"
    "Pack (type_code LEAVE_CONVERSATION_REQ) (brk (two_arrays s)) s1 = Inr (0, built ?xs (two_arrays s))"
    by (rule leave_start [OF rep u g])
  have len: "length ?xs = sizeof_GroupDetails"
    using length_group_struct [OF u(2) g(2)] by (simp add: garbled_def sizeof_GroupDetails_def)
  obtain c s3 s4 r0 s5 where x: "obj client_objs cl (built ?xs (two_arrays s)) = Inr (c, built ?xs (two_arrays s))"
    "Send_To_Server (brk (two_arrays s)) sizeof_GroupDetails (m_clientNet c) (built ?xs (two_arrays s)) = Inr (0, s3)"
    "Recive_From_Server (brk s) BUFF_RCV (m_clientNet c) s3 = Inr (0, s4)"
    "UnPack (brk s) s4 = Inr (r0, s5)"
    "rd_u32 (brk s + 20) s5 = Inr (code_read (GroupAnswer LEAVE_CONVERSATION_ANS a ip), s5)"
    and k: "kept (brk s) s s5" "asked s5 = asked s + 2"
      "events s5 = events s @ [SentOut sock (map Some ?xs), Arrived sock ys]"
    by (rule group_exchange [OF rep len io a]) (rule that; assumption)
  have "Leave_Group_Conversation u g cl s = Inr (CLIENT_SUCCESS, after_arrays s s5)"
    using b x nn r(4) G reversed_code [of a]
    by (simp add: Leave_Group_Conversation_def two_arrays_exec Create_Group_Ans_answer_def
        del: type_code.simps answer_code.simps)
  then show ?thesis using arrays_left [OF rep k] by blast
qed

end
