(* ===== verification/ClientStart.thy ===== *)
theory ClientStart
  imports ClientSession
begin

text \<open>
  The start of a client, what happens when nothing is received, and \<open>RemovePID\<close>.
\<close>

section \<open>Connecting\<close>

lemma prime_loop_41: "prime_loop 41 3 = Some 1"
  by (subst prime_loop.simps, simp, subst prime_loop.simps, simp, subst prime_loop.simps, simp)

lemma FindPrime_40: "FindPrimeLargerThan 40 = Some 41"
proof -
  have "CheckIfPrime 40 = Some 0" "CheckIfPrime 41 = Some 1" by (simp_all add: CheckIfPrime_def prime_loop_41)
  then show ?thesis by (subst FindPrimeLargerThan.simps, simp, subst FindPrimeLargerThan.simps, simp)
qed

lemma Connect_User_ok:
  fixes s :: "'a client_mem_scheme"
  assumes e: "env s" and ip: "str_at s ip ipn" and sock: "net_socket (cos s) (asked s) = sock" "0 \<le> sock"
  obtains s' where "Connect_User ip port s = Inr (brk s, s')"
    "client_rep (brk s) s' (brk s) (brk s + 2) sock port Map.empty"
    "events s' = events s @ (if net_connect (cos s) (asked s + 1) < 0 then [] else [Opened sock ipn (word_of_int port)])"
    "asked s' = asked s + 2" "cos s' = cos s" "bytes s' = bytes s" "brk s \<le> brk s'"
proof -
  let ?cl = "brk s" and ?net = "brk s + 2"
  let ?ev = "events s @ (if net_connect (cos s) (asked s + 1) < 0 then [] else [Opened sock ipn (word_of_int port)])"
  let ?c = "\<lparr>m_clientNet = ?net, m_serverPort = port, m_pidHash = None\<rparr>"
  define s1 where "s1 = s\<lparr>brk := brk s + 4, asked := asked s + 2,
    nets := (nets s)(?net \<mapsto> \<lparr>m_socket = sock, m_status = CLIENT_STATUS_CONNECTED\<rparr>),
    client_objs := (client_objs s)(?cl \<mapsto> ?c), events := ?ev\<rparr>"
  have b: "0 < brk s" "\<not> oom s a" for a using e env_simps(6) [OF e] by (simp_all add: env_def enough_mem_def)
  have ip1: "str_at s' ip ipn" if "bytes s' = bytes s" "brk s \<le> brk s'" for s' :: "'a client_mem_scheme"
    by (rule str_at_cong [OF ip]) (use that in simp_all)
  have init: "Init_Client_Net (s\<lparr>brk := brk s + 2\<rparr>) = Inr (?net, s\<lparr>brk := brk s + 4, asked := asked s + 1,
      nets := (nets s)(?net \<mapsto> \<lparr>m_socket = sock, m_status = CLIENT_STATUS_CONNECTED\<rparr>)\<rparr>)" (is "_ = Inr (_, ?s2)")
    using b sock by (simp add: Init_Client_Net_def malloc_def CreateSocket_client_def set_net_def)
  have "ConnectNewClient ?net ip port (?s2\<lparr>client_objs := (client_objs s)(?cl \<mapsto> ?c)\<rparr>) = Inr ((), s1)"
    using b str_at_c_str [OF ip1 [of "?s2\<lparr>client_objs := (client_objs s)(?cl \<mapsto> ?c)\<rparr>"]]
    by (simp add: ConnectNewClient_def obj_step s1_def)
  then have start: "Connect_User ip port s = chain (HashMap_Create PID_HASH_CAP (Some HashFunctionGroups_client)
         (Some EqualityFunctionForGroups_client)) (\<lambda>mp. chain (set_pid_hash ?cl mp) (\<lambda>_. if mp = None
       then chain (Destroy_Client_Net ?net) (\<lambda>_. chain (free_client_obj ?cl) (\<lambda>_. ret NULL)) else ret ?cl)) s1"
    using init b by (simp add: Connect_User_def malloc_def set_client_def cong: if_cong)
  have e1: "wf_hash_mem s1" "enough_mem s1"
    using e by (simp_all add: s1_def env_def wf_hash_mem_def wf_list_mem_def enough_mem_def)
  have cap: "PID_HASH_CAP \<noteq> 0" "FindPrimeLargerThan PID_HASH_CAP = Some 41" "(41 :: u64) \<noteq> 0"
    by (simp_all add: PID_HASH_CAP_def FindPrime_40)
  obtain s2 m where s2: "HashMap_Create PID_HASH_CAP (Some HashFunctionGroups_client)
      (Some EqualityFunctionForGroups_client) s1 = Inr (Some m, s2)"
    "map_abs HashFunctionGroups_client EqualityFunctionForGroups_client (key_below (brk s)) char_hash s2 m Map.empty"
    "bytes s2 = bytes s1" "enough_mem s2" "brk s1 \<le> brk s2" "hash_only s1 s2"
    using processes.create_refines [OF cap e1] by blast
  obtain k nn dd where h: "s2 = s1\<lparr>brk := k, nodes := nn, ditems := dd\<rparr>"
    using s2(6) unfolding hash_only_def by blast
  define s3 where "s3 = s2\<lparr>client_objs := (client_objs s1)(?cl \<mapsto> ?c\<lparr>m_pidHash := Some m\<rparr>)\<rparr>"
  have "set_pid_hash ?cl (Some m) s2 = Inr ((), s3)"
    using b by (simp add: set_pid_hash_def set_client_def obj_step h s1_def s3_def)
  then have run: "Connect_User ip port s = Inr (?cl, s3)" using start s2(1) by simp
  have same: "bytes s3 = bytes s" "brk s2 = brk s3" "brk s + 4 \<le> brk s3" "junk s3 = junk s" "oom s3 = oom s"
    using s2(3,5) by (simp_all add: s3_def s1_def h)
  have "wf_hash_mem s3" using s2(2) by (auto simp: map_abs_def s3_def wf_hash_mem_def wf_list_mem_def)
  then have "env s3" using e same by (auto simp: env_def wf_bytes_def enough_mem_def zeroed_def)
  moreover have "map_abs HashFunctionGroups_client EqualityFunctionForGroups_client (key_below (brk s)) char_hash s3 m Map.empty"
    by (rule map_abs_below [OF s2(2)]) (simp_all add: s3_def)
  ultimately have "client_rep (brk s) s3 ?cl ?net sock port Map.empty"
    using b same(3) by (auto simp: client_rep_def client_conn_def pid_map_def s3_def s1_def h)
  then show ?thesis using run same by (intro that [of s3]) (simp_all add: s3_def s1_def h)
qed

section \<open>No answer\<close>

text \<open>When nothing is received, the buffer stays zero and reads as a successful registration.\<close>

lemma zero_buffer:
  assumes "bytes_at s B (replicate n 0)" and "off + 4 \<le> n"
  shows "UnPack B s = Inr ((0, 0), s)" "rd_u32 (B + off) s = Inr (0, s)"
proof -
  have B: "B \<noteq> NULL" "\<And>i. i < n \<Longrightarrow> bytes s (B + i) = Some 0" using assms(1) by (simp_all add: bytes_at_def)
  show "UnPack B s = Inr ((0, 0), s)" using B(1) B(2) [of 0] assms(2) by (simp add: UnPack_def rd_byte_step)
  have "bytes_at s (B + off) (le_bytes 0)"
    using B assms(2) by (auto simp: bytes_at_def le_bytes_def nth_Cons' add.assoc)
  then show "rd_u32 (B + off) s = Inr (0, s)" by (rule rd_u32_step)
qed

lemma no_answer:
  fixes s :: "'a client_mem_scheme"
  assumes e: "env s" and conn: "client_conn s cl net sock" and B: "bytes_at s B (replicate n 0)" "off + 4 \<le> n"
    and U: "bytes_at s U xs" and io: "0 \<le> net_send (cos s) (asked s)" "net_recv (cos s) (asked s + 1) = None"
  shows "\<exists>s1 s2. Send_To_Server U (length xs) net s = Inr (0, s1) \<and> Recive_From_Server B len net s1 = Inr (- 1, s2) \<and>
    UnPack B s2 = Inr ((0, 0), s2) \<and> rd_u32 (B + off) s2 = Inr (0, s2) \<and> kept (brk s) s s2 \<and>
    asked s2 = asked s + 2 \<and> events s2 = events s @ [SentOut sock (map Some xs)]"
proof -
  obtain N where N: "net \<noteq> NULL" "nets s net = Some N" "m_socket N = sock"
    using conn by (auto simp: client_conn_def)
  have xs: "map (\<lambda>i. bytes s (U + i)) [0..<length xs] = map Some xs"
    using U by (auto simp: bytes_at_def intro: nth_equalityI)
  define s1 where "s1 = s\<lparr>asked := asked s + 1, events := events s @ [SentOut sock (map Some xs)]\<rparr>"
  define s2 where "s2 = s1\<lparr>asked := asked s1 + 1\<rparr>"
  have "Send_To_Server U (length xs) net s = Inr (0, s1)"
    using Send_To_Server_ok [OF N(1,2) _ io(1), of U "length xs"] U N(3) by (simp add: s1_def xs bytes_at_def)
  moreover have "Recive_From_Server B len net s1 = Inr (- 1, s2)"
    unfolding s2_def by (rule Recive_From_Server_fails [OF N(1)]) (use N(2) io(2) in \<open>simp_all add: s1_def\<close>)
  moreover have "bytes_at s2 B (replicate n 0)" using B(1) by (simp add: bytes_at_def s2_def s1_def)
  moreover have "kept (brk s) s s2" using e by (simp add: kept_def s2_def s1_def)
  ultimately show ?thesis using zero_buffer [OF _ B(2)] by (auto simp: s2_def s1_def)
qed

lemma register_without_answer:
  fixes s :: "'a client_mem_scheme"
  assumes rep: "client_rep b s cl net sock port M"
    and u: "str_at s u name" "length name \<le> 16" and p: "str_at s p pw" "length pw \<le> 16"
    and io: "0 \<le> net_send (cos s) (asked s)" "net_recv (cos s) (asked s + 1) = None"
  shows "\<exists>s'. User_Register u p cl s = Inr (CLIENT_SUCCESS, s') \<and>
    events s' = events s @ [SentOut sock (map Some (user_struct REGISTER_REQ name pw))]"
proof -
  let ?N = CLIENT_BUFF_SIZE and ?xs = "user_struct REGISTER_REQ name pw"
  note r = client_rep_parts [OF rep]
  note i = kept_in_scope [OF r(1), of ?N]
  note e0 = kept_env(1) [OF i(1)]
  have nn: "u \<noteq> NULL" "p \<noteq> NULL" "brk (in_scope ?N s) \<noteq> NULL" using u p i(5) by (simp_all add: str_at_def)
  have below: "u + length name < brk s" "p + length pw < brk s" using u p by (simp_all add: str_at_def)
  obtain s1 where b: "CreateUserDetails u p (in_scope ?N s) = Inr (brk (in_scope ?N s), s1)"
    "Pack (type_code REGISTER_REQ) (brk (in_scope ?N s)) s1 = Inr (0, built ?xs (in_scope ?N s))"
    by (rule user_request_built [OF e0 kept_str [OF u(1) i(1) below(1)] u(2) kept_str [OF p(1) i(1) below(2)] p(2),
      where t = REGISTER_REQ]) auto
  let ?s2 = "built ?xs (in_scope ?N s)"
  note k = kept_built [OF e0, of ?xs]
  have le: "brk s \<le> brk (in_scope ?N s)" using i(5) by simp
  have k2: "kept (brk s) s ?s2" using kept_trans [OF i(1) kept_mono [OF k(1) le]] .
  have c2: "client_conn ?s2 cl net sock" using client_conn_kept [OF k2] r(3) by simp
  then obtain c where c: "obj client_objs cl ?s2 = Inr (c, ?s2)" "m_clientNet c = net"
    by (auto simp: client_conn_def obj_step)
  have "bytes_at (in_scope ?N s) (brk s) (replicate ?N 0)"
    by (rule bytes_at_map_bytes) (use env_simps(6) [OF r(1)] in \<open>simp_all add: in_scope_def\<close>)
  then have z: "bytes_at ?s2 (brk s) (replicate ?N 0)" by (rule kept_bytes_at [OF _ k(1)]) (simp add: i(5))
  have len: "length ?xs = sizeof_UserDetails" using u p by (simp add: user_struct_def length_pad sizeof_UserDetails_def)
  have io2: "cos ?s2 = cos s" "asked ?s2 = asked s" "events ?s2 = events s"
    using kept_rest(7) [OF k2] k(3,4) i(3,4) by simp_all
  have "4 + 4 \<le> ?N" by (simp add: CLIENT_BUFF_SIZE_def)
  then obtain s3 s4 where x: "Send_To_Server (brk (in_scope ?N s)) sizeof_UserDetails net ?s2 = Inr (0, s3)"
    "Recive_From_Server (brk s) ?N net s3 = Inr (- 1, s4)" "UnPack (brk s) s4 = Inr ((0, 0), s4)"
    "rd_u32 (brk s + 4) s4 = Inr (0, s4)"
    "events s4 = events s @ [SentOut sock (map Some ?xs)]"
    using no_answer [OF kept_env(1) [OF k2] c2 z _ k(2), of 4 ?N] io io2 unfolding len by auto
  have "User_Register u p cl s = Inr (CLIENT_SUCCESS, out_of_scope (brk s) ?N s4)"
    using b c x nn r(4) by (simp add: User_Register_def with_array_exec Register_Ans_answer_def del: type_code.simps)
  then show ?thesis using x(5) by (simp add: out_of_scope_def)
qed

section \<open>Forgetting the processes of a group\<close>

text \<open>
  \<open>RemovePID\<close> sends no signal when the group is known, and uses an indeterminate pointer when it is
  not: with the test inverted, the windows are never closed.
\<close>

lemma RemovePID_known:
  fixes s :: "'a client_mem_scheme"
  assumes rep: "client_rep b s cl net sock port M" and g: "str_at s g gname" "length gname \<le> 17" "g + length gname < b"
    and M: "M gname = Some p"
  shows "\<exists>s'. RemovePID g cl s = Inr (1, s') \<and> client_rep b s' cl net sock port (M(gname := None)) \<and>
    events s' = events s \<and> pids s' = pids s"
proof -
  have e: "env s" and b: "b \<le> brk s" and cl0: "cl \<noteq> NULL" using rep by (simp_all add: client_rep_def client_conn_def)
  obtain c m where c: "client_objs s cl = Some c" "m_pidHash c = Some m"
    and abs: "map_abs HashFunctionGroups_client EqualityFunctionForGroups_client (key_below b) char_hash s m M"
    using rep by (auto simp: client_rep_def pid_map_def)
  have key: "key_below b (bmem.truncate s) g gname" using g by (simp add: key_below_def string_key_def)
  obtain s1 m' pk where s1: "HashMap_Remove (Some m) g s = Inr ((MAP_SUCCESS, Some (pk, p), Some m'), s1)"
    "map_abs HashFunctionGroups_client EqualityFunctionForGroups_client (key_below b) char_hash s1 m' (M(gname := None))"
    "bytes s1 = bytes s" "enough_mem s1 = enough_mem s" "brk s \<le> brk s1" "hash_only s s1"
    using processes.remove_refines [OF abs key M] by blast
  obtain k nn dd where h: "s1 = s\<lparr>brk := k, nodes := nn, ditems := dd\<rparr>"
    using s1(6) unfolding hash_only_def by blast
  define s2 where "s2 = s1\<lparr>client_objs := (client_objs s)(cl \<mapsto> c\<lparr>m_pidHash := Some m'\<rparr>)\<rparr>"
  have "set_pid_hash cl (Some m') s1 = Inr ((), s2)"
    using c(1) cl0 by (simp add: set_pid_hash_def set_client_def obj_step h s2_def)
  then have run: "RemovePID g cl s = Inr (1, s2)"
    using c cl0 s1(1) by (simp add: RemovePID_def obj_step)
  have same: "bytes s2 = bytes s" "brk s \<le> brk s2" "junk s2 = junk s" "oom s2 = oom s"
    using s1(3,5) by (simp_all add: s2_def h)
  have "wf_hash_mem s2" using s1(2) by (auto simp: map_abs_def s2_def wf_hash_mem_def wf_list_mem_def)
  then have "env s2" using e same by (auto simp: env_def wf_bytes_def enough_mem_def zeroed_def)
  moreover have "map_abs HashFunctionGroups_client EqualityFunctionForGroups_client (key_below b) char_hash s2 m' (M(gname := None))"
    by (rule map_abs_below [OF s1(2)]) (simp_all add: s2_def)
  ultimately have "client_rep b s2 cl net sock port (M(gname := None))"
    using rep b c same(2) by (auto simp: client_rep_def client_conn_def pid_map_def s2_def h)
  then show ?thesis using run by (auto simp: s2_def h)
qed

lemma RemovePID_unknown:
  fixes s :: "'a client_mem_scheme"
  assumes rep: "client_rep b s cl net sock port M" and g: "str_at s g gname" "length gname \<le> 17" "g + length gname < b"
    and M: "M gname = None"
  shows "RemovePID g cl s = Inl NullDeref"
proof -
  have e: "env s" and cl0: "cl \<noteq> NULL" using rep by (simp_all add: client_rep_def client_conn_def)
  obtain c m where c: "client_objs s cl = Some c" "m_pidHash c = Some m"
    and abs: "map_abs HashFunctionGroups_client EqualityFunctionForGroups_client (key_below b) char_hash s m M"
    using rep by (auto simp: client_rep_def pid_map_def)
  have key: "key_below b (bmem.truncate s) g gname" using g by (simp add: key_below_def string_key_def)
  have "HashMap_Remove (Some m) g s = Inr ((MAP_KEY_NOT_FOUND_ERROR, None, Some m), s)"
    by (rule processes.remove_absent [OF abs key M])
  moreover have "junk s (brk s) 0 = NULL" using e by (simp add: env_def zeroed_def)
  ultimately show ?thesis
    using c cl0 by (simp add: RemovePID_def obj_step set_pid_hash_def set_client_def) (simp add: obj_def)
qed

end
