(* ===== verification/ClientCalls.thy ===== *)
theory ClientCalls
  imports ClientStart
begin

text \<open>
  The client against the abstract chat server. \<open>client_call\<close> is the call for a request,
  \<open>outcome\<close> the result an answer stands for; \<open>client_run_ok\<close> composes any sequence of calls with
  the answers of the server.
\<close>

section \<open>Calls, results and windows\<close>

text \<open>The pointers are those of the user name and of the password, or of the group name.\<close>

fun client_call :: "request \<Rightarrow> addr \<Rightarrow> addr \<Rightarrow> addr \<Rightarrow> ('a client_mem_scheme, Client_err option) prog" where
  "client_call (Register _ _) x y cl = chain (User_Register x y cl) (\<lambda>r. ret (Some r))"
| "client_call (Login _ _) x y cl = User_LogIn x y cl"
| "client_call (CreateGroup _ _) x y cl = chain (Create_New_Group x y cl) (\<lambda>r. ret (Some r))"
| "client_call (JoinGroup _ _) x y cl = chain (Join_To_Group x y cl) (\<lambda>r. ret (Some r))"
| "client_call (LeaveGroup _ _) x y cl = chain (Leave_Group_Conversation x y cl) (\<lambda>r. ret (Some r))"

fun strings :: "request \<Rightarrow> u8 list \<times> u8 list" where
  "strings (Register name pw) = (name, pw)"
| "strings (Login name pw) = (name, pw)"
| "strings (CreateGroup g u) = (u, g)"
| "strings (JoinGroup g u) = (u, g)"
| "strings (LeaveGroup g u) = (u, g)"

definition arguments :: "addr \<Rightarrow> 'a bmem_scheme \<Rightarrow> request \<Rightarrow> addr \<Rightarrow> addr \<Rightarrow> bool" where
  "arguments b s r x y \<longleftrightarrow> str_at s x (fst (strings r)) \<and> str_at s y (snd (strings r)) \<and>
     x + length (fst (strings r)) < b \<and> y + length (snd (strings r)) < b"

definition code_of :: "answer \<Rightarrow> Answers" where
  "code_of ans = (case ans of UserAnswer t a \<Rightarrow> a | GroupAnswer t a ip \<Rightarrow> a)"

fun outcome :: "request \<Rightarrow> answer \<Rightarrow> Client_err option" where
  "outcome (Register _ _) ans = Some (register_outcome (code_of ans))"
| "outcome (Login _ _) ans = login_result (code_of ans)"
| "outcome (CreateGroup _ _) ans = Some (create_result (code_of ans))"
| "outcome (JoinGroup _ _) ans = Some (join_result (code_of ans))"
| "outcome (LeaveGroup _ _) ans = Some CLIENT_SUCCESS"

text \<open>The address of the group whose windows a call opens, if it opens them.\<close>

fun opens :: "request \<Rightarrow> answer \<Rightarrow> u8 list option" where
  "opens (CreateGroup _ _) (GroupAnswer _ GROUP_SUCCESSFULLY_INSERT (Some ip)) = Some ip"
| "opens (JoinGroup _ _) (GroupAnswer _ GROUP_SUCCESSFULLY_JOIN (Some ip)) = Some ip"
| "opens _ _ = None"

fun bytes_sent :: "request \<Rightarrow> u8 list" where
  "bytes_sent (LeaveGroup g u) = garbled (group_struct LEAVE_CONVERSATION_REQ g u)"
| "bytes_sent r = request_bytes r"

definition call_events ::
  "client_os \<Rightarrow> nat \<Rightarrow> int \<Rightarrow> int \<Rightarrow> request \<Rightarrow> answer \<Rightarrow> u8 list \<Rightarrow> client_event list" where
  "call_events w n sock port r ans ys = [SentOut sock (map Some (bytes_sent r)), Arrived sock ys] @
     (case opens r ans of None \<Rightarrow> []
      | Some ip \<Rightarrow> window_events w (n + 2) ip port (fst (strings r)) (snd (strings r)))"

definition call_count :: "client_os \<Rightarrow> nat \<Rightarrow> request \<Rightarrow> answer \<Rightarrow> nat" where
  "call_count w n r ans = 2 + (case opens r ans of None \<Rightarrow> 0 | Some _ \<Rightarrow> window_calls w (n + 2))"

definition known_groups ::
  "client_os \<Rightarrow> nat \<Rightarrow> request \<Rightarrow> answer \<Rightarrow> (u8 list \<rightharpoonup> addr) \<Rightarrow> (addr \<rightharpoonup> PID) \<Rightarrow> (u8 list \<rightharpoonup> addr) \<Rightarrow> bool" where
  "known_groups w n r ans M P M' \<longleftrightarrow>
     (case opens r ans of None \<Rightarrow> M' = M | Some _ \<Rightarrow> recorded w (n + 2) (snd (strings r)) M P M')"

section \<open>The answers of the server\<close>

definition addresses_fit :: "chat \<Rightarrow> bool" where
  "addresses_fit A \<longleftrightarrow> (\<forall>G \<in> ran (a_groups A). 0 \<notin> set (g_ip G) \<and> length (g_ip G) \<le> 16)"

lemma addresses_fit_empty: "addresses_fit chat_empty"
  by (simp add: addresses_fit_def chat_empty_def)

lemma next_ip_fits: "0 \<notin> set (next_ip A)" "length (next_ip A) \<le> 16"
  using ip_string_zero order_trans [OF ip_string_length, of 16] by (auto simp: next_ip_def)

lemma addresses_fit_upd:
  "addresses_fit A \<Longrightarrow> 0 \<notin> set (g_ip G) \<Longrightarrow> length (g_ip G) \<le> 16 \<Longrightarrow>
   addresses_fit (A\<lparr>a_groups := (a_groups A)(i \<mapsto> G)\<rparr>)"
  by (auto simp: addresses_fit_def ran_def split: if_splits)

lemma addresses_fit_more [simp]:
  "addresses_fit (A\<lparr>a_users := x\<rparr>) = addresses_fit A" "addresses_fit (A\<lparr>a_given := n\<rparr>) = addresses_fit A"
  by (simp_all add: addresses_fit_def)

lemma served_answer:
  assumes "addresses_fit A"
  shows "sound_answer (fst (serve r A))" "addresses_fit (snd (serve r A))"
proof -
  have old: "0 \<notin> set (g_ip G) \<and> length (g_ip G) \<le> 16" if "a_groups A i = Some G" for i G
    using assms that by (auto simp: addresses_fit_def ran_def)
  show "sound_answer (fst (serve r A))"
    using next_ip_fits [of A] old
    by (cases r) (auto simp: spec_join_def spec_create_def Let_def split: option.splits)
  show "addresses_fit (snd (serve r A))"
  proof (cases r)
    case (CreateGroup g u)
    then show ?thesis using assms next_ip_fits [of A]
      by (auto simp: spec_create_def intro: addresses_fit_upd split: option.splits)
  next
    case (JoinGroup g u)
    then show ?thesis using assms old [of "slot g"]
      by (auto simp: spec_join_def Let_def intro: addresses_fit_upd split: option.splits)
  qed (use assms in \<open>auto simp: spec_register_def split: option.splits\<close>)
qed

section \<open>One call\<close>

definition call_done ::
  "addr \<Rightarrow> 'a client_mem_scheme \<Rightarrow> 'a client_mem_scheme \<Rightarrow> addr \<Rightarrow> addr \<Rightarrow> int \<Rightarrow> int \<Rightarrow>
   (u8 list \<rightharpoonup> addr) \<Rightarrow> request \<Rightarrow> answer \<Rightarrow> u8 list \<Rightarrow> bool" where
  "call_done b s s' cl net sock port M r ans ys \<longleftrightarrow>
     (\<exists>M'. client_rep b s' cl net sock port M' \<and> known_groups (cos s) (asked s) r ans M (pids s') M') \<and>
     (\<forall>a < b. bytes s' a = bytes s a) \<and> brk s \<le> brk s' \<and> cos s' = cos s \<and>
     asked s' = asked s + call_count (cos s) (asked s) r ans \<and>
     events s' = events s @ call_events (cos s) (asked s) sock port r ans ys"

lemma answered_done:
  assumes "answered_call b s s' cl net sock port M (bytes_sent r) ys" and o: "opens r ans = None"
  shows "call_done b s s' cl net sock port M r ans ys"
proof -
  have k: "kept b s s'" using assms(1) by (simp add: answered_call_def)
  show ?thesis using assms kept_rest(7) [OF k] kept_env(2,3) [OF k]
    by (auto simp: call_done_def answered_call_def known_groups_def call_count_def call_events_def)
qed

lemma opened_done:
  assumes "opened_call b s s' cl net sock port M (bytes_sent r) ys ip (fst (strings r)) (snd (strings r))"
    and "opens r ans = Some ip"
  shows "call_done b s s' cl net sock port M r ans ys"
  using assms by (auto simp: call_done_def opened_call_def known_groups_def call_count_def call_events_def)

lemma user_call_ok:
  fixes s :: "'a client_mem_scheme"
  assumes rep: "client_rep b s cl net sock port M" and v: "valid_request r" and args: "arguments b s r x y"
    and io: "0 \<le> net_send (cos s) (asked s)" "net_recv (cos s) (asked s + 1) = Some ys"
    and a: "holds_answer (UserAnswer t a) ys" "sound_answer (UserAnswer t a)" and r: "r = Register name pw \<or> r = Login name pw"
  shows "\<exists>s'. client_call r x y cl s = Inr (outcome r (UserAnswer t a), s') \<and>
    call_done b s s' cl net sock port M r (UserAnswer t a) ys"
proof -
  have strs: "str_at s x name" "length name \<le> 16" "str_at s y pw" "length pw \<le> 16"
    using args v r by (auto simp: arguments_def)
  have o: "opens r (UserAnswer t a) = None" using r by auto
  show ?thesis
    using User_Register_ok [OF rep strs io a] User_LogIn_ok [OF rep strs io a] answered_done [OF _ o] r
    by (auto simp: code_of_def)
qed

lemma group_call_ok:
  fixes s :: "'a client_mem_scheme"
  assumes rep: "client_rep b s cl net sock port M" and port: "int_ok port" and v: "valid_request r"
    and args: "arguments b s r x y"
    and io: "0 \<le> net_send (cos s) (asked s)" "net_recv (cos s) (asked s + 1) = Some ys"
    and a: "holds_answer (GroupAnswer t a ip) ys" "sound_answer (GroupAnswer t a ip)"
    and r: "r = CreateGroup g u \<and> t = CREATE_GROUP_CONVERSATION_ANS \<and> (a = GROUP_SUCCESSFULLY_INSERT \<longrightarrow> ip \<noteq> None) \<or>
      r = JoinGroup g u \<and> t = JOIN_CONVERSATION_ANS \<and> (a = GROUP_SUCCESSFULLY_JOIN \<longrightarrow> ip \<noteq> None) \<or>
      r = LeaveGroup g u \<and> t = LEAVE_CONVERSATION_ANS"
  shows "\<exists>s'. client_call r x y cl s = Inr (outcome r (GroupAnswer t a ip), s') \<and>
    call_done b s s' cl net sock port M r (GroupAnswer t a ip) ys"
proof -
  have strs: "str_at s x u" "length u \<le> 16" "str_at s y g" "length g \<le> 17" "y + length g < b"
    using args v r by (auto simp: arguments_def)
  note no = answered_done [where r = r and ans = "GroupAnswer t a ip"]
  note yes = opened_done [where r = r and ans = "GroupAnswer t a ip" and ip = "the ip"]
  consider (create) "r = CreateGroup g u" "t = CREATE_GROUP_CONVERSATION_ANS" "a = GROUP_SUCCESSFULLY_INSERT \<Longrightarrow> ip \<noteq> None"
    | (join) "r = JoinGroup g u" "t = JOIN_CONVERSATION_ANS" "a = GROUP_SUCCESSFULLY_JOIN \<Longrightarrow> ip \<noteq> None"
    | (leave) "r = LeaveGroup g u" "t = LEAVE_CONVERSATION_ANS" using r by blast
  then show ?thesis
  proof cases
    case create
    have "opens r (GroupAnswer t a ip) = (if a = GROUP_SUCCESSFULLY_INSERT then ip else None)"
      using create by (cases a; cases ip) auto
    then show ?thesis
      using Create_New_Group_ok [OF rep port strs io a [unfolded create(2)] create(3)] no yes create
      by (auto simp: code_of_def split: if_splits)
  next
    case join
    have "opens r (GroupAnswer t a ip) = (if a = GROUP_SUCCESSFULLY_JOIN then ip else None)"
      using join by (cases a; cases ip) auto
    then show ?thesis
      using Join_To_Group_ok [OF rep port strs io a [unfolded join(2)] join(3)] no yes join
      by (auto simp: code_of_def split: if_splits)
  next
    case leave
    then show ?thesis using Leave_Group_Conversation_ok [OF rep strs(1-4) io a [unfolded leave(2)]] no by auto
  qed
qed

lemma client_call_ok:
  fixes s :: "'a client_mem_scheme"
  assumes rep: "client_rep b s cl net sock port M" and port: "int_ok port"
    and v: "valid_request r" and args: "arguments b s r x y" and A: "addresses_fit A"
    and io: "0 \<le> net_send (cos s) (asked s)" "net_recv (cos s) (asked s + 1) = Some ys"
    and ys: "holds_answer (fst (serve r A)) ys"
  shows "\<exists>s'. client_call r x y cl s = Inr (outcome r (fst (serve r A)), s') \<and>
    call_done b s s' cl net sock port M r (fst (serve r A)) ys"
proof (cases "fst (serve r A)")
  case (UserAnswer t a)
  then obtain name pw where "r = Register name pw \<or> r = Login name pw"
    by (cases r) (auto simp: Let_def split: if_splits prod.splits)
  then show ?thesis
    using user_call_ok [OF rep v args io] ys served_answer(1) [OF A, of r] unfolding UserAnswer by blast
next
  case (GroupAnswer t a ip)
  obtain g u where "r = CreateGroup g u \<and> t = CREATE_GROUP_CONVERSATION_ANS \<and> (a = GROUP_SUCCESSFULLY_INSERT \<longrightarrow> ip \<noteq> None) \<or>
      r = JoinGroup g u \<and> t = JOIN_CONVERSATION_ANS \<and> (a = GROUP_SUCCESSFULLY_JOIN \<longrightarrow> ip \<noteq> None) \<or>
      r = LeaveGroup g u \<and> t = LEAVE_CONVERSATION_ANS"
    using GroupAnswer by (cases r) (auto simp: Let_def split: if_splits prod.splits)
  then show ?thesis
    using group_call_ok [OF rep port v args io] ys served_answer(1) [OF A, of r] unfolding GroupAnswer by blast
qed

section \<open>Many calls\<close>

text \<open>A client makes its calls one after the other; the results are collected.\<close>

fun client_run :: "(request \<times> addr \<times> addr) list \<Rightarrow> addr \<Rightarrow> ('a client_mem_scheme, Client_err option list) prog" where
  "client_run [] cl = ret []"
| "client_run ((r, x, y) # rs) cl =
     chain (client_call r x y cl) (\<lambda>e. chain (client_run rs cl) (\<lambda>es. ret (e # es)))"

text \<open>
  The network as the client sees it: each request gets its answer. \<open>answer_for r a\<close>: the server, in
  some state, answers \<open>r\<close> by \<open>a\<close>.
\<close>

fun answered :: "client_os \<Rightarrow> nat \<Rightarrow> (request \<times> answer) list \<Rightarrow> bool" where
  "answered w n [] = True"
| "answered w n ((r, a) # qs) \<longleftrightarrow>
     0 \<le> net_send w n \<and> (case net_recv w (n + 1) of None \<Rightarrow> False | Some ys \<Rightarrow> holds_answer a ys) \<and>
     answered w (n + call_count w n r a) qs"

definition answer_for :: "request \<Rightarrow> answer \<Rightarrow> bool" where
  "answer_for r a \<longleftrightarrow> (\<exists>A. addresses_fit A \<and> a = fst (serve r A))"

lemma answers_for_all: "addresses_fit A \<Longrightarrow> list_all2 answer_for rs (fst (serve_all rs A))"
proof (induction rs arbitrary: A)
  case (Cons r rs)
  have "list_all2 answer_for rs (fst (serve_all rs (snd (serve r A))))"
    by (rule Cons.IH [OF served_answer(2) [OF Cons.prems]])
  moreover have "answer_for r (fst (serve r A))" using Cons.prems by (auto simp: answer_for_def)
  ultimately show ?case by (simp add: Let_def split_def del: serve.simps)
qed simp

fun outcomes :: "request list \<Rightarrow> chat \<Rightarrow> Client_err option list" where
  "outcomes [] A = []"
| "outcomes (r # rs) A = outcome r (fst (serve r A)) # outcomes rs (snd (serve r A))"

lemma outcomes_serve_all: "map2 outcome rs (fst (serve_all rs A)) = outcomes rs A"
  by (induction rs arbitrary: A) (simp_all add: Let_def split_def)

text \<open>What a client sends in a run.\<close>

definition sent_by :: "client_event list \<Rightarrow> u8 option list list" where
  "sent_by es = concat (map (\<lambda>e. case e of SentOut _ xs \<Rightarrow> [xs] | _ \<Rightarrow> []) es)"

lemma sent_by_append [simp]: "sent_by (xs @ ys) = sent_by xs @ sent_by ys"
  by (simp add: sent_by_def)

lemma sent_by_call [simp]: "sent_by (call_events w n sock port r ans ys) = [map Some (bytes_sent r)]"
  by (auto simp: sent_by_def call_events_def window_events_def split: option.splits)

lemma arguments_later:
  "arguments b s r x y \<Longrightarrow> \<forall>a < b. bytes s' a = bytes s a \<Longrightarrow> brk s \<le> brk s' \<Longrightarrow> arguments b s' r x y"
  unfolding arguments_def by (elim conjE, intro conjI) (erule str_at_cong; simp)+

lemma client_run_ok:
  fixes s :: "'a client_mem_scheme"
  assumes "client_rep b s cl net sock port M" and port: "int_ok port"
    and "\<forall>(r, x, y) \<in> set rs. valid_request r \<and> arguments b s r x y"
    and "list_all2 answer_for (map fst rs) as" and "answered (cos s) (asked s) (zip (map fst rs) as)"
  shows "\<exists>s' M'. client_run rs cl s = Inr (map2 outcome (map fst rs) as, s') \<and> client_rep b s' cl net sock port M' \<and>
    sent_by (events s') = sent_by (events s) @ map (\<lambda>r. map Some (bytes_sent (fst r))) rs"
  using assms(1,3-)
proof (induction rs arbitrary: s as M)
  case Nil
  then show ?case by auto
next
  case (Cons q rs)
  obtain r x y where q: "q = (r, x, y)" by (cases q)
  obtain a as' where as: "as = a # as'" "answer_for r a" "list_all2 answer_for (map fst rs) as'"
    using Cons.prems(3) q by (auto simp: list_all2_Cons1)
  obtain A where A: "addresses_fit A" "a = fst (serve r A)" using as(2) by (auto simp: answer_for_def)
  have v: "valid_request r" "arguments b s r x y" using Cons.prems(2) q by simp_all
  obtain ys where io: "0 \<le> net_send (cos s) (asked s)" "net_recv (cos s) (asked s + 1) = Some ys" "holds_answer a ys"
    and rest: "answered (cos s) (asked s + call_count (cos s) (asked s) r a) (zip (map fst rs) as')"
    using Cons.prems(4) q as(1) by (auto split: option.splits)
  obtain s1 where s1: "client_call r x y cl s = Inr (outcome r a, s1)" "call_done b s s1 cl net sock port M r a ys"
    using client_call_ok [OF Cons.prems(1) port v A(1) io(1,2)] io(3) unfolding A(2) by blast
  obtain M1 where M1: "client_rep b s1 cl net sock port M1" using s1(2) by (auto simp: call_done_def)
  have f: "\<forall>a < b. bytes s1 a = bytes s a" "brk s \<le> brk s1" "cos s1 = cos s"
    "asked s1 = asked s + call_count (cos s) (asked s) r a"
    "events s1 = events s @ call_events (cos s) (asked s) sock port r a ys"
    using s1(2) by (simp_all add: call_done_def)
  have "\<forall>(r, x, y) \<in> set rs. valid_request r \<and> arguments b s1 r x y"
    using Cons.prems(2) arguments_later [OF _ f(1,2)] by auto
  then obtain s' M' where s': "client_run rs cl s1 = Inr (map2 outcome (map fst rs) as', s')"
    "client_rep b s' cl net sock port M'"
    "sent_by (events s') = sent_by (events s1) @ map (\<lambda>r. map Some (bytes_sent (fst r))) rs"
    using Cons.IH [OF M1 _ as(3)] rest f(3,4) by auto
  have "client_run (q # rs) cl s = Inr (map2 outcome (map fst (q # rs)) as, s')"
    using s1(1) s'(1) by (simp add: q as(1))
  then show ?case using s'(2,3) f(5) by (auto simp: q)
qed

end
