(* ===== verification/UI.thy ===== *)
theory UI
  imports Client
begin

text \<open>
  The user interface, \<^verbatim>\<open>src/UI/UI.c\<close>, and the \<open>main\<close> of the client, \<^verbatim>\<open>src/Main/ClientMain.c\<close>.
  What is typed comes from \<open>typed_word\<close> and \<open>typed_int\<close>; what is printed is left out. The loops
  read from the terminal and may run for ever, so each takes fuel \<open>k\<close>: with no fuel left a run
  is \<open>Diverges\<close>.

  \<open>interfaces\<close> holds the field \<open>m_client\<close> of the \<open>Client_Interface\<close> at an address.
\<close>

section \<open>Input\<close>

definition MAX_SIZE :: nat where "MAX_SIZE = 16"
definition SIZE_OF_IP_ADDR :: nat where "SIZE_OF_IP_ADDR = 17"
definition REGISTERED_OP :: int where "REGISTERED_OP = 0"
definition LOGIN_OP :: int where "LOGIN_OP = 1"

text \<open>\<open>scanf("%s", p)\<close> stores a word and its terminator; \<open>scanf("%d", &v)\<close> may leave \<open>v\<close> as it is.\<close>

definition scanf_word :: "addr \<Rightarrow> ('a client_mem_scheme, unit) prog" where
  "scanf_word p = chain (ask typed_word) (\<lambda>w. case w of None \<Rightarrow> ret () | Some cs \<Rightarrow> put_bytes p (cs @ [0]))"

definition scanf_int :: "int \<Rightarrow> ('a client_mem_scheme, int) prog" where
  "scanf_int v = chain (ask typed_int) (\<lambda>i. case i of None \<Rightarrow> ret v | Some j \<Rightarrow> ret j)"

text \<open>A local array that is not initialised.\<close>

definition with_raw_array :: "nat \<Rightarrow> (addr \<Rightarrow> ('a cmem_scheme, 'r) prog) \<Rightarrow> ('a cmem_scheme, 'r) prog" where
  "with_raw_array n body =
     chain (\<lambda>s. Inr (brk s, s\<lparr>brk := brk s + n + 1,
       bytes := map_bytes (brk s) (junk_bytes (junk s) (brk s) n) (bytes s)\<rparr>)) (\<lambda>p.
     chain (body p) (\<lambda>r.
     chain (end_of_scope p n) (\<lambda>_. ret r)))"

text \<open>\<open>while (strlen(p) > limit)\<close>: another word is read.\<close>

fun read_again :: "nat \<Rightarrow> nat \<Rightarrow> addr \<Rightarrow> ('a client_mem_scheme, unit) prog" where
  "read_again 0 limit p = fail Diverges"
| "read_again (Suc k) limit p =
     chain (reads (\<lambda>s. strlen s p)) (\<lambda>n.
     if n > limit then chain (scanf_word p) (\<lambda>_. read_again k limit p) else ret ())"

definition Init_GroupName :: "nat \<Rightarrow> ('a client_mem_scheme, addr) prog" where
  "Init_GroupName k =
     chain (malloc_bytes 1) (\<lambda>newGroupName.
     if newGroupName = NULL then ret NULL
     else
       chain (scanf_word newGroupName) (\<lambda>_.
       chain (read_again k SIZE_OF_IP_ADDR newGroupName) (\<lambda>_.
       ret newGroupName)))"

definition Init_username :: "nat \<Rightarrow> ('a client_mem_scheme, addr) prog" where
  "Init_username k =
     chain (malloc_bytes 1) (\<lambda>userName.
     if userName = NULL then ret NULL
     else
       chain (scanf_word userName) (\<lambda>_.
       chain (read_again k MAX_SIZE userName) (\<lambda>_.
       ret userName)))"

definition Init_Psw :: "nat \<Rightarrow> ('a client_mem_scheme, addr) prog" where
  "Init_Psw k =
     chain (malloc_bytes 1) (\<lambda>userPassword.
     if userPassword = NULL then ret NULL
     else
       chain (scanf_word userPassword) (\<lambda>_.
       chain (read_again k MAX_SIZE userPassword) (\<lambda>_.
       ret userPassword)))"

section \<open>The interface\<close>

definition set_interface :: "addr \<Rightarrow> addr option \<Rightarrow> ('a client_mem_scheme, unit) prog" where
  "set_interface p c = modify (\<lambda>s. s\<lparr>interfaces := (interfaces s)(p := c)\<rparr>)"

definition CreateCommunication :: "int \<Rightarrow> addr \<Rightarrow> ('a client_mem_scheme, addr) prog" where
  "CreateCommunication serverPort serverIP =
     chain (malloc 1) (\<lambda>ui.
     if ui = NULL then ret NULL
     else
       chain (Connect_User serverIP serverPort) (\<lambda>client.
       chain (set_interface ui (Some client)) (\<lambda>_.
       ret ui)))"

definition Destroy_UI :: "addr \<Rightarrow> ('a client_mem_scheme, unit) prog" where
  "Destroy_UI ui = (if ui = NULL then ret () else set_interface ui None)"

section \<open>The choices of the user\<close>

definition RegisterOption :: "addr \<Rightarrow> addr \<Rightarrow> addr \<Rightarrow> ('a client_mem_scheme, int) prog" where
  "RegisterOption userName userPassword client =
     chain (User_Register userName userPassword client) (\<lambda>rcvFromRegiter.
     if rcvFromRegiter = CLIENT_SUCCESS then ret 1
     else if rcvFromRegiter = CLIENT_FAIL then ret (- 1)
     else ret 1)"

definition LoginOption :: "addr \<Rightarrow> addr \<Rightarrow> addr \<Rightarrow> ('a client_mem_scheme, int) prog" where
  "LoginOption userName userPassword client =
     chain (User_LogIn userName userPassword client) (\<lambda>rcvFromLogin.
     case rcvFromLogin of
       Some CLIENT_SUCCESS \<Rightarrow> ret 1
     | Some CLIENT_WRONG_PSW \<Rightarrow> ret (- 1)
     | Some CLIENT_USER_NAME_NOT_EXIST \<Rightarrow> ret (- 1)
     | Some CLIENT_ALLREADY_CONNECTED \<Rightarrow> ret (- 1)
     | _ \<Rightarrow> ret (- 1))"

definition InitGroupCreate :: "nat \<Rightarrow> addr \<Rightarrow> addr \<Rightarrow> ('a client_mem_scheme, int) prog" where
  "InitGroupCreate k ui userName =
     chain (Init_GroupName k) (\<lambda>groupName.
     if groupName = NULL then ret (- 1)
     else
       chain (obj interfaces ui) (\<lambda>client.
       chain (Create_New_Group userName groupName client) (\<lambda>rcvFromCreate.
       ret (if rcvFromCreate = CLIENT_SUCCESS then 1 else - 1))))"

definition InitJoinCreate :: "addr \<Rightarrow> addr \<Rightarrow> ('a client_mem_scheme, int) prog" where
  "InitJoinCreate ui userName =
     with_raw_array (MAX_SIZE + 1) (\<lambda>groupNameToJoin.
     if ui = NULL \<or> userName = NULL then ret (- 1)
     else
       chain (scanf_word groupNameToJoin) (\<lambda>_.
       chain (obj interfaces ui) (\<lambda>client.
       chain (Join_To_Group userName groupNameToJoin client) (\<lambda>rcvFromJoin.
       ret (if rcvFromJoin = CLIENT_SUCCESS then 1 else - 1)))))"

definition InitExitFromGroup :: "addr \<Rightarrow> addr \<Rightarrow> ('a client_mem_scheme, int) prog" where
  "InitExitFromGroup ui userName =
     with_raw_array (MAX_SIZE + 1) (\<lambda>GroupToExitFrom.
     chain (scanf_word GroupToExitFrom) (\<lambda>_.
     if ui = NULL \<or> userName = NULL then ret (- 1)
     else
       chain (obj interfaces ui) (\<lambda>client.
       chain (Leave_Group_Conversation userName GroupToExitFrom client) (\<lambda>rcvFromexit.
       ret (if rcvFromexit = CLIENT_SUCCESS then 1 else - 1)))))"

section \<open>The loops of \<open>RunUI\<close>\<close>

text \<open>The inner \<open>while(1)\<close>: it has no way out.\<close>

fun menu_loop :: "nat \<Rightarrow> addr \<Rightarrow> addr \<Rightarrow> int \<Rightarrow> ('a client_mem_scheme, int) prog" where
  "menu_loop 0 ui userName choice = fail Diverges"
| "menu_loop (Suc k) ui userName choice =
     chain (scanf_int choice) (\<lambda>choice'.
     chain (if choice' = 1 then InitGroupCreate k ui userName
            else if choice' = 2 then InitJoinCreate ui userName
            else if choice' = 3 then InitExitFromGroup ui userName
            else ret 0) (\<lambda>_.
     menu_loop k ui userName choice'))"

text \<open>\<open>while (answer != REGISTERED_OP && answer != LOGIN_OP)\<close>.\<close>

fun ask_again :: "nat \<Rightarrow> int \<Rightarrow> ('a client_mem_scheme, int) prog" where
  "ask_again 0 answer = fail Diverges"
| "ask_again (Suc k) answer =
     (if answer \<noteq> REGISTERED_OP \<and> answer \<noteq> LOGIN_OP
      then chain (scanf_int answer) (\<lambda>answer'. ask_again k answer')
      else ret answer)"

text \<open>Registration and login; \<open>None\<close> is a \<open>continue\<close> of the outer loop.\<close>

definition register_part :: "addr \<Rightarrow> addr \<Rightarrow> addr \<Rightarrow> int \<Rightarrow> ('a client_mem_scheme, int option) prog" where
  "register_part ui userName userPassword answer =
     (if answer = REGISTERED_OP then
        chain (obj interfaces ui) (\<lambda>client.
        chain (RegisterOption userName userPassword client) (\<lambda>r.
        if r = - 1 then ret None
        else chain (scanf_int answer) (\<lambda>answer'. ret (Some answer'))))
      else ret (Some answer))"

definition login_part :: "addr \<Rightarrow> addr \<Rightarrow> addr \<Rightarrow> int \<Rightarrow> ('a client_mem_scheme, bool) prog" where
  "login_part ui userName userPassword answer =
     (if answer = LOGIN_OP then
        chain (obj interfaces ui) (\<lambda>client.
        chain (LoginOption userName userPassword client) (\<lambda>r.
        ret (r \<noteq> - 1)))
      else ret True)"

text \<open>
  The outer \<open>while(1)\<close>. \<open>answer\<close> keeps its value from round to round; \<open>choice\<close> is indeterminate
  before the menu.
\<close>

fun ui_loop :: "nat \<Rightarrow> addr \<Rightarrow> int \<Rightarrow> ('a client_mem_scheme, int) prog" where
  "ui_loop 0 ui answer = fail Diverges"
| "ui_loop (Suc k) ui answer =
     chain (scanf_int answer) (\<lambda>answer1.
     chain (ask_again k answer1) (\<lambda>answer2.
     chain (Init_username k) (\<lambda>userName.
     chain (Init_Psw k) (\<lambda>userPassword.
     chain (register_part ui userName userPassword answer2) (\<lambda>registered.
     case registered of
       None \<Rightarrow> ui_loop k ui answer2
     | Some answer3 \<Rightarrow>
         chain (login_part ui userName userPassword answer3) (\<lambda>logged_in.
         if \<not> logged_in then ui_loop k ui answer3
         else
           chain (reads (\<lambda>s. Inr (int (junk s (brk s) 0)))) (\<lambda>choice.
           chain (menu_loop k ui userName choice) (\<lambda>_. ret 0))))))))"

definition RunUI :: "nat \<Rightarrow> addr \<Rightarrow> ('a client_mem_scheme, int) prog" where
  "RunUI k ui = (if ui = NULL then ret 0 else ui_loop k ui 5)"

section \<open>The program\<close>

definition IP_ADDRESS_LEN :: nat where "IP_ADDRESS_LEN = 17"

definition client_main :: "nat \<Rightarrow> ('a client_mem_scheme, int) prog" where
  "client_main k =
     with_raw_array IP_ADDRESS_LEN (\<lambda>serverIP.
     chain (scanf_word serverIP) (\<lambda>_.
     chain (reads (\<lambda>s. Inr (int (junk s (brk s) 0)))) (\<lambda>serverPort.
     chain (scanf_int serverPort) (\<lambda>serverPort'.
     chain (CreateCommunication serverPort' serverIP) (\<lambda>newChat.
     chain (RunUI k newChat) (\<lambda>_. ret 0))))))"

section \<open>What runs do\<close>

text \<open>The interface never returns to its caller.\<close>

lemma menu_loop_no_return: "menu_loop k ui u c s \<noteq> Inr r"
proof (induction k arbitrary: c s)
  case (Suc k)
  then show ?case by (auto simp: chain_eq_Inr simp del: split_paired_Ex)
qed simp

lemma ui_loop_no_return: "ui_loop k ui a s \<noteq> Inr r"
proof (induction k arbitrary: a s)
  case (Suc k)
  then show ?case by (auto simp: chain_eq_Inr if_apply menu_loop_no_return split: option.splits)
qed simp

lemma RunUI_no_return: "ui \<noteq> NULL \<Longrightarrow> RunUI k ui s \<noteq> Inr r"
  unfolding RunUI_def by (simp only: if_False if_not_P) (rule ui_loop_no_return)

text \<open>A word of one character or more overflows the byte that was allocated for it.\<close>

lemma read_name_overflows:
  fixes s :: "'a client_mem_scheme"
  assumes "0 < brk s" and "\<not> oom s (brk s)" and "\<forall>a \<ge> brk s. bytes s a = None"
    and "typed_word (cos s) (asked s) = Some cs" and "cs \<noteq> []"
  shows "chain (malloc_bytes 1) (\<lambda>p. if p = NULL then ret NULL
    else chain (scanf_word p) (\<lambda>_. f p)) s = Inl BadAddress"
proof -
  let ?s = "s\<lparr>brk := brk s + 2, bytes := map_bytes (brk s) (junk_bytes (junk s) (brk s) 1) (bytes s)\<rparr>"
  have "put_bytes (brk s) (cs @ [0]) (?s\<lparr>asked := asked s + 1\<rparr>) = Inl BadAddress"
    by (rule put_bytes_fault [where i = 1]) (use assms in \<open>auto simp: map_bytes_def\<close>)
  then show ?thesis using assms(1,2,4) malloc_bytes_step [OF assms(2,1), of 1]
    by (simp add: scanf_word_def)
qed

lemma Init_username_overflows:
  fixes s :: "'a client_mem_scheme"
  assumes "0 < brk s" and "\<not> oom s (brk s)" and "\<forall>a \<ge> brk s. bytes s a = None"
    and "typed_word (cos s) (asked s) = Some cs" and "cs \<noteq> []"
  shows "Init_username k s = Inl BadAddress" "Init_Psw k s = Inl BadAddress" "Init_GroupName k s = Inl BadAddress"
  unfolding Init_username_def Init_Psw_def Init_GroupName_def by (rule read_name_overflows [OF assms])+

lemma RunUI_overflows:
  fixes s :: "'a client_mem_scheme"
  assumes "0 < brk s" and "\<not> oom s (brk s)" and "\<forall>a \<ge> brk s. bytes s a = None" and "ui \<noteq> NULL" and "0 < k"
    and "typed_int (cos s) (asked s) = Some i" and "i = 0 \<or> i = 1"
    and "typed_word (cos s) (asked s + 1) = Some cs" and "cs \<noteq> []"
  shows "RunUI (Suc k) ui s = Inl BadAddress"
proof -
  let ?s = "s\<lparr>asked := asked s + 1\<rparr>"
  have "ask_again k i ?s = Inr (i, ?s)"
    using assms(5,7) by (cases k) (auto simp: REGISTERED_OP_def LOGIN_OP_def)
  moreover have "Init_username k ?s = Inl BadAddress"
    by (rule Init_username_overflows) (use assms in simp_all)
  ultimately show ?thesis using assms(4,6) by (simp add: RunUI_def scanf_int_def)
qed

end
