(* ===== verification/ClientProperties.thy ===== *)
theory ClientProperties
  imports ClientCalls UI
begin

text \<open>
  The properties of the client and of client and server together, with witnesses on a concrete
  client process.
\<close>

section \<open>A concrete client\<close>

text \<open>The strings \<^verbatim>\<open>a\<close>, \<^verbatim>\<open>b\<close>, \<^verbatim>\<open>g\<close> and \<^verbatim>\<open>1\<close> lie at 1, 4, 7 and 10.\<close>

definition client_start :: "client_os \<Rightarrow> client_mem" where
  "client_start w = \<lparr>brk = 20,
     bytes = map_of [(1, 97), (2, 0), (4, 98), (5, 0), (7, 103), (8, 0), (10, 49), (11, 0)],
     oom = (\<lambda>_. False), junk = (\<lambda>_ _. 0), nodes = (\<lambda>_. None), ditems = (\<lambda>_. None),
     nets = (\<lambda>_. None), client_objs = (\<lambda>_. None), pids = (\<lambda>_. None), interfaces = (\<lambda>_. None),
     cos = w, asked = 0, events = []\<rparr>"

definition quiet_net :: client_os where
  "quiet_net = \<lparr>net_socket = (\<lambda>_. 3), net_connect = (\<lambda>_. 0), net_send = (\<lambda>_. 35), net_recv = (\<lambda>_. None),
     pid_file = (\<lambda>_. None), typed_word = (\<lambda>_. Some [97]), typed_int = (\<lambda>_. Some 0)\<rparr>"

definition answering :: "u8 list \<Rightarrow> client_os" where
  "answering ys = quiet_net\<lparr>net_recv := (\<lambda>_. Some ys)\<rparr>"

lemma client_start_env: "env (client_start w)"
  by (auto simp: client_start_def env_def wf_hash_mem_def wf_list_mem_def wf_bytes_def enough_mem_def zeroed_def)

lemma client_start_strings:
  "str_at (client_start w) 1 [97]" "str_at (client_start w) 4 [98]" "str_at (client_start w) 7 [103]"
  "str_at (client_start w) 10 [49]"
  by (simp_all add: str_at_def client_start_def)

lemma client_start_simps [simp]:
  "cos (client_start w) = w" "asked (client_start w) = 0" "events (client_start w) = []" "brk (client_start w) = 20"
  by (simp_all add: client_start_def)

section \<open>Connecting\<close>

text \<open>C20: Connect_User returns a client that stands for an empty map of groups, with its socket and the port; a connection that fails is not reported: the result is the same, only the connection is missing.\<close>

theorem connect_user:
  fixes s :: "'a client_mem_scheme"
  assumes "env s" and "str_at s ip ipn" and "net_socket (cos s) (asked s) = sock" "0 \<le> sock"
  shows "\<exists>s'. Connect_User ip port s = Inr (brk s, s') \<and>
    client_rep (brk s) s' (brk s) (brk s + 2) sock port Map.empty \<and>
    events s' = events s @ (if net_connect (cos s) (asked s + 1) < 0 then [] else [Opened sock ipn (word_of_int port)])"
  by (rule Connect_User_ok [OF assms]) blast

theorem connect_user_witness:
  "(\<exists>s'. Connect_User 10 5555 (client_start quiet_net) = Inr (20, s') \<and> events s' = [Opened 3 [49] 5555]) \<and>
   (\<exists>s'. Connect_User 10 5555 (client_start (quiet_net\<lparr>net_connect := (\<lambda>_. - 1)\<rparr>)) = Inr (20, s') \<and> events s' = [])"
proof
  show "\<exists>s'. Connect_User 10 5555 (client_start quiet_net) = Inr (20, s') \<and> events s' = [Opened 3 [49] 5555]"
    using connect_user [OF client_start_env client_start_strings(4), of quiet_net 3 5555] by (auto simp: quiet_net_def)
  show "\<exists>s'. Connect_User 10 5555 (client_start (quiet_net\<lparr>net_connect := (\<lambda>_. - 1)\<rparr>)) = Inr (20, s') \<and> events s' = []"
    using connect_user [OF client_start_env client_start_strings(4), of "quiet_net\<lparr>net_connect := (\<lambda>_. - 1)\<rparr>" 3 5555]
    by (auto simp: quiet_net_def)
qed

text \<open>A connected client, for the witnesses.\<close>

lemma connected:
  assumes "net_socket w 0 = 3" "0 \<le> net_connect w 1"
  obtains c where "Connect_User 10 5555 (client_start w) = Inr (20, c)" "client_rep 20 c 20 22 3 5555 Map.empty"
    "cos c = w" "asked c = 2" "events c = [Opened 3 [49] 5555]" "str_at c 1 [97]" "str_at c 4 [98]" "str_at c 7 [103]"
    "\<And>r x y. arguments 20 (client_start w) r x y \<Longrightarrow> arguments 20 c r x y"
proof -
  obtain c where c: "Connect_User 10 5555 (client_start w) = Inr (20, c)" "client_rep 20 c 20 22 3 5555 Map.empty"
    "cos c = w" "asked c = 2" "events c = [Opened 3 [49] 5555]" "bytes c = bytes (client_start w)" "20 \<le> brk c"
    by (rule Connect_User_ok [OF client_start_env client_start_strings(4), of w 3 5555]) (use assms in auto)
  have "str_at c p xs" if "str_at (client_start w) p xs" for p xs by (rule str_at_cong [OF that]) (use c in simp_all)
  moreover have "arguments 20 c r x y" if "arguments 20 (client_start w) r x y" for r x y
    by (rule arguments_later [OF that]) (use c in simp_all)
  ultimately show ?thesis using c client_start_strings by (intro that [of c]) auto
qed

section \<open>The calls\<close>

text \<open>C6: Every call of a connected client, for an answer of a server in any state, returns the result that the answer stands for, sends the bytes of the request, and opens the two windows of a group exactly when it was created or joined, with the address in the answer; names reach the shell command unquoted.\<close>

theorem client_calls:
  fixes s :: "'a client_mem_scheme"
  assumes "client_rep b s cl net sock port M" and "int_ok port"
    and "valid_request r" and "arguments b s r x y" and "addresses_fit A"
    and "0 \<le> net_send (cos s) (asked s)" and "net_recv (cos s) (asked s + 1) = Some ys"
    and "holds_answer (fst (serve r A)) ys"
  shows "\<exists>s' M'. client_call r x y cl s = Inr (outcome r (fst (serve r A)), s') \<and>
    client_rep b s' cl net sock port M' \<and> known_groups (cos s) (asked s) r (fst (serve r A)) M (pids s') M' \<and>
    asked s' = asked s + call_count (cos s) (asked s) r (fst (serve r A)) \<and>
    events s' = events s @ call_events (cos s) (asked s) sock port r (fst (serve r A)) ys"
  using client_call_ok [OF assms] unfolding call_done_def by blast

text \<open>The bytes of an answer that creates a group with the address 229.1.0.1.\<close>

definition created_bytes :: "u8 list" where
  "created_bytes = [8, 50, 50, 57, 46, 49, 46, 48, 46, 49, 0, 0, 0, 0, 0, 0, 0, 0, 0, 0, 0, 0, 0, 6] @ replicate 1000 0"

lemma first_answer: "fst (serve (CreateGroup g u) chat_empty) =
  GroupAnswer CREATE_GROUP_CONVERSATION_ANS GROUP_SUCCESSFULLY_INSERT (Some [50, 50, 57, 46, 49, 46, 48, 46, 49])"
proof -
  have "next_ip chat_empty = [50, 50, 57, 46, 49, 46, 48, 46, 49]"
    by (simp add: next_ip_def chat_empty_def ip_string_def dec.simps)
  then show ?thesis by (simp add: spec_create_def chat_empty_def)
qed

lemma string_arrives:
  assumes "take (Suc (length cs)) (drop 1 ys) = cs @ [0]" and "i \<le> length cs"
  shows "map Some ys ! (1 + i) = Some ((cs @ [0]) ! i)"
proof -
  have len: "length cs + 1 < length ys" using arg_cong [OF assms(1), of length] by auto
  have "(cs @ [0]) ! i = ys ! (1 + i)" unfolding assms(1) [symmetric] using assms(2) len by simp
  then show ?thesis using assms(2) len by simp
qed

lemma small_code: "le_bytes 6 = [6, 0, 0, 0]" "le_bytes 0 = [0, 0, 0, 0]"
  by (simp_all add: le_bytes_def)

lemma created_arrives: "holds_answer (fst (serve (CreateGroup g u) chat_empty)) created_bytes"
proof -
  let ?ip = "[50, 50, 57, 46, 49, 46, 48, 46, 49] :: u8 list"
  have "take (Suc (length ?ip)) (drop 1 created_bytes) = ?ip @ [0]" by (simp add: created_bytes_def)
  then have "\<forall>i \<le> length ?ip. i < 1023 \<longrightarrow> map Some created_bytes ! (1 + i) = Some ((?ip @ [0]) ! i)"
    using string_arrives by blast
  moreover have "length created_bytes = 1024" "map Some created_bytes ! 0 = Some 8"
    "take 4 (drop 20 (map Some created_bytes)) = map Some [0, 0, 0, 6]"
    by (simp_all add: created_bytes_def)
  ultimately show ?thesis
    unfolding first_answer by (simp add: holds_answer_def code_bytes_def small_code)
qed

definition group_net :: client_os where
  "group_net = (answering created_bytes)\<lparr>pid_file := (\<lambda>n. Some (70 + int n))\<rparr>"

lemma group_net_simps [simp]:
  "net_socket group_net n = 3" "net_connect group_net n = 0" "net_send group_net n = 35"
  "net_recv group_net n = Some created_bytes" "pid_file group_net n = Some (70 + int n)"
  by (simp_all add: group_net_def answering_def quiet_net_def)

lemma group_arguments: "valid_request (CreateGroup [103] [97])" "arguments 20 (client_start w) (CreateGroup [103] [97]) 1 7"
  using client_start_strings by (simp_all add: arguments_def)

lemma port_ok: "int_ok 5555"
  by (simp add: int_ok_def)

theorem client_calls_witness:
  "\<exists>c c'. Connect_User 10 5555 (client_start group_net) = Inr (20, c) \<and>
    client_call (CreateGroup [103] [97]) 1 7 20 c = Inr (Some CLIENT_SUCCESS, c') \<and>
    events c' = [Opened 3 [49] 5555, SentOut 3 (map Some (request_bytes (CreateGroup [103] [97]))), Arrived 3 created_bytes,
      Ran (window_command listen_window [50, 50, 57, 46, 49, 46, 48, 46, 49] 5555 [97] [103]),
      Ran (window_command sender_window [50, 50, 57, 46, 49, 46, 48, 46, 49] 5555 [97] [103])]"
proof -
  obtain c where c: "Connect_User 10 5555 (client_start group_net) = Inr (20, c)" "client_rep 20 c 20 22 3 5555 Map.empty"
    "cos c = group_net" "asked c = 2" "events c = [Opened 3 [49] 5555]"
    "arguments 20 c (CreateGroup [103] [97]) 1 7"
    by (rule connected [of group_net]) (use group_arguments(2) in auto)
  have "0 \<le> net_send (cos c) (asked c)" "net_recv (cos c) (asked c + 1) = Some created_bytes" using c(3) by simp_all
  from client_calls [OF c(2) port_ok group_arguments(1) c(6) addresses_fit_empty this created_arrives]
  show ?thesis unfolding first_answer
    using c(1,3-5) by (fastforce simp: call_events_def window_events_def code_of_def simp del: request_bytes.simps)
qed

section \<open>No answer\<close>

text \<open>C21: When the connection is lost after the request was sent, User_Register finds zeros in its buffer and reports a successful registration.\<close>

theorem lost_connection_registers:
  fixes s :: "'a client_mem_scheme"
  assumes "client_rep b s cl net sock port M" and "str_at s u name" "length name \<le> 16" and "str_at s p pw" "length pw \<le> 16"
    and "0 \<le> net_send (cos s) (asked s)" and "net_recv (cos s) (asked s + 1) = None"
  shows "\<exists>s'. User_Register u p cl s = Inr (CLIENT_SUCCESS, s') \<and>
    events s' = events s @ [SentOut sock (map Some (user_struct REGISTER_REQ name pw))]"
  by (rule register_without_answer [OF assms])

theorem lost_connection_registers_witness:
  "\<exists>c c'. Connect_User 10 5555 (client_start quiet_net) = Inr (20, c) \<and> User_Register 1 4 20 c = Inr (CLIENT_SUCCESS, c')"
proof -
  obtain c where c: "Connect_User 10 5555 (client_start quiet_net) = Inr (20, c)" "client_rep 20 c 20 22 3 5555 Map.empty"
    "cos c = quiet_net" "str_at c 1 [97]" "str_at c 4 [98]"
    by (rule connected [of quiet_net]) (auto simp: quiet_net_def)
  show ?thesis using lost_connection_registers [OF c(2,4) _ c(5)] c(1,3) by (auto simp: quiet_net_def)
qed

section \<open>Leaving\<close>

text \<open>C22: Leave_Group_Conversation reports success whatever the server answers, also when it refuses: the answer code is reversed by UnPack. It sends a request with four characters reversed, keeps the group in its map and leaves the windows open.\<close>

theorem leave_always_succeeds:
  fixes s :: "'a client_mem_scheme"
  assumes "client_rep b s cl net sock port M"
    and "str_at s u name" "length name \<le> 16" and "str_at s g gname" "length gname \<le> 17"
    and "0 \<le> net_send (cos s) (asked s)" and "net_recv (cos s) (asked s + 1) = Some ys"
    and "holds_answer (GroupAnswer LEAVE_CONVERSATION_ANS a ip) ys" and "sound_answer (GroupAnswer LEAVE_CONVERSATION_ANS a ip)"
  shows "\<exists>s'. Leave_Group_Conversation u g cl s = Inr (CLIENT_SUCCESS, s') \<and> client_rep b s' cl net sock port M \<and>
    events s' = events s @ [SentOut sock (map Some (garbled (group_struct LEAVE_CONVERSATION_REQ gname name))), Arrived sock ys]"
  using Leave_Group_Conversation_ok [OF assms] unfolding answered_call_def by blast

definition refused_bytes :: "u8 list" where
  "refused_bytes = [13, 0, 0, 0, 0, 0, 0, 0, 0, 0, 0, 0, 0, 0, 0, 0, 0, 0, 0, 0, 8, 0, 0, 0] @ replicate 1000 0"

theorem leave_always_succeeds_witness:
  "holds_answer (fst (serve (LeaveGroup [103] [97]) chat_empty)) refused_bytes \<and>
   (\<exists>c c'. Connect_User 10 5555 (client_start (answering refused_bytes)) = Inr (20, c) \<and>
     Leave_Group_Conversation 1 7 20 c = Inr (CLIENT_SUCCESS, c'))"
proof -
  let ?w = "answering refused_bytes"
  obtain c where c: "Connect_User 10 5555 (client_start ?w) = Inr (20, c)" "client_rep 20 c 20 22 3 5555 Map.empty"
    "cos c = ?w" "asked c = 2" "str_at c 1 [97]" "str_at c 7 [103]"
    by (rule connected [of ?w]) (auto simp: answering_def quiet_net_def)
  have h: "holds_answer (GroupAnswer LEAVE_CONVERSATION_ANS GROUP_NAME_NOT_EXIST (Some [])) refused_bytes"
    by (simp add: holds_answer_def refused_bytes_def code_bytes_def le_bytes_def)
  have io: "0 \<le> net_send (cos c) (asked c)" "net_recv (cos c) (asked c + 1) = Some refused_bytes"
    using c(3) by (simp_all add: answering_def quiet_net_def)
  show ?thesis using leave_always_succeeds [OF c(2,5) _ c(6) _ io h] h c(1) by auto
qed

section \<open>The processes of the windows\<close>

text \<open>C23: RemovePID forgets the processes of a group that it knows without sending them a signal; for a group it does not know it dereferences an uninitialised pointer.\<close>

theorem remove_pid:
  fixes s :: "'a client_mem_scheme"
  assumes "client_rep b s cl net sock port M" and "str_at s g gname" "length gname \<le> 17" "g + length gname < b"
  shows "case M gname of
      None \<Rightarrow> RemovePID g cl s = Inl NullDeref
    | Some p \<Rightarrow> \<exists>s'. RemovePID g cl s = Inr (1, s') \<and> client_rep b s' cl net sock port (M(gname := None)) \<and>
        events s' = events s \<and> pids s' = pids s"
  using RemovePID_known [OF assms] RemovePID_unknown [OF assms] by (auto split: option.splits)

theorem remove_pid_witness:
  "\<exists>c c' c'' p. Connect_User 10 5555 (client_start group_net) = Inr (20, c) \<and>
    client_call (CreateGroup [103] [97]) 1 7 20 c = Inr (Some CLIENT_SUCCESS, c') \<and>
    pids c' p = Some \<lparr>m_sender = 74, m_listen = 75\<rparr> \<and>
    RemovePID 7 20 c = Inl NullDeref \<and> RemovePID 7 20 c' = Inr (1, c'') \<and> events c'' = events c'"
proof -
  obtain c where c: "Connect_User 10 5555 (client_start group_net) = Inr (20, c)" "client_rep 20 c 20 22 3 5555 Map.empty"
    "cos c = group_net" "asked c = 2" "str_at c 7 [103]" "arguments 20 c (CreateGroup [103] [97]) 1 7"
    by (rule connected [of group_net]) (use group_arguments(2) in auto)
  have "0 \<le> net_send (cos c) (asked c)" "net_recv (cos c) (asked c + 1) = Some created_bytes" using c(3) by simp_all
  from client_call_ok [OF c(2) port_ok group_arguments(1) c(6) addresses_fit_empty this created_arrives]
  obtain c' M' where c': "client_call (CreateGroup [103] [97]) 1 7 20 c = Inr (Some CLIENT_SUCCESS, c')"
    "client_rep 20 c' 20 22 3 5555 M'" "\<forall>a < 20. bytes c' a = bytes c a" "brk c \<le> brk c'"
    and k: "known_groups group_net 2 (CreateGroup [103] [97])
      (GroupAnswer CREATE_GROUP_CONVERSATION_ANS GROUP_SUCCESSFULLY_INSERT (Some [50, 50, 57, 46, 49, 46, 48, 46, 49]))
      Map.empty (pids c') M'"
    unfolding first_answer call_done_def c(3,4) by (auto simp: code_of_def simp del: opens.simps)
  have "\<exists>p. M' = [[103] \<mapsto> p] \<and> pids c' p = Some \<lparr>m_sender = 74, m_listen = 75\<rparr>"
    using k by (simp add: known_groups_def recorded_def window_pids_def)
  then obtain p where p: "M' = [[103] \<mapsto> p]" "pids c' p = Some \<lparr>m_sender = 74, m_listen = 75\<rparr>" by blast
  have g: "str_at c' 7 [103]" by (rule str_at_cong [OF c(5)]) (use c'(3,4) in simp_all)
  obtain c'' where "RemovePID 7 20 c' = Inr (1, c'')" "events c'' = events c'"
    using remove_pid [OF c'(2) g] p(1) by auto
  moreover have "RemovePID 7 20 c = Inl NullDeref" using remove_pid [OF c(2,5)] by auto
  ultimately show ?thesis using c(1) c'(1) p(2) by blast
qed

section \<open>The user interface\<close>

text \<open>C24: RunUI never returns; and as soon as a choice and a user name are typed it writes past the single byte that was allocated for the name.\<close>

theorem run_ui:
  fixes s :: "'a client_mem_scheme"
  assumes "0 < brk s" and "\<not> oom s (brk s)" and "\<forall>a \<ge> brk s. bytes s a = None" and "ui \<noteq> NULL"
    and "typed_int (cos s) (asked s) = Some i" and "i = 0 \<or> i = 1"
    and "typed_word (cos s) (asked s + 1) = Some cs" and "cs \<noteq> []"
  shows "(\<forall>k r. RunUI k ui s \<noteq> Inr r) \<and> (\<forall>k > 0. RunUI (Suc k) ui s = Inl BadAddress)"
  using RunUI_overflows [OF assms(1-4) _ assms(5-8)] by (simp add: RunUI_no_return [OF assms(4)])

theorem run_ui_witness: "(\<forall>k r. RunUI k 1 (client_start quiet_net) \<noteq> Inr r) \<and> RunUI 2 1 (client_start quiet_net) = Inl BadAddress"
proof -
  have "map_of [(1, 97), (2, 0), (4, 98), (5, 0), (7, 103), (8, 0), (10, 49), (11, 0 :: u8)] a = None" if "20 \<le> a" for a :: nat
    using that by simp
  then have "(\<forall>k r. RunUI k 1 (client_start quiet_net) \<noteq> Inr r) \<and> (\<forall>k > 0. RunUI (Suc k) 1 (client_start quiet_net) = Inl BadAddress)"
    by (intro run_ui [where i = 0 and cs = "[97]"]) (simp_all add: client_start_def quiet_net_def)
  then show ?thesis by (auto simp: eval_nat_numeral)
qed

end
