(* ===== verification/Locality.thy ===== *)
theory Locality
  imports ServerApp
begin

text \<open>
  A frame rule for the code of the server. A program step is \<open>local\<close> when a successful run is
  unchanged by list nodes that lie apart from the memory it runs on, and by whatever components
  extend the state. All operations the application calls are built from local steps by
  \<open>chain\<close>, so that the application is local, without a look at what it computes. The TCP server keeps
  its list of clients in the same memory: the frame rule lets the results about
  the application, proved without that list, be used in the server.
\<close>

section \<open>Local steps\<close>

definition framed :: "(addr \<Rightarrow> node option) \<Rightarrow> 'a \<Rightarrow> 'a db_mem_scheme \<Rightarrow> 'a db_mem_scheme" where
  "framed X z s = db_mem.more_update (\<lambda>_. z) (s\<lparr>nodes := nodes s ++ X\<rparr>)"

definition outside :: "(addr \<Rightarrow> node option) \<Rightarrow> 'a db_mem_scheme \<Rightarrow> bool" where
  "outside X s \<longleftrightarrow> dom X \<inter> dom (nodes s) = {} \<and> dom X \<subseteq> {..<brk s}"

definition local :: "('a db_mem_scheme, 'r) prog \<Rightarrow> bool" where
  "local m \<longleftrightarrow> (\<forall>s a s' X z. outside X s \<longrightarrow> m s = Inr (a, s') \<longrightarrow>
     m (framed X z s) = Inr (a, framed X z s') \<and> outside X s' \<and> brk s \<le> brk s')"

named_theorems local_intro

lemma localI:
  "(\<And>s a s' X z. \<lbrakk>outside X s; m s = Inr (a, s')\<rbrakk> \<Longrightarrow>
     m (framed X z s) = Inr (a, framed X z s') \<and> outside X s' \<and> brk s \<le> brk s') \<Longrightarrow> local m"
  by (simp add: local_def)

lemma localD:
  "\<lbrakk>local m; outside X s; m s = Inr (a, s')\<rbrakk> \<Longrightarrow>
   m (framed X z s) = Inr (a, framed X z s') \<and> outside X s' \<and> brk s \<le> brk s'"
  unfolding local_def by blast

lemma framed_simps [simp]:
  "brk (framed X z s) = brk s" "bytes (framed X z s) = bytes s" "oom (framed X z s) = oom s"
  "junk (framed X z s) = junk s" "nodes (framed X z s) = nodes s ++ X"
  "ditems (framed X z s) = ditems s" "queues (framed X z s) = queues s" "pools (framed X z s) = pools s"
  "user_groups (framed X z s) = user_groups s" "users_dbs (framed X z s) = users_dbs s"
  "groups_dbs (framed X z s) = groups_dbs s" "databases (framed X z s) = databases s"
  "db_mem.more (framed X z s) = z"
  by (simp_all add: framed_def)

lemma framed_update [simp]:
  "framed X z s\<lparr>brk := b\<rparr> = framed X z (s\<lparr>brk := b\<rparr>)"
  "framed X z s\<lparr>bytes := y\<rparr> = framed X z (s\<lparr>bytes := y\<rparr>)"
  "framed X z s\<lparr>ditems := d\<rparr> = framed X z (s\<lparr>ditems := d\<rparr>)"
  "framed X z s\<lparr>queues := q\<rparr> = framed X z (s\<lparr>queues := q\<rparr>)"
  "framed X z s\<lparr>pools := p\<rparr> = framed X z (s\<lparr>pools := p\<rparr>)"
  "framed X z s\<lparr>user_groups := u\<rparr> = framed X z (s\<lparr>user_groups := u\<rparr>)"
  "framed X z s\<lparr>users_dbs := v\<rparr> = framed X z (s\<lparr>users_dbs := v\<rparr>)"
  "framed X z s\<lparr>groups_dbs := g\<rparr> = framed X z (s\<lparr>groups_dbs := g\<rparr>)"
  "framed X z s\<lparr>databases := e\<rparr> = framed X z (s\<lparr>databases := e\<rparr>)"
  by (simp_all add: framed_def)

lemma framed_nodes: "n' = n ++ X \<Longrightarrow> framed X z s\<lparr>nodes := n'\<rparr> = framed X z (s\<lparr>nodes := n\<rparr>)"
  by (simp add: framed_def)

lemma outside_simps [simp]:
  "outside X (s\<lparr>bytes := y\<rparr>) = outside X s" "outside X (s\<lparr>ditems := d\<rparr>) = outside X s"
  "outside X (s\<lparr>queues := q\<rparr>) = outside X s" "outside X (s\<lparr>pools := p\<rparr>) = outside X s"
  "outside X (s\<lparr>user_groups := u\<rparr>) = outside X s" "outside X (s\<lparr>users_dbs := v\<rparr>) = outside X s"
  "outside X (s\<lparr>groups_dbs := g\<rparr>) = outside X s" "outside X (s\<lparr>databases := e\<rparr>) = outside X s"
  by (simp_all add: outside_def)

lemma outside_brk: "outside X s \<Longrightarrow> brk s \<le> b \<Longrightarrow> outside X (s\<lparr>brk := b\<rparr>)"
  by (auto simp: outside_def)

lemma outside_node: "outside X s \<Longrightarrow> nodes s p = Some n \<Longrightarrow> X p = None"
  by (fastforce simp: outside_def)

lemma local_ret [local_intro]: "local (ret a)"
  by (simp add: local_def)

lemma local_fail [local_intro]: "local (fail e)"
  by (simp add: local_def)

lemma local_chain [local_intro]:
  assumes m: "local m" and f: "\<And>a. local (f a)"
  shows "local (chain m f)"
proof (rule localI)
  fix s s' :: "'a db_mem_scheme" and r X z
  assume o: "outside X s" and "chain m f s = Inr (r, s')"
  then obtain a s1 where s1: "m s = Inr (a, s1)" "f a s1 = Inr (r, s')"
    by (auto simp: chain_eq_Inr)
  note a = localD [OF m o s1(1), of z]
  note b = localD [OF f [of a] conjunct1 [OF conjunct2 [OF a]] s1(2), of z]
  show "chain m f (framed X z s) = Inr (r, framed X z s') \<and> outside X s' \<and> brk s \<le> brk s'"
    using a b by auto
qed

lemma local_if [local_intro]: "local f \<Longrightarrow> local g \<Longrightarrow> local (if b then f else g)"
  by simp

lemma local_let [local_intro]: "local (f x) \<Longrightarrow> local (Let x f)"
  by simp

lemma local_option [local_intro]:
  "local f \<Longrightarrow> (\<And>y. local (g y)) \<Longrightarrow> local (case x of None \<Rightarrow> f | Some y \<Rightarrow> g y)"
  by (cases x) auto

lemma local_pair [local_intro]: "(\<And>a b. local (f a b)) \<Longrightarrow> local (case x of (a, b) \<Rightarrow> f a b)"
  by (cases x) auto

lemma local_fuel:
  assumes "\<And>k. local (f k)"
  shows "local (\<lambda>s. f (brk s) s)"
  by (rule localI) (use localD [OF assms] in auto)

lemma local_reads: "(\<And>s X z. f (framed X z s) = f s) \<Longrightarrow> local (reads f)"
  by (rule localI) (auto simp: reads_def split: sum.splits)

lemma local_modify:
  "(\<And>s X z. g (framed X z s) = framed X z (g s)) \<Longrightarrow> (\<And>s X. outside X s \<Longrightarrow> outside X (g s)) \<Longrightarrow>
   (\<And>s. brk s \<le> brk (g s)) \<Longrightarrow> local (modify g)"
  by (rule localI) auto

section \<open>Memory and strings\<close>

lemma c_str_cong: "brk m' = brk m \<Longrightarrow> bytes m' = bytes m \<Longrightarrow> c_str m' a = c_str m a"
proof (induction m a rule: c_str.induct)
  case (1 m a)
  show ?case
    by (subst (1 2) c_str.simps) (use 1 in \<open>auto split: option.splits\<close>)
qed

lemma strcmp_cong: "brk m' = brk m \<Longrightarrow> bytes m' = bytes m \<Longrightarrow> strcmp m' a b = strcmp m a b"
proof (induction m a b rule: strcmp.induct)
  case (1 m a b)
  show ?case
    by (subst (1 2) strcmp.simps) (use 1 in \<open>auto split: option.splits\<close>)
qed

lemma c_str_framed [simp]: "c_str (framed X z s) a = c_str s a"
  by (rule c_str_cong) simp_all

lemma strcmp_framed [simp]: "strcmp (framed X z s) a b = strcmp s a b"
  by (rule strcmp_cong) simp_all

lemma strlen_framed [simp]: "strlen (framed X z s) a = strlen s a"
  by (simp add: strlen_def)

lemma truncate_framed [simp]: "bmem.truncate (framed X z s) = bmem.truncate s"
  by (simp add: bmem.truncate_def)

lemma local_malloc [local_intro]: "local (malloc n)"
  by (rule localI) (auto simp: malloc_def outside_brk split: if_splits)

lemma local_put_bytes [local_intro]: "local (put_bytes a cs)"
proof (rule localI)
  fix s s' :: "'a db_mem_scheme" and r X z
  show "put_bytes a cs s = Inr (r, s') \<Longrightarrow> outside X s \<Longrightarrow>
    put_bytes a cs (framed X z s) = Inr (r, framed X z s') \<and> outside X s' \<and> brk s \<le> brk s'"
    by (induction cs arbitrary: a s) (fastforce split: if_splits)+
qed

lemma local_strcpy [local_intro]: "local (strcpy d a)"
  by (rule localI) (use localD [OF local_put_bytes] in \<open>fastforce simp: strcpy_def split: sum.splits\<close>)

lemma local_malloc_bytes [local_intro]: "local (malloc_bytes n)"
  unfolding malloc_bytes_def by (intro local_chain local_malloc) (rule localI, auto split: if_splits)

lemma local_calloc_bytes [local_intro]: "local (calloc_bytes n)"
  unfolding calloc_bytes_def by (intro local_chain local_malloc) (rule localI, auto split: if_splits)

lemma local_rd_byte [local_intro]: "local (rd_byte p)"
  by (rule localI) (auto simp: rd_byte_def split: if_splits option.splits)

lemma local_obj:
  "(\<And>s X z. field (framed X z s) = field s) \<Longrightarrow> local (obj field p)"
  by (rule localI) (auto simp: obj_def split: if_splits option.splits)

section \<open>Lists\<close>

lemma local_rd_node [local_intro]: "local (rd_node p)"
  by (rule localI) (auto simp: rd_node_def map_add_def dest: outside_node split: if_splits option.splits)

lemma local_wr_node [local_intro]: "local (wr_node p f)"
proof (rule localI)
  fix s s' :: "'a db_mem_scheme" and r X z
  assume o: "outside X s" and w: "wr_node p f s = Inr (r, s')"
  from w obtain n where n: "p \<noteq> NULL" "nodes s p = Some n" "s' = s\<lparr>nodes := (nodes s)(p \<mapsto> f n)\<rparr>"
    by (auto simp: wr_node_def rd_node_def chain_eq_Inr split: if_splits option.splits)
  have X: "X p = None" by (rule outside_node [OF o n(2)])
  have "(nodes s ++ X)(p \<mapsto> f n) = (nodes s)(p \<mapsto> f n) ++ X"
    using X by (auto simp: map_add_def split: option.splits)
  then have "wr_node p f (framed X z s) = Inr (r, framed X z s')"
    using n X by (simp add: wr_node_def rd_node_step map_add_def framed_nodes [of _ "(nodes s)(p \<mapsto> f n)"])
  moreover have "outside X s'" using o n(3) X by (auto simp: outside_def)
  ultimately show "wr_node p f (framed X z s) = Inr (r, framed X z s') \<and> outside X s' \<and> brk s \<le> brk s'"
    using n(3) by simp
qed

lemma local_fields [local_intro]:
  "local (get_data p)" "local (get_next p)" "local (get_prev p)"
  "local (set_data p v)" "local (set_next p v)" "local (set_prev p v)"
  by (simp_all add: get_data_def get_next_def get_prev_def set_data_def set_next_def set_prev_def local_intro)

lemma local_malloc_nodes [local_intro]: "local (malloc_nodes k)"
proof (rule localI)
  fix s s' :: "'a db_mem_scheme" and r X z
  assume o: "outside X s" and w: "malloc_nodes k s = Inr (r, s')"
  show "malloc_nodes k (framed X z s) = Inr (r, framed X z s') \<and> outside X s' \<and> brk s \<le> brk s'"
  proof (cases "oom s (brk s) \<or> brk s = NULL")
    case True
    with o w show ?thesis
      by (auto simp: malloc_nodes_def malloc_def chain_def outside_brk split: if_splits)
  next
    case False
    let ?h = "\<lambda>h a. if brk s \<le> a \<and> a < brk s + k then Some (junk_node (junk s) a) else h a"
    have e: "?h (nodes s ++ X) = ?h (nodes s) ++ X"
      using o by (fastforce simp: outside_def map_add_def split: option.splits)
    have r: "r = brk s" "s' = s\<lparr>brk := brk s + k + 1, nodes := ?h (nodes s)\<rparr>"
      using w False by (auto simp: malloc_nodes_def malloc_def cong: if_cong)
    have "outside X s'" using o r(2) by (fastforce simp: outside_def split: if_splits)
    then show ?thesis using False r
      by (simp add: malloc_nodes_def malloc_def framed_nodes [OF e] cong: if_cong)
  qed
qed

lemma local_free_nodes [local_intro]: "local (free_nodes p k)"
proof (rule localI)
  fix s s' :: "'a db_mem_scheme" and r X z
  assume o: "outside X s" and w: "free_nodes p k s = Inr (r, s')"
  show "free_nodes p k (framed X z s) = Inr (r, framed X z s') \<and> outside X s' \<and> brk s \<le> brk s'"
  proof (cases "p = NULL")
    case False
    let ?h = "\<lambda>h a. if p \<le> a \<and> a < p + k then None else h a"
    have m: "\<forall>i < k. nodes s (p + i) \<noteq> None" and r: "s' = s\<lparr>nodes := ?h (nodes s)\<rparr>"
      using w False by (auto simp: free_nodes_def split: if_splits)
    have X: "X a = None" if "p \<le> a" "a < p + k" for a
    proof -
      have "nodes s (p + (a - p)) \<noteq> None" using m that by (metis add_less_cancel_left le_add_diff_inverse)
      then show ?thesis using that(1) outside_node [OF o] by auto
    qed
    then have e: "?h (nodes s ++ X) = ?h (nodes s) ++ X"
      by (auto simp: map_add_def split: option.splits)
    have m': "\<not> (\<exists>i < k. (nodes s ++ X) (p + i) = None)" using m by (auto simp: map_add_def split: option.splits)
    have "outside X s'" using o r by (fastforce simp: outside_def split: if_splits)
    then show ?thesis using False r m' by (simp add: free_nodes_def framed_nodes [OF e] cong: if_cong)
  qed (use o w in \<open>simp add: free_nodes_def\<close>)
qed

lemma local_list [local_intro]:
  "local List_Create" "local (List_PushHead l x)" "local (ListItr_Begin l)" "local (ListItr_End l)"
  "local (ListItr_Equals a b)" "local (ListItr_Next a)" "local (ListItr_Get a)"
  unfolding List_Create_def List_PushHead_def ListItr_Begin_def ListItr_End_def ListItr_Equals_def
    ListItr_Next_def ListItr_Get_def
  by (intro local_intro)+

lemma local_ListItr_Remove [local_intro]: "local (ListItr_Remove a)"
  unfolding ListItr_Remove_def by (intro local_intro)

section \<open>Hash map, queue and pool\<close>

lemma local_items [local_intro]:
  "local (rd_ditem p)" "local (free_ditem p)" "local (rd_queue q)" "local (rd_pool p)"
  by (rule localI;
      auto simp: rd_ditem_def free_ditem_def rd_queue_def rd_pool_def split: if_splits option.splits)+

lemma local_wr [local_intro]:
  "local (wr_ditem p f)" "local (wr_queue q g)" "local (wr_pool p h)"
  unfolding wr_ditem_def wr_queue_def wr_pool_def
  by (intro local_chain local_items; rule localI; auto)+

lemma local_malloc_ditem [local_intro]: "local malloc_ditem"
  unfolding malloc_ditem_def by (intro local_chain local_malloc) (rule localI, auto split: if_splits)

lemma local_rd_bucket [local_intro]: "local (rd_bucket m i)"
  unfolding rd_bucket_def by (intro local_intro)

lemma local_calls [local_intro]: "local (call_hash m k)" "local (call_equal m a b)"
  unfolding call_hash_def call_equal_def by (intro local_intro local_reads; simp)+

lemma local_hash_index [local_intro]: "local (hash_index m k)"
  unfolding hash_index_def by (intro local_intro)

lemma local_find_loop [local_intro]: "local (find_loop k m key e it fd)"
  by (induction k arbitrary: it fd) (simp_all, (intro local_intro | assumption)+)

lemma local_find [local_intro]: "local (\<lambda>s. find_loop (brk s) m key e it fd s)"
  by (rule local_fuel) (rule local_find_loop)

lemma local_search_bucket [local_intro]: "local (search_bucket m l key)"
  unfolding search_bucket_def by (intro local_intro)

lemma local_hash_map [local_intro]:
  "local (HashMap_Create n hf ef)" "local (HashMap_Insert mp k v)" "local (HashMap_Find mp k)"
  "local (HashMap_Remove mp k)"
  unfolding HashMap_Create_def HashMap_Insert_def HashMap_Find_def HashMap_Remove_def
  by (intro local_intro)+

lemma local_pool [local_intro]: "local (QueueRemove q)" "local (GetIPAddress p a)"
  unfolding QueueRemove_def GetIPAddress_def by (intro local_intro)+

section \<open>Data base and application\<close>

lemma local_numbers [local_intro]:
  "local (wr_byte p b)" "local (rd_u32 p)" "local (wr_u32 p w)" "local (rd_int p)" "local (wr_int p i)"
  unfolding wr_byte_def rd_int_def wr_int_def rd_u32_def wr_u32_def by (intro local_intro)+

lemma local_heaps [local_intro]:
  "local (obj databases p)" "local (obj users_dbs p)" "local (obj groups_dbs p)" "local (obj user_groups p)"
  "local (set_users u mp)" "local (set_groups g r)" "local (set_user_groups v mp)"
  unfolding set_users_def set_groups_def set_user_groups_def
  by (intro local_obj local_modify; simp)+

lemma local_strings [local_intro]:
  "local (reads (\<lambda>s. strcmp s a b))" "local (reads (\<lambda>s. strlen s a))" "local (reads (\<lambda>_. x))"
  by (intro local_reads; simp)+

lemma local_data_base [local_intro]:
  "local (users_map db)" "local (groups_map db)" "local (InsertUserToList db u st)"
  unfolding users_map_def groups_map_def InsertUserToList_def by (intro local_intro)+

lemma local_users [local_intro]:
  "local (IsUserNameUnique db u)" "local (CheckClientStatusAndConnect db u)"
  unfolding IsUserNameUnique_def CheckClientStatusAndConnect_def by (intro local_intro)+

lemma local_update [local_intro]: "local (Update_Group_Details_For_User db u g)"
  unfolding Update_Group_Details_For_User_def by (intro local_intro)

lemma local_groups [local_intro]:
  "local (Check_Group_Name_And_Insert g db ip)" "local (Try_to_Join_To_Group g db ip ip')"
  "local (Try_to_Leave_To_Group g db ip)"
  unfolding Check_Group_Name_And_Insert_def Try_to_Join_To_Group_def Try_to_Leave_To_Group_def
  by (intro local_intro)+

lemma local_stack [local_intro]: "local (stack_array n)" "local (end_of_scope p n)"
  unfolding stack_array_def end_of_scope_def
  by (rule localI, auto simp: outside_brk) (rule local_modify, simp_all)

lemma local_codec [local_intro]: "local (UnPack p)" "local (Pack t p)"
  unfolding UnPack_def Pack_def unpack_answer_def pack_answer_def by (intro local_intro)+

lemma local_user_answer [local_intro]: "local (CheckUserNameOnDB u db t)"
  unfolding CheckUserNameOnDB_def by (intro local_intro) (auto simp: local_intro split: DB_Err.split)

lemma local_group_answer [local_intro]:
  "local (group_answer ans r a b c)" "local (ANSForGroupRequests grp db t)"
proof -
  have "local (group_answer ans r a b c)" for ans r a b c
    unfolding group_answer_def by (cases r) (simp_all add: local_intro)
  then show "local (group_answer ans r a b c)" "local (ANSForGroupRequests grp db t)"
    unfolding ANSForGroupRequests_def by ((intro local_intro | assumption)+)
qed

theorem local_application: "local (GetFromClientAndSendToServer buf db)"
  unfolding GetFromClientAndSendToServer_def by (intro local_intro)

section \<open>Creation of the data base\<close>

lemma block_len_cong: "brk m' = brk m \<Longrightarrow> bytes m' = bytes m \<Longrightarrow> block_len m' p = block_len m p"
proof (induction m p rule: block_len.induct)
  case (1 m p)
  show ?case
    by (subst (1 2) block_len.simps) (use 1 in auto)
qed

lemma block_len_framed [simp]: "block_len (framed X z s) p = block_len s p"
  by (rule block_len_cong) simp_all

lemma local_free_block [local_intro]: "local (free_block p)"
  by (rule localI) (auto simp: free_block_def split: if_splits)

lemma local_malloc_heaps [local_intro]: "local malloc_pool" "local malloc_queue"
  unfolding malloc_pool_def malloc_queue_def
  by (intro local_chain local_malloc; rule localI; auto split: if_splits)+

lemma local_free_queue [local_intro]: "local (free_queue q)"
  by (rule localI) (auto simp: free_queue_def split: if_splits)

lemma local_free_items [local_intro]: "local (free_items q xs)"
  by (induction xs) (simp_all only: free_items.simps, (intro local_intro | assumption)+)

lemma local_queue [local_intro]: "local (QueueCreate n)" "local (QueueInsert q x)" "local (QueueDestroy q)"
  unfolding QueueCreate_def QueueInsert_def QueueDestroy_def by (intro local_intro)+

lemma local_insert_addresses [local_intro]: "local (insert_addresses k p a b)"
  by (induction k arbitrary: a b)
    (simp_all only: insert_addresses.simps, (intro local_intro | assumption)+)

lemma local_create_pool [local_intro]: "local CreateIP_Multecaste"
  unfolding CreateIP_Multecaste_def InsertAllIPAddrToList_def by (intro local_intro)

lemma local_creation: "local CreateMainDataBase"
  unfolding CreateMainDataBase_def CreateUserDataBase_def CreateGroupsDataBase_def
  by (intro local_intro local_modify) simp_all

text \<open>A local step leaves what extends the state alone.\<close>

lemma local_more:
  assumes "local m" and "m s = Inr (a, s')"
  shows "db_mem.more s' = db_mem.more s"
proof -
  have id: "framed Map.empty (db_mem.more t) t = t" for t :: "'a db_mem_scheme"
    by (cases t) (simp add: framed_def)
  have "outside Map.empty s" by (simp add: outside_def)
  then have "m (framed Map.empty (db_mem.more s) s) = Inr (a, framed Map.empty (db_mem.more s) s')"
    using localD [OF assms(1) _ assms(2)] by blast
  then have "s' = framed Map.empty (db_mem.more s) s'" using id assms(2) by simp
  from arg_cong [OF this, of db_mem.more] show ?thesis by simp
qed

end
