(* ===== verification/ServerTCP.thy ===== *)
theory ServerTCP
  imports ServerApp ListIter
begin

text \<open>
  The TCP server of \<^verbatim>\<open>src/ServerTCP/server_tcp.c\<close>. Its memory adds the \<open>ClientData\<close> and
  \<open>Server\<close> objects to the memory of the application. The functions the application hands over
  (\<open>ApplicationFunc\<close>, \<open>WelcomeFunc\<close>) are program steps in the record \<open>callbacks\<close>.

  The operating system is the record \<open>os\<close>: for every kind of call, the result as a function of the
  number of system calls made before. What POSIX promises is written out in the calls: \<open>select\<close>
  returns the number of ready descriptors among those asked for and refuses a negative time-out;
  \<open>recv\<close> stores at most the bytes asked for; a null buffer is an error of the call. A signal
  may arrive at any system call; one that arrives before \<open>RunServer\<close> has installed the handler would
  end the process, and the theorems about whole runs assume that none does. \<open>trace\<close> records what the
  server does to its sockets.
\<close>

section \<open>State\<close>

record timeval =
  tv_sec :: int
  tv_usec :: int

record ClientData =
  m_clientSock :: int
  m_client_timeout :: timeval
  m_clientSin :: nat

record Server =
  m_masterSocket :: int
  m_List_connectedClient :: addr
  m_forSelect_fds :: "int set"
  m_master_fds :: "int set"
  m_maxWaitTime :: timeval
  m_timeout :: timeval
  m_context :: addr
  m_buffer_rcv :: addr
  m_activity :: int
  m_magicNum :: int
  m_max_socket :: int
  m_goodbyeContex :: addr
  m_contexUser :: addr
  m_msg :: addr

record os =
  os_socket :: "nat \<Rightarrow> int"
  os_setsockopt :: "nat \<Rightarrow> int"
  os_bind :: "nat \<Rightarrow> int"
  os_listen :: "nat \<Rightarrow> int"
  os_select :: "nat \<Rightarrow> int set option"
  os_accept :: "nat \<Rightarrow> int \<times> nat"
  os_recv :: "nat \<Rightarrow> u8 list option"
  os_send :: "nat \<Rightarrow> int"
  os_time :: "nat \<Rightarrow> int \<times> timeval"
  os_signal :: "nat \<Rightarrow> bool"

datatype io_event = Received int "u8 list" | Sent int "u8 option list" | Closed int

record tcp_mem = db_mem +
  clients :: "addr \<Rightarrow> ClientData option"
  servers :: "addr \<Rightarrow> Server option"
  io :: os
  calls :: nat
  trace :: "io_event list"
  stop :: int

record 's callbacks =
  doSomething :: "addr \<Rightarrow> addr \<Rightarrow> int \<Rightarrow> ('s, addr) prog"
  acceptFunc :: "(addr \<Rightarrow> addr \<Rightarrow> ('s, addr) prog) option"
  disconnect :: "(addr \<Rightarrow> addr \<Rightarrow> ('s, addr) prog) option"

record Params =
  p_back_log :: int
  p_server_port :: int
  p_maxWaitTime :: u64
  p_context :: addr
  p_contexAccept :: addr
  p_contexDisconnect :: addr

datatype SERVER_ERR =
  SERVER_SUCCSSES | SERVER_ALLOCATED_FAIL | SERVER_SOCKET_FAIL | SERVER_TOO_MANY_CLIENTS
| SERVER_DB_CREATE_FAIL | SERVER_FAIL

definition BUFF_SIZE :: nat where
  "BUFF_SIZE = 1024"

definition CLIENTS_LIMIT :: int where
  "CLIENTS_LIMIT = 1000"

definition MAGIC_NUM :: int where
  "MAGIC_NUM = 32487344"

definition rd_server :: "addr \<Rightarrow> ('a tcp_mem_scheme, Server) prog" where
  "rd_server p = reads (\<lambda>s. if p = NULL then Inl NullDeref
     else case servers s p of None \<Rightarrow> Inl BadAddress | Some r \<Rightarrow> Inr r)"

definition wr_server :: "addr \<Rightarrow> (Server \<Rightarrow> Server) \<Rightarrow> ('a tcp_mem_scheme, unit) prog" where
  "wr_server p f = chain (rd_server p) (\<lambda>r. modify (\<lambda>s. s\<lparr>servers := (servers s)(p \<mapsto> f r)\<rparr>))"

definition rd_client :: "addr \<Rightarrow> ('a tcp_mem_scheme, ClientData) prog" where
  "rd_client c = reads (\<lambda>s. if c = NULL then Inl NullDeref
     else case clients s c of None \<Rightarrow> Inl BadAddress | Some r \<Rightarrow> Inr r)"

definition wr_client :: "addr \<Rightarrow> (ClientData \<Rightarrow> ClientData) \<Rightarrow> ('a tcp_mem_scheme, unit) prog" where
  "wr_client c f = chain (rd_client c) (\<lambda>r. modify (\<lambda>s. s\<lparr>clients := (clients s)(c \<mapsto> f r)\<rparr>))"

definition free_client :: "addr \<Rightarrow> ('a tcp_mem_scheme, unit) prog" where
  "free_client c = (\<lambda>s. if c = NULL then Inr ((), s)
     else if clients s c = None then Inl BadFree
     else Inr ((), s\<lparr>clients := (clients s)(c := None)\<rparr>))"

definition free_server :: "addr \<Rightarrow> ('a tcp_mem_scheme, unit) prog" where
  "free_server p = (\<lambda>s. if servers s p = None then Inl BadFree
     else Inr ((), s\<lparr>servers := (servers s)(p := None)\<rparr>))"

text \<open>The indeterminate contents of a new \<open>Server\<close>.\<close>

definition junk_server :: "(nat \<Rightarrow> nat) \<Rightarrow> Server" where
  "junk_server j = \<lparr>m_masterSocket = int (j 0), m_List_connectedClient = j 1, m_forSelect_fds = {},
     m_master_fds = {}, m_maxWaitTime = \<lparr>tv_sec = int (j 2), tv_usec = int (j 3)\<rparr>,
     m_timeout = \<lparr>tv_sec = int (j 4), tv_usec = int (j 5)\<rparr>, m_context = j 6, m_buffer_rcv = j 7,
     m_activity = int (j 8), m_magicNum = int (j 9), m_max_socket = int (j 10), m_goodbyeContex = j 11,
     m_contexUser = j 12, m_msg = j 13\<rparr>"

section \<open>The operating system\<close>

text \<open>The macros of \<^verbatim>\<open>sys/time.h\<close> and the sets of descriptors, which have room for 1024.\<close>

definition timeradd :: "timeval \<Rightarrow> timeval \<Rightarrow> timeval" where
  "timeradd a b =
     (let sec = tv_sec a + tv_sec b; usec = tv_usec a + tv_usec b in
      if usec \<ge> 1000000 then \<lparr>tv_sec = sec + 1, tv_usec = usec - 1000000\<rparr>
      else \<lparr>tv_sec = sec, tv_usec = usec\<rparr>)"

definition timersub :: "timeval \<Rightarrow> timeval \<Rightarrow> timeval" where
  "timersub a b =
     (let sec = tv_sec a - tv_sec b; usec = tv_usec a - tv_usec b in
      if usec < 0 then \<lparr>tv_sec = sec - 1, tv_usec = usec + 1000000\<rparr>
      else \<lparr>tv_sec = sec, tv_usec = usec\<rparr>)"

definition timer_later :: "timeval \<Rightarrow> timeval \<Rightarrow> bool" where
  "timer_later a b \<longleftrightarrow> (if tv_sec a = tv_sec b then tv_usec a > tv_usec b else tv_sec a > tv_sec b)"

definition FD_SETSIZE :: int where
  "FD_SETSIZE = 1024"

definition fd_set_add :: "int \<Rightarrow> int set \<Rightarrow> ('s, int set) prog" where
  "fd_set_add fd A = (if 0 \<le> fd \<and> fd < FD_SETSIZE then ret (insert fd A) else fail BadAddress)"

definition fd_set_clear :: "int \<Rightarrow> int set \<Rightarrow> ('s, int set) prog" where
  "fd_set_clear fd A = (if 0 \<le> fd \<and> fd < FD_SETSIZE then ret (A - {fd}) else fail BadAddress)"

definition SignalHandler :: "('a tcp_mem_scheme, unit) prog" where
  "SignalHandler = modify (\<lambda>s. s\<lparr>stop := 1\<rparr>)"

definition sys_call :: "(os \<Rightarrow> nat \<Rightarrow> 'r) \<Rightarrow> ('a tcp_mem_scheme, 'r) prog" where
  "sys_call f =
     chain (reads (\<lambda>s. Inr (io s, calls s))) (\<lambda>(w, n).
     chain (modify (\<lambda>s. s\<lparr>calls := n + 1\<rparr>)) (\<lambda>_.
     chain (if os_signal w n then SignalHandler else ret ()) (\<lambda>_.
     ret (f w n))))"

definition sys_trace :: "io_event \<Rightarrow> ('a tcp_mem_scheme, unit) prog" where
  "sys_trace e = modify (\<lambda>s. s\<lparr>trace := trace s @ [e]\<rparr>)"

definition sys_close :: "int \<Rightarrow> ('a tcp_mem_scheme, unit) prog" where
  "sys_close fd = sys_trace (Closed fd)"

text \<open>
  \<open>gettimeofday\<close>: the result and the time; after a failure the second component stands for what
  the uninitialised variable of the caller holds.
\<close>

definition sys_time :: "('a tcp_mem_scheme, int \<times> timeval) prog" where
  "sys_time = sys_call os_time"

text \<open>\<open>select\<close> on the descriptors below \<open>nfds\<close>: the result and the ready ones.\<close>

definition sys_select :: "int \<Rightarrow> int set \<Rightarrow> timeval option \<Rightarrow> ('a tcp_mem_scheme, int \<times> int set) prog" where
  "sys_select nfds A t =
     chain (sys_call os_select) (\<lambda>r.
     if (case t of None \<Rightarrow> False | Some tv \<Rightarrow> tv_sec tv < 0 \<or> tv_usec tv < 0) then ret (- 1, A)
     else case r of
       None \<Rightarrow> ret (- 1, A)
     | Some R \<Rightarrow> let R' = Set.filter (\<lambda>fd. fd < nfds) (A \<inter> R) in ret (int (card R'), R'))"

definition sys_recv :: "int \<Rightarrow> addr \<Rightarrow> nat \<Rightarrow> ('a tcp_mem_scheme, int) prog" where
  "sys_recv fd buf len =
     chain (sys_call os_recv) (\<lambda>r.
     case r of
       None \<Rightarrow> ret (- 1)
     | Some xs \<Rightarrow>
         let ys = take len xs in
         if buf = NULL \<and> ys \<noteq> [] then ret (- 1)
         else
           chain (put_bytes buf ys) (\<lambda>_.
           chain (sys_trace (Received fd ys)) (\<lambda>_.
           ret (int (length ys)))))"

text \<open>
  \<open>send\<close> takes \<open>len\<close> bytes from \<open>p\<close> on, mapped or not: an unmapped one is \<open>None\<close> in the message. The
  server always sends more bytes than the answer has; if this were a fault, no request could be
  answered. \<open>reply_over_read\<close> states the over-read.
\<close>

definition sys_send :: "int \<Rightarrow> addr \<Rightarrow> nat \<Rightarrow> ('a tcp_mem_scheme, int) prog" where
  "sys_send fd p len =
     chain (sys_call os_send) (\<lambda>r.
     if p = NULL \<or> r < 0 then ret (- 1)
     else
       chain (reads (\<lambda>s. Inr (map (\<lambda>i. bytes s (p + i)) [0..<len]))) (\<lambda>xs.
       chain (sys_trace (Sent fd xs)) (\<lambda>_.
       ret r)))"

definition call_back ::
  "(addr \<Rightarrow> addr \<Rightarrow> ('s, addr) prog) option \<Rightarrow> addr \<Rightarrow> addr \<Rightarrow> ('s, unit) prog" where
  "call_back f c ctx = (case f of None \<Rightarrow> ret () | Some g \<Rightarrow> chain (g c ctx) (\<lambda>_. ret ()))"

section \<open>Sockets\<close>

definition CreateSocket :: "('a tcp_mem_scheme, int) prog" where
  "CreateSocket = sys_call os_socket"

definition BindServer :: "int \<Rightarrow> int \<Rightarrow> ('a tcp_mem_scheme, int) prog" where
  "BindServer sock server_port =
     chain (sys_call os_bind) (\<lambda>r. if 0 > r then ret 0 else ret 1)"

definition InitMasterSocket :: "int \<Rightarrow> int \<Rightarrow> ('a tcp_mem_scheme, int) prog" where
  "InitMasterSocket server_port back_log =
     chain CreateSocket (\<lambda>sock.
     chain (sys_call os_setsockopt) (\<lambda>r.
     if 0 > r then ret (- 1)
     else
       chain (BindServer sock server_port) (\<lambda>b.
       if 0 > b then chain (sys_close sock) (\<lambda>_. ret (- 1))
       else
         chain (sys_call os_listen) (\<lambda>l.
         if 0 > l then chain (sys_close sock) (\<lambda>_. ret (- 1))
         else ret sock))))"

section \<open>Clients\<close>

definition CreateNewClient :: "int \<Rightarrow> nat \<Rightarrow> ('a tcp_mem_scheme, addr) prog" where
  "CreateNewClient client_sock client_sin =
     chain (malloc 1) (\<lambda>client.
     if client = NULL then ret NULL
     else
       chain (modify (\<lambda>s. s\<lparr>clients := (clients s)(client \<mapsto>
         \<lparr>m_clientSock = client_sock,
          m_client_timeout = \<lparr>tv_sec = int (junk s client 0), tv_usec = int (junk s client 1)\<rparr>,
          m_clientSin = client_sin\<rparr>)\<rparr>)) (\<lambda>_.
       ret client))"

text \<open>When \<open>gettimeofday\<close> fails, the old time of the client is kept and extended.\<close>

definition UpdateTimeForClient :: "addr \<Rightarrow> addr \<Rightarrow> ('a tcp_mem_scheme, unit) prog" where
  "UpdateTimeForClient server client =
     chain sys_time (\<lambda>(r, now).
     chain (rd_client client) (\<lambda>c.
     chain (if r = 0 then wr_client client (\<lambda>c. c\<lparr>m_client_timeout := now\<rparr>) else ret ()) (\<lambda>_.
     chain (rd_server server) (\<lambda>srv.
     wr_client client (\<lambda>c. c\<lparr>m_client_timeout :=
       timeradd (m_client_timeout c) (m_maxWaitTime srv)\<rparr>)))))"

text \<open>\<open>List_Size\<close> is a \<open>size_t\<close>, its value here an \<open>int\<close>.\<close>

definition AcceptClient ::
  "'a tcp_mem_scheme callbacks \<Rightarrow> addr \<Rightarrow> ('a tcp_mem_scheme, addr) prog" where
  "AcceptClient cb server =
     chain (sys_call os_accept) (\<lambda>(client_sock, client_sin).
     if 0 > client_sock then chain (sys_close client_sock) (\<lambda>_. ret NULL)
     else
       chain (rd_server server) (\<lambda>srv.
       chain (List_Size (m_List_connectedClient srv)) (\<lambda>size.
       if CLIENTS_LIMIT < sint (ucast size :: i32) then chain (sys_close client_sock) (\<lambda>_. ret NULL)
       else
         chain (fd_set_add client_sock (m_master_fds srv)) (\<lambda>fds.
         chain (wr_server server (\<lambda>srv. srv\<lparr>m_master_fds := fds\<rparr>)) (\<lambda>_.
         chain (if client_sock > m_max_socket srv
                then wr_server server (\<lambda>srv. srv\<lparr>m_max_socket := client_sock\<rparr>) else ret ()) (\<lambda>_.
         chain (CreateNewClient client_sock client_sin) (\<lambda>newClient.
         if newClient = NULL then
           chain (sys_close client_sock) (\<lambda>_. chain (free_client newClient) (\<lambda>_. ret NULL))
         else
           chain (call_back (acceptFunc cb) newClient (m_contexUser srv)) (\<lambda>_.
           ret newClient))))))))"

definition AddClientToTheList ::
  "'a tcp_mem_scheme callbacks \<Rightarrow> addr \<Rightarrow> ('a tcp_mem_scheme, int) prog" where
  "AddClientToTheList cb server =
     chain (AcceptClient cb server) (\<lambda>newClient.
     if newClient \<noteq> NULL then
       chain (UpdateTimeForClient server newClient) (\<lambda>_.
       chain (rd_server server) (\<lambda>srv.
       chain (List_PushTail (m_List_connectedClient srv) newClient) (\<lambda>res.
       if res \<noteq> LIST_SUCCESS then chain (free_client newClient) (\<lambda>_. ret (- 1))
       else ret 0)))
     else ret 0)"

definition Check_list_empty :: "addr \<Rightarrow> ('a tcp_mem_scheme, int) prog" where
  "Check_list_empty server =
     chain (rd_server server) (\<lambda>srv.
     chain (List_Size (m_List_connectedClient srv)) (\<lambda>size.
     if size = 0 then ret 1 else ret 0))"

definition GetTTL :: "addr \<Rightarrow> ('a tcp_mem_scheme, timeval) prog" where
  "GetTTL server =
     chain sys_time (\<lambda>(r, currentTime).
     chain (rd_server server) (\<lambda>srv.
     chain (ListItr_Begin (m_List_connectedClient srv)) (\<lambda>iterBegin.
     chain (ListItr_Get iterBegin) (\<lambda>client.
     chain (rd_client client) (\<lambda>c.
     ret (timersub (m_client_timeout c) currentTime))))))"

section \<open>Expiry\<close>

definition Remove_Client_On_timeout ::
  "'a tcp_mem_scheme callbacks \<Rightarrow> addr \<Rightarrow> addr \<Rightarrow> addr \<Rightarrow> ('a tcp_mem_scheme, addr) prog" where
  "Remove_Client_On_timeout cb client server iterBegin =
     chain (rd_server server) (\<lambda>srv.
     chain (call_back (disconnect cb) client (m_goodbyeContex srv)) (\<lambda>_.
     chain (rd_client client) (\<lambda>c.
     chain (rd_server server) (\<lambda>srv.
     chain (fd_set_clear (m_clientSock c) (m_master_fds srv)) (\<lambda>fds.
     chain (wr_server server (\<lambda>srv. srv\<lparr>m_master_fds := fds\<rparr>)) (\<lambda>_.
     chain (sys_close (m_clientSock c)) (\<lambda>_.
     chain (ListItr_Next iterBegin) (\<lambda>n.
     chain (ListItr_Prev n) (\<lambda>p.
     chain (ListItr_Remove p) (\<lambda>_.
     ret n))))))))))"

fun expiry_loop ::
  "nat \<Rightarrow> 'a tcp_mem_scheme callbacks \<Rightarrow> addr \<Rightarrow> timeval \<Rightarrow> addr \<Rightarrow> addr \<Rightarrow> ('a tcp_mem_scheme, int) prog" where
  "expiry_loop 0 cb server currentTime it e = fail Diverges"
| "expiry_loop (Suc k) cb server currentTime it e =
     chain (ListItr_Equals it e) (\<lambda>q.
     if q \<noteq> 0 then ret 1
     else
       chain (ListItr_Get it) (\<lambda>client.
       chain (rd_client client) (\<lambda>c.
       if timer_later currentTime (m_client_timeout c) then
         chain (Remove_Client_On_timeout cb client server it) (\<lambda>n.
         chain (free_client client) (\<lambda>_.
         expiry_loop k cb server currentTime n e))
       else ret 1)))"

definition Check_expiry_of_Clients ::
  "'a tcp_mem_scheme callbacks \<Rightarrow> addr \<Rightarrow> ('a tcp_mem_scheme, int) prog" where
  "Check_expiry_of_Clients cb server =
     chain (rd_server server) (\<lambda>srv.
     chain (ListItr_Begin (m_List_connectedClient srv)) (\<lambda>iterBegin.
     chain (ListItr_End (m_List_connectedClient srv)) (\<lambda>iterEnd.
     if iterBegin = NULL \<or> iterEnd = NULL then ret (- 1)
     else
       chain sys_time (\<lambda>(r, currentTime).
       (\<lambda>s. expiry_loop (brk s) cb server currentTime iterBegin iterEnd s)))))"

section \<open>Receiving and sending\<close>

definition ActionFuncSndRcv ::
  "'a tcp_mem_scheme callbacks \<Rightarrow> addr \<Rightarrow> addr \<Rightarrow> ('a tcp_mem_scheme, int) prog" where
  "ActionFuncSndRcv cb client server =
     chain (rd_client client) (\<lambda>c.
     chain (rd_server server) (\<lambda>srv.
     chain (sys_recv (m_clientSock c) (m_buffer_rcv srv) BUFF_SIZE) (\<lambda>msgLength.
     if 0 \<ge> msgLength then
       chain (call_back (disconnect cb) client (m_goodbyeContex srv)) (\<lambda>_.
       chain (rd_client client) (\<lambda>c.
       chain (sys_close (m_clientSock c)) (\<lambda>_.
       ret (- 1))))
     else
       chain (doSomething cb (m_buffer_rcv srv) (m_context srv) (m_clientSock c)) (\<lambda>server_message.
       chain (rd_client client) (\<lambda>c.
       chain (sys_send (m_clientSock c) server_message BUFF_SIZE) (\<lambda>r.
       if 0 > r then chain (sys_close (m_clientSock c)) (\<lambda>_. ret (- 1))
       else chain (UpdateTimeForClient server client) (\<lambda>_. ret 0)))))))"

text \<open>
  The loop of \<open>ReceiveAndSend\<close>. After a failure the node at the iterator is removed, and only
  then the iterator is advanced; after a success the client moves to the head of the list.
\<close>

fun recv_loop ::
  "nat \<Rightarrow> 'a tcp_mem_scheme callbacks \<Rightarrow> addr \<Rightarrow> addr \<Rightarrow> addr \<Rightarrow> ('a tcp_mem_scheme, int) prog" where
  "recv_loop 0 cb server it e = fail Diverges"
| "recv_loop (Suc k) cb server it e =
     chain (ListItr_Equals it e) (\<lambda>q.
     chain (rd_server server) (\<lambda>srv.
     if q \<noteq> 0 \<or> \<not> m_activity srv > 0 then ret 0
     else
       chain (ListItr_Get it) (\<lambda>client.
       chain (rd_client client) (\<lambda>c.
       if m_clientSock c \<in> m_forSelect_fds srv then
         chain (wr_server server (\<lambda>srv. srv\<lparr>m_activity := m_activity srv - 1\<rparr>)) (\<lambda>_.
         chain (ActionFuncSndRcv cb client server) (\<lambda>r.
         if r = - 1 then
           chain (ListItr_Remove it) (\<lambda>client.
           chain (rd_client client) (\<lambda>c.
           chain (rd_server server) (\<lambda>srv.
           chain (fd_set_clear (m_clientSock c) (m_master_fds srv)) (\<lambda>fds.
           chain (wr_server server (\<lambda>srv. srv\<lparr>m_master_fds := fds\<rparr>)) (\<lambda>_.
           chain (free_client client) (\<lambda>_.
           chain (ListItr_Next it) (\<lambda>n.
           recv_loop k cb server n e)))))))
         else
           chain (ListItr_Next it) (\<lambda>n.
           chain (ListItr_Prev n) (\<lambda>p.
           chain (ListItr_Remove p) (\<lambda>client.
           chain (List_PushHead (m_List_connectedClient srv) client) (\<lambda>_.
           recv_loop k cb server n e))))))
       else chain (ListItr_Next it) (\<lambda>n. recv_loop k cb server n e)))))"

definition ReceiveAndSend ::
  "'a tcp_mem_scheme callbacks \<Rightarrow> addr \<Rightarrow> ('a tcp_mem_scheme, int) prog" where
  "ReceiveAndSend cb server =
     chain (rd_server server) (\<lambda>srv.
     chain (ListItr_Begin (m_List_connectedClient srv)) (\<lambda>iterBegin.
     chain (ListItr_End (m_List_connectedClient srv)) (\<lambda>iterEnd.
     if iterBegin = NULL \<or> iterEnd = NULL then ret (- 1)
     else (\<lambda>s. recv_loop (brk s) cb server iterBegin iterEnd s))))"

section \<open>The life of a server\<close>

definition elementDestroy :: "addr \<Rightarrow> ('a tcp_mem_scheme, unit) prog" where
  "elementDestroy client =
     chain (rd_client client) (\<lambda>c.
     chain (sys_close (m_clientSock c)) (\<lambda>_.
     free_client client))"

text \<open>
  The callbacks of \<open>Params\<close> are the record \<open>callbacks\<close>; \<open>None\<close> for \<open>m_doSometing\<close> is the null
  pointer. The fields that are not assigned have indeterminate values.
\<close>

definition CreateServer ::
  "Params \<Rightarrow> 'a tcp_mem_scheme callbacks option \<Rightarrow> ('a tcp_mem_scheme, addr) prog" where
  "CreateServer params cb =
     (if cb = None \<or> 1024 > p_server_port params \<or> p_maxWaitTime params = 0 \<or> 128 < p_back_log params
      then ret NULL
      else
        chain (malloc 1) (\<lambda>server.
        if server = NULL then ret NULL
        else
          chain (modify (\<lambda>s. s\<lparr>servers := (servers s)(server \<mapsto> junk_server (junk s server))\<rparr>)) (\<lambda>_.
          chain (InitMasterSocket (p_server_port params) (p_back_log params)) (\<lambda>sock.
          chain (wr_server server (\<lambda>srv. srv\<lparr>m_masterSocket := sock\<rparr>)) (\<lambda>_.
          if sock = - 1 then chain (free_server server) (\<lambda>_. ret NULL)
          else
            chain List_Create (\<lambda>list.
            chain (wr_server server (\<lambda>srv. srv\<lparr>m_List_connectedClient := list\<rparr>)) (\<lambda>_.
            if list = NULL then
              chain (sys_close sock) (\<lambda>_. chain (free_server server) (\<lambda>_. ret NULL))
            else
              chain (calloc_bytes BUFF_SIZE) (\<lambda>msg.
              chain (calloc_bytes BUFF_SIZE) (\<lambda>buf.
              chain (fd_set_add sock {}) (\<lambda>fds.
              chain (wr_server server (\<lambda>srv. srv\<lparr>
                m_timeout := \<lparr>tv_sec = 0, tv_usec = 0\<rparr>,
                m_maxWaitTime := \<lparr>tv_sec = sint (p_maxWaitTime params), tv_usec = 0\<rparr>,
                m_context := p_context params,
                m_goodbyeContex := p_contexDisconnect params,
                m_contexUser := p_contexAccept params,
                m_magicNum := MAGIC_NUM, m_max_socket := 0, m_activity := 0,
                m_msg := msg, m_buffer_rcv := buf, m_master_fds := fds\<rparr>)) (\<lambda>_.
              ret server)))))))))))"

definition DestroyServer :: "addr \<Rightarrow> ('a tcp_mem_scheme, unit) prog" where
  "DestroyServer server =
     (if server = NULL then ret ()
      else
        chain (rd_server server) (\<lambda>srv.
        if m_magicNum srv \<noteq> MAGIC_NUM then ret ()
        else
          chain (wr_server server (\<lambda>srv. srv\<lparr>m_master_fds := {}, m_forSelect_fds := {}\<rparr>)) (\<lambda>_.
          chain (List_Destroy (m_List_connectedClient srv) (Some elementDestroy)) (\<lambda>list.
          chain (wr_server server (\<lambda>srv. srv\<lparr>m_List_connectedClient := list\<rparr>)) (\<lambda>_.
          chain (sys_close (m_masterSocket srv)) (\<lambda>_.
          chain (wr_server server (\<lambda>srv. srv\<lparr>m_masterSocket := 0\<rparr>)) (\<lambda>_.
          chain (free_block (m_buffer_rcv srv)) (\<lambda>_.
          free_server server))))))))"

text \<open>One pass of the loop of \<open>RunServer\<close>.\<close>

definition server_pass ::
  "'a tcp_mem_scheme callbacks \<Rightarrow> addr \<Rightarrow> ('a tcp_mem_scheme, unit) prog" where
  "server_pass cb server =
     chain (wr_server server (\<lambda>srv. srv\<lparr>m_forSelect_fds := m_master_fds srv\<rparr>)) (\<lambda>_.
     chain (Check_list_empty server) (\<lambda>empty.
     chain
       (if empty = 1 then
          chain (rd_server server) (\<lambda>srv. sys_select (m_max_socket srv + 1) (m_forSelect_fds srv) None)
        else
          chain (GetTTL server) (\<lambda>ttl.
          chain (wr_server server (\<lambda>srv. srv\<lparr>m_timeout := ttl\<rparr>)) (\<lambda>_.
          chain (rd_server server) (\<lambda>srv.
          sys_select (m_max_socket srv + 1) (m_forSelect_fds srv) (Some (m_timeout srv)))))) (\<lambda>(r, ready).
     chain (wr_server server (\<lambda>srv. srv\<lparr>m_activity := r, m_forSelect_fds := ready\<rparr>)) (\<lambda>_.
     if r = - 1 then ret ()
     else if r = 0 then chain (Check_expiry_of_Clients cb server) (\<lambda>_. ret ())
     else
       chain (rd_server server) (\<lambda>srv.
       chain (if m_masterSocket srv \<in> m_forSelect_fds srv
              then chain (AddClientToTheList cb server) (\<lambda>_. ret ()) else ret ()) (\<lambda>_.
       chain (rd_server server) (\<lambda>srv.
       if 0 < m_activity srv then chain (ReceiveAndSend cb server) (\<lambda>_. ret ()) else ret ())))))))"

text \<open>The loop runs until a signal sets \<open>stop\<close>, which may never happen: \<open>k\<close> bounds the passes.\<close>

fun run_loop :: "nat \<Rightarrow> 'a tcp_mem_scheme callbacks \<Rightarrow> addr \<Rightarrow> ('a tcp_mem_scheme, unit) prog" where
  "run_loop 0 cb server = chain (reads (\<lambda>s. Inr (stop s))) (\<lambda>st.
     if st = 0 then fail Diverges else ret ())"
| "run_loop (Suc k) cb server = chain (reads (\<lambda>s. Inr (stop s))) (\<lambda>st.
     if st = 0 then chain (server_pass cb server) (\<lambda>_. run_loop k cb server) else ret ())"

definition RunServer :: "nat \<Rightarrow> 'a tcp_mem_scheme callbacks \<Rightarrow> addr \<Rightarrow> ('a tcp_mem_scheme, SERVER_ERR) prog" where
  "RunServer k cb server =
     (if server = NULL then ret SERVER_ALLOCATED_FAIL
      else
        chain (rd_server server) (\<lambda>srv.
        if m_magicNum srv \<noteq> MAGIC_NUM then ret SERVER_ALLOCATED_FAIL
        else
          chain (wr_server server (\<lambda>srv. srv\<lparr>m_max_socket := m_masterSocket srv\<rparr>)) (\<lambda>_.
          chain (run_loop k cb server) (\<lambda>_.
          chain (DestroyServer server) (\<lambda>_.
          ret SERVER_SUCCSSES)))))"

section \<open>The program of the server\<close>

text \<open>\<^verbatim>\<open>src/ServerMain/ServerSide.c\<close>; \<open>port\<close> is the number that was typed in.\<close>

definition WelcomeNewClient :: "addr \<Rightarrow> addr \<Rightarrow> ('s, addr) prog" where
  "WelcomeNewClient client contexUser = ret client"

definition ClientDisconnected :: "addr \<Rightarrow> addr \<Rightarrow> ('s, addr) prog" where
  "ClientDisconnected client contexUser = ret contexUser"

definition chat_callbacks :: "'a tcp_mem_scheme callbacks" where
  "chat_callbacks = \<lparr>doSomething = (\<lambda>msg context socket. GetFromClientAndSendToServer msg context),
     acceptFunc = Some WelcomeNewClient, disconnect = Some ClientDisconnected\<rparr>"

definition chat_params :: "int \<Rightarrow> addr \<Rightarrow> Params" where
  "chat_params port dataBase = \<lparr>p_back_log = 11, p_server_port = port, p_maxWaitTime = 300,
     p_context = dataBase, p_contexAccept = NULL, p_contexDisconnect = NULL\<rparr>"

definition RunServerSide :: "nat \<Rightarrow> int \<Rightarrow> ('a tcp_mem_scheme, unit) prog" where
  "RunServerSide k port =
     chain CreateMainDataBase (\<lambda>dataBase.
     if dataBase = NULL then ret ()
     else
       chain (CreateServer (chat_params port dataBase) (Some chat_callbacks)) (\<lambda>server.
       chain (RunServer k chat_callbacks server) (\<lambda>_. ret ())))"

text \<open>\<^verbatim>\<open>src/ServerMain/createChat.c\<close>.\<close>

definition server_main :: "nat \<Rightarrow> int \<Rightarrow> ('a tcp_mem_scheme, int) prog" where
  "server_main k port = chain (RunServerSide k port) (\<lambda>_. ret 0)"

end
