(* ===== verification/ServerConns.thy ===== *)
theory ServerConns
  imports Locality ServerTCP
begin

text \<open>
  The clients of the TCP server. \<open>conns_rep s l cs conns\<close>: the list \<open>l\<close> with the cells \<open>cs\<close> holds
  the clients \<open>conns\<close>, pairs of a socket and the time at which the client expires. The theory
  executes what the server does with this list: accept, rotate, expire.
\<close>

section \<open>System calls\<close>

definition ticked :: "'a tcp_mem_scheme \<Rightarrow> 'a tcp_mem_scheme" where
  "ticked s = s\<lparr>calls := calls s + 1, stop := if os_signal (io s) (calls s) then 1 else stop s\<rparr>"

lemma sys_call_step [c_step]: "sys_call f s = Inr (f (io s) (calls s), ticked s)"
  by (simp add: sys_call_def SignalHandler_def ticked_def)

lemma ticked_simps [simp]:
  "brk (ticked s) = brk s" "bytes (ticked s) = bytes s" "oom (ticked s) = oom s"
  "junk (ticked s) = junk s" "nodes (ticked s) = nodes s" "clients (ticked s) = clients s"
  "servers (ticked s) = servers s" "io (ticked s) = io s" "calls (ticked s) = Suc (calls s)"
  "trace (ticked s) = trace s"
  by (simp_all add: ticked_def)

lemma sys_trace_step [c_step]: "sys_trace e s = Inr ((), s\<lparr>trace := trace s @ [e]\<rparr>)"
  by (simp add: sys_trace_def)

lemma sys_close_step [c_step]: "sys_close fd s = Inr ((), s\<lparr>trace := trace s @ [Closed fd]\<rparr>)"
  by (simp add: sys_close_def c_step)

lemma rd_server_step [c_step]: "p \<noteq> NULL \<Longrightarrow> servers s p = Some r \<Longrightarrow> rd_server p s = Inr (r, s)"
  by (simp add: rd_server_def)

lemma wr_server_step [c_step]:
  "p \<noteq> NULL \<Longrightarrow> servers s p = Some r \<Longrightarrow>
   wr_server p f s = Inr ((), s\<lparr>servers := (servers s)(p \<mapsto> f r)\<rparr>)"
  by (simp add: wr_server_def c_step)

lemma rd_client_step [c_step]: "c \<noteq> NULL \<Longrightarrow> clients s c = Some r \<Longrightarrow> rd_client c s = Inr (r, s)"
  by (simp add: rd_client_def)

lemma rd_client_bad [c_step]: "c \<noteq> NULL \<Longrightarrow> clients s c = None \<Longrightarrow> rd_client c s = Inl BadAddress"
  by (simp add: rd_client_def)

lemma wr_client_step [c_step]:
  "c \<noteq> NULL \<Longrightarrow> clients s c = Some r \<Longrightarrow>
   wr_client c f s = Inr ((), s\<lparr>clients := (clients s)(c \<mapsto> f r)\<rparr>)"
  by (simp add: wr_client_def c_step)

lemma free_client_step [c_step]:
  "c \<noteq> NULL \<Longrightarrow> clients s c = Some r \<Longrightarrow> free_client c s = Inr ((), s\<lparr>clients := (clients s)(c := None)\<rparr>)"
  by (simp add: free_client_def)

lemma chat_call_backs [c_step]:
  "call_back (acceptFunc chat_callbacks) c ctx s = Inr ((), s)"
  "call_back (disconnect chat_callbacks) c ctx s = Inr ((), s)"
  by (simp_all add: call_back_def chat_callbacks_def WelcomeNewClient_def ClientDisconnected_def)

section \<open>Changes beside the application\<close>

text \<open>\<open>evolved s s'\<close>: only the end of memory and the server's own components changed.\<close>

definition evolved :: "'a db_mem_scheme \<Rightarrow> 'a db_mem_scheme \<Rightarrow> bool" where
  "evolved s s' \<longleftrightarrow> brk s \<le> brk s' \<and> (\<exists>z. s' = db_mem.more_update (\<lambda>_. z) (s\<lparr>brk := brk s'\<rparr>))"

lemma evolved_refl [simp]: "evolved s s"
  unfolding evolved_def by (auto intro: exI [of _ "db_mem.more s"])

lemma evolvedI: "brk s \<le> b \<Longrightarrow> evolved s (db_mem.more_update (\<lambda>_. z) (s\<lparr>brk := b\<rparr>))"
  by (auto simp: evolved_def)

lemma evolved_trans:
  assumes "evolved s s'" and "evolved s' s''"
  shows "evolved s s''"
proof -
  obtain z where z: "s' = db_mem.more_update (\<lambda>_. z) (s\<lparr>brk := brk s'\<rparr>)" "brk s \<le> brk s'"
    using assms(1) by (auto simp: evolved_def)
  obtain y where y: "s'' = db_mem.more_update (\<lambda>_. y) (s'\<lparr>brk := brk s''\<rparr>)" "brk s' \<le> brk s''"
    using assms(2) by (auto simp: evolved_def)
  have "s'\<lparr>brk := b\<rparr> = db_mem.more_update (\<lambda>_. z) (s\<lparr>brk := b\<rparr>)" for b
    by (subst z(1)) simp
  then have "s'' = db_mem.more_update (\<lambda>_. y) (s\<lparr>brk := brk s''\<rparr>)"
    by (subst y(1)) simp
  with z y show ?thesis unfolding evolved_def by auto
qed

text \<open>The memory without the nodes at \<open>T\<close>.\<close>

definition sans :: "addr set \<Rightarrow> 'a db_mem_scheme \<Rightarrow> 'a db_mem_scheme" where
  "sans T s = s\<lparr>nodes := nodes s |` (- T)\<rparr>"

lemma sans_simps [simp]:
  "brk (sans T s) = brk s" "bytes (sans T s) = bytes s" "oom (sans T s) = oom s"
  "nodes (sans T s) = nodes s |` (- T)" "db_mem.more (sans T s) = db_mem.more s"
  by (simp_all add: sans_def)

lemma sans_empty [simp]: "sans {} s = s"
  by (cases s) (simp add: sans_def restrict_map_def)

lemma sans_more: "sans T (db_mem.more_update f s) = db_mem.more_update f (sans T s)"
  by (simp add: sans_def)

lemma sans_stored: "sans T (stored a cs s) = stored a cs (sans T s)"
  by (simp add: sans_def stored_def)

text \<open>A change of the list alone: \<open>T\<close> are its nodes before, \<open>T'\<close> after.\<close>

lemma evolved_sans:
  fixes s s' :: "'a db_mem_scheme"
  assumes fr: "node_frame T s s'" and wf: "wf_list_mem s"
    and gone: "\<And>a. a \<in> T \<Longrightarrow> a \<notin> T' \<Longrightarrow> nodes s' a = None"
    and fresh: "\<And>a. brk s \<le> a \<Longrightarrow> a \<notin> T' \<Longrightarrow> nodes s' a = None"
    and new: "\<And>a. a \<in> T' \<Longrightarrow> a \<notin> T \<Longrightarrow> brk s \<le> a"
  shows "evolved (sans T s) (sans T' s')"
proof -
  have s': "s' = s\<lparr>brk := brk s', nodes := nodes s'\<rparr>" "brk s \<le> brk s'"
    using fr by (simp_all add: node_frame_def)
  have "nodes s' |` (- T') = nodes s |` (- T)"
  proof
    fix a
    show "(nodes s' |` (- T')) a = (nodes s |` (- T)) a"
    proof (cases "a < brk s")
      case True
      then show ?thesis using fr gone new by (fastforce simp: restrict_map_def node_frame_def)
    next
      case False
      then have "nodes s a = None" using wf by (simp add: wf_list_mem_def)
      then show ?thesis using fresh False by (simp add: restrict_map_def)
    qed
  qed
  then have "sans T' s' = (sans T s)\<lparr>brk := brk s'\<rparr>"
    by (subst s'(1)) (simp add: sans_def)
  then show ?thesis using s'(2) evolvedI [of "sans T s" "brk s'" "db_mem.more s"]
    by (simp add: sans_def)
qed

lemma evolved_bytes:
  assumes "evolved (sans T s) (sans T' s')"
  shows "bytes s' = bytes s"
proof -
  obtain z where "sans T' s' = db_mem.more_update (\<lambda>_. z) (sans T s\<lparr>brk := brk (sans T' s')\<rparr>)"
    using assms unfolding evolved_def by blast
  from arg_cong [OF this, of bytes] show ?thesis by simp
qed

section \<open>The list of clients\<close>

type_synonym conn = "int \<times> timeval"

definition client_is :: "(addr \<Rightarrow> ClientData option) \<Rightarrow> addr \<Rightarrow> conn \<Rightarrow> bool" where
  "client_is h c v \<longleftrightarrow> (\<exists>d. h c = Some d \<and> m_clientSock d = fst v \<and> m_client_timeout d = snd v)"

abbreviation list_nodes :: "addr \<Rightarrow> addr list \<Rightarrow> addr set" where
  "list_nodes l cs \<equiv> set (l # cs @ [tail_of l])"

definition conns_rep :: "'a tcp_mem_scheme \<Rightarrow> addr \<Rightarrow> addr list \<Rightarrow> conn list \<Rightarrow> bool" where
  "conns_rep s l cs conns \<longleftrightarrow> dlist (nodes s) l cs \<and> wf_list_mem s \<and>
     item_at (nodes s) (tail_of l) = NULL \<and> NULL \<notin> set (items (nodes s) cs) \<and>
     distinct (items (nodes s) cs) \<and> list_all2 (client_is (clients s)) (items (nodes s) cs) conns \<and>
     (\<forall>a \<ge> brk s. clients s a = None)"

lemma conns_repD:
  "conns_rep s l cs conns \<Longrightarrow> dlist (nodes s) l cs" "conns_rep s l cs conns \<Longrightarrow> wf_list_mem s"
  "conns_rep s l cs conns \<Longrightarrow> length conns = length cs"
  by (auto simp: conns_rep_def dest: list_all2_lengthD)

lemma conns_rep_cong:
  "\<lbrakk>conns_rep s l cs conns; nodes s' = nodes s; clients s' = clients s; brk s' = brk s\<rbrakk> \<Longrightarrow>
   conns_rep s' l cs conns"
  by (simp add: conns_rep_def wf_list_mem_def)

text \<open>The client at the iterator \<open>c\<close>.\<close>

lemma conn_at:
  assumes "conns_rep s l (xs @ c # ys) (us @ v # vs)" and "length us = length xs"
  shows "item_at (nodes s) c \<noteq> NULL" "c \<noteq> NULL" "nodes s c \<noteq> None"
    "\<exists>d. clients s (item_at (nodes s) c) = Some d \<and> m_clientSock d = fst v \<and> m_client_timeout d = snd v"
    "item_at (nodes s) c \<notin> set (items (nodes s) (xs @ ys))"
    "ListItr_Equals c (tail_of l) s = Inr (0, s)" "ListItr_Get c s = Inr (item_at (nodes s) c, s)"
proof -
  note dl = conns_repD(1) [OF assms(1)]
  have all: "list_all2 (client_is (clients s)) (items (nodes s) (xs @ c # ys)) (us @ v # vs)"
    using assms(1) by (simp add: conns_rep_def)
  then have "client_is (clients s) (item_at (nodes s) c) v"
    using assms(2) by (simp add: list_all2_append)
  then show "\<exists>d. clients s (item_at (nodes s) c) = Some d \<and> m_clientSock d = fst v \<and> m_client_timeout d = snd v"
    by (simp add: client_is_def)
  show n: "item_at (nodes s) c \<noteq> NULL" using assms(1) by (auto simp: conns_rep_def)
  show "item_at (nodes s) c \<notin> set (items (nodes s) (xs @ ys))" using assms(1) by (auto simp: conns_rep_def)
  show c: "c \<noteq> NULL" "nodes s c \<noteq> None" using cell_facts [OF dl] by auto
  have t: "item_at (nodes s) (tail_of l) = NULL" using assms(1) by (simp add: conns_rep_def)
  show "ListItr_Equals c (tail_of l) s = Inr (0, s)"
    using ListItr_Equals_ok [OF c(1) _ c(2), of "tail_of l"] dlist_mapped [OF dl, of "tail_of l"] n t by simp
  show "ListItr_Get c s = Inr (item_at (nodes s) c, s)" by (rule ListItr_Get_ok [OF dl])
qed

lemma conns_end: "conns_rep s l cs conns \<Longrightarrow> ListItr_Equals (tail_of l) (tail_of l) s = Inr (1, s)"
  using dlist_mapped [of "nodes s" l cs "tail_of l"] ListItr_Equals_ok [of "tail_of l" "tail_of l" s]
  by (simp add: conns_rep_def)

text \<open>Removal of the client at \<open>c\<close>: the iterator moves on, and the cell before it goes.\<close>

lemma conn_remove:
  fixes s :: "'a tcp_mem_scheme"
  assumes rep: "conns_rep s l (xs @ c # ys) (us @ v # vs)" and len: "length us = length xs"
  obtains s1 where "ListItr_Next c s = Inr (hd (ys @ [tail_of l]), s)"
    "ListItr_Prev (hd (ys @ [tail_of l])) s = Inr (c, s)"
    "ListItr_Remove c s = Inr (item_at (nodes s) c, s1)"
    "conns_rep s1 l (xs @ ys) (us @ vs)" "s1 = s\<lparr>nodes := nodes s1\<rparr>"
    "items (nodes s1) (xs @ ys) = items (nodes s) (xs @ ys)" "nodes s1 c = None"
    "evolved (sans (list_nodes l (xs @ c # ys)) s) (sans (list_nodes l (xs @ ys)) s1)"
proof -
  note dl = conns_repD(1) [OF rep] and wf = conns_repD(2) [OF rep]
  obtain s1 where s1: "ListItr_Remove c s = Inr (item_at (nodes s) c, s1)" "removed s s1 l xs c ys"
    using ListItr_Remove_ok [OF dl wf] by blast
  have r: "dlist (nodes s1) l (xs @ ys)" "nodes s1 c = None"
    "items (nodes s1) (xs @ ys) = items (nodes s) (xs @ ys)"
    "item_at (nodes s1) (tail_of l) = item_at (nodes s) (tail_of l)"
    "node_frame (list_nodes l (xs @ c # ys)) s s1" "wf_list_mem s1" "brk s1 = brk s"
    using s1(2) by (simp_all add: removed_def)
  have e: "s1 = s\<lparr>nodes := nodes s1\<rparr>" using r(5,7) by (simp add: node_frame_def)
  have cl: "clients s1 = clients s" using arg_cong [OF e, of clients] by simp
  have "list_all2 (client_is (clients s)) (items (nodes s) (xs @ ys)) (us @ vs)"
    using rep len by (simp add: conns_rep_def list_all2_append)
  then have "conns_rep s1 l (xs @ ys) (us @ vs)"
    using rep r cl by (auto simp: conns_rep_def)
  moreover have "ListItr_Next c s = Inr (hd (ys @ [tail_of l]), s)" by (rule ListItr_Next_ok [OF dl])
  moreover have "ListItr_Prev (hd (ys @ [tail_of l])) s = Inr (c, s)"
    using ListItr_Prev_ok [of s l "xs @ [c]" ys] dl by simp
  moreover have "evolved (sans (list_nodes l (xs @ c # ys)) s) (sans (list_nodes l (xs @ ys)) s1)"
    by (rule evolved_sans [OF r(5) wf]) (use r(2,6,7) in \<open>auto simp: wf_list_mem_def\<close>)
  ultimately show ?thesis using that s1(1) e r(2,3) by blast
qed

text \<open>Insertion of a client that is not in the list.\<close>

lemma conn_insert:
  fixes s s1 :: "'a tcp_mem_scheme"
  assumes rep: "conns_rep s l (xs @ ys) (us @ vs)" and len: "length us = length xs"
    and ins: "inserted s s1 l xs ys x" and x: "x \<noteq> NULL" "x \<notin> set (items (nodes s) (xs @ ys))"
    and cl: "client_is (clients s) x v"
  shows "conns_rep s1 l (xs @ brk s # ys) (us @ v # vs)" "s1 = s\<lparr>brk := brk s1, nodes := nodes s1\<rparr>"
    "evolved (sans (list_nodes l (xs @ ys)) s) (sans (list_nodes l (xs @ brk s # ys)) s1)"
proof -
  note wf = conns_repD(2) [OF rep]
  have r: "dlist (nodes s1) l (xs @ brk s # ys)" "item_at (nodes s1) (brk s) = x"
    "items (nodes s1) (xs @ ys) = items (nodes s) (xs @ ys)"
    "item_at (nodes s1) (tail_of l) = item_at (nodes s) (tail_of l)"
    "node_frame (list_nodes l (xs @ ys)) s s1" "wf_list_mem s1" "brk s1 = brk s + 2"
    "nodes s1 (brk s + 1) = None"
    using ins by (simp_all add: inserted_def)
  show e: "s1 = s\<lparr>brk := brk s1, nodes := nodes s1\<rparr>" using r(5) by (simp add: node_frame_def)
  have c: "clients s1 = clients s" using arg_cong [OF e, of clients] by simp
  have i: "items (nodes s1) xs = items (nodes s) xs" "items (nodes s1) ys = items (nodes s) ys"
    using r(3) by simp_all
  have "list_all2 (client_is (clients s)) (items (nodes s1) (xs @ brk s # ys)) (us @ v # vs)"
    using rep len cl r(2) i by (simp add: conns_rep_def list_all2_append)
  then show "conns_rep s1 l (xs @ brk s # ys) (us @ v # vs)"
    using rep r c i x by (auto simp: conns_rep_def)
  have "nodes s1 a = None" if a: "brk s \<le> a" "a \<noteq> brk s" for a
  proof (cases "a = brk s + 1")
    case False
    with a have "brk s1 \<le> a" using r(7) by simp
    then show ?thesis using r(6) by (simp add: wf_list_mem_def)
  qed (use r(8) in simp)
  then show "evolved (sans (list_nodes l (xs @ ys)) s) (sans (list_nodes l (xs @ brk s # ys)) s1)"
    by (intro evolved_sans [OF r(5) wf]) auto
qed

text \<open>Move to the head: the server does this with a client it has served.\<close>

lemma conn_rotate:
  fixes s :: "'a tcp_mem_scheme"
  assumes rep: "conns_rep s l (xs @ c # ys) (us @ v # vs)" and len: "length us = length xs"
    and mem: "\<not> oom s (brk s)"
  obtains s1 s2 where "ListItr_Next c s = Inr (hd (ys @ [tail_of l]), s)"
    "ListItr_Prev (hd (ys @ [tail_of l])) s = Inr (c, s)"
    "ListItr_Remove c s = Inr (item_at (nodes s) c, s1)"
    "List_PushHead l (item_at (nodes s) c) s1 = Inr (LIST_SUCCESS, s2)"
    "conns_rep s2 l (brk s # xs @ ys) (v # us @ vs)" "s2 = s\<lparr>brk := brk s2, nodes := nodes s2\<rparr>"
    "evolved (sans (list_nodes l (xs @ c # ys)) s) (sans (list_nodes l (brk s # xs @ ys)) s2)"
proof -
  obtain s1 where s1: "ListItr_Next c s = Inr (hd (ys @ [tail_of l]), s)"
    "ListItr_Prev (hd (ys @ [tail_of l])) s = Inr (c, s)"
    "ListItr_Remove c s = Inr (item_at (nodes s) c, s1)"
    "conns_rep s1 l (xs @ ys) (us @ vs)" "s1 = s\<lparr>nodes := nodes s1\<rparr>"
    "items (nodes s1) (xs @ ys) = items (nodes s) (xs @ ys)"
    "evolved (sans (list_nodes l (xs @ c # ys)) s) (sans (list_nodes l (xs @ ys)) s1)"
    using conn_remove [OF rep len] by metis
  note at = conn_at [OF rep len]
  have e: "brk s1 = brk s" "oom s1 = oom s" "clients s1 = clients s"
    using arg_cong [OF s1(5), of brk] arg_cong [OF s1(5), of oom] arg_cong [OF s1(5), of clients] by simp_all
  obtain s2 where s2: "List_PushHead l (item_at (nodes s) c) s1 = Inr (LIST_SUCCESS, s2)"
    "inserted s1 s2 l [] (xs @ ys) (item_at (nodes s) c)"
    using List_PushHead_ok [OF conns_repD(1,2) [OF s1(4)] at(1)] mem e by auto
  have rep1: "conns_rep s1 l ([] @ xs @ ys) ([] @ us @ vs)" using s1(4) by simp
  have nin: "item_at (nodes s) c \<notin> set (items (nodes s1) ([] @ xs @ ys))" using at(5) s1(6) by simp
  have cl: "client_is (clients s1) (item_at (nodes s) c) v"
    using at(4) e(3) by (auto simp: client_is_def)
  have len0: "length ([] :: conn list) = length ([] :: addr list)" by simp
  note i = conn_insert [OF rep1 len0 s2(2) at(1) nin cl, unfolded append_Nil e(1)]
  have "s2 = s\<lparr>brk := brk s2, nodes := nodes s2\<rparr>"
    using i(2) by (subst (asm) s1(5)) simp
  with that s1(1-3) s2(1) i(1) evolved_trans [OF s1(7) i(3)] show ?thesis by blast
qed

text \<open>The components of the server itself.\<close>

lemma evolved_own [simp]:
  "evolved s (s\<lparr>clients := a\<rparr>)" "evolved s (s\<lparr>servers := b\<rparr>)" "evolved s (s\<lparr>calls := n\<rparr>)"
  "evolved s (s\<lparr>trace := t\<rparr>)" "evolved s (s\<lparr>stop := q\<rparr>)" "evolved s (ticked s)"
  by (cases s, simp add: evolved_def ticked_def)+

lemma sans_own:
  "sans T (s\<lparr>clients := a\<rparr>) = sans T s\<lparr>clients := a\<rparr>" "sans T (s\<lparr>servers := b\<rparr>) = sans T s\<lparr>servers := b\<rparr>"
  "sans T (s\<lparr>calls := n\<rparr>) = sans T s\<lparr>calls := n\<rparr>" "sans T (s\<lparr>trace := t\<rparr>) = sans T s\<lparr>trace := t\<rparr>"
  "sans T (ticked s) = sans T s\<lparr>calls := calls (ticked s), stop := stop (ticked s)\<rparr>"
  by (simp_all add: sans_def ticked_def)

lemma evolved_step:
  "evolved s0 (sans T s) \<Longrightarrow> evolved s0 (sans T (s\<lparr>clients := a\<rparr>))"
  "evolved s0 (sans T s) \<Longrightarrow> evolved s0 (sans T (s\<lparr>servers := b\<rparr>))"
  "evolved s0 (sans T s) \<Longrightarrow> evolved s0 (sans T (s\<lparr>calls := n\<rparr>))"
  "evolved s0 (sans T s) \<Longrightarrow> evolved s0 (sans T (s\<lparr>trace := t\<rparr>))"
  "evolved s0 (sans T s) \<Longrightarrow> evolved s0 (sans T (ticked s))"
  unfolding sans_own by (blast intro: evolved_trans evolved_own)+

lemma evolved_brk:
  assumes "evolved s0 (sans T s)" and "brk s \<le> b"
  shows "evolved s0 (sans T (s\<lparr>brk := b\<rparr>))"
proof -
  have "sans T (s\<lparr>brk := b\<rparr>) = db_mem.more_update (\<lambda>_. db_mem.more s) (sans T s\<lparr>brk := b\<rparr>)"
    by (cases s) (simp add: sans_def)
  then have "evolved (sans T s) (sans T (s\<lparr>brk := b\<rparr>))"
    using assms(2) evolvedI [of "sans T s" b] by simp
  with assms(1) show ?thesis by (rule evolved_trans)
qed

section \<open>Expiry\<close>

definition expired :: "timeval \<Rightarrow> conn \<Rightarrow> bool" where
  "expired now v \<longleftrightarrow> timer_later now (snd v)"

definition fd_ok :: "int \<Rightarrow> bool" where
  "fd_ok fd \<longleftrightarrow> 0 \<le> fd \<and> fd < FD_SETSIZE"

text \<open>Callbacks that have no effect, such as those of the chat program, which print.\<close>

definition silent :: "'a tcp_mem_scheme callbacks \<Rightarrow> bool" where
  "silent cb \<longleftrightarrow> (\<forall>c ctx s. call_back (acceptFunc cb) c ctx s = Inr ((), s) \<and>
     call_back (disconnect cb) c ctx s = Inr ((), s))"

lemma expire_client:
  fixes s :: "'a tcp_mem_scheme"
  assumes rep: "conns_rep s l (c # ys) (v # vs)" and p: "p \<noteq> NULL" "servers s p = Some srv"
    and cb: "silent cb" and fd: "fd_ok (fst v)"
  obtains s' where "\<And>k. expiry_loop (Suc k) cb p now c (tail_of l) s =
      (if expired now v then expiry_loop k cb p now (hd (ys @ [tail_of l])) (tail_of l) s' else Inr (1, s))"
    "conns_rep s' l ys vs"
    "servers s' = (servers s)(p \<mapsto> srv\<lparr>m_master_fds := m_master_fds srv - {fst v}\<rparr>)"
    "trace s' = trace s @ [Closed (fst v)]" "calls s' = calls s" "io s' = io s"
    "clients s' = (clients s)(item_at (nodes s) c := None)" "items (nodes s') ys = items (nodes s) ys"
    "evolved (sans (list_nodes l (c # ys)) s) (sans (list_nodes l ys) s')"
proof -
  have rep0: "conns_rep s l ([] @ c # ys) ([] @ v # vs)" using rep by simp
  have len0: "length ([] :: conn list) = length ([] :: addr list)" by simp
  note at = conn_at [OF rep0 len0]
  obtain d where d: "clients s (item_at (nodes s) c) = Some d" "m_clientSock d = fst v"
    "m_client_timeout d = snd v" using at(4) by blast
  let ?cl = "item_at (nodes s) c"
  let ?s1 = "s\<lparr>servers := (servers s)(p \<mapsto> srv\<lparr>m_master_fds := m_master_fds srv - {fst v}\<rparr>),
    trace := trace s @ [Closed (fst v)]\<rparr>"
  have rep1: "conns_rep ?s1 l ([] @ c # ys) ([] @ v # vs)" by (rule conns_rep_cong [OF rep0]) simp_all
  obtain s2 where s2: "ListItr_Next c ?s1 = Inr (hd (ys @ [tail_of l]), ?s1)"
    "ListItr_Prev (hd (ys @ [tail_of l])) ?s1 = Inr (c, ?s1)"
    "ListItr_Remove c ?s1 = Inr (item_at (nodes ?s1) c, s2)"
    "conns_rep s2 l ([] @ ys) ([] @ vs)" "s2 = ?s1\<lparr>nodes := nodes s2\<rparr>"
    "items (nodes s2) ([] @ ys) = items (nodes ?s1) ([] @ ys)"
    "evolved (sans (list_nodes l ([] @ c # ys)) ?s1) (sans (list_nodes l ([] @ ys)) s2)"
    using conn_remove [OF rep1 len0] by metis
  have f: "clients s2 = clients s" "servers s2 = servers ?s1" "trace s2 = trace ?s1" "calls s2 = calls s"
    "io s2 = io s"
    by (subst s2(5), simp)+
  let ?s' = "s2\<lparr>clients := (clients s2)(?cl := None)\<rparr>"
  have run: "expiry_loop (Suc k) cb p now c (tail_of l) s =
      (if expired now v then expiry_loop k cb p now (hd (ys @ [tail_of l])) (tail_of l) ?s' else Inr (1, s))" for k
  proof -
    have rm: "Remove_Client_On_timeout cb ?cl p c s = Inr (hd (ys @ [tail_of l]), s2)"
      using p d s2(1-3) at(1) cb fd
      by (simp add: Remove_Client_On_timeout_def c_step silent_def fd_set_clear_def fd_ok_def)
    show ?thesis using at d rm f(1) by (simp add: c_step expired_def)
  qed
  have all: "list_all2 (client_is (clients s2)) (items (nodes s2) ys) vs" and nin: "?cl \<notin> set (items (nodes s2) ys)"
    using s2(4,6) at(5) by (simp_all add: conns_rep_def)
  have "list_all2 (client_is (clients ?s')) (items (nodes s2) ys) vs"
    by (rule list.rel_mono_strong [OF all]) (use nin in \<open>auto simp: client_is_def\<close>)
  then have "conns_rep ?s' l ys vs" using s2(4) by (simp add: conns_rep_def wf_list_mem_def)
  moreover have "evolved (sans (list_nodes l (c # ys)) s) (sans (list_nodes l ys) ?s')"
  proof -
    have "evolved (sans (list_nodes l (c # ys)) s) (sans (list_nodes l (c # ys)) ?s1)"
      by (intro evolved_step evolved_refl)
    then show ?thesis using s2(7) by (intro evolved_step) (auto intro: evolved_trans)
  qed
  moreover have "items (nodes ?s') ys = items (nodes s) ys" using s2(6) by simp
  ultimately show ?thesis using that [OF run] f by simp
qed

lemma expiry_loop_ok:
  fixes s :: "'a tcp_mem_scheme"
  assumes "conns_rep s l cs conns" and "p \<noteq> NULL" "servers s p = Some srv" and "silent cb"
    and "\<forall>v \<in> set conns. fd_ok (fst v)" and "length cs < k"
  shows "\<exists>s' cs'. expiry_loop k cb p now (hd (cs @ [tail_of l])) (tail_of l) s = Inr (1, s') \<and>
    conns_rep s' l cs' (dropWhile (expired now) conns) \<and>
    servers s' = (servers s)(p \<mapsto> srv\<lparr>m_master_fds := m_master_fds srv - fst ` set (takeWhile (expired now) conns)\<rparr>) \<and>
    trace s' = trace s @ map (Closed \<circ> fst) (takeWhile (expired now) conns) \<and>
    calls s' = calls s \<and> io s' = io s \<and>
    clients s' = clients s |` (- set (take (length (takeWhile (expired now) conns)) (items (nodes s) cs))) \<and>
    evolved (sans (list_nodes l cs) s) (sans (list_nodes l cs') s')"
  using assms
proof (induction conns arbitrary: cs s k srv)
  case Nil
  have cs: "cs = []" using conns_repD(3) [OF Nil.prems(1)] by simp
  have k: "k = Suc (k - 1)" using Nil.prems(6) by simp
  have sv: "servers s = (servers s)(p \<mapsto> srv)" using Nil.prems(3) by (simp add: fun_upd_idem)
  have "expiry_loop k cb p now (tail_of l) (tail_of l) s = Inr (1, s)"
    by (subst k) (simp add: conns_end [OF Nil.prems(1)])
  moreover have "clients s = clients s |` (- {})" by (simp add: restrict_map_def)
  ultimately show ?case using Nil.prems(1) sv cs by (intro exI [of _ s] exI [of _ "[]"]) simp
next
  case (Cons v vs)
  obtain c ys where cs: "cs = c # ys" using conns_repD(3) [OF Cons.prems(1)] by (cases cs) auto
  obtain k' where k: "k = Suc k'" using Cons.prems(6) by (cases k) auto
  obtain s1 where s1: "\<And>k. expiry_loop (Suc k) cb p now c (tail_of l) s =
      (if expired now v then expiry_loop k cb p now (hd (ys @ [tail_of l])) (tail_of l) s1 else Inr (1, s))"
    "conns_rep s1 l ys vs"
    "servers s1 = (servers s)(p \<mapsto> srv\<lparr>m_master_fds := m_master_fds srv - {fst v}\<rparr>)"
    "trace s1 = trace s @ [Closed (fst v)]" "calls s1 = calls s" "io s1 = io s"
    "clients s1 = (clients s)(item_at (nodes s) c := None)" "items (nodes s1) ys = items (nodes s) ys"
    "evolved (sans (list_nodes l (c # ys)) s) (sans (list_nodes l ys) s1)"
    by (rule expire_client [OF Cons.prems(1) [unfolded cs] Cons.prems(2-4), of now])
      (use Cons.prems(5) in auto)
  show ?case
  proof (cases "expired now v")
    case False
    have sv: "servers s = (servers s)(p \<mapsto> srv)" using Cons.prems(3) by (simp add: fun_upd_idem)
    have "clients s = clients s |` (- {})" by (simp add: restrict_map_def)
    then show ?thesis using False s1(1) k cs sv Cons.prems(1)
      by (intro exI [of _ s] exI [of _ cs]) simp
  next
    case True
    let ?srv = "srv\<lparr>m_master_fds := m_master_fds srv - {fst v}\<rparr>"
    have pre: "servers s1 p = Some ?srv" "\<forall>v \<in> set vs. fd_ok (fst v)" "length ys < k'"
      using s1(3) Cons.prems(5,6) cs k by auto
    note IH = Cons.IH [OF s1(2) Cons.prems(2) pre(1) Cons.prems(4) pre(2,3)]
    obtain s' cs' where s': "expiry_loop k' cb p now (hd (ys @ [tail_of l])) (tail_of l) s1 = Inr (1, s')"
      "conns_rep s' l cs' (dropWhile (expired now) vs)"
      "servers s' = (servers s1)(p \<mapsto> ?srv\<lparr>m_master_fds := m_master_fds ?srv - fst ` set (takeWhile (expired now) vs)\<rparr>)"
      "trace s' = trace s1 @ map (Closed \<circ> fst) (takeWhile (expired now) vs)"
      "calls s' = calls s1" "io s' = io s1"
      "clients s' = clients s1 |` (- set (take (length (takeWhile (expired now) vs)) (items (nodes s1) ys)))"
      "evolved (sans (list_nodes l ys) s1) (sans (list_nodes l cs') s')"
      using IH by (elim exE conjE) (rule that; assumption)
    have fds: "m_master_fds srv - {fst v} - fst ` set (takeWhile (expired now) vs) =
        m_master_fds srv - fst ` set (takeWhile (expired now) (v # vs))" using True by auto
    have cl: "clients s' = clients s |` (- set (take (length (takeWhile (expired now) (v # vs))) (items (nodes s) cs)))"
      using s'(7) s1(7,8) True cs by (auto simp: restrict_map_def fun_eq_iff)
    have "evolved (sans (list_nodes l cs) s) (sans (list_nodes l cs') s')"
      using evolved_trans [OF s1(9) s'(8)] cs by simp
    moreover have "expiry_loop k cb p now (hd (cs @ [tail_of l])) (tail_of l) s = Inr (1, s')"
      using s1(1) True s'(1) k cs by simp
    ultimately show ?thesis using s'(2-6) s1(3-6) fds cl True
      by (intro exI [of _ s'] exI [of _ cs']) simp
  qed
qed

end
