(* ===== verification/ServerEvents.thy ===== *)
theory ServerEvents
  imports ServerConns
begin

text \<open>
  What the TCP server does on each kind of event, for a server object \<open>srv\<close> at \<open>p\<close> whose clients
  are \<open>conns\<close>: time-outs, a new connection, the end of a connection, and an overdue client.
\<close>

definition server_at :: "'a tcp_mem_scheme \<Rightarrow> addr \<Rightarrow> Server \<Rightarrow> addr list \<Rightarrow> conn list \<Rightarrow> bool" where
  "server_at s p srv cs conns \<longleftrightarrow> p \<noteq> NULL \<and> servers s p = Some srv \<and>
     conns_rep s (m_List_connectedClient srv) cs conns \<and> (\<forall>v \<in> set conns. fd_ok (fst v))"

lemma server_atD:
  "server_at s p srv cs conns \<Longrightarrow> p \<noteq> NULL" "server_at s p srv cs conns \<Longrightarrow> servers s p = Some srv"
  "server_at s p srv cs conns \<Longrightarrow> conns_rep s (m_List_connectedClient srv) cs conns"
  "server_at s p srv cs conns \<Longrightarrow> \<forall>v \<in> set conns. fd_ok (fst v)"
  by (simp_all add: server_at_def)

lemma server_at_bounds:
  assumes "server_at s p srv cs conns"
  shows "length cs < brk s" "m_List_connectedClient srv \<noteq> NULL"
    "ListItr_Begin (m_List_connectedClient srv) s = Inr (hd (cs @ [tail_of (m_List_connectedClient srv)]), s)"
    "ListItr_End (m_List_connectedClient srv) s = Inr (tail_of (m_List_connectedClient srv), s)"
    "hd (cs @ [tail_of (m_List_connectedClient srv)]) \<noteq> NULL"
proof -
  note rep = server_atD(3) [OF assms]
  note dl = conns_repD(1) [OF rep] and wf = conns_repD(2) [OF rep]
  show "length cs < brk s" using dlist_length [OF wf dl] by simp
  show "m_List_connectedClient srv \<noteq> NULL" using dlist_sentinels(3) [OF dl] .
  show "ListItr_Begin (m_List_connectedClient srv) s = Inr (hd (cs @ [tail_of (m_List_connectedClient srv)]), s)"
    by (rule ListItr_Begin_ok [OF dl])
  show "ListItr_End (m_List_connectedClient srv) s = Inr (tail_of (m_List_connectedClient srv), s)"
    by (rule ListItr_End_ok [OF dl])
  show "hd (cs @ [tail_of (m_List_connectedClient srv)]) \<noteq> NULL"
    using dlist_nz [OF dl] by (cases cs) auto
qed

section \<open>Time-outs\<close>

lemma Check_expiry_ok:
  fixes s :: "'a tcp_mem_scheme"
  assumes at: "server_at s p srv cs conns" and cb: "silent cb"
    and now: "snd (os_time (io s) (calls s)) = now"
  shows "\<exists>s' cs'. Check_expiry_of_Clients cb p s = Inr (1, s') \<and>
    server_at s' p (srv\<lparr>m_master_fds := m_master_fds srv - fst ` set (takeWhile (expired now) conns)\<rparr>)
      cs' (dropWhile (expired now) conns) \<and>
    trace s' = trace s @ map (Closed \<circ> fst) (takeWhile (expired now) conns) \<and>
    calls s' = Suc (calls s) \<and> io s' = io s \<and>
    clients s' = clients s |` (- set (take (length (takeWhile (expired now) conns)) (items (nodes s) cs))) \<and>
    evolved (sans (list_nodes (m_List_connectedClient srv) cs) s)
      (sans (list_nodes (m_List_connectedClient srv) cs') s')"
proof -
  let ?l = "m_List_connectedClient srv"
  note b = server_at_bounds [OF at] and d = server_atD [OF at]
  have rep: "conns_rep (ticked s) ?l cs conns" by (rule conns_rep_cong [OF d(3)]) simp_all
  have len: "length cs < brk (ticked s)" using b(1) by simp
  have srv: "servers (ticked s) p = Some srv" using d(2) by simp
  note ex = expiry_loop_ok [OF rep d(1) srv cb d(4) len, of now]
  obtain s' cs' where s': "expiry_loop (brk (ticked s)) cb p now (hd (cs @ [tail_of ?l])) (tail_of ?l) (ticked s) = Inr (1, s')"
    "conns_rep s' ?l cs' (dropWhile (expired now) conns)"
    "servers s' = (servers (ticked s))(p \<mapsto> srv\<lparr>m_master_fds := m_master_fds srv - fst ` set (takeWhile (expired now) conns)\<rparr>)"
    "trace s' = trace (ticked s) @ map (Closed \<circ> fst) (takeWhile (expired now) conns)"
    "calls s' = calls (ticked s)" "io s' = io (ticked s)"
    "clients s' = clients (ticked s) |` (- set (take (length (takeWhile (expired now) conns)) (items (nodes (ticked s)) cs)))"
    "evolved (sans (list_nodes ?l cs) (ticked s)) (sans (list_nodes ?l cs') s')"
    using ex by (elim exE conjE) (rule that; assumption)
  obtain r where tm: "os_time (io s) (calls s) = (r, now)" using now by (cases "os_time (io s) (calls s)") auto
  have run: "Check_expiry_of_Clients cb p s = Inr (1, s')"
    using d(1,2) b s'(1) tm by (simp add: Check_expiry_of_Clients_def c_step sys_time_def)
  have at': "server_at s' p (srv\<lparr>m_master_fds := m_master_fds srv - fst ` set (takeWhile (expired now) conns)\<rparr>)
      cs' (dropWhile (expired now) conns)"
    using d s'(2,3) by (auto simp: server_at_def dest: set_dropWhileD)
  have "evolved (sans (list_nodes ?l cs) s) (sans (list_nodes ?l cs) (ticked s))"
    by (intro evolved_step evolved_refl)
  from evolved_trans [OF this s'(8)] show ?thesis using run at' s'(4-7) by auto
qed

section \<open>The end of a connection\<close>

lemma recv_skip:
  fixes s :: "'a tcp_mem_scheme"
  assumes rep: "conns_rep s l (xs @ c # ys) (us @ v # vs)" "length us = length xs"
    and p: "p \<noteq> NULL" "servers s p = Some srv" and R: "fst v \<notin> m_forSelect_fds srv"
    and act: "0 < m_activity srv"
  shows "recv_loop (Suc k) cb p c (tail_of l) s = recv_loop k cb p (hd (ys @ [tail_of l])) (tail_of l) s"
proof -
  note at = conn_at [OF rep]
  obtain d where d: "clients s (item_at (nodes s) c) = Some d" "m_clientSock d = fst v"
    using at(4) by blast
  show ?thesis using at d p R act ListItr_Next_ok [OF conns_repD(1) [OF rep(1)]] by (simp add: c_step)
qed

text \<open>Nothing more can be read from the connection: \<open>recv\<close> returns 0 or fails.\<close>

definition hung_up :: "os \<Rightarrow> nat \<Rightarrow> bool" where
  "hung_up w n \<longleftrightarrow> os_recv w n = None \<or> os_recv w n = Some []"

text \<open>
  The node of the client is freed before the iterator, which still points to it, is advanced:
  the first client that hangs up brings the server down.
\<close>

lemma recv_hangup:
  fixes s :: "'a tcp_mem_scheme"
  assumes rep: "conns_rep s l (xs @ c # ys) (us @ v # vs)" "length us = length xs"
    and p: "p \<noteq> NULL" "servers s p = Some srv" and R: "fst v \<in> m_forSelect_fds srv"
    and act: "0 < m_activity srv" and cb: "silent cb" and eof: "hung_up (io s) (calls s)"
    and fd: "fd_ok (fst v)"
  shows "recv_loop (Suc k) cb p c (tail_of l) s = Inl BadAddress"
proof -
  note at = conn_at [OF rep]
  let ?cl = "item_at (nodes s) c"
  obtain d where d: "clients s ?cl = Some d" "m_clientSock d = fst v"
    using at(4) by blast
  let ?srv = "srv\<lparr>m_activity := m_activity srv - 1\<rparr>"
  let ?s1 = "s\<lparr>servers := (servers s)(p \<mapsto> ?srv)\<rparr>"
  obtain s2 r where s2: "sys_recv (fst v) (m_buffer_rcv srv) BUFF_SIZE ?s1 = Inr (r, s2)" "r \<le> 0"
    "clients s2 = clients s" "servers s2 = servers ?s1" "nodes s2 = nodes s" "brk s2 = brk s"
    using eof by (auto simp: hung_up_def sys_recv_def c_step)
  let ?s3 = "s2\<lparr>trace := trace s2 @ [Closed (fst v)]\<rparr>"
  have act3: "ActionFuncSndRcv cb ?cl p ?s1 = Inr (- 1, ?s3)"
    using p d at(1) s2 cb by (simp add: ActionFuncSndRcv_def c_step silent_def)
  have rep3: "conns_rep ?s3 l (xs @ c # ys) (us @ v # vs)"
    by (rule conns_rep_cong [OF rep(1)]) (use s2 in simp_all)
  obtain s4 where s4: "ListItr_Remove c ?s3 = Inr (item_at (nodes ?s3) c, s4)" "s4 = ?s3\<lparr>nodes := nodes s4\<rparr>"
    "nodes s4 c = None"
    using conn_remove [OF rep3 rep(2)] by metis
  have "clients s4 = clients ?s3" "servers s4 = servers ?s3" by (subst s4(2), simp)+
  then have f: "clients s4 = clients s" "servers s4 = (servers s)(p \<mapsto> ?srv)" "item_at (nodes ?s3) c = ?cl"
    using s2 by simp_all
  show ?thesis
    using at d p R act act3 s4(1) f s4(3) fd
    by (simp add: c_step fd_set_clear_def fd_ok_def ListItr_Next_def get_next_def)
qed

lemma recv_loop_hangup:
  fixes s :: "'a tcp_mem_scheme"
  assumes "conns_rep s l (xs @ zs @ c # ys) (us @ ws @ v # vs)" and "length us = length xs"
    and "length ws = length zs"
    and p: "p \<noteq> NULL" "servers s p = Some srv" and R: "fst v \<in> m_forSelect_fds srv"
    and "\<forall>u \<in> set ws. fst u \<notin> m_forSelect_fds srv" and "length zs < k"
    and act: "0 < m_activity srv" and cb: "silent cb" and eof: "hung_up (io s) (calls s)"
    and fd: "fd_ok (fst v)"
  shows "recv_loop k cb p (hd (zs @ [c])) (tail_of l) s = Inl BadAddress"
  using assms(1-3,7,8)
proof (induction zs arbitrary: xs us ws k)
  case Nil
  then obtain k' where "k = Suc k'" by (cases k) auto
  then show ?case using recv_hangup [OF _ _ p R act cb eof fd, of l xs c ys us vs k'] Nil by simp
next
  case (Cons z zs)
  obtain w ws' where ws: "ws = w # ws'" using Cons.prems(3) by (cases ws) auto
  obtain k' where k: "k = Suc k'" using Cons.prems(5) by (cases k) auto
  have rep: "conns_rep s l (xs @ z # (zs @ c # ys)) (us @ w # (ws' @ v # vs))"
    using Cons.prems(1) ws by simp
  have "fst w \<notin> m_forSelect_fds srv" using Cons.prems(4) ws by simp
  note skip = recv_skip [OF rep Cons.prems(2) p this act, of k' cb]
  have "recv_loop k' cb p (hd (zs @ [c])) (tail_of l) s = Inl BadAddress"
    by (rule Cons.IH [of "xs @ [z]" "us @ [w]" ws']) (use Cons.prems ws k in simp_all)
  moreover have "hd ((zs @ c # ys) @ [tail_of l]) = hd (zs @ [c])" by (cases zs) simp_all
  ultimately show ?case using skip k by simp
qed

lemma ReceiveAndSend_hangup:
  fixes s :: "'a tcp_mem_scheme"
  assumes at: "server_at s p srv cs (ws @ v # vs)" and R: "fst v \<in> m_forSelect_fds srv"
    and "\<forall>u \<in> set ws. fst u \<notin> m_forSelect_fds srv"
    and "0 < m_activity srv" and "silent cb" and "hung_up (io s) (calls s)"
  shows "ReceiveAndSend cb p s = Inl BadAddress"
proof -
  let ?l = "m_List_connectedClient srv"
  note b = server_at_bounds [OF at] and d = server_atD [OF at]
  obtain zs c ys where cs: "cs = zs @ c # ys" "length ws = length zs"
  proof -
    have "length ws < length cs" using conns_repD(3) [OF d(3)] by simp
    then show ?thesis using that [of "take (length ws) cs" "cs ! length ws" "drop (Suc (length ws)) cs"]
      by (simp add: id_take_nth_drop)
  qed
  have "recv_loop (brk s) cb p (hd (zs @ [c])) (tail_of ?l) s = Inl BadAddress"
    by (rule recv_loop_hangup [of s ?l "[]" zs c ys "[]" ws v vs p srv])
      (use assms cs d b(1) in simp_all)
  moreover have "hd (cs @ [tail_of ?l]) = hd (zs @ [c])" using cs by (cases zs) simp_all
  ultimately show ?thesis using d b by (simp add: ReceiveAndSend_def c_step)
qed

section \<open>An overdue client\<close>

definition normal :: "timeval \<Rightarrow> bool" where
  "normal t \<longleftrightarrow> 0 \<le> tv_usec t \<and> tv_usec t < 1000000"

lemma overdue_ttl: "\<lbrakk>timer_later now t; normal now; normal t\<rbrakk> \<Longrightarrow> tv_sec (timersub t now) < 0"
  by (auto simp: timer_later_def normal_def timersub_def Let_def split: if_splits)

lemma Check_list_empty_ok:
  assumes at: "server_at s p srv cs conns" and len: "length conns < 2 ^ 31"
  shows "Check_list_empty p s = Inr (if conns = [] then 1 else 0, s)"
proof -
  note d = server_atD [OF at]
  note dl = conns_repD(1) [OF d(3)] and wf = conns_repD(2) [OF d(3)]
  have l: "length conns = length cs" using conns_repD(3) [OF d(3)] .
  have "List_Size (m_List_connectedClient srv) s = Inr (of_nat (length cs), s)"
    by (rule List_Size_ok [OF dl wf]) (use len l in simp)
  moreover have "(of_nat (length cs) :: u64) = 0 \<longleftrightarrow> conns = []"
    using l len by (cases "length cs = 0") (auto simp: word_of_nat_eq_0_iff dest!: dvd_imp_le)
  ultimately show ?thesis using d by (simp add: Check_list_empty_def c_step)
qed

lemma GetTTL_ok:
  fixes s :: "'a tcp_mem_scheme"
  assumes at: "server_at s p srv cs (v # vs)" and now: "snd (os_time (io s) (calls s)) = now"
  shows "GetTTL p s = Inr (timersub (snd v) now, ticked s)"
proof -
  let ?l = "m_List_connectedClient srv"
  note d = server_atD [OF at]
  obtain c ys where cs: "cs = c # ys" using conns_repD(3) [OF d(3)] by (cases cs) auto
  have rep: "conns_rep (ticked s) ?l ([] @ c # ys) ([] @ v # vs)"
    using conns_rep_cong [OF d(3), of "ticked s"] cs by simp
  have len0: "length ([] :: conn list) = length ([] :: addr list)" by simp
  note a = conn_at [OF rep len0]
  obtain x where "clients (ticked s) (item_at (nodes (ticked s)) c) = Some x" "m_client_timeout x = snd v"
    using a(4) by blast
  moreover have "ListItr_Begin ?l (ticked s) = Inr (c, ticked s)"
    using ListItr_Begin_ok [OF conns_repD(1) [OF rep]] by simp
  moreover obtain r where "os_time (io s) (calls s) = (r, now)" using now by (cases "os_time (io s) (calls s)") auto
  ultimately show ?thesis using d(1,2) a(1,7) by (simp add: GetTTL_def c_step sys_time_def)
qed

text \<open>
  When the time of the head client has passed, \<open>select\<close> is called with a negative time-out and
  refuses it. The pass ends there: the client is not expired and nobody is served.
\<close>

lemma overdue_pass:
  fixes s :: "'a tcp_mem_scheme"
  assumes at: "server_at s p srv cs (v # vs)" and len: "length vs + 1 < 2 ^ 31"
    and now: "snd (os_time (io s) (calls s)) = now" and late: "expired now v"
    and norm: "normal now" "normal (snd v)"
  shows "\<exists>s' srv'. server_pass cb p s = Inr ((), s') \<and> server_at s' p srv' cs (v # vs) \<and>
    m_activity srv' = - 1 \<and> clients s' = clients s \<and> trace s' = trace s \<and> io s' = io s \<and>
    nodes s' = nodes s \<and> bytes s' = bytes s \<and> calls s' = calls s + 2 \<and>
    stop s' = (if os_signal (io s) (calls s) \<or> os_signal (io s) (Suc (calls s)) then 1 else stop s)"
proof -
  note d = server_atD [OF at]
  let ?ttl = "timersub (snd v) now"
  have neg: "tv_sec ?ttl < 0" by (rule overdue_ttl) (use late norm in \<open>simp_all add: expired_def\<close>)
  let ?srv1 = "srv\<lparr>m_forSelect_fds := m_master_fds srv\<rparr>"
  let ?s1 = "s\<lparr>servers := (servers s)(p \<mapsto> ?srv1)\<rparr>"
  have at1: "server_at ?s1 p ?srv1 cs (v # vs)"
    using d conns_rep_cong [OF d(3), of ?s1] by (simp add: server_at_def)
  have e1: "Check_list_empty p ?s1 = Inr (0, ?s1)" using Check_list_empty_ok [OF at1] len by simp
  have e2: "GetTTL p ?s1 = Inr (?ttl, ticked ?s1)" by (rule GetTTL_ok [OF at1]) (use now in simp)
  let ?srv2 = "?srv1\<lparr>m_timeout := ?ttl\<rparr>"
  let ?s2 = "ticked ?s1\<lparr>servers := (servers s)(p \<mapsto> ?srv2)\<rparr>"
  let ?srv3 = "?srv2\<lparr>m_activity := - 1, m_forSelect_fds := m_master_fds srv\<rparr>"
  let ?s3 = "ticked ?s2\<lparr>servers := (servers s)(p \<mapsto> ?srv3)\<rparr>"
  have sel: "sys_select n A (Some ?ttl) ?s2 = Inr ((- 1, A), ticked ?s2)" for n A
    using neg by (simp add: sys_select_def c_step)
  have run: "server_pass cb p s = Inr ((), ?s3)"
    using d(1,2) e1 e2 sel by (simp add: server_pass_def c_step)
  have at3: "server_at ?s3 p ?srv3 cs (v # vs)"
    using d conns_rep_cong [OF d(3), of ?s3] by (simp add: server_at_def)
  have st: "stop ?s3 = (if os_signal (io s) (calls s) \<or> os_signal (io s) (Suc (calls s)) then 1 else stop s)"
    by (simp add: ticked_def)
  show ?thesis
    by (rule exI [of _ ?s3], rule exI [of _ ?srv3], intro conjI run at3 st) simp_all
qed

text \<open>
  Time does not go back, so this is the end: the run is infinite, every call of \<open>select\<close> fails,
  and nothing but the number of calls and the fields that the loop sets for \<open>select\<close> ever changes.
\<close>

definition spinning :: "'a tcp_mem_scheme callbacks \<Rightarrow> addr \<Rightarrow> (nat \<Rightarrow> 'a tcp_mem_scheme) \<Rightarrow> bool" where
  "spinning cb p t \<longleftrightarrow> (\<forall>k. server_pass cb p (t k) = Inr ((), t (Suc k)) \<and> stop (t k) = 0 \<and>
     map_option m_activity (servers (t (Suc k)) p) = Some (- 1) \<and>
     trace (t (Suc k)) = trace (t k) \<and> clients (t (Suc k)) = clients (t k) \<and>
     nodes (t (Suc k)) = nodes (t k) \<and> bytes (t (Suc k)) = bytes (t k))"

lemma spinning_diverges: "spinning cb p t \<Longrightarrow> run_loop k cb p (t i) = Inl Diverges"
  by (induction k arbitrary: i) (simp_all add: spinning_def)

lemma overdue_livelock:
  fixes s :: "'a tcp_mem_scheme"
  assumes at: "server_at s p srv cs (v # vs)" and len: "length vs + 1 < 2 ^ 31"
    and late: "\<forall>n \<ge> calls s. expired (snd (os_time (io s) n)) v \<and> normal (snd (os_time (io s) n)) \<and> \<not> os_signal (io s) n"
    and norm: "normal (snd v)" and run: "stop s = 0"
  shows "\<exists>t. t 0 = s \<and> spinning cb p t"
proof -
  define nx where "nx u = snd (projr (server_pass cb p u))" for u :: "'a tcp_mem_scheme"
  define t where "t = rec_nat s (\<lambda>k. nx)"
  have t: "t 0 = s" "t (Suc k) = nx (t k)" for k by (simp_all add: t_def)
  let ?inv = "\<lambda>u. (\<exists>srv'. server_at u p srv' cs (v # vs)) \<and> io u = io s \<and> calls s \<le> calls u \<and> stop u = 0"
  have step: "server_pass cb p u = Inr ((), nx u) \<and> map_option m_activity (servers (nx u) p) = Some (- 1) \<and>
      trace (nx u) = trace u \<and> clients (nx u) = clients u \<and> nodes (nx u) = nodes u \<and> bytes (nx u) = bytes u \<and> ?inv (nx u)"
    if u: "?inv u" for u
  proof -
    obtain srv1 where at1: "server_at u p srv1 cs (v # vs)" using u by blast
    have "expired (snd (os_time (io u) (calls u))) v" "normal (snd (os_time (io u) (calls u)))"
      and quiet: "\<not> os_signal (io u) (calls u)" "\<not> os_signal (io u) (Suc (calls u))"
      using late u by simp_all
    from overdue_pass [OF at1 len refl this(1,2) norm, of cb] obtain s' srv' where
      s': "server_pass cb p u = Inr ((), s')" "server_at s' p srv' cs (v # vs)" "m_activity srv' = - 1"
      "clients s' = clients u" "trace s' = trace u" "io s' = io u" "nodes s' = nodes u" "bytes s' = bytes u"
      "calls s' = calls u + 2" "stop s' = (if os_signal (io u) (calls u) \<or> os_signal (io u) (Suc (calls u)) then 1 else stop u)"
      by (elim exE conjE) (rule that; assumption)
    have "nx u = s'" by (simp add: nx_def s'(1))
    moreover have "?inv s'" using s'(2,6,9,10) quiet u by auto
    moreover have "servers s' p = Some srv'" by (rule server_atD(2) [OF s'(2)])
    ultimately show ?thesis using s'(1,3-5,7,8) by simp
  qed
  have inv: "?inv (t k)" for k
  proof (induction k)
    case 0
    then show ?case unfolding t(1) using at run by blast
  next
    case (Suc k)
    from step [OF this] show ?case unfolding t(2) by blast
  qed
  have "spinning cb p t" unfolding spinning_def t(2) using step [OF inv] inv by blast
  then show ?thesis using t(1) by blast
qed

end
