(* ===== verification/ServerAccept.thy ===== *)
theory ServerAccept
  imports ServerEvents
begin

text \<open>A new connection: \<open>AddClientToTheList\<close> appends a client to the list, or refuses it.\<close>

lemma list_size_int: "n < 2 ^ 31 \<Longrightarrow> sint (ucast (of_nat n :: u64) :: i32) = int n"
proof -
  assume n: "n < 2 ^ 31"
  have "(ucast (of_nat n :: u64) :: i32) = of_nat n"
    using n by (simp add: unsigned_of_nat take_bit_nat_eq_self)
  then show ?thesis using n by (simp add: signed_of_nat signed_take_bit_int_eq_self)
qed

lemma server_size:
  assumes at: "server_at s p srv cs conns" and len: "length conns < 2 ^ 31"
  shows "List_Size (m_List_connectedClient srv) s = Inr (of_nat (length conns), s)"
proof -
  note d = server_atD [OF at]
  show ?thesis
    using List_Size_ok [OF conns_repD(1,2) [OF d(3)]] conns_repD(3) [OF d(3)] len by simp
qed

lemma UpdateTimeForClient_ok:
  assumes "c \<noteq> NULL" "clients s c = Some d" and "p \<noteq> NULL" "servers s p = Some srv"
    and "os_time (io s) (calls s) = (0, now)"
  shows "UpdateTimeForClient p c s = Inr ((), (ticked s)\<lparr>clients := (clients s)(c \<mapsto>
    d\<lparr>m_client_timeout := timeradd now (m_maxWaitTime srv)\<rparr>)\<rparr>)"
  using assms by (simp add: UpdateTimeForClient_def c_step sys_time_def)

lemma accept_refused:
  fixes s :: "'a tcp_mem_scheme"
  assumes at: "server_at s p srv cs conns" and len: "length conns < 2 ^ 31"
    and full: "1000 < length conns" and acc: "fst (os_accept (io s) (calls s)) = fd" "0 \<le> fd"
  shows "AddClientToTheList cb p s = Inr (0, (ticked s)\<lparr>trace := trace s @ [Closed fd]\<rparr>)"
proof -
  have at1: "server_at (ticked s) p srv cs conns"
    using at conns_rep_cong [OF server_atD(3) [OF at], of "ticked s"] by (simp add: server_at_def)
  obtain sn where a: "os_accept (io s) (calls s) = (fd, sn)" using acc by (cases "os_accept (io s) (calls s)") auto
  show ?thesis using server_atD(1,2) [OF at] server_size [OF at1 len] list_size_int [OF len] full acc(2) a
    by (simp add: AddClientToTheList_def AcceptClient_def c_step CLIENTS_LIMIT_def)
qed

lemma accept_ok:
  fixes s :: "'a tcp_mem_scheme"
  assumes at: "server_at s p srv cs conns" and len: "length conns \<le> 1000"
    and acc: "fst (os_accept (io s) (calls s)) = fd" "fd_ok fd" and cb: "silent cb"
    and mem: "enough_mem s" and tm: "os_time (io s) (Suc (calls s)) = (0, now)"
  shows "\<exists>s' c. AddClientToTheList cb p s = Inr (0, s') \<and>
    server_at s' p (srv\<lparr>m_master_fds := insert fd (m_master_fds srv), m_max_socket := max fd (m_max_socket srv)\<rparr>)
      (cs @ [c]) (conns @ [(fd, timeradd now (m_maxWaitTime srv))]) \<and>
    trace s' = trace s \<and> calls s' = calls s + 2 \<and> io s' = io s \<and> bytes s' = bytes s \<and>
    evolved (sans (list_nodes (m_List_connectedClient srv) cs) s)
      (sans (list_nodes (m_List_connectedClient srv) (cs @ [c])) s')"
proof -
  let ?l = "m_List_connectedClient srv"
  note d = server_atD [OF at]
  have z: "0 < brk s" using conns_repD(2) [OF d(3)] by (simp add: wf_list_mem_def)
  let ?srv = "srv\<lparr>m_master_fds := insert fd (m_master_fds srv), m_max_socket := max fd (m_max_socket srv)\<rparr>"
  let ?new = "brk s"
  obtain sn where a: "os_accept (io s) (calls s) = (fd, sn)" using acc by (cases "os_accept (io s) (calls s)") auto
  let ?d0 = "\<lparr>m_clientSock = fd, m_client_timeout = \<lparr>tv_sec = int (junk s ?new 0), tv_usec = int (junk s ?new 1)\<rparr>,
      m_clientSin = sn\<rparr>"
  let ?s1 = "(ticked s)\<lparr>brk := brk s + 2, clients := (clients s)(?new \<mapsto> ?d0), servers := (servers s)(p \<mapsto> ?srv)\<rparr>"
  have at1: "server_at (ticked s) p srv cs conns"
    using at conns_rep_cong [OF d(3), of "ticked s"] by (simp add: server_at_def)
  have fds: "0 \<le> fd" "fd < FD_SETSIZE" using acc(2) by (simp_all add: fd_ok_def)
  have len31: "length conns < 2 ^ 31" using len by simp
  have acpt: "AcceptClient cb p s = Inr (?new, ?s1)"
    using d(1,2) a server_size [OF at1 len31] list_size_int [OF len31] len fds z mem cb
    by (simp add: AcceptClient_def CreateNewClient_def c_step CLIENTS_LIMIT_def fd_set_add_def malloc_def
        enough_mem_def silent_def max_def)
  let ?d1 = "?d0\<lparr>m_client_timeout := timeradd now (m_maxWaitTime srv)\<rparr>"
  let ?s2 = "(ticked ?s1)\<lparr>clients := (clients s)(?new \<mapsto> ?d1)\<rparr>"
  have upd: "UpdateTimeForClient p ?new ?s1 = Inr ((), ?s2)"
    using UpdateTimeForClient_ok [of ?new ?s1 ?d0 p ?srv now] z d(1,2) tm by simp
  have old: "x \<noteq> ?new" if "x \<in> set (items (nodes s) cs)" for x
  proof
    assume "x = ?new"
    obtain i where i: "i < length (items (nodes s) cs)" "items (nodes s) cs ! i = x"
      using \<open>x \<in> _\<close> by (auto simp: in_set_conv_nth)
    have "list_all2 (client_is (clients s)) (items (nodes s) cs) conns" using d(3) by (simp add: conns_rep_def)
    then have "client_is (clients s) x (conns ! i)" using i by (auto simp: list_all2_conv_all_nth)
    moreover have "clients s ?new = None" using d(3) by (simp add: conns_rep_def)
    ultimately show False using \<open>x = ?new\<close> by (simp add: client_is_def)
  qed
  have rep2: "conns_rep ?s2 ?l (cs @ []) (conns @ [])"
  proof -
    have all: "list_all2 (client_is (clients s)) (items (nodes s) cs) conns" using d(3) by (simp add: conns_rep_def)
    have "list_all2 (client_is (clients ?s2)) (items (nodes s) cs) conns"
      by (rule list.rel_mono_strong [OF all]) (use old in \<open>auto simp: client_is_def\<close>)
    then show ?thesis using d(3) by (auto simp: conns_rep_def wf_list_mem_def)
  qed
  have rep2': "dlist (nodes ?s2) ?l cs" "wf_list_mem ?s2" using conns_repD(1,2) [OF rep2] by simp_all
  have mem2: "\<not> oom ?s2 (brk ?s2)" using mem by (simp add: enough_mem_def)
  have nz: "?new \<noteq> NULL" using z by simp
  obtain s3 where s3: "List_PushTail ?l ?new ?s2 = Inr (LIST_SUCCESS, s3)" "inserted ?s2 s3 ?l cs [] ?new"
    using List_PushTail_ok [OF rep2' nz mem2] by blast
  have nin: "?new \<notin> set (items (nodes ?s2) (cs @ []))" using old by auto
  have lens: "length conns = length cs" using conns_repD(3) [OF d(3)] .
  have cl: "client_is (clients ?s2) ?new (fd, timeradd now (m_maxWaitTime srv))" by (simp add: client_is_def)
  note i = conn_insert [OF rep2 lens s3(2) nz nin cl]
  have f: "servers s3 = servers ?s2" "trace s3 = trace s" "calls s3 = calls s + 2" "io s3 = io s" "bytes s3 = bytes s"
    by (subst i(2), simp)+
  have run: "AddClientToTheList cb p s = Inr (0, s3)"
    using acpt upd s3(1) d(1) nz by (simp add: AddClientToTheList_def c_step)
  have at3: "server_at s3 p ?srv (cs @ [brk ?s2]) (conns @ [(fd, timeradd now (m_maxWaitTime srv))])"
    using d i(1) f(1) acc(2) by (auto simp: server_at_def)
  have "evolved (sans (list_nodes ?l cs) s) (sans (list_nodes ?l cs) (s\<lparr>brk := brk s + 2\<rparr>))"
    by (rule evolved_brk [OF evolved_refl]) simp
  moreover have "?s2 = (ticked (ticked (s\<lparr>brk := brk s + 2\<rparr>)))\<lparr>servers := (servers s)(p \<mapsto> ?srv),
      clients := (clients s)(?new \<mapsto> ?d1)\<rparr>"
    by (simp add: ticked_def)
  ultimately have "evolved (sans (list_nodes ?l cs) s) (sans (list_nodes ?l cs) ?s2)"
    by (simp only:) (intro evolved_step)
  from evolved_trans [OF this] i(3)
  have ev: "evolved (sans (list_nodes ?l cs) s) (sans (list_nodes ?l (cs @ [brk ?s2])) s3)" by simp
  show ?thesis
    by (rule exI [of _ s3], rule exI [of _ "brk ?s2"], intro conjI run at3 ev f)
qed

end
