(* ===== verification/ServerLoop.thy ===== *)
theory ServerLoop
  imports ServerAccept
begin

text \<open>
  The TCP server and its application. The locale \<open>server_application\<close> states what the server
  relies on: the application is local (so the server may keep its list of clients in the same
  memory), it keeps a representation \<open>rep\<close> of its abstract state, and on an allowed request in
  the receive buffer it returns the bytes of the abstract answer. Inside the locale a whole
  pass of the server over its clients is shown to be \<open>round\<close>, the abstract server.
\<close>

section \<open>The abstract server\<close>

text \<open>
  One round over the clients. \<open>R\<close> are the sockets with something to read, \<open>rs\<close> the requests read,
  in order, with the times at which they are answered. A client that is answered gets a new
  expiry time and moves to the head of the list.
\<close>

fun round ::
  "('r \<Rightarrow> 'b \<Rightarrow> 'ans \<times> 'b) \<Rightarrow> int set \<Rightarrow> timeval \<Rightarrow> conn list \<Rightarrow> conn list \<Rightarrow> ('r \<times> timeval) list \<Rightarrow> 'b \<Rightarrow>
   conn list \<times> (int \<times> 'r \<times> 'ans) list \<times> 'b" where
  "round sv R mx us [] rs A = (us, [], A)"
| "round sv R mx us (v # vs) rs A =
     (if fst v \<notin> R then round sv R mx (us @ [v]) vs rs A
      else case rs of
        [] \<Rightarrow> (us @ v # vs, [], A)
      | (r, now) # rs' \<Rightarrow>
          let (conns, xs, A') = round sv R mx ((fst v, timeradd now mx) # us) vs rs' (snd (sv r A)) in
          (conns, (fst v, r, fst (sv r A)) # xs, A'))"

text \<open>The operating system delivers the requests \<open>rs\<close> and transmits the answers.\<close>

fun delivers :: "('r \<Rightarrow> u8 list) \<Rightarrow> os \<Rightarrow> nat \<Rightarrow> ('r \<times> timeval) list \<Rightarrow> bool" where
  "delivers enc w n [] \<longleftrightarrow> True"
| "delivers enc w n ((r, now) # rs) \<longleftrightarrow> os_recv w n = Some (enc r) \<and> 0 \<le> os_send w (n + 1) \<and>
     os_time w (n + 2) = (0, now) \<and> delivers enc w (n + 3) rs"

text \<open>What is seen on the sockets.\<close>

fun exchanged :: "('r \<Rightarrow> u8 list) \<Rightarrow> ('ans \<Rightarrow> u8 option list \<Rightarrow> bool) \<Rightarrow> (int \<times> 'r \<times> 'ans) list \<Rightarrow> io_event list \<Rightarrow> bool" where
  "exchanged enc carries [] es \<longleftrightarrow> es = []"
| "exchanged enc carries ((fd, r, a) # xs) es \<longleftrightarrow>
     (\<exists>bs es'. es = Received fd (enc r) # Sent fd bs # es' \<and> carries a bs \<and> exchanged enc carries xs es')"

lemma exchanged_mono: "exchanged enc c xs es \<Longrightarrow> (\<And>a bs. c a bs \<Longrightarrow> d a bs) \<Longrightarrow> exchanged enc d xs es"
  by (induction enc c xs es rule: exchanged.induct) auto

text \<open>Every request of the round is allowed in the state in which it is served.\<close>

fun all_allowed :: "('r \<Rightarrow> 'b \<Rightarrow> bool) \<Rightarrow> ('r \<Rightarrow> 'b \<Rightarrow> 'ans \<times> 'b) \<Rightarrow> ('r \<times> timeval) list \<Rightarrow> 'b \<Rightarrow> bool" where
  "all_allowed allowed sv [] A \<longleftrightarrow> True"
| "all_allowed allowed sv ((r, now) # rs) A \<longleftrightarrow> allowed r A \<and> all_allowed allowed sv rs (snd (sv r A))"

section \<open>The frame of the application\<close>

lemma more_same:
  fixes s s' :: "'a tcp_mem_scheme"
  assumes "db_mem.more s' = db_mem.more s"
  shows "clients s' = clients s" "servers s' = servers s" "io s' = io s" "calls s' = calls s"
    "trace s' = trace s" "stop s' = stop s"
  using assms by (cases s, cases s', simp)+

lemma run_with_list:
  fixes s :: "'a tcp_mem_scheme"
  assumes loc: "local m" and rep: "conns_rep s l cs conns"
    and run: "m (sans (list_nodes l cs) s) = Inr (q, s0)" and wf0: "wf_list_mem s0"
  obtains s' where "m s = Inr (q, s')" "sans (list_nodes l cs) s' = s0" "conns_rep s' l cs conns"
    "db_mem.more s' = db_mem.more s" "bytes s' = bytes s0" "items (nodes s') cs = items (nodes s) cs"
proof -
  let ?T = "list_nodes l cs" and ?X = "nodes s |` list_nodes l cs" and ?z = "db_mem.more s"
  note dl = conns_repD(1) [OF rep] and wf = conns_repD(2) [OF rep]
  have T: "dom ?X = ?T" using dlist_mapped [OF dl] by (auto simp: restrict_map_def split: if_splits)
  have split: "s = framed ?X ?z (sans ?T s)"
    by (cases s) (auto simp: framed_def sans_def map_add_def restrict_map_def fun_eq_iff split: option.splits)
  have o: "outside ?X (sans ?T s)"
    using wf_list_mem_dlist [OF wf dl] by (auto simp: outside_def restrict_map_def split: if_splits)
  have oe: "outside Map.empty (sans ?T s)" by (simp add: outside_def)
  note L = localD [OF loc o run, of ?z, folded split]
  have id: "framed Map.empty (db_mem.more t) t = t" for t :: "'a tcp_mem_scheme"
    by (cases t) (simp add: framed_def)
  have "m (framed Map.empty ?z (sans ?T s)) = Inr (q, framed Map.empty ?z s0)"
    using localD [OF loc oe run] by blast
  then have s0: "framed Map.empty ?z s0 = s0" using id [of "sans ?T s"] run by simp
  have more0: "db_mem.more s0 = ?z" by (subst s0 [symmetric]) simp
  let ?s' = "framed ?X ?z s0"
  have run': "m s = Inr (q, ?s')" and out: "outside ?X s0" and le: "brk s \<le> brk s0" using L by simp_all
  have disj: "nodes s0 a = None" if "a \<in> ?T" for a
  proof -
    have "a \<in> dom ?X" using that T by blast
    then show ?thesis using out by (auto simp: outside_def)
  qed
  have in_T: "nodes ?s' a = nodes s a" if "a \<in> ?T" for a
    using that disj [OF that] by (simp add: map_add_def restrict_map_def split: option.splits)
  have "nodes ?s' |` (- ?T) = nodes s0"
    using disj by (auto simp: fun_eq_iff restrict_map_def map_add_def split: option.splits)
  then have sans': "sans ?T ?s' = s0"
    using more0 by (cases s0) (simp add: sans_def framed_def)
  note same = more_same [of ?s' s, unfolded framed_simps, OF refl]
  have dl': "dlist (nodes ?s') l cs" by (rule dlist_cong [OF dl in_T])
  have it: "items (nodes ?s') cs = items (nodes s) cs" by (rule items_cong) (rule in_T, simp)
  have tl: "item_at (nodes ?s') (tail_of l) = item_at (nodes s) (tail_of l)"
    using in_T [of "tail_of l"] by (simp add: item_at_def)
  have "?X a = None" if "brk s0 \<le> a" for a
  proof -
    have "a \<notin> dom ?X" using out that by (auto simp: outside_def)
    then show ?thesis by (metis domIff)
  qed
  then have "wf_list_mem ?s'" using wf0 by (simp add: wf_list_mem_def map_add_def)
  moreover have "\<forall>a \<ge> brk ?s'. clients ?s' a = None"
    using rep same(1) le by (simp add: conns_rep_def)
  ultimately have "conns_rep ?s' l cs conns"
    using rep dl' it tl same(1) by (simp add: conns_rep_def)
  from that [OF run' sans' this _ _ it] show ?thesis by simp
qed

lemma conns_update:
  assumes rep: "conns_rep s l (xs @ c # ys) (us @ v # vs)" and len: "length us = length xs"
  shows "conns_rep (s\<lparr>clients := (clients s)(item_at (nodes s) c \<mapsto> x)\<rparr>) l (xs @ c # ys)
    (us @ (m_clientSock x, m_client_timeout x) # vs)"
proof -
  let ?cl = "item_at (nodes s) c" and ?h = "(clients s)(item_at (nodes s) c \<mapsto> x)"
  note a = conn_at [OF rep len]
  have all: "list_all2 (client_is (clients s)) (items (nodes s) xs) us"
    "list_all2 (client_is (clients s)) (items (nodes s) ys) vs"
    using rep len by (simp_all add: conns_rep_def list_all2_append)
  have "list_all2 (client_is ?h) (items (nodes s) xs) us" "list_all2 (client_is ?h) (items (nodes s) ys) vs"
    by (rule list.rel_mono_strong [OF all(1)], use a(5) in \<open>auto simp: client_is_def\<close>)
      (rule list.rel_mono_strong [OF all(2)], use a(5) in \<open>auto simp: client_is_def\<close>)
  then have "list_all2 (client_is ?h) (items (nodes s) (xs @ c # ys)) (us @ (m_clientSock x, m_client_timeout x) # vs)"
    using len by (simp add: list_all2_append client_is_def)
  moreover have "?cl < brk s"
  proof (rule ccontr)
    assume "\<not> ?cl < brk s"
    then have "clients s ?cl = None" using rep by (simp add: conns_rep_def)
    with a(4) show False by auto
  qed
  ultimately show ?thesis using rep by (auto simp: conns_rep_def wf_list_mem_def)
qed

section \<open>The interface\<close>

locale server_application =
  fixes app :: "addr \<Rightarrow> addr \<Rightarrow> int \<Rightarrow> ('a tcp_mem_scheme, addr) prog"
    and rep :: "addr \<Rightarrow> addr \<Rightarrow> 'a tcp_mem_scheme \<Rightarrow> 'b \<Rightarrow> bool"
    and enc :: "'r \<Rightarrow> u8 list"
    and allowed :: "'r \<Rightarrow> 'b \<Rightarrow> bool"
    and sv :: "'r \<Rightarrow> 'b \<Rightarrow> 'ans \<times> 'b"
    and carries :: "'ans \<Rightarrow> u8 option list \<Rightarrow> bool"
  assumes app_local: "local (app buf ctx fd)"
    and rep_env: "rep ctx buf s A \<Longrightarrow> enough_mem s \<and> wf_list_mem s"
    and rep_evolved: "rep ctx buf s A \<Longrightarrow> evolved s s' \<Longrightarrow> rep ctx buf s' A"
    and enc_fits: "allowed r A \<Longrightarrow> enc r \<noteq> [] \<and> length (enc r) \<le> BUFF_SIZE"
    and served: "\<lbrakk>rep ctx buf s A; mapped s buf BUFF_SIZE; allowed r A\<rbrakk> \<Longrightarrow>
      \<exists>q s'. app buf ctx fd (stored buf (enc r) s) = Inr (q, s') \<and> q \<noteq> NULL \<and>
        rep ctx buf s' (snd (sv r A)) \<and> mapped s' buf BUFF_SIZE \<and>
        carries (fst (sv r A)) (map (\<lambda>i. bytes s' (q + i)) [0..<BUFF_SIZE])"
begin

definition server_inv :: "'a tcp_mem_scheme \<Rightarrow> addr \<Rightarrow> Server \<Rightarrow> addr list \<Rightarrow> conn list \<Rightarrow> 'b \<Rightarrow> bool" where
  "server_inv s p srv cs conns A \<longleftrightarrow> server_at s p srv cs conns \<and>
     mapped s (m_buffer_rcv srv) BUFF_SIZE \<and>
     rep (m_context srv) (m_buffer_rcv srv) (sans (list_nodes (m_List_connectedClient srv) cs) s) A"

lemma server_invD:
  "server_inv s p srv cs conns A \<Longrightarrow> server_at s p srv cs conns"
  "server_inv s p srv cs conns A \<Longrightarrow> mapped s (m_buffer_rcv srv) BUFF_SIZE"
  "server_inv s p srv cs conns A \<Longrightarrow>
   rep (m_context srv) (m_buffer_rcv srv) (sans (list_nodes (m_List_connectedClient srv) cs) s) A"
  "server_inv s p srv cs conns A \<Longrightarrow> enough_mem s"
  using rep_env by (fastforce simp: server_inv_def enough_mem_def)+

text \<open>Steps of the server that leave the buffer alone.\<close>

lemma server_inv_step:
  assumes "server_inv s p srv cs conns A" and "server_at s' p srv' cs' conns'"
    and "m_buffer_rcv srv' = m_buffer_rcv srv" "m_context srv' = m_context srv"
    and "m_List_connectedClient srv' = m_List_connectedClient srv" and "bytes s' = bytes s"
    and "evolved (sans (list_nodes (m_List_connectedClient srv) cs) s)
      (sans (list_nodes (m_List_connectedClient srv) cs') s')"
  shows "server_inv s' p srv' cs' conns' A"
  using assms rep_evolved [OF server_invD(3) [OF assms(1)] assms(7)]
  by (simp add: server_inv_def mapped_def)

text \<open>A request is received, served and answered.\<close>

lemma action_served:
  fixes s :: "'a tcp_mem_scheme"
  assumes inv: "server_inv s p srv (xs @ c # ys) (us @ v # vs) A" and len: "length us = length xs"
    and cb: "doSomething cb = app" and ok: "allowed r A"
    and w: "os_recv (io s) (calls s) = Some (enc r)" "0 \<le> os_send (io s) (Suc (calls s))"
      "os_time (io s) (calls s + 2) = (0, now)"
  shows "\<exists>s' bs. ActionFuncSndRcv cb (item_at (nodes s) c) p s = Inr (0, s') \<and>
    server_inv s' p srv (xs @ c # ys) (us @ (fst v, timeradd now (m_maxWaitTime srv)) # vs) (snd (sv r A)) \<and>
    trace s' = trace s @ [Received (fst v) (enc r), Sent (fst v) bs] \<and> carries (fst (sv r A)) bs \<and>
    calls s' = calls s + 3 \<and> io s' = io s"
proof -
  let ?l = "m_List_connectedClient srv" and ?buf = "m_buffer_rcv srv" and ?ctx = "m_context srv"
  let ?cs = "xs @ c # ys" and ?conns = "us @ v # vs" and ?cl = "item_at (nodes s) c"
  let ?T = "list_nodes ?l ?cs" and ?new = "timeradd now (m_maxWaitTime srv)"
  note at = server_invD(1) [OF inv] and mb = server_invD(2) [OF inv] and rp = server_invD(3) [OF inv]
  note d = server_atD [OF at] and a = conn_at [OF server_atD(3) [OF at] len]
  obtain x where x: "clients s ?cl = Some x" "m_clientSock x = fst v" using a(4) by blast
  have fits: "enc r \<noteq> []" "take BUFF_SIZE (enc r) = enc r" "length (enc r) \<le> BUFF_SIZE"
    using enc_fits [OF ok] by simp_all
  have buf: "?buf \<noteq> NULL" using mb by (simp add: mapped_def)
  let ?s1 = "(ticked (stored ?buf (enc r) s))\<lparr>trace := trace s @ [Received (fst v) (enc r)]\<rparr>"
  have put: "put_bytes ?buf (enc r) (ticked s) = Inr ((), stored ?buf (enc r) (ticked s))"
    by (rule put_stored [of _ _ BUFF_SIZE]) (use mb fits in \<open>simp_all add: mapped_def\<close>)
  have "stored ?buf (enc r) (ticked s) = ticked (stored ?buf (enc r) s)"
    by (simp add: stored_def ticked_def)
  with put w(1) fits buf have recv: "sys_recv (fst v) ?buf BUFF_SIZE s = Inr (int (length (enc r)), ?s1)"
    by (simp add: sys_recv_def c_step stored_def Let_def)
  let ?s1' = "(ticked s)\<lparr>trace := trace s @ [Received (fst v) (enc r)]\<rparr>"
  have rep1: "rep ?ctx ?buf (sans ?T ?s1') A"
    by (rule rep_evolved [OF rp]) (intro evolved_step evolved_refl)
  have mb1: "mapped (sans ?T ?s1') ?buf BUFF_SIZE" using mb by (simp add: mapped_def)
  have st: "stored ?buf (enc r) (sans ?T ?s1') = sans ?T ?s1"
    by (simp add: stored_def sans_def ticked_def)
  obtain q s0 where q: "app ?buf ?ctx (fst v) (sans ?T ?s1) = Inr (q, s0)" "q \<noteq> NULL"
    "rep ?ctx ?buf s0 (snd (sv r A))" "mapped s0 ?buf BUFF_SIZE"
    "carries (fst (sv r A)) (map (\<lambda>i. bytes s0 (q + i)) [0..<BUFF_SIZE])"
    using served [OF rep1 mb1 ok] st by metis
  have cr1: "conns_rep ?s1 ?l ?cs ?conns" by (rule conns_rep_cong [OF d(3)]) (simp_all add: stored_def)
  obtain s2 where s2: "app ?buf ?ctx (fst v) ?s1 = Inr (q, s2)" "sans ?T s2 = s0"
    "conns_rep s2 ?l ?cs ?conns" "db_mem.more s2 = db_mem.more ?s1" "bytes s2 = bytes s0"
    "items (nodes s2) ?cs = items (nodes ?s1) ?cs"
    using run_with_list [OF app_local cr1 q(1)] rep_env [OF q(3)] by metis
  note m2 = more_same [OF s2(4)]
  let ?bs = "map (\<lambda>i. bytes s0 (q + i)) [0..<BUFF_SIZE]"
  let ?s3 = "(ticked s2)\<lparr>trace := trace s2 @ [Sent (fst v) ?bs]\<rparr>"
  have send: "sys_send (fst v) q BUFF_SIZE s2 = Inr (os_send (io s) (Suc (calls s)), ?s3)"
    using w(2) q(2) m2 s2(5) by (simp add: sys_send_def c_step stored_def)
  let ?s4 = "(ticked ?s3)\<lparr>clients := (clients s)(?cl \<mapsto> x\<lparr>m_client_timeout := ?new\<rparr>)\<rparr>"
  have upd: "UpdateTimeForClient p ?cl ?s3 = Inr ((), ?s4)"
    using UpdateTimeForClient_ok [of ?cl ?s3 x p srv now] a(1) x d(1,2) m2 w(3) by (simp add: stored_def)
  have run: "ActionFuncSndRcv cb ?cl p s = Inr (0, ?s4)"
    using a(1) x d(1,2) recv fits(1) s2(1) m2 send upd w(2)
    by (simp add: ActionFuncSndRcv_def c_step cb stored_def)
  have it: "item_at (nodes s2) c = ?cl" using s2(6) by (simp add: stored_def)
  have n3: "conns_rep ?s3 ?l ?cs ?conns" by (rule conns_rep_cong [OF s2(3)]) simp_all
  have "conns_rep (?s3\<lparr>clients := (clients s)(?cl \<mapsto> x\<lparr>m_client_timeout := ?new\<rparr>)\<rparr>) ?l ?cs
      (us @ (fst v, ?new) # vs)"
    using conns_update [OF n3 len, of "x\<lparr>m_client_timeout := ?new\<rparr>"] it x(2) m2(1) by (simp add: stored_def)
  then have "conns_rep ?s4 ?l ?cs (us @ (fst v, ?new) # vs)" by (rule conns_rep_cong) simp_all
  then have at4: "server_at ?s4 p srv ?cs (us @ (fst v, ?new) # vs)"
    using d(1,2,4) m2(2) by (simp add: server_at_def stored_def)
  have "evolved (sans ?T s2) (sans ?T ?s4)" by (intro evolved_step evolved_refl)
  then have r4: "rep ?ctx ?buf (sans ?T ?s4) (snd (sv r A))"
    using rep_evolved [OF q(3)] s2(2) by simp
  have mb4: "mapped ?s4 ?buf BUFF_SIZE" using q(4) s2(5) by (simp add: mapped_def)
  have inv4: "server_inv ?s4 p srv ?cs (us @ (fst v, ?new) # vs) (snd (sv r A))"
    using at4 mb4 r4 by (simp add: server_inv_def)
  have tr: "trace ?s4 = trace s @ [Received (fst v) (enc r), Sent (fst v) ?bs]"
    "calls ?s4 = calls s + 3" "io ?s4 = io s"
    using m2 by (simp_all add: stored_def)
  show ?thesis
    by (rule exI [of _ ?s4], rule exI [of _ ?bs], intro conjI run inv4 tr q(5))
qed

lemma served_client:
  fixes s :: "'a tcp_mem_scheme"
  assumes inv: "server_inv s p srv (xs @ c # ys) (us @ v # vs) A" and len: "length us = length xs"
    and cb: "doSomething cb = app" and ok: "allowed r A"
    and R: "fst v \<in> m_forSelect_fds srv" "0 < m_activity srv"
    and w: "os_recv (io s) (calls s) = Some (enc r)" "0 \<le> os_send (io s) (Suc (calls s))"
      "os_time (io s) (calls s + 2) = (0, now)"
  shows "\<exists>s' c' bs. (\<forall>k. recv_loop (Suc k) cb p c (tail_of (m_List_connectedClient srv)) s =
      recv_loop k cb p (hd (ys @ [tail_of (m_List_connectedClient srv)])) (tail_of (m_List_connectedClient srv)) s') \<and>
    server_inv s' p (srv\<lparr>m_activity := m_activity srv - 1\<rparr>) (c' # xs @ ys)
      ((fst v, timeradd now (m_maxWaitTime srv)) # us @ vs) (snd (sv r A)) \<and>
    trace s' = trace s @ [Received (fst v) (enc r), Sent (fst v) bs] \<and> carries (fst (sv r A)) bs \<and>
    calls s' = calls s + 3 \<and> io s' = io s"
proof -
  let ?l = "m_List_connectedClient srv" and ?srv = "srv\<lparr>m_activity := m_activity srv - 1\<rparr>"
  let ?cl = "item_at (nodes s) c" and ?v = "(fst v, timeradd now (m_maxWaitTime srv))"
  let ?s1 = "s\<lparr>servers := (servers s)(p \<mapsto> ?srv)\<rparr>"
  note at = server_invD(1) [OF inv]
  note d = server_atD [OF at] and a = conn_at [OF server_atD(3) [OF at] len]
  obtain x where x: "clients s ?cl = Some x" "m_clientSock x = fst v" using a(4) by blast
  have at1: "server_at ?s1 p ?srv (xs @ c # ys) (us @ v # vs)"
    using d conns_rep_cong [OF d(3), of ?s1] by (simp add: server_at_def)
  have inv1: "server_inv ?s1 p ?srv (xs @ c # ys) (us @ v # vs) A"
    by (rule server_inv_step [OF inv at1]) (simp_all, intro evolved_step evolved_refl)
  obtain s2 bs where s2: "ActionFuncSndRcv cb ?cl p ?s1 = Inr (0, s2)"
    "server_inv s2 p ?srv (xs @ c # ys) (us @ ?v # vs) (snd (sv r A))"
    "trace s2 = trace s @ [Received (fst v) (enc r), Sent (fst v) bs]" "carries (fst (sv r A)) bs"
    "calls s2 = calls s + 3" "io s2 = io s"
    using action_served [OF inv1 len cb ok, of now] w by auto
  note d2 = server_atD [OF server_invD(1) [OF s2(2)]]
  have mem: "\<not> oom s2 (brk s2)" using server_invD(4) [OF s2(2)] by (simp add: enough_mem_def)
  have rep2: "conns_rep s2 ?l (xs @ c # ys) (us @ ?v # vs)" using d2(3) by simp
  obtain s3 s4 where s4: "ListItr_Next c s2 = Inr (hd (ys @ [tail_of ?l]), s2)"
    "ListItr_Prev (hd (ys @ [tail_of ?l])) s2 = Inr (c, s2)"
    "ListItr_Remove c s2 = Inr (item_at (nodes s2) c, s3)"
    "List_PushHead ?l (item_at (nodes s2) c) s3 = Inr (LIST_SUCCESS, s4)"
    "conns_rep s4 ?l (brk s2 # xs @ ys) (?v # us @ vs)" "s4 = s2\<lparr>brk := brk s4, nodes := nodes s4\<rparr>"
    "evolved (sans (list_nodes ?l (xs @ c # ys)) s2) (sans (list_nodes ?l (brk s2 # xs @ ys)) s4)"
    using conn_rotate [OF rep2 len mem] by metis
  have f: "servers s4 = servers s2" "trace s4 = trace s2" "calls s4 = calls s2" "io s4 = io s2" "bytes s4 = bytes s2"
    by (subst s4(6), simp)+
  have run: "recv_loop (Suc k) cb p c (tail_of ?l) s = recv_loop k cb p (hd (ys @ [tail_of ?l])) (tail_of ?l) s4" for k
    using a d(1,2) x R s2(1) s4(1-4) by (simp add: c_step)
  have at4: "server_at s4 p ?srv (brk s2 # xs @ ys) (?v # us @ vs)"
    using d2 s4(5) f(1) by (auto simp: server_at_def)
  have inv4: "server_inv s4 p ?srv (brk s2 # xs @ ys) (?v # us @ vs) (snd (sv r A))"
    by (rule server_inv_step [OF s2(2) at4]) (use s4(7) f in simp_all)
  show ?thesis
    by (rule exI [of _ s4], rule exI [of _ "brk s2"], rule exI [of _ bs], intro conjI allI run inv4)
      (use f s2 in simp_all)
qed

lemma round_idle:
  "filter (\<lambda>v. fst v \<in> R) vs = [] \<Longrightarrow> round sv R mx us vs rs A = (us @ vs, [], A)"
  by (induction vs arbitrary: us) (auto split: if_splits)

lemma recv_loop_round:
  fixes s :: "'a tcp_mem_scheme"
  assumes "server_inv s p srv (xs @ ys) (us @ vs) A" and "length us = length xs"
    and cb: "doSomething cb = app" and R: "m_forSelect_fds srv = R"
    and "int (length (filter (\<lambda>v. fst v \<in> R) vs)) \<le> m_activity srv"
    and "length rs = length (filter (\<lambda>v. fst v \<in> R) vs)" and "all_allowed allowed sv rs A"
    and "delivers enc (io s) (calls s) rs" and "length ys < k" and mx: "m_maxWaitTime srv = mx"
    and l: "m_List_connectedClient srv = l"
    and "round sv R mx us vs rs A = (conns', ex, A')"
  shows "\<exists>s' cs' n es. recv_loop k cb p (hd (ys @ [tail_of l])) (tail_of l) s = Inr (0, s') \<and>
    server_inv s' p (srv\<lparr>m_activity := n\<rparr>) cs' conns' A' \<and> trace s' = trace s @ es \<and>
    exchanged enc carries ex es \<and> calls s' = calls s + 3 * length rs \<and> io s' = io s"
  using assms(1,2,4-)
proof (induction vs arbitrary: xs ys us rs s srv A ex k)
  case Nil
  note at = server_invD(1) [OF Nil.prems(1)]
  have ys: "ys = []" using conns_repD(3) [OF server_atD(3) [OF at]] Nil.prems(2) by simp
  obtain k' where k: "k = Suc k'" using Nil.prems(8) by (cases k) auto
  have "recv_loop k cb p (tail_of l) (tail_of l) s = Inr (0, s)"
    using server_atD [OF at] conns_end [of s l] Nil.prems(10) k by (auto simp: c_step)
  moreover have "server_inv s p (srv\<lparr>m_activity := m_activity srv\<rparr>) xs us A" using Nil.prems(1) ys by simp
  ultimately show ?case using ys Nil.prems(5,11)
    by (intro exI [of _ s] exI [of _ xs] exI [of _ "m_activity srv"] exI [of _ "[]"]) simp
next
  case (Cons v vs)
  note at = server_invD(1) [OF Cons.prems(1)]
  note d = server_atD [OF at]
  obtain c ys' where ys: "ys = c # ys'"
    using conns_repD(3) [OF d(3)] Cons.prems(2) by (cases ys) auto
  obtain k' where k: "k = Suc k'" using Cons.prems(8) by (cases k) auto
  have inv: "server_inv s p srv (xs @ c # ys') (us @ v # vs) A" using Cons.prems(1) ys by simp
  have rep: "conns_rep s l (xs @ c # ys') (us @ v # vs)" using d(3) ys Cons.prems(10) by simp
  note a = conn_at [OF rep Cons.prems(2)]
  consider (stop) "m_activity srv \<le> 0" | (skip) "0 < m_activity srv" "fst v \<notin> R"
    | (serve) "0 < m_activity srv" "fst v \<in> R" by linarith
  then show ?case
  proof cases
    case stop
    then have "length (filter (\<lambda>v. fst v \<in> R) (v # vs)) = 0" using Cons.prems(4) by linarith
    then have none: "filter (\<lambda>v. fst v \<in> R) (v # vs) = []" by (simp only: length_0_conv)
    have r: "conns' = us @ v # vs" "ex = []" "A' = A" "rs = []"
      using round_idle [OF none, of mx us rs A] Cons.prems(11,5) none by auto
    have "recv_loop k cb p c (tail_of l) s = Inr (0, s)"
      using a(6) d(1,2) stop k by (simp add: c_step)
    moreover have "server_inv s p (srv\<lparr>m_activity := m_activity srv\<rparr>) (xs @ c # ys') (us @ v # vs) A"
      using inv by simp
    ultimately show ?thesis using ys r
      by (intro exI [of _ s] exI [of _ "xs @ c # ys'"] exI [of _ "m_activity srv"] exI [of _ "[]"]) simp
  next
    case skip
    have "fst v \<notin> m_forSelect_fds srv" using skip(2) Cons.prems(3) by simp
    note sk = recv_skip [OF rep Cons.prems(2) d(1,2) this skip(1), of k' cb]
    have inv': "server_inv s p srv ((xs @ [c]) @ ys') ((us @ [v]) @ vs) A" using inv by simp
    note IH = Cons.IH [OF inv' _ Cons.prems(3), of rs k' ex]
    show ?thesis using IH sk ys k skip Cons.prems by simp
  next
    case serve
    then obtain r now rs' where rs: "rs = (r, now) # rs'"
      using Cons.prems(5) by (cases rs) auto
    obtain ex' where ex: "ex = (fst v, r, fst (sv r A)) # ex'"
      "round sv R mx ((fst v, timeradd now mx) # us) vs rs' (snd (sv r A)) = (conns', ex', A')"
      using Cons.prems(11) rs serve(2) by (auto simp: Let_def split: prod.splits)
    have w: "os_recv (io s) (calls s) = Some (enc r)" "0 \<le> os_send (io s) (Suc (calls s))"
      "os_time (io s) (calls s + 2) = (0, now)" "delivers enc (io s) (calls s + 3) rs'" "allowed r A"
      "all_allowed allowed sv rs' (snd (sv r A))"
      using Cons.prems(6,7) rs by simp_all
    have Rv: "fst v \<in> m_forSelect_fds srv" using serve(2) Cons.prems(3) by simp
    let ?srv = "srv\<lparr>m_activity := m_activity srv - 1\<rparr>"
    obtain s1 c' bs where s1: "\<forall>k. recv_loop (Suc k) cb p c (tail_of l) s =
        recv_loop k cb p (hd (ys' @ [tail_of l])) (tail_of l) s1"
      "server_inv s1 p ?srv (c' # xs @ ys') ((fst v, timeradd now mx) # us @ vs) (snd (sv r A))"
      "trace s1 = trace s @ [Received (fst v) (enc r), Sent (fst v) bs]" "carries (fst (sv r A)) bs"
      "calls s1 = calls s + 3" "io s1 = io s"
      using served_client [OF inv Cons.prems(2) cb w(5) Rv serve(1) w(1-3)] Cons.prems(9,10) by auto
    have inv1: "server_inv s1 p ?srv ((c' # xs) @ ys') (((fst v, timeradd now mx) # us) @ vs) (snd (sv r A))"
      using s1(2) by simp
    note IH = Cons.IH [OF inv1, of rs' k' ex']
    obtain s2 cs2 n es where s2: "recv_loop k' cb p (hd (ys' @ [tail_of l])) (tail_of l) s1 = Inr (0, s2)"
      "server_inv s2 p (?srv\<lparr>m_activity := n\<rparr>) cs2 conns' A'" "trace s2 = trace s1 @ es"
      "exchanged enc carries ex' es" "calls s2 = calls s1 + 3 * length rs'" "io s2 = io s1"
      using IH Cons.prems ys k serve(2) rs w s1(5,6) ex(2) by auto
    have "exchanged enc carries ex (Received (fst v) (enc r) # Sent (fst v) bs # es)"
      using ex(1) s1(4) s2(4) by simp
    then show ?thesis using s2 s1 ys k rs
      by (intro exI [of _ s2] exI [of _ cs2] exI [of _ n] exI [of _ "Received (fst v) (enc r) # Sent (fst v) bs # es"]) simp
  qed
qed

end

end
