(* ===== verification/ServerPasses.thy ===== *)
theory ServerPasses
  imports ServerLoop "HOL-Library.Multiset"
begin

text \<open>
  Passes of the loop of \<open>RunServer\<close>, as a refinement of an abstract server. The inputs of a pass
  (what the operating system reports) are the type \<open>input\<close>; \<open>feeds\<close> says that the operating
  system delivers an input, \<open>apass\<close> is the abstract pass. \<open>passes_refine\<close>: any number of
  passes does what the abstract server does, for any application that satisfies the interface.
\<close>

section \<open>Abstract passes\<close>

datatype 'r input =
  Refused
| Timeout timeval
| Requests "int set" "('r \<times> timeval) list"
| Connect int timeval "int set" "('r \<times> timeval) list"

type_synonym ('r, 'ans) outcome = "int list \<times> (int \<times> 'r \<times> 'ans) list"

fun apass ::
  "('r \<Rightarrow> 'b \<Rightarrow> 'ans \<times> 'b) \<Rightarrow> timeval \<Rightarrow> 'r input \<Rightarrow> conn list \<Rightarrow> 'b \<Rightarrow> conn list \<times> ('r, 'ans) outcome \<times> 'b" where
  "apass sv mx Refused conns A = (conns, ([], []), A)"
| "apass sv mx (Timeout now) conns A =
     (dropWhile (expired now) conns, (map fst (takeWhile (expired now) conns), []), A)"
| "apass sv mx (Requests R rs) conns A =
     (let (conns', ex, A') = round sv R mx [] conns rs A in (conns', ([], ex), A'))"
| "apass sv mx (Connect fd now R rs) conns A =
     (let (conns', ex, A') = round sv R mx [] (conns @ [(fd, timeradd now mx)]) rs A in (conns', ([], ex), A'))"

text \<open>The call of \<open>select\<close> and, if there are clients, its time-out.\<close>

definition ttl_ok :: "os \<Rightarrow> nat \<Rightarrow> conn list \<Rightarrow> bool" where
  "ttl_ok w n conns \<longleftrightarrow> (conns = [] \<or>
     (let ttl = timersub (snd (hd conns)) (snd (os_time w n)) in 0 \<le> tv_sec ttl \<and> 0 \<le> tv_usec ttl))"

definition sel :: "nat \<Rightarrow> conn list \<Rightarrow> nat" where
  "sel n conns = (if conns = [] then n else Suc n)"

fun feeds :: "('r \<Rightarrow> u8 list) \<Rightarrow> os \<Rightarrow> nat \<Rightarrow> int \<Rightarrow> conn list \<Rightarrow> 'r input \<Rightarrow> bool" where
  "feeds enc w n m conns Refused \<longleftrightarrow> \<not> ttl_ok w n conns \<or> os_select w (sel n conns) = None"
| "feeds enc w n m conns (Timeout now) \<longleftrightarrow> ttl_ok w n conns \<and> os_select w (sel n conns) = Some {} \<and>
     snd (os_time w (sel n conns + 1)) = now"
| "feeds enc w n m conns (Requests R rs) \<longleftrightarrow> ttl_ok w n conns \<and> os_select w (sel n conns) = Some R \<and>
     R \<noteq> {} \<and> R \<subseteq> fst ` set conns \<and> length rs = card R \<and> delivers enc w (sel n conns + 1) rs"
| "feeds enc w n m conns (Connect fd now R rs) \<longleftrightarrow> ttl_ok w n conns \<and>
     os_select w (sel n conns) = Some (insert m R) \<and> R \<subseteq> fst ` set conns \<and> length rs = card R \<and>
     fst (os_accept w (sel n conns + 1)) = fd \<and> fd_ok fd \<and> fd \<noteq> m \<and> fd \<notin> fst ` set conns \<and>
     length conns \<le> 1000 \<and> os_time w (sel n conns + 2) = (0, now) \<and> delivers enc w (sel n conns + 3) rs"

fun after :: "nat \<Rightarrow> conn list \<Rightarrow> 'r input \<Rightarrow> nat" where
  "after n conns Refused = sel n conns + 1"
| "after n conns (Timeout now) = sel n conns + 2"
| "after n conns (Requests R rs) = sel n conns + 1 + 3 * length rs"
| "after n conns (Connect fd now R rs) = sel n conns + 3 + 3 * length rs"

fun requests :: "'r input \<Rightarrow> ('r \<times> timeval) list" where
  "requests (Requests R rs) = rs"
| "requests (Connect fd now R rs) = rs"
| "requests _ = []"

text \<open>Several passes: the inputs in order, the clients and the abstract state after them.\<close>

fun apasses ::
  "('r \<Rightarrow> 'b \<Rightarrow> 'ans \<times> 'b) \<Rightarrow> timeval \<Rightarrow> 'r input list \<Rightarrow> conn list \<Rightarrow> 'b \<Rightarrow>
   conn list \<times> ('r, 'ans) outcome list \<times> 'b" where
  "apasses sv mx [] conns A = (conns, [], A)"
| "apasses sv mx (inp # inps) conns A =
     (let (conns1, out, A1) = apass sv mx inp conns A; (conns2, outs, A2) = apasses sv mx inps conns1 A1
      in (conns2, out # outs, A2))"

fun feeds_all ::
  "('r \<Rightarrow> u8 list) \<Rightarrow> ('r \<Rightarrow> 'b \<Rightarrow> bool) \<Rightarrow> ('r \<Rightarrow> 'b \<Rightarrow> 'ans \<times> 'b) \<Rightarrow> timeval \<Rightarrow> os \<Rightarrow> nat \<Rightarrow> int \<Rightarrow> conn list \<Rightarrow> 'b \<Rightarrow>
   'r input list \<Rightarrow> bool" where
  "feeds_all enc allowed sv mx w n m conns A [] \<longleftrightarrow> True"
| "feeds_all enc allowed sv mx w n m conns A (inp # inps) \<longleftrightarrow>
     feeds enc w n m conns inp \<and> all_allowed allowed sv (requests inp) A \<and>
     (let (conns1, out, A1) = apass sv mx inp conns A in
      feeds_all enc allowed sv mx w (after n conns inp) m conns1 A1 inps)"

fun observed :: "('r \<Rightarrow> u8 list) \<Rightarrow> ('ans \<Rightarrow> u8 option list \<Rightarrow> bool) \<Rightarrow> ('r, 'ans) outcome list \<Rightarrow> io_event list \<Rightarrow> bool" where
  "observed enc carries [] es \<longleftrightarrow> es = []"
| "observed enc carries ((cl, ex) # outs) es \<longleftrightarrow>
     (\<exists>es1 es2. es = map Closed cl @ es1 @ es2 \<and> exchanged enc carries ex es1 \<and> observed enc carries outs es2)"

section \<open>Sets of descriptors\<close>

text \<open>\<open>select\<close> watches the listening socket and the sockets of the clients, and no others.\<close>

definition fds_inv :: "Server \<Rightarrow> conn list \<Rightarrow> bool" where
  "fds_inv srv conns \<longleftrightarrow> m_master_fds srv = insert (m_masterSocket srv) (fst ` set conns) \<and>
     distinct (m_masterSocket srv # map fst conns) \<and> (\<forall>fd \<in> m_master_fds srv. fd \<le> m_max_socket srv)"

lemma ready_count:
  assumes "distinct (map fst conns)" and "R \<subseteq> fst ` set conns"
  shows "length (filter (\<lambda>v. fst v \<in> R) conns) = card R"
proof -
  have d: "distinct (map fst (filter (\<lambda>v. fst v \<in> R) conns))" using assms(1) by (simp add: distinct_map_filter)
  have "set (map fst (filter (\<lambda>v. fst v \<in> R) conns)) = R" using assms(2) by auto
  then show ?thesis using distinct_card [OF d] by simp
qed

lemma round_fds:
  "round sv R mx us vs rs A = (conns', ex, A') \<Longrightarrow> mset (map fst conns') = mset (map fst (us @ vs))"
proof (induction vs arbitrary: us rs A ex)
  case Nil
  then show ?case by simp
next
  case (Cons v vs)
  show ?case
  proof (cases "fst v \<in> R")
    case False
    then show ?thesis using Cons.IH [of "us @ [v]" rs A ex] Cons.prems by simp
  next
    case True
    show ?thesis
    proof (cases rs)
      case Nil
      then show ?thesis using True Cons.prems by auto
    next
      case (Cons q rs')
      obtain r now where "q = (r, now)" by (cases q)
      then show ?thesis
        using True Cons Cons.prems Cons.IH [of "(fst v, timeradd now mx) # us" rs' "snd (sv r A)"]
        by (auto simp: Let_def split: prod.splits)
    qed
  qed
qed

lemma round_distinct:
  assumes "round sv R mx us vs rs A = (conns', ex, A')"
  shows "fst ` set conns' = fst ` set (us @ vs)" "distinct (map fst conns') \<longleftrightarrow> distinct (map fst (us @ vs))"
    "length conns' = length (us @ vs)"
proof -
  note m = round_fds [OF assms]
  have "set (map fst conns') = set (map fst (us @ vs))" using m by (rule mset_eq_setD)
  then show "fst ` set conns' = fst ` set (us @ vs)" by (simp add: image_Un)
  show "distinct (map fst conns') \<longleftrightarrow> distinct (map fst (us @ vs))"
    using mset_eq_imp_distinct_iff [OF m] .
  show "length conns' = length (us @ vs)" using mset_eq_length [OF m] by simp
qed

lemma fds_inv_round:
  assumes "fds_inv srv conns" and "round sv R mx [] conns rs A = (conns', ex, A')"
  shows "fds_inv srv conns'"
  using assms(1) round_distinct [OF assms(2)] unfolding fds_inv_def by (auto simp del: set_map simp flip: set_map)

lemma fds_inv_expiry:
  assumes "fds_inv srv conns"
  shows "fds_inv (srv\<lparr>m_master_fds := m_master_fds srv - fst ` set (takeWhile P conns)\<rparr>) (dropWhile P conns)"
proof -
  have e: "conns = takeWhile P conns @ dropWhile P conns" by simp
  have d: "distinct (m_masterSocket srv # map fst (takeWhile P conns) @ map fst (dropWhile P conns))"
    using assms unfolding fds_inv_def by (metis e map_append)
  have "fst ` set conns = fst ` set (takeWhile P conns) \<union> fst ` set (dropWhile P conns)"
    by (subst e) (simp only: set_append image_Un)
  then show ?thesis using assms d by (auto simp: fds_inv_def)
qed

section \<open>The first half of a pass\<close>

text \<open>The emptiness test, the time-out and \<open>select\<close>, up to the stored result.\<close>

definition select_part :: "addr \<Rightarrow> ('a tcp_mem_scheme, int) prog" where
  "select_part server =
     chain (wr_server server (\<lambda>srv. srv\<lparr>m_forSelect_fds := m_master_fds srv\<rparr>)) (\<lambda>_.
     chain (Check_list_empty server) (\<lambda>empty.
     chain
       (if empty = 1 then
          chain (rd_server server) (\<lambda>srv. sys_select (m_max_socket srv + 1) (m_forSelect_fds srv) None)
        else
          chain (GetTTL server) (\<lambda>ttl.
          chain (wr_server server (\<lambda>srv. srv\<lparr>m_timeout := ttl\<rparr>)) (\<lambda>_.
          chain (rd_server server) (\<lambda>srv.
          sys_select (m_max_socket srv + 1) (m_forSelect_fds srv) (Some (m_timeout srv)))))) (\<lambda>(r, ready).
     chain (wr_server server (\<lambda>srv. srv\<lparr>m_activity := r, m_forSelect_fds := ready\<rparr>)) (\<lambda>_. ret r))))"

lemma server_pass_split:
  "server_pass cb server =
     chain (select_part server) (\<lambda>r.
     if r = - 1 then ret ()
     else if r = 0 then chain (Check_expiry_of_Clients cb server) (\<lambda>_. ret ())
     else
       chain (rd_server server) (\<lambda>srv.
       chain (if m_masterSocket srv \<in> m_forSelect_fds srv
              then chain (AddClientToTheList cb server) (\<lambda>_. ret ()) else ret ()) (\<lambda>_.
       chain (rd_server server) (\<lambda>srv.
       if 0 < m_activity srv then chain (ReceiveAndSend cb server) (\<lambda>_. ret ()) else ret ()))))"
proof -
  have prod: "chain (case x of (a, b) \<Rightarrow> f a b) g = (case x of (a, b) \<Rightarrow> chain (f a b) g)" for x :: "'x \<times> 'y" and f g
    by (cases x) simp
  show ?thesis unfolding server_pass_def select_part_def by (simp add: chain_assoc split_def)
qed

text \<open>The result of \<open>select\<close> under \<open>ttl_ok\<close>, and the set of ready descriptors.\<close>

definition select_result :: "os \<Rightarrow> nat \<Rightarrow> Server \<Rightarrow> conn list \<Rightarrow> int \<times> int set" where
  "select_result w n srv conns =
     (if \<not> ttl_ok w n conns then (- 1, m_master_fds srv)
      else case os_select w (sel n conns) of
        None \<Rightarrow> (- 1, m_master_fds srv)
      | Some R \<Rightarrow> (int (card (m_master_fds srv \<inter> R)), m_master_fds srv \<inter> R))"

lemma server_at_fields:
  fixes s s' :: "'a tcp_mem_scheme"
  assumes "server_at s p srv cs conns"
    and "nodes s' = nodes s" "clients s' = clients s" "brk s' = brk s" "servers s' = (servers s)(p \<mapsto> srv')"
    and "m_List_connectedClient srv' = m_List_connectedClient srv"
  shows "server_at s' p srv' cs conns"
  using assms conns_rep_cong [OF server_atD(3) [OF assms(1)], of s'] by (simp add: server_at_def)

lemma select_part_ok:
  fixes s :: "'a tcp_mem_scheme"
  assumes at: "server_at s p srv cs conns" and len: "length conns < 2 ^ 31" and fds: "fds_inv srv conns"
  shows "\<exists>s' to. select_part p s = Inr (fst (select_result (io s) (calls s) srv conns), s') \<and>
    server_at s' p (srv\<lparr>m_timeout := to, m_activity := fst (select_result (io s) (calls s) srv conns),
      m_forSelect_fds := snd (select_result (io s) (calls s) srv conns)\<rparr>) cs conns \<and>
    calls s' = sel (calls s) conns + 1 \<and> io s' = io s \<and> trace s' = trace s \<and> bytes s' = bytes s \<and>
    evolved (sans (list_nodes (m_List_connectedClient srv) cs) s)
      (sans (list_nodes (m_List_connectedClient srv) cs) s')"
proof -
  note d = server_atD [OF at]
  let ?srv1 = "srv\<lparr>m_forSelect_fds := m_master_fds srv\<rparr>"
  let ?s1 = "s\<lparr>servers := (servers s)(p \<mapsto> ?srv1)\<rparr>"
  have at1: "server_at ?s1 p ?srv1 cs conns" by (rule server_at_fields [OF at]) simp_all
  note empty = Check_list_empty_ok [OF at1 len]
  have below: "{a \<in> m_master_fds srv. a \<in> R \<and> a \<le> m_max_socket srv} = m_master_fds srv \<inter> R" for R
    using fds by (auto simp: fds_inv_def)
  let ?res = "select_result (io s) (calls s) srv conns"
  show ?thesis
  proof (cases "conns = []")
    case True
    let ?s2 = "(ticked ?s1)\<lparr>servers := (servers s)(p \<mapsto> srv\<lparr>m_activity := fst ?res, m_forSelect_fds := snd ?res\<rparr>)\<rparr>"
    have "select_part p s = Inr (fst ?res, ?s2)"
      using d(1,2) empty True
      by (auto simp: select_part_def c_step sys_select_def select_result_def ttl_ok_def sel_def below Let_def
          split: option.splits)
    moreover have "server_at ?s2 p (srv\<lparr>m_timeout := m_timeout srv, m_activity := fst ?res, m_forSelect_fds := snd ?res\<rparr>) cs conns"
      by (rule server_at_fields [OF at]) simp_all
    moreover have "evolved (sans (list_nodes (m_List_connectedClient srv) cs) s)
        (sans (list_nodes (m_List_connectedClient srv) cs) ?s2)"
      by (intro evolved_step evolved_refl)
    ultimately show ?thesis using True
      by (intro exI [of _ ?s2] exI [of _ "m_timeout srv"]) (simp add: sel_def)
  next
    case False
    then obtain v vs where v: "conns = v # vs" by (cases conns) auto
    let ?ttl = "timersub (snd v) (snd (os_time (io s) (calls s)))"
    have ttl: "GetTTL p ?s1 = Inr (?ttl, ticked ?s1)"
      using GetTTL_ok [of ?s1 p ?srv1 cs v vs] at1 v by simp
    let ?s2 = "(ticked (ticked ?s1))\<lparr>servers := (servers s)(p \<mapsto> srv\<lparr>m_timeout := ?ttl, m_activity := fst ?res, m_forSelect_fds := snd ?res\<rparr>)\<rparr>"
    have c: "ticked (x\<lparr>servers := y\<rparr>) = (ticked x)\<lparr>servers := y\<rparr>" for x :: "'a tcp_mem_scheme" and y
      by (simp add: ticked_def)
    have "select_part p s = Inr (fst ?res, ?s2)"
      using d(1,2) empty v ttl
      by (auto simp: select_part_def c_step sys_select_def select_result_def ttl_ok_def sel_def below Let_def c
          split: option.splits)
    moreover have "server_at ?s2 p (srv\<lparr>m_timeout := ?ttl, m_activity := fst ?res, m_forSelect_fds := snd ?res\<rparr>) cs conns"
      by (rule server_at_fields [OF at]) simp_all
    moreover have "evolved (sans (list_nodes (m_List_connectedClient srv) cs) s)
        (sans (list_nodes (m_List_connectedClient srv) cs) ?s2)"
      by (intro evolved_step evolved_refl)
    ultimately show ?thesis using False
      by (intro exI [of _ ?s2] exI [of _ ?ttl]) (simp add: sel_def)
  qed
qed

lemma round_cong: "(\<And>v. v \<in> set vs \<Longrightarrow> fst v \<in> R \<longleftrightarrow> fst v \<in> R') \<Longrightarrow> round sv R mx us vs rs A = round sv R' mx us vs rs A"
  by (induction sv R mx us vs rs A rule: round.induct) (auto split: list.splits)

text \<open>The body of the loop of \<open>RunServer\<close>, \<open>k\<close> times.\<close>

fun passes :: "'a tcp_mem_scheme callbacks \<Rightarrow> addr \<Rightarrow> nat \<Rightarrow> ('a tcp_mem_scheme, unit) prog" where
  "passes cb p 0 = ret ()"
| "passes cb p (Suc k) = chain (server_pass cb p) (\<lambda>_. passes cb p k)"

section \<open>Refinement of a pass\<close>

context server_application
begin

definition loop_inv :: "'a tcp_mem_scheme \<Rightarrow> addr \<Rightarrow> timeval \<Rightarrow> int \<Rightarrow> conn list \<Rightarrow> 'b \<Rightarrow> bool" where
  "loop_inv s p mx m conns A \<longleftrightarrow> (\<exists>srv cs. server_inv s p srv cs conns A \<and> fds_inv srv conns \<and>
     length conns \<le> 1001 \<and> m_maxWaitTime srv = mx \<and> m_masterSocket srv = m \<and> m_magicNum srv = MAGIC_NUM)"

lemma loop_invI:
  "\<lbrakk>server_inv s p srv cs conns A; fds_inv srv conns; length conns \<le> 1001; m_maxWaitTime srv = mx;
    m_masterSocket srv = m; m_magicNum srv = MAGIC_NUM\<rbrakk> \<Longrightarrow> loop_inv s p mx m conns A"
  unfolding loop_inv_def by blast

text \<open>The clients are served, from the state after \<open>select\<close>.\<close>

lemma ReceiveAndSend_round:
  fixes s :: "'a tcp_mem_scheme"
  assumes inv: "server_inv s p srv cs conns A" and cb: "doSomething cb = app"
    and sub: "R \<subseteq> fst ` set conns" and R: "\<forall>v \<in> set conns. fst v \<in> m_forSelect_fds srv \<longleftrightarrow> fst v \<in> R"
    and dist: "distinct (map fst conns)" and act: "int (card R) \<le> m_activity srv"
    and rs: "length rs = card R" "all_allowed allowed sv rs A" "delivers enc (io s) (calls s) rs"
    and rd: "round sv R (m_maxWaitTime srv) [] conns rs A = (conns', ex, A')"
  shows "\<exists>s' cs' n es. ReceiveAndSend cb p s = Inr (0, s') \<and>
    server_inv s' p (srv\<lparr>m_activity := n\<rparr>) cs' conns' A' \<and> trace s' = trace s @ es \<and>
    exchanged enc carries ex es \<and> calls s' = calls s + 3 * length rs \<and> io s' = io s"
proof -
  let ?l = "m_List_connectedClient srv"
  note at = server_invD(1) [OF inv]
  note b = server_at_bounds [OF at] and d = server_atD [OF at]
  have f: "filter (\<lambda>v. fst v \<in> m_forSelect_fds srv) conns = filter (\<lambda>v. fst v \<in> R) conns"
    by (rule filter_cong) (use R in auto)
  have cnt: "length (filter (\<lambda>v. fst v \<in> m_forSelect_fds srv) conns) = card R"
    using ready_count [OF dist sub] f by simp
  have rd': "round sv (m_forSelect_fds srv) (m_maxWaitTime srv) [] conns rs A = (conns', ex, A')"
    using round_cong [of conns "m_forSelect_fds srv" R sv "m_maxWaitTime srv" "[]" rs A] R rd by auto
  have inv0: "server_inv s p srv ([] @ cs) ([] @ conns) A" using inv by simp
  have len0: "length ([] :: conn list) = length ([] :: addr list)" by simp
  have act': "int (length (filter (\<lambda>v. fst v \<in> m_forSelect_fds srv) conns)) \<le> m_activity srv"
    and rs': "length rs = length (filter (\<lambda>v. fst v \<in> m_forSelect_fds srv) conns)"
    using cnt act rs(1) by simp_all
  note L = recv_loop_round [OF inv0 len0 cb refl act' rs' rs(2,3) b(1) refl refl rd']
  obtain s' cs' n es where s': "recv_loop (brk s) cb p (hd (cs @ [tail_of ?l])) (tail_of ?l) s = Inr (0, s')"
    "server_inv s' p (srv\<lparr>m_activity := n\<rparr>) cs' conns' A'" "trace s' = trace s @ es"
    "exchanged enc carries ex es" "calls s' = calls s + 3 * length rs" "io s' = io s"
    using L by (elim exE conjE) (rule that; assumption)
  have "ReceiveAndSend cb p s = Inr (0, s')"
    using d(1,2) b s'(1) by (simp add: ReceiveAndSend_def c_step)
  with s'(2-) show ?thesis by blast
qed

lemma select_inv:
  fixes s :: "'a tcp_mem_scheme"
  assumes inv: "server_inv s p srv cs conns A" and fds: "fds_inv srv conns" and len: "length conns \<le> 1001"
  shows "\<exists>s1 to. select_part p s = Inr (fst (select_result (io s) (calls s) srv conns), s1) \<and>
    server_inv s1 p (srv\<lparr>m_timeout := to, m_activity := fst (select_result (io s) (calls s) srv conns),
      m_forSelect_fds := snd (select_result (io s) (calls s) srv conns)\<rparr>) cs conns A \<and>
    calls s1 = sel (calls s) conns + 1 \<and> io s1 = io s \<and> trace s1 = trace s"
proof -
  have len31: "length conns < 2 ^ 31" using len by simp
  obtain s1 to where s1: "select_part p s = Inr (fst (select_result (io s) (calls s) srv conns), s1)"
    "server_at s1 p (srv\<lparr>m_timeout := to, m_activity := fst (select_result (io s) (calls s) srv conns),
      m_forSelect_fds := snd (select_result (io s) (calls s) srv conns)\<rparr>) cs conns"
    "calls s1 = sel (calls s) conns + 1" "io s1 = io s" "trace s1 = trace s" "bytes s1 = bytes s"
    "evolved (sans (list_nodes (m_List_connectedClient srv) cs) s)
      (sans (list_nodes (m_List_connectedClient srv) cs) s1)"
    using select_part_ok [OF server_invD(1) [OF inv] len31 fds] by (elim exE conjE) (rule that; assumption)
  have "server_inv s1 p (srv\<lparr>m_timeout := to, m_activity := fst (select_result (io s) (calls s) srv conns),
      m_forSelect_fds := snd (select_result (io s) (calls s) srv conns)\<rparr>) cs conns A"
    by (rule server_inv_step [OF inv s1(2)]) (use s1(6,7) in simp_all)
  with s1(1,3-5) show ?thesis by blast
qed

lemma fds_inv_fields [simp]:
  "fds_inv (srv\<lparr>m_activity := n\<rparr>) conns = fds_inv srv conns"
  "fds_inv (srv\<lparr>m_timeout := to\<rparr>) conns = fds_inv srv conns"
  "fds_inv (srv\<lparr>m_forSelect_fds := R\<rparr>) conns = fds_inv srv conns"
  by (simp_all add: fds_inv_def)

lemma pass_refused:
  fixes s :: "'a tcp_mem_scheme"
  assumes inv: "loop_inv s p mx m conns A" and w: "feeds enc (io s) (calls s) m conns Refused"
  shows "\<exists>s'. server_pass cb p s = Inr ((), s') \<and> loop_inv s' p mx m conns A \<and> trace s' = trace s \<and>
    calls s' = after (calls s) conns Refused \<and> io s' = io s"
proof -
  obtain srv cs where i: "server_inv s p srv cs conns A" "fds_inv srv conns" "length conns \<le> 1001"
    "m_maxWaitTime srv = mx" "m_masterSocket srv = m" "m_magicNum srv = MAGIC_NUM"
    using inv by (auto simp: loop_inv_def)
  have r: "select_result (io s) (calls s) srv conns = (- 1, m_master_fds srv)"
    using w by (auto simp: select_result_def)
  obtain s1 to where s1: "select_part p s = Inr (- 1, s1)"
    "server_inv s1 p (srv\<lparr>m_timeout := to, m_activity := - 1, m_forSelect_fds := m_master_fds srv\<rparr>) cs conns A"
    "calls s1 = sel (calls s) conns + 1" "io s1 = io s" "trace s1 = trace s"
    using select_inv [OF i(1-3)] unfolding r by auto
  have "loop_inv s1 p mx m conns A"
    by (intro loop_invI [OF s1(2)]) (use i in simp_all)
  with s1 show ?thesis by (simp add: server_pass_split)
qed

lemma pass_timeout:
  fixes s :: "'a tcp_mem_scheme"
  assumes inv: "loop_inv s p mx m conns A" and cb: "silent cb"
    and w: "feeds enc (io s) (calls s) m conns (Timeout now)"
  shows "\<exists>s'. server_pass cb p s = Inr ((), s') \<and> loop_inv s' p mx m (dropWhile (expired now) conns) A \<and>
    trace s' = trace s @ map Closed (map fst (takeWhile (expired now) conns)) \<and>
    calls s' = after (calls s) conns (Timeout now :: 'r input) \<and> io s' = io s"
proof -
  obtain srv cs where i: "server_inv s p srv cs conns A" "fds_inv srv conns" "length conns \<le> 1001"
    "m_maxWaitTime srv = mx" "m_masterSocket srv = m" "m_magicNum srv = MAGIC_NUM"
    using inv by (auto simp: loop_inv_def)
  have r: "select_result (io s) (calls s) srv conns = (0, {})"
    using w by (auto simp: select_result_def)
  let ?srv = "\<lambda>to. srv\<lparr>m_timeout := to, m_activity := 0, m_forSelect_fds := {}\<rparr>"
  obtain s1 to where s1: "select_part p s = Inr (0, s1)" "server_inv s1 p (?srv to) cs conns A"
    "calls s1 = sel (calls s) conns + 1" "io s1 = io s" "trace s1 = trace s"
    using select_inv [OF i(1-3)] unfolding r by auto
  have now: "snd (os_time (io s1) (calls s1)) = now" using w s1(3,4) by simp
  let ?drop = "dropWhile (expired now) conns"
  let ?srv2 = "?srv to\<lparr>m_master_fds := m_master_fds (?srv to) - fst ` set (takeWhile (expired now) conns)\<rparr>"
  obtain s2 cs2 where s2: "Check_expiry_of_Clients cb p s1 = Inr (1, s2)" "server_at s2 p ?srv2 cs2 ?drop"
    "trace s2 = trace s1 @ map (Closed \<circ> fst) (takeWhile (expired now) conns)"
    "calls s2 = Suc (calls s1)" "io s2 = io s1"
    "evolved (sans (list_nodes (m_List_connectedClient (?srv to)) cs) s1)
      (sans (list_nodes (m_List_connectedClient (?srv to)) cs2) s2)"
    using Check_expiry_ok [OF server_invD(1) [OF s1(2)] cb now] by (elim exE conjE) (rule that; assumption)
  have inv2: "server_inv s2 p ?srv2 cs2 ?drop A"
    by (rule server_inv_step [OF s1(2) s2(2)]) (use s2(6) evolved_bytes [OF s2(6)] in simp_all)
  have "fds_inv ?srv2 ?drop" using fds_inv_expiry [of "?srv to" conns "expired now"] i(2) by simp
  moreover have "length ?drop \<le> 1001" using i(3) length_dropWhile_le [of "expired now" conns] by linarith
  ultimately have "loop_inv s2 p mx m ?drop A"
    by (intro loop_invI [OF inv2]) (use i in simp_all)
  with s1 s2(1,3-5) show ?thesis by (simp add: server_pass_split)
qed

lemma pass_requests:
  fixes s :: "'a tcp_mem_scheme"
  assumes inv: "loop_inv s p mx m conns A" and cb: "doSomething cb = app"
    and w: "feeds enc (io s) (calls s) m conns (Requests R rs)" and ok: "all_allowed allowed sv rs A"
    and rd: "round sv R mx [] conns rs A = (conns', ex, A')"
  shows "\<exists>s' es. server_pass cb p s = Inr ((), s') \<and> loop_inv s' p mx m conns' A' \<and>
    trace s' = trace s @ es \<and> exchanged enc carries ex es \<and>
    calls s' = after (calls s) conns (Requests R rs) \<and> io s' = io s"
proof -
  obtain srv cs where i: "server_inv s p srv cs conns A" "fds_inv srv conns" "length conns \<le> 1001"
    "m_maxWaitTime srv = mx" "m_masterSocket srv = m" "m_magicNum srv = MAGIC_NUM"
    using inv by (auto simp: loop_inv_def)
  have R: "R \<noteq> {}" "R \<subseteq> fst ` set conns" "length rs = card R" "finite R"
    using w by (auto intro: finite_subset)
  have mR: "m_master_fds srv \<inter> R = R" "m \<notin> R" using i(2,5) R(2) by (auto simp: fds_inv_def)
  have r: "select_result (io s) (calls s) srv conns = (int (card R), R)"
    using w mR by (simp add: select_result_def)
  have pos: "0 < int (card R)" using R by (simp add: card_gt_0_iff)
  let ?srv = "\<lambda>to. srv\<lparr>m_timeout := to, m_activity := int (card R), m_forSelect_fds := R\<rparr>"
  obtain s1 to where s1: "select_part p s = Inr (int (card R), s1)" "server_inv s1 p (?srv to) cs conns A"
    "calls s1 = sel (calls s) conns + 1" "io s1 = io s" "trace s1 = trace s"
    using select_inv [OF i(1-3)] unfolding r by auto
  have dist: "distinct (map fst conns)" using i(2) by (simp add: fds_inv_def)
  have del: "delivers enc (io s1) (calls s1) rs" using w s1(3,4) by simp
  have q: "\<forall>v \<in> set conns. fst v \<in> m_forSelect_fds (?srv to) \<longleftrightarrow> fst v \<in> R"
    "int (card R) \<le> m_activity (?srv to)" "round sv R (m_maxWaitTime (?srv to)) [] conns rs A = (conns', ex, A')"
    using rd i(4) by simp_all
  obtain s2 cs2 n es where s2: "ReceiveAndSend cb p s1 = Inr (0, s2)"
    "server_inv s2 p (?srv to\<lparr>m_activity := n\<rparr>) cs2 conns' A'" "trace s2 = trace s1 @ es"
    "exchanged enc carries ex es" "calls s2 = calls s1 + 3 * length rs" "io s2 = io s1"
    using ReceiveAndSend_round [OF s1(2) cb R(2) q(1) dist q(2) R(3) ok del q(3)]
    by (elim exE conjE) (rule that; assumption)
  have run: "server_pass cb p s = Inr ((), s2)"
    using s1(1) pos server_atD(1,2) [OF server_invD(1) [OF s1(2)]] mR(2) i(5) s2(1)
    by (simp add: server_pass_split c_step)
  have "length conns' = length conns" using round_distinct(3) [OF rd] by simp
  moreover have "fds_inv srv conns'" by (rule fds_inv_round [OF i(2) rd])
  ultimately have "loop_inv s2 p mx m conns' A'"
    by (intro loop_invI [OF s2(2)]) (use i in simp_all)
  with run s2(3-6) s1(3-5) show ?thesis by (intro exI [of _ s2] exI [of _ es]) simp
qed

lemma pass_connect:
  fixes s :: "'a tcp_mem_scheme"
  assumes inv: "loop_inv s p mx m conns A" and cb: "doSomething cb = app" "silent cb"
    and w: "feeds enc (io s) (calls s) m conns (Connect fd now R rs)" and ok: "all_allowed allowed sv rs A"
    and rd: "round sv R mx [] (conns @ [(fd, timeradd now mx)]) rs A = (conns', ex, A')"
  shows "\<exists>s' es. server_pass cb p s = Inr ((), s') \<and> loop_inv s' p mx m conns' A' \<and>
    trace s' = trace s @ es \<and> exchanged enc carries ex es \<and>
    calls s' = after (calls s) conns (Connect fd now R rs) \<and> io s' = io s"
proof -
  obtain srv cs where i: "server_inv s p srv cs conns A" "fds_inv srv conns" "length conns \<le> 1001"
    "m_maxWaitTime srv = mx" "m_masterSocket srv = m" "m_magicNum srv = MAGIC_NUM"
    using inv by (auto simp: loop_inv_def)
  let ?new = "(fd, timeradd now mx)"
  have R: "R \<subseteq> fst ` set conns" "length rs = card R" "finite R"
    using w by (auto intro: finite_subset)
  have m: "m \<notin> R" "m_master_fds srv \<inter> insert m R = insert m R" using i(2,5) R(1) by (auto simp: fds_inv_def)
  let ?n = "int (card R) + 1"
  have r: "select_result (io s) (calls s) srv conns = (?n, insert m R)"
    using w m R(3) by (simp add: select_result_def)
  let ?srv = "\<lambda>to. srv\<lparr>m_timeout := to, m_activity := ?n, m_forSelect_fds := insert m R\<rparr>"
  obtain s1 to where s1: "select_part p s = Inr (?n, s1)" "server_inv s1 p (?srv to) cs conns A"
    "calls s1 = sel (calls s) conns + 1" "io s1 = io s" "trace s1 = trace s"
    using select_inv [OF i(1-3)] unfolding r by auto
  have q: "length conns \<le> 1000" "fst (os_accept (io s1) (calls s1)) = fd" "fd_ok fd"
    "os_time (io s1) (Suc (calls s1)) = (0, now)" "fd \<noteq> m" "fd \<notin> fst ` set conns"
    "delivers enc (io s1) (calls s1 + 2) rs"
    using w s1(3,4) by (simp_all add: numeral_eq_Suc)
  let ?srv2 = "?srv to\<lparr>m_master_fds := insert fd (m_master_fds (?srv to)), m_max_socket := max fd (m_max_socket (?srv to))\<rparr>"
  let ?conns = "conns @ [?new]"
  obtain s2 c where s2: "AddClientToTheList cb p s1 = Inr (0, s2)"
    "server_at s2 p ?srv2 (cs @ [c]) (conns @ [(fd, timeradd now (m_maxWaitTime (?srv to)))])"
    "trace s2 = trace s1" "calls s2 = calls s1 + 2" "io s2 = io s1" "bytes s2 = bytes s1"
    "evolved (sans (list_nodes (m_List_connectedClient (?srv to)) cs) s1)
      (sans (list_nodes (m_List_connectedClient (?srv to)) (cs @ [c])) s2)"
    using accept_ok [OF server_invD(1) [OF s1(2)] q(1-3) cb(2) server_invD(4) [OF s1(2)] q(4)]
    by (elim exE conjE) (rule that; assumption)
  have inv2: "server_inv s2 p ?srv2 (cs @ [c]) ?conns A"
    by (rule server_inv_step [OF s1(2)]) (use s2(2,6,7) i(4) in simp_all)
  have fds2: "fds_inv ?srv2 ?conns" using i(2,5) q(5,6) by (fastforce simp: fds_inv_def max_def)
  have dist: "distinct (map fst ?conns)" using fds2 by (simp add: fds_inv_def)
  have sub: "R \<subseteq> fst ` set ?conns" using R(1) by auto
  have nR: "fd \<notin> R" using q(6) R(1) by blast
  have e: "\<forall>v \<in> set ?conns. fst v \<in> m_forSelect_fds ?srv2 \<longleftrightarrow> fst v \<in> R"
  proof
    fix v assume "v \<in> set ?conns"
    then have "fst v \<in> insert fd (fst ` set conns)" by auto
    moreover have "m \<notin> fst ` set conns" using i(2,5) by (simp add: fds_inv_def)
    ultimately have "fst v \<noteq> m" using q(5) by blast
    then show "fst v \<in> m_forSelect_fds ?srv2 \<longleftrightarrow> fst v \<in> R" by simp
  qed
  have x: "int (card R) \<le> m_activity ?srv2" "round sv R (m_maxWaitTime ?srv2) [] ?conns rs A = (conns', ex, A')"
    "delivers enc (io s2) (calls s2) rs"
    using rd i(4) q(7) s2(4,5) by simp_all
  obtain s3 cs3 n es where s3: "ReceiveAndSend cb p s2 = Inr (0, s3)"
    "server_inv s3 p (?srv2\<lparr>m_activity := n\<rparr>) cs3 conns' A'" "trace s3 = trace s2 @ es"
    "exchanged enc carries ex es" "calls s3 = calls s2 + 3 * length rs" "io s3 = io s2"
    using ReceiveAndSend_round [OF inv2 cb(1) sub e dist x(1) R(2) ok x(3,2)]
    by (elim exE conjE) (rule that; assumption)
  have run: "server_pass cb p s = Inr ((), s3)"
    using s1(1) server_atD(1,2) [OF server_invD(1) [OF s1(2)]] server_atD(2) [OF server_invD(1) [OF inv2]]
      i(5) s2(1) s3(1)
    by (simp add: server_pass_split c_step)
  have "length conns' \<le> 1001" using round_distinct(3) [OF rd] q(1) by simp
  moreover have "fds_inv (?srv2\<lparr>m_activity := n\<rparr>) conns'"
    unfolding fds_inv_fields(1) by (rule fds_inv_round [OF fds2 rd])
  ultimately have "loop_inv s3 p mx m conns' A'"
    by (intro loop_invI [OF s3(2)]) (use i in simp_all)
  with run s3(3-6) s2(3-5) s1(3-5) show ?thesis by (intro exI [of _ s3] exI [of _ es]) simp
qed

text \<open>All inputs together.\<close>

lemma pass_refines:
  fixes s :: "'a tcp_mem_scheme"
  assumes inv: "loop_inv s p mx m conns A" and cb: "doSomething cb = app" "silent cb"
    and w: "feeds enc (io s) (calls s) m conns inp" and ok: "all_allowed allowed sv (requests inp) A"
    and ap: "apass sv mx inp conns A = (conns', (cl, ex), A')"
  shows "\<exists>s' es. server_pass cb p s = Inr ((), s') \<and> loop_inv s' p mx m conns' A' \<and>
    trace s' = trace s @ map Closed cl @ es \<and> exchanged enc carries ex es \<and>
    calls s' = after (calls s) conns inp \<and> io s' = io s"
proof (cases inp)
  case Refused
  then show ?thesis using pass_refused [OF inv, of cb] w ap by auto
next
  case (Timeout now)
  then show ?thesis using pass_timeout [OF inv cb(2), of now] w ap by auto
next
  case (Requests R rs)
  then have rd: "round sv R mx [] conns rs A = (conns', ex, A')" and cl: "cl = []"
    using ap by (auto simp: Let_def split: prod.splits)
  show ?thesis using pass_requests [OF inv cb(1) _ _ rd] w ok cl Requests by simp
next
  case (Connect fd now R rs)
  then have rd: "round sv R mx [] (conns @ [(fd, timeradd now mx)]) rs A = (conns', ex, A')" and cl: "cl = []"
    using ap by (auto simp: Let_def split: prod.splits)
  show ?thesis using pass_connect [OF inv cb _ _ rd] w ok cl Connect by simp
qed

text \<open>Any number of passes.\<close>

lemma passes_refine:
  fixes s :: "'a tcp_mem_scheme"
  assumes "loop_inv s p mx m conns A" and cb: "doSomething cb = app" "silent cb"
    and "feeds_all enc allowed sv mx (io s) (calls s) m conns A inps"
  shows "\<exists>s' es. passes cb p (length inps) s = Inr ((), s') \<and>
    loop_inv s' p mx m (fst (apasses sv mx inps conns A)) (snd (snd (apasses sv mx inps conns A))) \<and>
    trace s' = trace s @ es \<and> observed enc carries (fst (snd (apasses sv mx inps conns A))) es \<and> io s' = io s"
  using assms(1,4)
proof (induction inps arbitrary: s conns A)
  case Nil
  then show ?case by simp
next
  case (Cons inp inps)
  obtain conns1 out A1 where ap1: "apass sv mx inp conns A = (conns1, out, A1)" by (rule prod_cases3)
  obtain cl ex where "out = (cl, ex)" by (cases out)
  with ap1 have ap: "apass sv mx inp conns A = (conns1, (cl, ex), A1)" by simp
  have w: "feeds enc (io s) (calls s) m conns inp" "all_allowed allowed sv (requests inp) A"
    "feeds_all enc allowed sv mx (io s) (after (calls s) conns inp) m conns1 A1 inps"
    using Cons.prems(2) ap by simp_all
  obtain s1 es where s1: "server_pass cb p s = Inr ((), s1)" "loop_inv s1 p mx m conns1 A1"
    "trace s1 = trace s @ map Closed cl @ es" "exchanged enc carries ex es"
    "calls s1 = after (calls s) conns inp" "io s1 = io s"
    using pass_refines [OF Cons.prems(1) cb w(1,2) ap] by blast
  obtain s2 es2 where s2: "passes cb p (length inps) s1 = Inr ((), s2)"
    "loop_inv s2 p mx m (fst (apasses sv mx inps conns1 A1)) (snd (snd (apasses sv mx inps conns1 A1)))"
    "trace s2 = trace s1 @ es2" "observed enc carries (fst (snd (apasses sv mx inps conns1 A1))) es2" "io s2 = io s1"
    using Cons.IH [OF s1(2)] w(3) s1(5,6) by auto
  have e: "apasses sv mx (inp # inps) conns A =
      (fst (apasses sv mx inps conns1 A1), (cl, ex) # fst (snd (apasses sv mx inps conns1 A1)), snd (snd (apasses sv mx inps conns1 A1)))"
    using ap by (simp add: Let_def split_def)
  have "observed enc carries ((cl, ex) # fst (snd (apasses sv mx inps conns1 A1))) (map Closed cl @ es @ es2)"
    using s1(4) s2(4) by auto
  then show ?case unfolding e using s1 s2
    by (intro exI [of _ s2] exI [of _ "map Closed cl @ es @ es2"]) simp
qed

end

end
