(* ===== verification/ChatServer.thy ===== *)
theory ChatServer
  imports ServerPasses ServerSession
begin

text \<open>
  The chat server as a whole: the TCP server with the chat application behind it. The
  interpretation \<open>tcp\<close> discharges what the TCP server relies on (the interface
  \<open>server_application\<close>) by the results about the application, so that the passes of the server
  loop refine the abstract chat server.
\<close>

section \<open>The bytes of a sent answer\<close>

lemma sent_code:
  assumes "bytes_at s (p + off) cs" and "off + length cs \<le> BUFF_SIZE"
  shows "take (length cs) (drop off (map (\<lambda>i. bytes s (p + i)) [0..<BUFF_SIZE])) = map Some cs"
  using assms by (intro nth_equalityI) (simp_all add: bytes_at_def add.assoc)

lemma wire_sent: "answer_at s p a \<Longrightarrow> wire a (map (\<lambda>i. bytes s (p + i)) [0..<BUFF_SIZE])"
proof (cases a)
  case (UserAnswer t c)
  assume "answer_at s p a"
  then show ?thesis using UserAnswer sent_code [of s p 4 "code_bytes t c"]
    by (simp add: BUFF_SIZE_def)
next
  case (GroupAnswer t c ip)
  assume at: "answer_at s p a"
  have "bytes s (p + (1 + i)) = Some ((cs @ [0]) ! i)" if "ip = Some cs" "i \<le> length cs" for cs i
    using at that GroupAnswer by (auto simp: str_at_def nth_append)
  then show ?thesis using at GroupAnswer sent_code [of s p 20 "code_bytes t c"]
    by (auto simp: BUFF_SIZE_def split: option.splits)
qed

lemma spilled_sent: "answer_block s p a \<Longrightarrow> spilled a (map (\<lambda>i. bytes s (p + i)) [0..<BUFF_SIZE])"
  using wire_sent answer_blockD by (cases a) (fastforce simp: spilled_def BUFF_SIZE_def simp del: wire.simps)+

section \<open>The application as the server uses it\<close>

text \<open>The buffer is a block of its own: the byte before it is not mapped.\<close>

definition chat_rep :: "addr \<Rightarrow> addr \<Rightarrow> 'a tcp_mem_scheme \<Rightarrow> chat \<Rightarrow> bool" where
  "chat_rep db buf s A \<longleftrightarrow> db_rep s db buf {buf - 1..<buf + BUFF_SIZE} A \<and> bytes s (buf - 1) = None"

definition chat_allowed :: "request \<Rightarrow> chat \<Rightarrow> bool" where
  "chat_allowed r A \<longleftrightarrow> valid_request r \<and> count_ok r A"

definition chat_app :: "addr \<Rightarrow> addr \<Rightarrow> int \<Rightarrow> ('a tcp_mem_scheme, addr) prog" where
  "chat_app = (\<lambda>msg context socket. GetFromClientAndSendToServer msg context)"

lemma db_rep_evolved:
  fixes s s' :: "'a db_mem_scheme"
  assumes rep: "db_rep s db buf F A" and ev: "evolved s s'"
  shows "db_rep s' db buf F A"
proof -
  obtain z where s': "s' = db_mem.more_update (\<lambda>_. z) (s\<lparr>brk := brk s'\<rparr>)" and le: "brk s \<le> brk s'"
    using ev by (auto simp: evolved_def)
  obtain V where V: "view_ok s db buf A V" "own V \<inter> F = {}" and e: "env s" "F \<subseteq> {..<brk s}"
    using rep by (auto simp: db_rep_def)
  have same: "bytes s' = bytes s" "ditems s' = ditems s" "nodes s' = nodes s" "databases s' = databases s"
    "users_dbs s' = users_dbs s" "groups_dbs s' = groups_dbs s" "pools s' = pools s" "queues s' = queues s"
    "oom s' = oom s" "junk s' = junk s"
    by (subst s', simp)+
  have "ext (brk s) {} s s'" using same le by (simp add: ext_def)
  then have "view_ok s' db buf A V" by (rule view_ext [OF V(1)]) (use env_simps(1) [OF e(1)] in simp)
  moreover have "env s'" using e(1) same le
    by (simp add: env_def wf_hash_mem_def wf_list_mem_def wf_bytes_def enough_mem_def zeroed_def)
  ultimately show ?thesis using V(2) e(2) le unfolding db_rep_def by fastforce
qed

lemma chat_served:
  fixes s :: "'a tcp_mem_scheme"
  assumes rep: "chat_rep db buf s A" and m: "mapped s buf BUFF_SIZE" and ok: "chat_allowed r A"
  shows "\<exists>q s'. chat_app buf db fd (stored buf (request_bytes r) s) = Inr (q, s') \<and> q \<noteq> NULL \<and>
    chat_rep db buf s' (snd (serve r A)) \<and> mapped s' buf BUFF_SIZE \<and>
    spilled (fst (serve r A)) (map (\<lambda>i. bytes s' (q + i)) [0..<BUFF_SIZE])"
proof -
  let ?F = "{buf - 1..<buf + BUFF_SIZE}" and ?s1 = "stored buf (request_bytes r) s"
  have v: "valid_request r" and count: "count_ok r A" using ok by (simp_all add: chat_allowed_def)
  have rp: "db_rep s db buf ?F A" using rep by (simp add: chat_rep_def)
  have buf: "buf \<noteq> NULL" using m by (simp add: mapped_def)
  have len: "length (request_bytes r) \<le> 36" by (rule length_request_bytes [OF v])
  have sub: "{buf..<buf + 36} \<subseteq> ?F" by (auto simp: BUFF_SIZE_def)
  have m1: "mapped s buf (length (request_bytes r))"
    using mapped_sub [OF m, of 0] len by (simp add: BUFF_SIZE_def)
  have r1: "db_rep ?s1 db buf ?F A"
    by (rule db_rep_stored [OF rp m1]) (use len in \<open>auto simp: BUFF_SIZE_def\<close>)
  have "buf + 1023 \<in> ?F" by (simp add: BUFF_SIZE_def)
  then have "buf + 1023 < brk ?s1" using r1 unfolding db_rep_def by blast
  then have le: "buf + 36 \<le> brk ?s1" by simp
  have holds: "buffer_holds ?s1 buf r" by (rule request_received [OF bytes_at_stored_new [OF buf] v le])
  obtain q s2 where s2: "GetFromClientAndSendToServer buf db ?s1 = Inr (q, s2)"
    "answer_block s2 q (fst (serve r A))" "db_rep s2 db buf ?F (snd (serve r A))"
    "\<forall>a \<in> ?F. bytes s2 a = bytes ?s1 a"
    using every_request_served [OF r1 buf sub holds count] by blast
  have "bytes ?s1 (buf - 1) = None" using rep buf by (simp add: chat_rep_def stored_def map_bytes_out)
  then have before: "bytes s2 (buf - 1) = None" using s2(4) buf by (simp add: BUFF_SIZE_def)
  have "mapped s2 buf BUFF_SIZE"
    by (rule mapped_cong [OF mapped_stored [OF m]]) (use s2(4) in auto)
  moreover have "q \<noteq> NULL" using answer_blockD(1) [OF s2(2)] by (cases "fst (serve r A)") simp_all
  ultimately show ?thesis using s2(1,3) before spilled_sent [OF s2(2)] by (auto simp: chat_app_def chat_rep_def)
qed

interpretation tcp: server_application chat_app chat_rep request_bytes chat_allowed serve spilled
proof
  show "local (chat_app buf ctx fd)" for buf ctx fd
    unfolding chat_app_def by (rule local_application)
  show "enough_mem s \<and> wf_list_mem s" if "chat_rep ctx buf s A" for ctx buf A and s :: "'a tcp_mem_scheme"
    using that env_simps(3,7) [of s] by (auto simp: chat_rep_def db_rep_def)
  show "chat_rep ctx buf s' A" if "chat_rep ctx buf s A" "evolved s s'" for ctx buf A and s s' :: "'a tcp_mem_scheme"
    using that db_rep_evolved [of s ctx buf _ A s'] evolved_bytes [of "{}" s "{}" s'] by (simp add: chat_rep_def)
  show "request_bytes r \<noteq> [] \<and> length (request_bytes r) \<le> BUFF_SIZE" if "chat_allowed r A" for r A
    using that length_request_bytes [of r]
    by (cases r) (auto simp: chat_allowed_def BUFF_SIZE_def user_struct_def group_struct_def)
qed (rule chat_served)

lemma chat_callbacks_simps:
  "doSomething chat_callbacks = chat_app" "silent chat_callbacks"
  by (simp_all add: chat_callbacks_def chat_app_def silent_def call_back_def WelcomeNewClient_def ClientDisconnected_def)

section \<open>The start of the server\<close>

text \<open>The state of the loop: \<open>m\<close> is the listening socket, \<open>conns\<close> the clients, \<open>A\<close> the chat.\<close>

definition max_wait :: timeval where
  "max_wait = \<lparr>tv_sec = 300, tv_usec = 0\<rparr>"

definition chat_loop :: "'a tcp_mem_scheme \<Rightarrow> addr \<Rightarrow> int \<Rightarrow> conn list \<Rightarrow> chat \<Rightarrow> bool" where
  "chat_loop s p m conns A \<longleftrightarrow> (\<exists>srv cs. server_at s p srv cs conns \<and>
     mapped s (m_buffer_rcv srv) BUFF_SIZE \<and>
     chat_rep (m_context srv) (m_buffer_rcv srv) (sans (list_nodes (m_List_connectedClient srv) cs) s) A \<and>
     fds_inv srv conns \<and> length conns \<le> 1001 \<and> m_maxWaitTime srv = max_wait \<and> m_masterSocket srv = m \<and> m_magicNum srv = MAGIC_NUM)"

lemma chat_loop_tcp: "tcp.loop_inv s p max_wait m conns A = chat_loop s p m conns A"
  by (simp add: chat_loop_def tcp.loop_inv_def tcp.server_inv_def)

text \<open>\<open>RunServerSide\<close> up to its loop.\<close>

definition boot :: "int \<Rightarrow> ('a tcp_mem_scheme, addr) prog" where
  "boot port =
     chain CreateMainDataBase (\<lambda>dataBase.
     chain (CreateServer (chat_params port dataBase) (Some chat_callbacks)) (\<lambda>server.
     chain (wr_server server (\<lambda>srv. srv\<lparr>m_max_socket := m_masterSocket srv\<rparr>)) (\<lambda>_.
     ret server)))"

text \<open>The system calls that set up the listening socket \<open>m\<close> succeed.\<close>

definition listening :: "os \<Rightarrow> nat \<Rightarrow> int \<Rightarrow> bool" where
  "listening w n m \<longleftrightarrow> os_socket w n = m \<and> fd_ok m \<and> 0 \<le> os_setsockopt w (n + 1) \<and> 0 \<le> os_listen w (n + 3)"

definition booting :: "'a tcp_mem_scheme \<Rightarrow> int \<Rightarrow> bool" where
  "booting s m \<longleftrightarrow> env s \<and> (\<forall>a \<ge> brk s. clients s a = None) \<and> listening (io s) (calls s) m"

lemma BindServer_step:
  "BindServer sock port s = Inr (if 0 > os_bind (io s) (calls s) then 0 else 1, ticked s)"
  by (simp add: BindServer_def c_step)

lemma InitMasterSocket_ok:
  fixes s :: "'a tcp_mem_scheme"
  assumes "listening (io s) (calls s) m"
  shows "InitMasterSocket port backlog s = Inr (m, ticked (ticked (ticked (ticked s))))"
  using assms
  by (auto simp: InitMasterSocket_def CreateSocket_def BindServer_step c_step listening_def numeral_eq_Suc)

lemma calloc_step:
  assumes "enough_mem s" and "0 < brk s"
  shows "calloc_bytes n s = Inr (brk s, s\<lparr>brk := brk s + n + 1, bytes := map_bytes (brk s) (replicate n 0) (bytes s)\<rparr>)"
  using assms by (simp add: calloc_bytes_def malloc_def enough_mem_def)

lemma db_rep_calloc:
  fixes s :: "'a db_mem_scheme"
  assumes rep: "db_rep s db buf F A"
  shows "db_rep (s\<lparr>brk := brk s + n + 1, bytes := map_bytes (brk s) (replicate n 0) (bytes s)\<rparr>) db buf
    (F \<union> {brk s..<brk s + n + 1}) A"
proof (rule db_rep_write [OF rep])
  show "env (s\<lparr>brk := brk s + n + 1, bytes := map_bytes (brk s) (replicate n 0) (bytes s)\<rparr>)"
    using db_rep_env [OF rep]
    by (auto simp: env_def wf_bytes_def wf_hash_mem_def wf_list_mem_def enough_mem_def zeroed_def map_bytes_out)
qed (auto simp: map_bytes_out)

lemma db_rep_calloc_sans:
  fixes s :: "'a db_mem_scheme"
  assumes "db_rep (sans T s) db buf F A"
  shows "db_rep (sans T (s\<lparr>brk := brk s + n + 1, bytes := map_bytes (brk s) (replicate n 0) (bytes s)\<rparr>)) db buf
    (F \<union> {brk s..<brk s + n + 1}) A"
proof -
  have "sans T (s\<lparr>brk := k, bytes := y\<rparr>) = sans T s\<lparr>brk := k, bytes := y\<rparr>" for k y
    by (cases s) (simp add: sans_def)
  then show ?thesis using db_rep_calloc [OF assms, of n] by simp
qed

lemma CreateServer_run:
  fixes s :: "'a tcp_mem_scheme"
  assumes prm: "1024 \<le> p_server_port prm" "p_maxWaitTime prm \<noteq> 0" "p_back_log prm \<le> 128"
    and "malloc 1 s = Inr (p, s1)" and p: "p \<noteq> NULL"
    and "InitMasterSocket (p_server_port prm) (p_back_log prm)
      (s1\<lparr>servers := (servers s1)(p \<mapsto> junk_server (junk s1 p))\<rparr>) = Inr (m, s2)"
    and "servers s2 p = Some j2" and m: "fd_ok m"
    and "List_Create (s2\<lparr>servers := (servers s2)(p \<mapsto> j2\<lparr>m_masterSocket := m\<rparr>)\<rparr>) = Inr (l, s3)" and l: "l \<noteq> NULL"
    and "servers s3 p = Some j3"
    and "calloc_bytes BUFF_SIZE (s3\<lparr>servers := (servers s3)(p \<mapsto> j3\<lparr>m_List_connectedClient := l\<rparr>)\<rparr>) = Inr (msg, s4)"
    and "calloc_bytes BUFF_SIZE s4 = Inr (buf, s5)" and "servers s5 p = Some j5"
  shows "CreateServer prm (Some cb) s = Inr (p, s5\<lparr>servers := (servers s5)(p \<mapsto> j5\<lparr>
      m_timeout := \<lparr>tv_sec = 0, tv_usec = 0\<rparr>, m_maxWaitTime := \<lparr>tv_sec = sint (p_maxWaitTime prm), tv_usec = 0\<rparr>,
      m_context := p_context prm, m_goodbyeContex := p_contexDisconnect prm, m_contexUser := p_contexAccept prm,
      m_magicNum := MAGIC_NUM, m_max_socket := 0, m_activity := 0, m_msg := msg, m_buffer_rcv := buf,
      m_master_fds := {m}\<rparr>)\<rparr>)"
  using assms by (simp add: CreateServer_def wr_server_step fd_set_add_def fd_ok_def)

lemma boot_ok:
  fixes s :: "'a tcp_mem_scheme"
  assumes b: "booting s m" and port: "1024 \<le> port"
  shows "\<exists>p s'. boot port s = Inr (p, s') \<and> chat_loop s' p m [] chat_empty \<and>
    trace s' = trace s \<and> calls s' = calls s + 4 \<and> io s' = io s \<and>
    map_option m_magicNum (servers s' p) = Some MAGIC_NUM"
proof -
  have env: "env s" and cl: "\<forall>a \<ge> brk s. clients s a = None" and li: "listening (io s) (calls s) m"
    using b by (simp_all add: booting_def)
  let ?db = "brk s"
  obtain s1 where s1: "CreateMainDataBase s = Inr (?db, s1)" "brk s < brk s1"
    using CreateMainDataBase_refines [OF env, of "{}"] by blast
  note more1 = more_same [OF local_more [OF local_creation s1(1)]]
  let ?buf = "brk s1 + 2 + 3 + BUFF_SIZE + 1"
  have rep1: "db_rep s1 ?db ?buf {} chat_empty"
    using CreateMainDataBase_refines [OF env, of "{}" ?buf] s1(1) by auto
  have e1: "env s1" by (rule db_rep_env [OF rep1])
  have mem1: "enough_mem s1" "0 < brk s1" "wf_list_mem s1" using env_simps(3,6,7) [OF e1] by simp_all
  let ?p = "brk s1"
  let ?j = "(junk_server (junk s1 ?p))\<lparr>m_masterSocket := m\<rparr>"
  let ?s2 = "(ticked (ticked (ticked (ticked (s1\<lparr>brk := brk s1 + 2, servers := (servers s)(?p \<mapsto> junk_server (junk s1 ?p))\<rparr>)))))
      \<lparr>servers := (servers s)(?p \<mapsto> ?j)\<rparr>"
  have ev2: "evolved (sans {} s1) (sans {} ?s2)"
    by (intro evolved_step evolved_brk evolved_refl) simp
  have wf2: "wf_list_mem ?s2" "\<not> oom ?s2 (brk ?s2)"
    using mem1 by (simp_all add: wf_list_mem_def enough_mem_def)
  let ?l = "brk ?s2"
  obtain s3 where s3: "List_Create ?s2 = Inr (?l, s3)" "dlist (nodes s3) ?l []"
    "item_at (nodes s3) (tail_of ?l) = junk ?s2 (tail_of ?l) 0" "node_frame {} ?s2 s3" "wf_list_mem s3"
    "brk s3 = ?l + 3" "nodes s3 (?l + 2) = None"
    using List_Create_ok [OF wf2] by blast
  let ?T = "list_nodes ?l []"
  have "nodes s3 a = None" if "?l \<le> a" "a \<notin> ?T" for a
  proof (cases "a = ?l + 2")
    case False
    with that have "brk s3 \<le> a" using s3(6) by (simp add: tail_of_def)
    then show ?thesis using s3(5) by (simp add: wf_list_mem_def)
  qed (use s3(7) in simp)
  then have "evolved (sans {} ?s2) (sans ?T s3)"
    by (intro evolved_sans [OF s3(4) wf2(1)]) (auto simp: tail_of_def)
  from evolved_trans [OF ev2 this] have ev3: "evolved s1 (sans ?T s3)" by simp
  have eq3: "s3 = ?s2\<lparr>brk := brk s3, nodes := nodes s3\<rparr>" using s3(4) by (simp add: node_frame_def)
  have f3: "servers s3 = (servers s)(?p \<mapsto> ?j)" "clients s3 = clients s" "trace s3 = trace s" "calls s3 = calls s + 4"
    "io s3 = io s" "oom s3 = oom s1"
    using more1 by (subst eq3, simp)+
  have rep3: "db_rep (sans ?T s3) ?db ?buf {} chat_empty" by (rule db_rep_evolved [OF rep1 ev3])
  have mem3: "enough_mem s3" "0 < brk s3" using mem1(1) f3(6) s3(6) by (simp_all add: enough_mem_def)
  let ?s4 = "s3\<lparr>brk := brk s3 + BUFF_SIZE + 1, bytes := map_bytes (brk s3) (replicate BUFF_SIZE 0) (bytes s3)\<rparr>"
  have bufp: "?buf = brk ?s4" using s3(6) by simp
  let ?s5 = "?s4\<lparr>brk := brk ?s4 + BUFF_SIZE + 1, bytes := map_bytes (brk ?s4) (replicate BUFF_SIZE 0) (bytes ?s4)\<rparr>"
  have rep5: "db_rep (sans ?T ?s5) ?db ?buf {?buf - 1..<?buf + BUFF_SIZE} chat_empty"
  proof -
    note r = db_rep_calloc_sans [OF db_rep_calloc_sans [OF rep3, of BUFF_SIZE], of BUFF_SIZE]
    show ?thesis by (rule db_rep_shrink [OF r]) (use bufp in auto)
  qed
  let ?made = "?j\<lparr>m_List_connectedClient := ?l, m_timeout := \<lparr>tv_sec = 0, tv_usec = 0\<rparr>, m_maxWaitTime := max_wait,
      m_context := ?db, m_goodbyeContex := NULL, m_contexUser := NULL, m_magicNum := MAGIC_NUM, m_max_socket := 0,
      m_activity := 0, m_msg := brk s3, m_buffer_rcv := ?buf, m_master_fds := {m}\<rparr>"
  let ?srv = "?made\<lparr>m_max_socket := m\<rparr>"
  let ?s6 = "?s5\<lparr>servers := (servers s)(?p \<mapsto> ?srv)\<rparr>"
  have run: "boot port s = Inr (?p, ?s6)"
  proof -
    let ?x = "s1\<lparr>brk := brk s1 + 2, servers := (servers s)(?p \<mapsto> junk_server (junk s1 ?p))\<rparr>"
    let ?s3a = "s3\<lparr>servers := (servers s)(?p \<mapsto> ?j\<lparr>m_List_connectedClient := ?l\<rparr>)\<rparr>"
    let ?s4a = "?s3a\<lparr>brk := brk s3 + BUFF_SIZE + 1, bytes := map_bytes (brk s3) (replicate BUFF_SIZE 0) (bytes s3)\<rparr>"
    let ?s5a = "?s4a\<lparr>brk := brk ?s4 + BUFF_SIZE + 1, bytes := map_bytes (brk ?s4) (replicate BUFF_SIZE 0) (bytes ?s4)\<rparr>"
    have mal: "malloc 1 s1 = Inr (?p, s1\<lparr>brk := brk s1 + 2\<rparr>)" using mem1 by (simp add: malloc_def enough_mem_def)
    have sock: "InitMasterSocket port 11 ?x = Inr (m, ticked (ticked (ticked (ticked ?x))))"
      by (rule InitMasterSocket_ok) (use li more1 in simp)
    have c4: "calloc_bytes BUFF_SIZE ?s3a = Inr (brk s3, ?s4a)"
      using calloc_step [of ?s3a BUFF_SIZE] mem3 by (simp add: enough_mem_def)
    have c5: "calloc_bytes BUFF_SIZE ?s4a = Inr (?buf, ?s5a)"
      using calloc_step [of ?s4a BUFF_SIZE] mem3 bufp by (simp add: enough_mem_def)
    have m: "m \<noteq> - 1" "0 \<le> m" "m < FD_SETSIZE" using li by (auto simp: listening_def fd_ok_def)
    have mw: "\<lparr>tv_sec = sint (300 :: u64), tv_usec = 0\<rparr> = max_wait" by (simp add: max_wait_def)
    have l: "?l \<noteq> NULL" by simp
    have pn: "?p \<noteq> NULL" and okm: "fd_ok m" using mem1(2) li by (simp_all add: listening_def)
    let ?s1x = "s1\<lparr>brk := brk s1 + 2\<rparr>" and ?t = "ticked (ticked (ticked (ticked ?x)))"
    have q1: "InitMasterSocket (p_server_port (chat_params port ?db)) (p_back_log (chat_params port ?db))
        (?s1x\<lparr>servers := (servers ?s1x)(?p \<mapsto> junk_server (junk ?s1x ?p))\<rparr>) = Inr (m, ?t)"
      using sock more1(2) by (simp add: chat_params_def)
    have q2: "servers ?t ?p = Some (junk_server (junk s1 ?p))" by simp
    have "?t\<lparr>servers := (servers ?t)(?p \<mapsto> ?j)\<rparr> = ?s2" by simp
    then have q3: "List_Create (?t\<lparr>servers := (servers ?t)(?p \<mapsto> ?j)\<rparr>) = Inr (?l, s3)" using s3(1) by simp
    have q4: "servers s3 ?p = Some ?j" using f3(1) by simp
    have "s3\<lparr>servers := (servers s3)(?p \<mapsto> ?j\<lparr>m_List_connectedClient := ?l\<rparr>)\<rparr> = ?s3a" using f3(1) by simp
    then have q5: "calloc_bytes BUFF_SIZE (s3\<lparr>servers := (servers s3)(?p \<mapsto> ?j\<lparr>m_List_connectedClient := ?l\<rparr>)\<rparr>) =
        Inr (brk s3, ?s4a)" using c4 by (simp only:)
    have q6: "servers ?s5a ?p = Some (?j\<lparr>m_List_connectedClient := ?l\<rparr>)" by simp
    have q0: "1024 \<le> p_server_port (chat_params port ?db)" "p_maxWaitTime (chat_params port ?db) \<noteq> 0"
      "p_back_log (chat_params port ?db) \<le> 128" using port by (simp_all add: chat_params_def)
    note cr = CreateServer_run [OF q0 mal pn q1 q2 okm q3 l q4 q5 c5 q6]
    have "CreateServer (chat_params port ?db) (Some chat_callbacks) s1 =
        Inr (?p, ?s5a\<lparr>servers := (servers ?s5a)(?p \<mapsto> ?made)\<rparr>)"
      unfolding cr by (simp add: chat_params_def max_wait_def)
    then show ?thesis
      using s1(1) mem1(2) by (simp add: boot_def wr_server_step)
  qed
  have z5: "zeroed ?s2" using e1 by (simp add: env_def zeroed_def)
  have T5: "wf_list_mem ?s6" using s3(5) by (simp add: wf_list_mem_def)
  have "conns_rep ?s6 ?l [] []"
    using s3(2,3) T5 z5 f3(2) cl s1(2) s3(6) by (simp add: conns_rep_def zeroed_def)
  then have at: "server_at ?s6 ?p ?srv [] []" using mem1(2) by (simp add: server_at_def)
  have b3: "brk s3 = brk s1 + 5" using s3(6) by simp
  have mb: "mapped ?s6 ?buf BUFF_SIZE" by (simp add: mapped_def map_bytes_def b3)
  have "bytes s3 (brk s3 + BUFF_SIZE) = None"
    using env_simps(2) [OF db_rep_env [OF rep3]] by (simp add: wf_bytes_def)
  then have "bytes ?s6 (?buf - 1) = None" using b3 by (simp add: map_bytes_out add.assoc add.commute add.left_commute)
  moreover have "db_rep (sans ?T ?s6) ?db ?buf {?buf - 1..<?buf + BUFF_SIZE} chat_empty"
    by (rule db_rep_evolved [OF rep5]) (intro evolved_step evolved_refl)
  ultimately have "chat_rep ?db ?buf (sans ?T ?s6) chat_empty" unfolding chat_rep_def by simp
  then have "chat_loop ?s6 ?p m [] chat_empty"
    unfolding chat_loop_def
    by (intro exI [of _ ?srv] exI [of _ "[]"] conjI at) (use mb in \<open>simp_all add: fds_inv_def\<close>)
  with run show ?thesis using f3 by (intro exI [of _ ?p] exI [of _ ?s6]) simp
qed

text \<open>\<open>boot\<close> is the first half of \<open>RunServerSide\<close>; the loop and the destruction follow.\<close>

lemma chain_unit: "chain m (\<lambda>_ s. Inr ((), s)) = m"
  by (auto simp: chain_def fun_eq_iff split: sum.splits)

lemma RunServerSide_boot:
  fixes s :: "'a tcp_mem_scheme"
  assumes "booting s m" and "1024 \<le> port" and "boot port s = Inr (p, s')"
  shows "RunServerSide k port s = chain (run_loop k chat_callbacks p) (\<lambda>_. DestroyServer p) s'"
proof -
  obtain db s1 server s2 where c: "CreateMainDataBase s = Inr (db, s1)"
    "CreateServer (chat_params port db) (Some chat_callbacks) s1 = Inr (server, s2)"
    "wr_server server (\<lambda>srv. srv\<lparr>m_max_socket := m_masterSocket srv\<rparr>) s2 = Inr ((), s')" "p = server"
    using assms(3) by (auto simp: boot_def chain_eq_Inr)
  obtain r where r: "server \<noteq> NULL" "servers s2 server = Some r" "s' = s2\<lparr>servers := (servers s2)(server \<mapsto> r\<lparr>m_max_socket := m_masterSocket r\<rparr>)\<rparr>"
    using c(3) by (auto simp: wr_server_def rd_server_def reads_def chain_eq_Inr split: if_splits option.splits)
  have db: "db \<noteq> NULL"
    using CreateMainDataBase_refines [of s "{}"] assms(1) c(1) by (auto simp: booting_def env_def wf_bytes_def)
  have "m_magicNum r = MAGIC_NUM"
    using boot_ok [OF assms(1,2)] assms(3) r c(4) by auto
  then show ?thesis
    using c r db by (simp add: RunServerSide_def RunServer_def c_step chain_assoc chain_unit)
qed

end
