(* ===== verification/EndToEnd.thy ===== *)
theory EndToEnd
  imports ClientProperties ChatServer
begin

text \<open>
  Client and server together. The client runs against the server's own application, byte for
  byte: what the client receives for a request is what lies at the answer the server computed
  for it (bytes of the 1024 that the server sends without having set them may be anything).
\<close>

section \<open>The network between the two\<close>

definition agrees :: "u8 list \<Rightarrow> u8 option list \<Rightarrow> bool" where
  "agrees ys xs \<longleftrightarrow> length ys = length xs \<and> (\<forall>i < length xs. \<forall>b. xs ! i = Some b \<longrightarrow> ys ! i = b)"

lemma agrees_sub:
  assumes "agrees ys xs" and "take n (drop k xs) = map Some cs"
  shows "take n (drop k (map Some ys)) = map Some cs"
proof (rule nth_equalityI)
  have len: "length ys = length xs" using assms(1) by (simp add: agrees_def)
  then show "length (take n (drop k (map Some ys))) = length (map Some cs)"
    using arg_cong [OF assms(2), of length] by simp
  fix i assume "i < length (take n (drop k (map Some ys)))"
  then have i: "i < n" "k + i < length xs" using len by auto
  have "xs ! (k + i) = map Some cs ! i" using arg_cong [OF assms(2), of "\<lambda>l. l ! i"] i by simp
  moreover have "i < length cs" using arg_cong [OF assms(2), of length] i by simp
  ultimately have "ys ! (k + i) = cs ! i" using assms(1) i by (simp add: agrees_def)
  then show "take n (drop k (map Some ys)) ! i = map Some cs ! i" using i len \<open>i < length cs\<close> by simp
qed

lemma agrees_answer:
  assumes a: "agrees ys xs" and w: "wire ans xs"
  shows "holds_answer ans ys"
proof -
  have len: "length xs = 1024" using w by (cases ans) simp_all
  have at: "map Some ys ! i = Some b" if "i < 1024" "xs ! i = Some b" for i b
    using a len that by (simp add: agrees_def)
  have "wire ans (map Some ys)"
  proof (cases ans)
    case (UserAnswer t c)
    then show ?thesis using w a at [of 0] agrees_sub [OF a] by (simp add: agrees_def)
  next
    case (GroupAnswer t c ip)
    have "map Some ys ! (1 + i) = Some ((cs @ [0]) ! i)"
      if "\<forall>i \<le> length cs. i < 1023 \<longrightarrow> xs ! (1 + i) = Some ((cs @ [0]) ! i)" "i \<le> length cs" "i < 1023" for cs i
      by (rule at) (use that in auto)
    then show ?thesis using GroupAnswer w a at [of 0] agrees_sub [OF a] by (auto simp: agrees_def split: option.splits)
  qed
  then show ?thesis using a len by (simp add: holds_answer_def agrees_def)
qed

text \<open>
  \<open>honest buf db s w n rs A\<close>: from its call number \<open>n\<close> on, the client receives the answers that
  the server, in memory \<open>s\<close>, computes for the requests \<open>rs\<close>.
\<close>

fun honest :: "addr \<Rightarrow> addr \<Rightarrow> 'a db_mem_scheme \<Rightarrow> client_os \<Rightarrow> nat \<Rightarrow> request list \<Rightarrow> chat \<Rightarrow> bool" where
  "honest buf db s w n [] A \<longleftrightarrow> True"
| "honest buf db s w n (r # rs) A \<longleftrightarrow> 0 \<le> net_send w n \<and>
     (\<forall>p s1. handle buf db r s = Inr (p, s1) \<longrightarrow>
        (\<exists>ys. net_recv w (n + 1) = Some ys \<and> agrees ys (map (\<lambda>i. bytes s1 (p + i)) [0..<1024])) \<and>
        honest buf db s1 w (n + call_count w n r (fst (serve r A))) rs (snd (serve r A)))"

lemma honest_answered:
  fixes s :: "'a db_mem_scheme"
  assumes "db_rep s db buf F A" and "mapped s buf 36" and F: "{buf..<buf + 36} \<subseteq> F"
    and "\<forall>r \<in> set rs. valid_request r" and "counts_below k A" and "k + length rs < 2 ^ 31"
    and "honest buf db s w n rs A"
  shows "answered w n (zip rs (fst (serve_all rs A)))"
  using assms(1,2,4-)
proof (induction rs arbitrary: s A k n)
  case Nil
  then show ?case by simp
next
  case (Cons r rs)
  have "count_ok r A" by (rule count_ok_below [OF Cons.prems(4)]) (use Cons.prems(5) in simp)
  moreover have "valid_request r" using Cons.prems(3) by simp
  ultimately obtain p s1 where s1: "handle buf db r s = Inr (p, s1)" "answer_at s1 p (fst (serve r A))"
    "db_rep s1 db buf F (snd (serve r A))" "mapped s1 buf 36"
    using handle_refines [OF Cons.prems(1,2) F, of r] by blast
  obtain ys where ys: "net_recv w (n + 1) = Some ys" "agrees ys (map (\<lambda>i. bytes s1 (p + i)) [0..<1024])"
    and rest: "honest buf db s1 w (n + call_count w n r (fst (serve r A))) rs (snd (serve r A))"
    using Cons.prems(6) s1(1) by auto
  have "wire (fst (serve r A)) (map (\<lambda>i. bytes s1 (p + i)) [0..<1024])"
    using wire_sent [OF s1(2)] by (simp add: BUFF_SIZE_def)
  from agrees_answer [OF ys(2) this] have "holds_answer (fst (serve r A)) ys" by simp
  moreover have "answered w (n + call_count w n r (fst (serve r A))) (zip rs (fst (serve_all rs (snd (serve r A)))))"
    by (rule Cons.IH [OF s1(3,4) _ counts_below_serve [OF Cons.prems(4)] _ rest]) (use Cons.prems(3,5) in simp_all)
  moreover have "fst (serve_all (r # rs) A) = fst (serve r A) # fst (serve_all rs (snd (serve r A)))"
    by (simp add: Let_def split_def)
  ultimately show ?case using ys(1) Cons.prems(6) by (simp del: serve_all.simps serve.simps)
qed

section \<open>The chat\<close>

fun is_leave :: "request \<Rightarrow> bool" where
  "is_leave (LeaveGroup g u) = True"
| "is_leave _ = False"

lemma sent_as_requested: "\<not> is_leave r \<Longrightarrow> bytes_sent r = request_bytes r"
  by (cases r) simp_all

text \<open>A server that starts with an empty data base and a client that connects to it and makes any sequence of calls (none of them to leave a group): the server receives exactly the requests of the client, neither program faults, and the client's results are those of the abstract chat server.\<close>

theorem client_and_server:
  fixes s :: "'a db_mem_scheme" and c :: "'b client_mem_scheme"
  assumes "booted s buf" and "env c" and "str_at c ip ipn" and "net_socket (cos c) (asked c) = sock" "0 \<le> sock"
    and "int_ok port" and "length rs < 2 ^ 31"
    and rs: "\<forall>(r, x, y) \<in> set rs. valid_request r \<and> \<not> is_leave r \<and> arguments (brk c) c r x y"
    and net: "\<forall>db s1. CreateMainDataBase s = Inr (db, s1) \<longrightarrow> honest buf db s1 (cos c) (asked c + 2) (map fst rs) chat_empty"
  shows "\<exists>db s1 s2 c1 c2. CreateMainDataBase s = Inr (db, s1) \<and>
    session buf db s1 (map fst rs) (fst (serve_all (map fst rs) chat_empty)) s2 \<and>
    Connect_User ip port c = Inr (brk c, c1) \<and>
    client_run rs (brk c) c1 = Inr (outcomes (map fst rs) chat_empty, c2) \<and>
    sent_by (events c2) = sent_by (events c) @ map (\<lambda>r. map Some (request_bytes (fst r))) rs"
proof -
  let ?F = "{buf..<buf + 36}"
  have v: "\<forall>r \<in> set (map fst rs). valid_request r" using rs by auto
  have F: "?F \<subseteq> {..<brk s}" using assms(1) by (auto simp: booted_def)
  obtain s1 where s1: "CreateMainDataBase s = Inr (brk s, s1)" "db_rep s1 (brk s) buf ?F chat_empty"
    "\<forall>a < brk s. bytes s1 a = bytes s a"
    using CreateMainDataBase_refines [OF _ F, of buf] assms(1) unfolding booted_def by blast
  have m: "mapped s1 buf 36" by (rule mapped_cong [of s]) (use assms(1) s1(3) in \<open>auto simp: booted_def\<close>)
  have n: "0 + length (map fst rs) < 2 ^ 31" using assms(7) by simp
  obtain s2 where s2: "session buf (brk s) s1 (map fst rs) (fst (serve_all (map fst rs) chat_empty)) s2"
    using session_refines [OF s1(2) m subset_refl v counts_below_empty n] by blast
  have "honest buf (brk s) s1 (cos c) (asked c + 2) (map fst rs) chat_empty" using net s1(1) by blast
  then have ans: "answered (cos c) (asked c + 2) (zip (map fst rs) (fst (serve_all (map fst rs) chat_empty)))"
    by (rule honest_answered [OF s1(2) m subset_refl v counts_below_empty n])
  obtain c1 where c1: "Connect_User ip port c = Inr (brk c, c1)"
    "client_rep (brk c) c1 (brk c) (brk c + 2) sock port Map.empty"
    "events c1 = events c @ (if net_connect (cos c) (asked c + 1) < 0 then [] else [Opened sock ipn (word_of_int port)])"
    "asked c1 = asked c + 2" "cos c1 = cos c" "bytes c1 = bytes c" "brk c \<le> brk c1"
    by (rule Connect_User_ok [OF assms(2-5)])
  have "\<forall>(r, x, y) \<in> set rs. valid_request r \<and> arguments (brk c) c1 r x y"
    using rs c1(6,7) by (auto intro: arguments_later)
  then obtain c2 where c2: "client_run rs (brk c) c1 = Inr (outcomes (map fst rs) chat_empty, c2)"
    "sent_by (events c2) = sent_by (events c1) @ map (\<lambda>r. map Some (bytes_sent (fst r))) rs"
    using client_run_ok [OF c1(2) assms(6) _ answers_for_all [OF addresses_fit_empty]] ans c1(4,5)
    by (auto simp: outcomes_serve_all)
  have "map (\<lambda>r. map Some (bytes_sent (fst r))) rs = map (\<lambda>r. map Some (request_bytes (fst r))) rs"
    using rs by (auto simp: sent_as_requested)
  moreover have "sent_by (events c1) = sent_by (events c)" by (auto simp: c1(3) sent_by_def)
  ultimately show ?thesis using s1(1) s2 c1(1) c2 by auto
qed

text \<open>One request, over a network that delivers what the server computes.\<close>

lemma honest_network:
  "\<exists>w. net_socket w 0 = 3 \<and> (\<forall>db s1. CreateMainDataBase start_state = Inr (db, s1) \<longrightarrow>
     honest 1 db s1 w 2 [Register [97] [98]] chat_empty)"
proof -
  define h :: "addr \<times> (addr \<Rightarrow> u8 option)" where
    "h = (case CreateMainDataBase start_state of Inl e \<Rightarrow> (0, \<lambda>_. None)
       | Inr (db, s1) \<Rightarrow> (case handle 1 db (Register [97] [98]) s1 of Inl e \<Rightarrow> (0, \<lambda>_. None) | Inr (p, s2) \<Rightarrow> (p, bytes s2)))"
  have h: "h = (p, bytes s2)" if "CreateMainDataBase start_state = Inr (db, s1)"
    "handle 1 db (Register [97] [98]) s1 = Inr (p, s2)" for db s1 p s2
    using that by (simp add: h_def)
  let ?xs = "map (\<lambda>i. snd h (fst h + i)) [0..<1024]"
  let ?w = "answering (map (\<lambda>b. case b of None \<Rightarrow> 0 | Some x \<Rightarrow> x) ?xs)"
  have "agrees (map (\<lambda>b. case b of None \<Rightarrow> 0 | Some x \<Rightarrow> x) ?xs) ?xs" by (simp add: agrees_def)
  then have "honest 1 db s1 ?w 2 [Register [97] [98]] chat_empty" if "CreateMainDataBase start_state = Inr (db, s1)" for db s1
    using h [OF that] by (auto simp: answering_def quiet_net_def)
  then show ?thesis by (intro exI [of _ ?w]) (simp add: answering_def quiet_net_def)
qed

theorem client_and_server_witness:
  "\<exists>w db s1 s2 c1 c2. CreateMainDataBase start_state = Inr (db, s1) \<and>
    session 1 db s1 [Register [97] [98]] [UserAnswer REGISTER_ANS REGISTER_SUCCESS] s2 \<and>
    Connect_User 10 5555 (client_start w) = Inr (20, c1) \<and>
    client_run [(Register [97] [98], 1, 4)] 20 c1 = Inr ([Some CLIENT_SUCCESS], c2)"
proof -
  obtain w where w: "net_socket w 0 = 3" "\<forall>db s1. CreateMainDataBase start_state = Inr (db, s1) \<longrightarrow>
     honest 1 db s1 w 2 [Register [97] [98]] chat_empty" using honest_network by blast
  have "serve (Register [97] [98]) chat_empty = (UserAnswer REGISTER_ANS REGISTER_SUCCESS,
      snd (spec_register [97] [98] chat_empty))"
    by (simp add: spec_register_def chat_empty_def UNIQE_def)
  then have "fst (serve_all [Register [97] [98]] chat_empty) = [UserAnswer REGISTER_ANS REGISTER_SUCCESS]"
    "outcomes [Register [97] [98]] chat_empty = [Some CLIENT_SUCCESS]"
    by (simp_all add: code_of_def del: serve.simps)
  note r = this
  let ?rs = "[(Register [97] [98], 1, 4)] :: (request \<times> addr \<times> addr) list"
  have rs: "\<forall>(r, x, y) \<in> set ?rs. valid_request r \<and> \<not> is_leave r \<and> arguments (brk (client_start w)) (client_start w) r x y"
    using client_start_strings by (simp add: arguments_def)
  have net: "\<forall>db s1. CreateMainDataBase start_state = Inr (db, s1) \<longrightarrow>
      honest 1 db s1 (cos (client_start w)) (asked (client_start w) + 2) (map fst ?rs) chat_empty"
    unfolding client_start_simps list.map fst_conv add_0_left by (rule w(2))
  have sock: "net_socket (cos (client_start w)) (asked (client_start w)) = 3" "(0 :: int) \<le> 3" using w(1) by simp_all
  have few: "length ?rs < 2 ^ 31" by simp
  from client_and_server [OF start_state_booted client_start_env client_start_strings(4) sock port_ok few rs net]
  show ?thesis unfolding list.map fst_conv r client_start_simps by blast
qed

end
