(* ===== verification/ServerLife.thy ===== *)
theory ServerLife
  imports ChatServer
begin

text \<open>
  The life of the server from its start to its end. A signal sets \<open>stop\<close>; the loop of \<open>RunServer\<close> sees
  it after the pass in which it arrives. \<open>tracks\<close> says that a program step accounts for the
  signals of the system calls it makes; it is closed under \<open>chain\<close> and holds for a pass.
  \<open>DestroyServer\<close> then closes all sockets and frees the server's memory.
\<close>

section \<open>Signals\<close>

definition interrupted :: "os \<Rightarrow> nat \<Rightarrow> nat \<Rightarrow> bool" where
  "interrupted w a b \<longleftrightarrow> (\<exists>n. a \<le> n \<and> n < b \<and> os_signal w n)"

lemma interrupted_simps [simp]: "\<not> interrupted w a a" "interrupted w a (Suc a) = os_signal w a"
  by (auto simp: interrupted_def less_Suc_eq_le)

lemma interrupted_append: "a \<le> b \<Longrightarrow> b \<le> c \<Longrightarrow> interrupted w a c \<longleftrightarrow> interrupted w a b \<or> interrupted w b c"
  unfolding interrupted_def by (meson leI less_le_trans order_trans)

definition tracks :: "('a tcp_mem_scheme, 'r) prog \<Rightarrow> bool" where
  "tracks m \<longleftrightarrow> (\<forall>s a s'. m s = Inr (a, s') \<longrightarrow> calls s \<le> calls s' \<and> io s' = io s \<and>
     stop s' = (if interrupted (io s) (calls s) (calls s') then 1 else stop s))"

named_theorems tracks_intro

lemma tracksD:
  "tracks m \<Longrightarrow> m s = Inr (a, s') \<Longrightarrow> calls s \<le> calls s' \<and> io s' = io s \<and>
     stop s' = (if interrupted (io s) (calls s) (calls s') then 1 else stop s)"
  unfolding tracks_def by blast

lemma tracks_still:
  "(\<And>s a s'. m s = Inr (a, s') \<Longrightarrow> calls s' = calls s \<and> io s' = io s \<and> stop s' = stop s) \<Longrightarrow> tracks m"
  by (simp add: tracks_def)

lemma tracks_chain [tracks_intro]:
  assumes m: "tracks m" and f: "\<And>a. tracks (f a)"
  shows "tracks (chain m f)"
  unfolding tracks_def
proof (intro allI impI)
  fix s :: "'a tcp_mem_scheme" and r s'
  assume "chain m f s = Inr (r, s')"
  then obtain a s1 where s1: "m s = Inr (a, s1)" "f a s1 = Inr (r, s')" by (auto simp: chain_eq_Inr)
  show "calls s \<le> calls s' \<and> io s' = io s \<and>
     stop s' = (if interrupted (io s) (calls s) (calls s') then 1 else stop s)"
    using tracksD [OF m s1(1)] tracksD [OF f s1(2)] interrupted_append [of "calls s" "calls s1" "calls s'"]
    by auto
qed

lemma tracks_basic [tracks_intro]: "tracks (ret a)" "tracks (fail e)" "tracks (reads g)"
  by (auto simp: tracks_def reads_def split: sum.splits)

lemma tracks_cases [tracks_intro]:
  "tracks f \<Longrightarrow> tracks g \<Longrightarrow> tracks (if b then f else g)"
  "tracks (h x) \<Longrightarrow> tracks (Let x h)"
  by simp_all

lemma tracks_option [tracks_intro]:
  "tracks f \<Longrightarrow> (\<And>y. tracks (g y)) \<Longrightarrow> tracks (case x of None \<Rightarrow> f | Some y \<Rightarrow> g y)"
  by (cases x) auto

lemma tracks_pair [tracks_intro]: "(\<And>a b. tracks (f a b)) \<Longrightarrow> tracks (case x of (a, b) \<Rightarrow> f a b)"
  by (cases x) auto

lemma tracks_fuel: "(\<And>k. tracks (f k)) \<Longrightarrow> tracks (\<lambda>s. f (brk s) s)"
  unfolding tracks_def by blast

lemma tracks_modify:
  "(\<And>s. calls (g s) = calls s \<and> io (g s) = io s \<and> stop (g s) = stop s) \<Longrightarrow> tracks (modify g)"
  by (simp add: tracks_def)

lemma tracks_sys_call [tracks_intro]: "tracks (sys_call f)"
  by (rule tracks_def [THEN iffD2]) (auto simp: sys_call_step ticked_def)

text \<open>What does not know of the server makes no system call.\<close>

lemma tracks_local:
  fixes m :: "('a tcp_mem_scheme, 'r) prog"
  assumes "local m"
  shows "tracks m"
proof (rule tracks_still)
  fix s s' :: "'a tcp_mem_scheme" and a
  assume "m s = Inr (a, s')"
  then have e: "db_mem.more s' = db_mem.more s" by (rule local_more [OF assms])
  show "calls s' = calls s \<and> io s' = io s \<and> stop s' = stop s"
    using e by (cases s; cases s') (simp add: tcp_mem.defs)
qed

lemma local_more_lists [local_intro]: "local (List_PushTail l x)" "local (ListItr_Prev a)" "local (List_Size l)"
proof -
  have loop: "local (size_loop k l a i)" for k a i
    by (induction k arbitrary: a i) (simp_all only: size_loop.simps, (intro local_intro | assumption)+)
  show "local (List_PushTail l x)" "local (ListItr_Prev a)"
    unfolding List_PushTail_def ListItr_Prev_def by (intro local_intro)+
  show "local (List_Size l)"
    unfolding List_Size_def by (intro local_intro local_fuel [of "\<lambda>k. size_loop k l _ 0"] loop)
qed

lemmas tracks_lists [tracks_intro] =
  local_list [THEN tracks_local] local_more_lists [THEN tracks_local] local_ListItr_Remove [THEN tracks_local]
  local_put_bytes [THEN tracks_local] local_malloc [THEN tracks_local]

lemma tracks_chat [tracks_intro]: "tracks (doSomething chat_callbacks msg ctx fd)"
  unfolding chat_callbacks_simps chat_app_def by (rule tracks_local [OF local_application])

lemma tracks_objects [tracks_intro]:
  "tracks (rd_server p)" "tracks (wr_server p f)" "tracks (rd_client c)" "tracks (wr_client c g)"
  "tracks (free_client c)" "tracks (free_server p)" "tracks (fd_set_add fd A)" "tracks (fd_set_clear fd A)" "tracks (sys_trace e)"
proof -
  show "tracks (free_client c)" "tracks (free_server p)"
    by (rule tracks_still; auto simp: free_client_def free_server_def split: if_splits)+
qed (unfold rd_server_def wr_server_def rd_client_def wr_client_def fd_set_add_def fd_set_clear_def sys_trace_def,
  (intro tracks_intro tracks_modify; simp)+)

lemma tracks_calls [tracks_intro]:
  "tracks sys_time" "tracks (sys_close fd)" "tracks (sys_select n A t)" "tracks (sys_recv fd b k)"
  "tracks (sys_send fd b k)"
  unfolding sys_time_def sys_close_def sys_select_def sys_recv_def sys_send_def Let_def
  by (intro tracks_intro)+

lemma tracks_call_back [tracks_intro]:
  "tracks (call_back (acceptFunc chat_callbacks) c x)" "tracks (call_back (disconnect chat_callbacks) c x)"
  by (simp_all add: chat_callbacks_def call_back_def WelcomeNewClient_def ClientDisconnected_def tracks_def)

lemma tracks_accept [tracks_intro]:
  "tracks (UpdateTimeForClient p c)" "tracks (CreateNewClient fd a)" "tracks (AddClientToTheList chat_callbacks p)"
proof -
  show u: "tracks (UpdateTimeForClient p c)" for p c unfolding UpdateTimeForClient_def by (intro tracks_intro)
  show c: "tracks (CreateNewClient fd a)" for fd a
    unfolding CreateNewClient_def by (intro tracks_intro tracks_modify) simp
  show "tracks (AddClientToTheList chat_callbacks p)"
    unfolding AddClientToTheList_def AcceptClient_def by (intro tracks_intro u c)
qed

lemma tracks_expiry [tracks_intro]: "tracks (Check_expiry_of_Clients chat_callbacks p)"
proof -
  have "tracks (expiry_loop k chat_callbacks p now a b)" for k now a b
    by (induction k arbitrary: a)
      (simp_all only: expiry_loop.simps Remove_Client_On_timeout_def, (intro tracks_intro | assumption)+)
  then show ?thesis
    unfolding Check_expiry_of_Clients_def
    by (intro tracks_intro tracks_fuel [of "\<lambda>k. expiry_loop k chat_callbacks p _ _ _"])
qed

lemma tracks_receive [tracks_intro]: "tracks (ReceiveAndSend chat_callbacks p)"
proof -
  have "tracks (recv_loop k chat_callbacks p a b)" for k a b
    by (induction k arbitrary: a)
      (simp_all only: recv_loop.simps ActionFuncSndRcv_def, (intro tracks_intro | assumption)+)
  then show ?thesis
    unfolding ReceiveAndSend_def
    by (intro tracks_intro tracks_fuel [of "\<lambda>k. recv_loop k chat_callbacks p _ _"])
qed

lemma tracks_pass: "tracks (server_pass chat_callbacks p)"
  unfolding server_pass_def Check_list_empty_def GetTTL_def by (intro tracks_intro)

section \<open>The loop\<close>

text \<open>The first signal arrives in the last of the passes.\<close>

fun signalled ::
  "('r \<Rightarrow> 'b \<Rightarrow> 'ans \<times> 'b) \<Rightarrow> timeval \<Rightarrow> os \<Rightarrow> nat \<Rightarrow> conn list \<Rightarrow> 'b \<Rightarrow> 'r input list \<Rightarrow> bool" where
  "signalled sv mx w n conns A [] \<longleftrightarrow> False"
| "signalled sv mx w n conns A (inp # inps) \<longleftrightarrow>
     (if interrupted w n (after n conns inp) then inps = []
      else (let (conns1, out, A1) = apass sv mx inp conns A in
            signalled sv mx w (after n conns inp) conns1 A1 inps))"

lemma chat_pass_spilled:
  fixes s :: "'a tcp_mem_scheme"
  assumes "chat_loop s p m conns A" and "feeds request_bytes (io s) (calls s) m conns inp"
    and "all_allowed chat_allowed serve (requests inp) A"
    and "apass serve max_wait inp conns A = (conns', (cl, ex), A')"
  shows "\<exists>s' es. server_pass chat_callbacks p s = Inr ((), s') \<and> chat_loop s' p m conns' A' \<and>
    trace s' = trace s @ map Closed cl @ es \<and> exchanged request_bytes spilled ex es \<and>
    calls s' = after (calls s) conns inp \<and> io s' = io s \<and>
    stop s' = (if interrupted (io s) (calls s) (calls s') then 1 else stop s)"
proof -
  obtain s' es where s': "server_pass chat_callbacks p s = Inr ((), s')" "tcp.loop_inv s' p max_wait m conns' A'"
    "trace s' = trace s @ map Closed cl @ es" "exchanged request_bytes spilled ex es"
    "calls s' = after (calls s) conns inp" "io s' = io s"
    using tcp.pass_refines [OF _ chat_callbacks_simps assms(2-4)] assms(1) unfolding chat_loop_tcp by blast
  then show ?thesis using tracksD [OF tracks_pass s'(1)] unfolding chat_loop_tcp by blast
qed

lemma chat_pass:
  fixes s :: "'a tcp_mem_scheme"
  assumes "chat_loop s p m conns A" and "feeds request_bytes (io s) (calls s) m conns inp"
    and "all_allowed chat_allowed serve (requests inp) A"
    and "apass serve max_wait inp conns A = (conns', (cl, ex), A')"
  shows "\<exists>s' es. server_pass chat_callbacks p s = Inr ((), s') \<and> chat_loop s' p m conns' A' \<and>
    trace s' = trace s @ map Closed cl @ es \<and> exchanged request_bytes wire ex es \<and>
    calls s' = after (calls s) conns inp \<and> io s' = io s \<and>
    stop s' = (if interrupted (io s) (calls s) (calls s') then 1 else stop s)"
proof -
  have "exchanged request_bytes wire ex es" if "exchanged request_bytes spilled ex es" for es
    by (rule exchanged_mono [OF that]) (simp add: spilled_def)
  then show ?thesis using chat_pass_spilled [OF assms] by blast
qed

lemma run_loop_stopped: "stop s \<noteq> 0 \<Longrightarrow> run_loop k cb p s = Inr ((), s)"
  by (cases k) simp_all

lemma run_loop_step:
  "stop s = 0 \<Longrightarrow> server_pass cb p s = Inr ((), s') \<Longrightarrow> run_loop (Suc k) cb p s = run_loop k cb p s'"
  by simp

lemma chat_run:
  fixes s :: "'a tcp_mem_scheme"
  assumes "chat_loop s p m conns A" and "stop s = 0" and "length inps \<le> k"
    and "feeds_all request_bytes chat_allowed serve max_wait (io s) (calls s) m conns A inps"
    and "signalled serve max_wait (io s) (calls s) conns A inps"
  shows "\<exists>s' es. run_loop k chat_callbacks p s = Inr ((), s') \<and>
    chat_loop s' p m (fst (apasses serve max_wait inps conns A)) (snd (snd (apasses serve max_wait inps conns A))) \<and>
    trace s' = trace s @ es \<and> observed request_bytes wire (fst (snd (apasses serve max_wait inps conns A))) es"
  using assms
proof (induction inps arbitrary: s conns A k)
  case Nil
  then show ?case by simp
next
  case (Cons inp inps)
  obtain conns1 cl ex A1 where ap: "apass serve max_wait inp conns A = (conns1, (cl, ex), A1)"
    by (metis prod_cases3 prod.collapse)
  have w: "feeds request_bytes (io s) (calls s) m conns inp" "all_allowed chat_allowed serve (requests inp) A"
    "feeds_all request_bytes chat_allowed serve max_wait (io s) (after (calls s) conns inp) m conns1 A1 inps"
    using Cons.prems(4) ap by simp_all
  obtain s1 es where s1: "server_pass chat_callbacks p s = Inr ((), s1)" "chat_loop s1 p m conns1 A1"
    "trace s1 = trace s @ map Closed cl @ es" "exchanged request_bytes wire ex es"
    "calls s1 = after (calls s) conns inp" "io s1 = io s"
    "stop s1 = (if interrupted (io s) (calls s) (calls s1) then 1 else stop s)"
    using chat_pass [OF Cons.prems(1) w(1,2) ap] by (elim exE conjE) (rule that; assumption)
  obtain k' where k: "k = Suc k'" "length inps \<le> k'" using Cons.prems(3) by (cases k) auto
  note run = run_loop_step [OF Cons.prems(2) s1(1), of k']
  let ?rest = "apasses serve max_wait inps conns1 A1"
  obtain s2 es2 where s2: "run_loop k' chat_callbacks p s1 = Inr ((), s2)"
    "chat_loop s2 p m (fst ?rest) (snd (snd ?rest))" "trace s2 = trace s1 @ es2"
    "observed request_bytes wire (fst (snd ?rest)) es2"
  proof (cases "interrupted (io s) (calls s) (calls s1)")
    case True
    then have "inps = []" using Cons.prems(5) s1(5) by simp
    then show ?thesis using that [of s1 "[]"] True s1(2,7) run_loop_stopped [of s1] by simp
  next
    case False
    then have "stop s1 = 0" "signalled serve max_wait (io s1) (calls s1) conns1 A1 inps"
      using Cons.prems(2,5) s1(5,6,7) ap by simp_all
    then show ?thesis using Cons.IH [OF s1(2) _ k(2)] w(3) s1(5,6) that by auto
  qed
  have e: "apasses serve max_wait (inp # inps) conns A = (fst ?rest, (cl, ex) # fst (snd ?rest), snd (snd ?rest))"
    using ap by (simp add: Let_def split_def)
  have "observed request_bytes wire ((cl, ex) # fst (snd ?rest)) (map Closed cl @ es @ es2)"
    using s1(4) s2(4) by auto
  then show ?case unfolding e k(1) run using s1 s2
    by (intro exI [of _ s2] exI [of _ "map Closed cl @ es @ es2"]) simp
qed

section \<open>The end\<close>

text \<open>\<open>List_Destroy\<close> with \<open>elementDestroy\<close>: the sockets are closed in the order of the list.\<close>

lemma destroy_loop_clients:
  fixes s :: "'a tcp_mem_scheme"
  assumes "links (nodes s) (cs @ [tail_of l])" and "distinct (cs @ [tail_of l])" and "NULL \<notin> set cs"
    and "length cs < k" and "list_all2 (client_is (clients s)) (items (nodes s) cs) conns"
    and "distinct (items (nodes s) cs)" and "NULL \<notin> set (items (nodes s) cs)"
  shows "destroy_loop k l (hd (cs @ [tail_of l])) (Some elementDestroy) s = Inr ((),
    s\<lparr>nodes := drop_nodes (set cs) (nodes s), clients := clients s |` (- set (items (nodes s) cs)),
      trace := trace s @ map (Closed \<circ> fst) conns\<rparr>)"
  using assms
proof (induction cs arbitrary: k s conns)
  case Nil
  then show ?case by (cases k) auto
next
  case (Cons c cs)
  let ?d = "hd (cs @ [tail_of l])" and ?x = "item_at (nodes s) c"
  obtain k' where k: "k = Suc k'" using Cons.prems(4) by (cases k) auto
  obtain nc nd where n: "nodes s c = Some nc" "m_next nc = ?d" "nodes s ?d = Some nd" "m_prev nd = c"
    using Cons.prems(1) by (cases cs) auto
  have dn: "?d \<noteq> NULL" "c \<noteq> NULL" "c \<noteq> tail_of l" using Cons.prems by (cases cs; auto)+
  obtain v vs d where v: "conns = v # vs" "clients s ?x = Some d" "m_clientSock d = fst v" "?x \<noteq> NULL"
    and all: "list_all2 (client_is (clients s)) (items (nodes s) cs) vs"
  proof -
    obtain v vs where "conns = v # vs" "client_is (clients s) ?x v" "list_all2 (client_is (clients s)) (items (nodes s) cs) vs"
      using Cons.prems(5) by (auto simp: list_all2_Cons1)
    moreover from this(2) obtain d where "clients s ?x = Some d" "m_clientSock d = fst v" by (auto simp: client_is_def)
    ultimately show ?thesis using that Cons.prems(7) by simp
  qed
  define h where "h = (clients s)(?x := None)"
  let ?s1 = "s\<lparr>trace := trace s @ [Closed (fst v)], clients := h\<rparr>"
  let ?h = "drop_nodes {c} (nodes s)"
  have el: "elementDestroy ?x s = Inr ((), ?s1)" using v by (simp add: elementDestroy_def c_step h_def)
  have free: "free_nodes c 1 ?s1 = Inr ((), ?s1\<lparr>nodes := ?h\<rparr>)"
    using n(1) dn by (simp add: free_node_step fun_upd_def drop_nodes_def)
  have ln: "links ?h (cs @ [tail_of l])" using Cons.prems(1,2)
    by (subst links_cong [of _ _ "nodes s"]) (auto simp: drop_nodes_def, cases cs, auto)
  have it: "items ?h cs = items (nodes s) cs"
    using Cons.prems(2) by (intro items_cong drop_nodes_out) auto
  have nx: "?x \<notin> set (items (nodes s) cs)" using Cons.prems(6) by simp
  have "list_all2 (client_is h) (items (nodes s) cs) vs"
    by (rule list.rel_mono_strong [OF all]) (use nx in \<open>auto simp: client_is_def h_def\<close>)
  then have IH: "destroy_loop k' l ?d (Some elementDestroy) (?s1\<lparr>nodes := ?h\<rparr>) = Inr ((),
      ?s1\<lparr>nodes := drop_nodes (set cs) ?h, clients := h |` (- set (items (nodes s) cs)),
        trace := trace s @ Closed (fst v) # map (Closed \<circ> fst) vs\<rparr>)"
    using Cons.IH [of "?s1\<lparr>nodes := ?h\<rparr>" k' vs] ln Cons.prems k it by simp
  have dr: "drop_nodes (set cs) ?h = drop_nodes (set (c # cs)) (nodes s)"
    by (simp add: drop_nodes_drop insert_commute)
  have cl: "h |` (- set (items (nodes s) cs)) = clients s |` (- set (items (nodes s) (c # cs)))"
    by (auto simp: restrict_map_def fun_eq_iff h_def)
  have "destroy_loop k l c (Some elementDestroy) s = destroy_loop k' l ?d (Some elementDestroy) (?s1\<lparr>nodes := ?h\<rparr>)"
    using n dn k free el v(4) by (auto simp: get_step item_at_def)
  then show ?case unfolding IH dr cl using v(1) by simp
qed

lemma List_Destroy_clients:
  fixes s :: "'a tcp_mem_scheme"
  assumes rep: "conns_rep s l cs conns"
  shows "List_Destroy l (Some elementDestroy) s = Inr (NULL,
    s\<lparr>nodes := drop_nodes (list_nodes l cs) (nodes s), clients := clients s |` (- set (items (nodes s) cs)),
      trace := trace s @ map (Closed \<circ> fst) conns\<rparr>)"
proof -
  note dl = conns_repD(1) [OF rep] and wf = conns_repD(2) [OF rep]
  obtain n nt where n: "nodes s l = Some n" "m_next n = hd (cs @ [tail_of l])" "l \<noteq> NULL"
    "nodes s (tail_of l) = Some nt"
    using dlist_sentinels [OF dl] by auto
  let ?s = "s\<lparr>nodes := drop_nodes (set cs) (nodes s), clients := clients s |` (- set (items (nodes s) cs)),
      trace := trace s @ map (Closed \<circ> fst) conns\<rparr>"
  have "destroy_loop (brk s) l (hd (cs @ [tail_of l])) (Some elementDestroy) s = Inr ((), ?s)"
    by (rule destroy_loop_clients)
      (use dlist_run [of "nodes s" l "[]" cs] dl dlist_length [OF wf dl] rep in \<open>auto simp: conns_rep_def\<close>)
  moreover have "free_nodes l 2 ?s = Inr ((), ?s\<lparr>nodes := drop_nodes (list_nodes l cs) (nodes s)\<rparr>)"
  proof -
    have "nodes ?s l = Some n" "nodes ?s (Suc l) = Some nt"
      using n dlist_distinct [OF dl] by (simp_all add: drop_nodes_out tail_of_def)
    then have "\<not> (\<exists>i < 2. nodes ?s (l + i) = None)" by (auto simp: less_2_cases_iff)
    moreover have "(\<lambda>a. if l \<le> a \<and> a < l + 2 then None else nodes ?s a) = drop_nodes (list_nodes l cs) (nodes s)"
      by (auto simp: drop_nodes_def fun_eq_iff tail_of_def)
    ultimately show ?thesis using n(3) unfolding free_nodes_def by simp
  qed
  ultimately show ?thesis using n by (simp add: List_Destroy_def get_step)
qed

lemma free_block_ok:
  assumes "p \<noteq> NULL" and "bytes s p \<noteq> None" and "bytes s (p - 1) = None" and "p < brk s"
  shows "\<exists>s'. free_block p s = Inr ((), s') \<and> s' = s\<lparr>bytes := bytes s'\<rparr> \<and> bytes s' p = None"
proof -
  have "0 < block_len s p" using assms(2,4) by (subst block_len.simps) simp
  then show ?thesis using assms by (simp add: free_block_def unmap_bytes_def)
qed

lemma DestroyServer_ok:
  fixes s :: "'a tcp_mem_scheme"
  assumes at: "server_at s p srv cs conns" and magic: "m_magicNum srv = MAGIC_NUM"
    and buf: "m_buffer_rcv srv \<noteq> NULL" "bytes s (m_buffer_rcv srv) \<noteq> None" "bytes s (m_buffer_rcv srv - 1) = None"
      "m_buffer_rcv srv < brk s"
  shows "\<exists>s'. DestroyServer p s = Inr ((), s') \<and> servers s' = (servers s)(p := None) \<and>
    clients s' = clients s |` (- set (items (nodes s) cs)) \<and>
    nodes s' = drop_nodes (list_nodes (m_List_connectedClient srv) cs) (nodes s) \<and>
    bytes s' (m_buffer_rcv srv) = None \<and>
    trace s' = trace s @ map (Closed \<circ> fst) conns @ [Closed (m_masterSocket srv)]"
proof -
  note d = server_atD [OF at]
  let ?l = "m_List_connectedClient srv" and ?b = "m_buffer_rcv srv"
  let ?srv1 = "srv\<lparr>m_master_fds := {}, m_forSelect_fds := {}\<rparr>"
  let ?s1 = "s\<lparr>servers := (servers s)(p \<mapsto> ?srv1)\<rparr>"
  have "conns_rep ?s1 ?l cs conns" by (rule conns_rep_cong [OF d(3)]) simp_all
  note des = List_Destroy_clients [OF this]
  let ?s2 = "s\<lparr>nodes := drop_nodes (list_nodes ?l cs) (nodes s), clients := clients s |` (- set (items (nodes s) cs)),
      trace := trace s @ map (Closed \<circ> fst) conns @ [Closed (m_masterSocket srv)],
      servers := (servers s)(p \<mapsto> ?srv1\<lparr>m_List_connectedClient := NULL, m_masterSocket := 0\<rparr>)\<rparr>"
  obtain s3 where s3: "free_block ?b ?s2 = Inr ((), s3)" "s3 = ?s2\<lparr>bytes := bytes s3\<rparr>" "bytes s3 ?b = None"
    using free_block_ok [of ?b ?s2] buf by auto
  have f: "servers s3 = servers ?s2" "clients s3 = clients ?s2" "nodes s3 = nodes ?s2" "trace s3 = trace ?s2"
    by (subst s3(2), simp)+
  have "DestroyServer p s = Inr ((), s3\<lparr>servers := (servers s3)(p := None)\<rparr>)"
    using d(1,2) magic des s3(1) f(1) by (simp add: DestroyServer_def c_step free_server_def)
  then show ?thesis using f s3(3) by simp
qed

text \<open>In the state of the loop the server can be destroyed.\<close>

lemma chat_destroyed:
  fixes s :: "'a tcp_mem_scheme"
  assumes "chat_loop s p m conns A"
  shows "\<exists>s'. DestroyServer p s = Inr ((), s') \<and> servers s' p = None \<and>
    trace s' = trace s @ map (Closed \<circ> fst) conns @ [Closed m]"
proof -
  obtain srv cs where i: "server_at s p srv cs conns" "mapped s (m_buffer_rcv srv) BUFF_SIZE"
    "chat_rep (m_context srv) (m_buffer_rcv srv) (sans (list_nodes (m_List_connectedClient srv) cs) s) A"
    "m_masterSocket srv = m" "m_magicNum srv = MAGIC_NUM"
    using assms by (auto simp: chat_loop_def)
  let ?b = "m_buffer_rcv srv"
  have b: "?b \<noteq> NULL" "bytes s ?b \<noteq> None"
    using i(2) unfolding mapped_def BUFF_SIZE_def by (auto dest: spec [of _ 0])
  have g: "bytes s (?b - 1) = None" using i(3) by (simp add: chat_rep_def)
  have "?b \<in> {?b - 1..<?b + BUFF_SIZE}" by (simp add: BUFF_SIZE_def)
  moreover have "{?b - 1..<?b + BUFF_SIZE} \<subseteq> {..<brk s}" using i(3) by (auto simp: chat_rep_def db_rep_def)
  ultimately have "?b < brk s" by blast
  then show ?thesis using DestroyServer_ok [OF i(1,5) b g] i(4) by auto
qed

section \<open>The whole program\<close>

lemma tracks_boot: "tracks (boot port)"
  unfolding boot_def CreateServer_def InitMasterSocket_def CreateSocket_def BindServer_def
  by (intro tracks_intro tracks_local [OF local_creation] tracks_local [OF local_calloc_bytes] tracks_modify) simp_all

lemma server_program:
  fixes s :: "'a tcp_mem_scheme"
  assumes b: "booting s m" and port: "1024 \<le> port" and "stop s = 0"
    and quiet: "\<not> interrupted (io s) (calls s) (calls s + 4)" and k: "length inps \<le> k"
    and w: "feeds_all request_bytes chat_allowed serve max_wait (io s) (calls s + 4) m [] chat_empty inps"
    and sig: "signalled serve max_wait (io s) (calls s + 4) [] chat_empty inps"
  shows "\<exists>s' es. RunServerSide k port s = Inr ((), s') \<and>
    trace s' = trace s @ es @ map (Closed \<circ> fst) (fst (apasses serve max_wait inps [] chat_empty)) @ [Closed m] \<and>
    observed request_bytes wire (fst (snd (apasses serve max_wait inps [] chat_empty))) es"
proof -
  obtain p s1 where s1: "boot port s = Inr (p, s1)" "chat_loop s1 p m [] chat_empty" "trace s1 = trace s"
    "calls s1 = calls s + 4" "io s1 = io s"
    using boot_ok [OF b port] by blast
  from tracksD [OF tracks_boot s1(1)] have stop: "stop s1 = 0" using quiet s1(4) assms(3) by simp
  obtain s2 es where s2: "run_loop k chat_callbacks p s1 = Inr ((), s2)"
    "chat_loop s2 p m (fst (apasses serve max_wait inps [] chat_empty)) (snd (snd (apasses serve max_wait inps [] chat_empty)))"
    "trace s2 = trace s1 @ es" "observed request_bytes wire (fst (snd (apasses serve max_wait inps [] chat_empty))) es"
    using chat_run [OF s1(2) stop k] w sig s1(4,5) by auto
  show ?thesis
    using RunServerSide_boot [OF b port s1(1), of k] s2(1,3,4) s1(3) chat_destroyed [OF s2(2)] by auto
qed

end
