(* ===== verification/ChatRuns.thy ===== *)
theory ChatRuns
  imports ServerSession QueueRun
begin

text \<open>
  What a run of the application means for the users of the chat: who can log in, which
  addresses groups get, who can join and leave, and how many users and groups fit. The results are
  first proved of \<open>serve_all\<close>, and with \<open>booted_refines\<close> they hold of the code, run from
  \<open>CreateMainDataBase\<close> on (\<open>chat_session\<close>).
\<close>

section \<open>Users\<close>

text \<open>The password that was registered first under a name in slot \<open>i\<close>.\<close>

fun first_password :: "nat \<Rightarrow> request list \<Rightarrow> u8 list option" where
  "first_password i [] = None"
| "first_password i (Register name pw # rs) = (if slot name = i then Some pw else first_password i rs)"
| "first_password i (_ # rs) = first_password i rs"

lemma serve_users:
  "a_users (snd (serve r A)) = (case r of
     Register name pw \<Rightarrow> (if a_users A (slot name) = None then (a_users A)(slot name \<mapsto> pw) else a_users A)
   | _ \<Rightarrow> a_users A)"
  by (cases r) (auto simp: spec_register_def spec_create_def spec_join_def Let_def split: option.splits prod.splits)

lemma run_users:
  "a_users (snd (serve_all rs A)) i = (case a_users A i of Some pw \<Rightarrow> Some pw | None \<Rightarrow> first_password i rs)"
proof (induction rs arbitrary: A)
  case (Cons r rs)
  define C where "C = snd (serve r A)"
  have "snd (serve_all (r # rs) A) = snd (serve_all rs C)" by (simp add: Let_def split_def C_def)
  then show ?case
    using Cons.IH [of C] serve_users [of r A] unfolding C_def [symmetric]
    by (cases r) (auto simp del: serve_all.simps split: option.splits)
qed (simp split: option.splits)

section \<open>Groups\<close>

text \<open>The answers that report a new group, whatever address they hold, and those that report a new user.\<close>

fun creates :: "answer \<Rightarrow> bool" where
  "creates (GroupAnswer t a ip) \<longleftrightarrow> t = CREATE_GROUP_CONVERSATION_ANS \<and> a = GROUP_SUCCESSFULLY_INSERT"
| "creates (UserAnswer t a) \<longleftrightarrow> False"

fun registers :: "answer \<Rightarrow> bool" where
  "registers (UserAnswer t a) \<longleftrightarrow> t = REGISTER_ANS \<and> a = REGISTER_SUCCESS"
| "registers (GroupAnswer t a ip) \<longleftrightarrow> False"

abbreviation created_answer :: "nat \<Rightarrow> answer" where
  "created_answer i \<equiv> GroupAnswer CREATE_GROUP_CONVERSATION_ANS GROUP_SUCCESSFULLY_INSERT (Some (pool_address i))"

text \<open>The slots of the groups and users that requests name.\<close>

fun group_slots :: "request list \<Rightarrow> nat set" where
  "group_slots [] = {}"
| "group_slots (CreateGroup g u # rs) = insert (slot g) (group_slots rs)"
| "group_slots (_ # rs) = group_slots rs"

fun user_slots :: "request list \<Rightarrow> nat set" where
  "user_slots [] = {}"
| "user_slots (Register name pw # rs) = insert (slot name) (user_slots rs)"
| "user_slots (_ # rs) = user_slots rs"

lemma next_pool_address: "next_ip A = pool_address (a_given A)"
  by (simp add: next_ip_def pool_address_def)

text \<open>Slots in use, and how many of them.\<close>

definition chat_slots :: "chat \<Rightarrow> bool" where
  "chat_slots A \<longleftrightarrow> dom (a_users A) \<subseteq> {..<53} \<and> dom (a_groups A) \<subseteq> {..<53} \<and> a_given A = card (dom (a_groups A))"

lemma chat_slots_empty: "chat_slots chat_empty"
  by (simp add: chat_slots_def chat_empty_def)

lemma serve_slots:
  "dom (a_groups (snd (serve r A))) = dom (a_groups A) \<union> group_slots [r]"
  "dom (a_users (snd (serve r A))) = dom (a_users A) \<union> user_slots [r]"
  by (cases r; auto simp: spec_register_def spec_create_def spec_join_def Let_def split: option.splits prod.splits)+

lemma group_slots_Cons: "group_slots (r # rs) = group_slots [r] \<union> group_slots rs"
  by (cases r) auto

lemma user_slots_Cons: "user_slots (r # rs) = user_slots [r] \<union> user_slots rs"
  by (cases r) auto

lemma serve_step:
  assumes "chat_slots A"
  shows "chat_slots (snd (serve r A))"
    "if creates (fst (serve r A))
     then fst (serve r A) = created_answer (a_given A) \<and> a_given (snd (serve r A)) = Suc (a_given A)
     else a_given (snd (serve r A)) = a_given A"
    "card (dom (a_users (snd (serve r A)))) = card (dom (a_users A)) + (if registers (fst (serve r A)) then 1 else 0)"
proof -
  have fin: "finite (dom (a_users A))" "finite (dom (a_groups A))"
    using assms by (auto simp: chat_slots_def intro: finite_subset)
  have reg: "chat_slots (snd (spec_register name pw A))" for name pw
    using assms slot_less [of name] by (auto simp: spec_register_def chat_slots_def split: option.splits)
  have cr: "chat_slots (snd (spec_create g A))" for g
    using assms slot_less [of g] fin by (auto simp: spec_create_def chat_slots_def card_insert_if split: option.splits)
  have jn: "chat_slots (snd (snd (spec_join g A)))" for g
    using assms by (cases "a_groups A (slot g)") (auto simp: spec_join_def chat_slots_def insert_absorb domI)
  show "chat_slots (snd (serve r A))"
    using assms reg cr jn by (cases r) (auto simp: Let_def split_def)
  show "if creates (fst (serve r A))
     then fst (serve r A) = created_answer (a_given A) \<and> a_given (snd (serve r A)) = Suc (a_given A)
     else a_given (snd (serve r A)) = a_given A"
    by (cases r) (auto simp: spec_register_def spec_create_def spec_join_def next_pool_address Let_def split: option.splits)
  show "card (dom (a_users (snd (serve r A)))) = card (dom (a_users A)) + (if registers (fst (serve r A)) then 1 else 0)"
    unfolding serve_users using fin
    by (cases r) (auto simp: spec_register_def spec_join_def UNIQE_def ALREADY_EXIST_def card_insert_if Let_def split: option.splits)
qed

lemma run_created:
  assumes "chat_slots A"
  shows "chat_slots (snd (serve_all rs A)) \<and>
    filter creates (fst (serve_all rs A)) = map created_answer [a_given A..<a_given (snd (serve_all rs A))] \<and>
    a_given A \<le> a_given (snd (serve_all rs A)) \<and>
    card (dom (a_users A)) + length (filter registers (fst (serve_all rs A))) = card (dom (a_users (snd (serve_all rs A)))) \<and>
    dom (a_groups (snd (serve_all rs A))) = dom (a_groups A) \<union> group_slots rs \<and>
    dom (a_users (snd (serve_all rs A))) = dom (a_users A) \<union> user_slots rs"
  using assms
proof (induction rs arbitrary: A)
  case (Cons r rs)
  let ?A = "snd (serve r A)"
  note st = serve_step [OF Cons.prems, of r] and IH = Cons.IH [OF serve_step(1) [OF Cons.prems, of r]]
  have e: "serve_all (r # rs) A = (fst (serve r A) # fst (serve_all rs ?A), snd (serve_all rs ?A))"
    by (simp add: Let_def split_def)
  have g: "filter creates (fst (serve_all rs ?A)) = map created_answer [a_given ?A..<a_given (snd (serve_all rs ?A))]"
    "a_given ?A \<le> a_given (snd (serve_all rs ?A))" using IH by blast+
  have "filter creates (fst (serve_all (r # rs) A)) = map created_answer [a_given A..<a_given (snd (serve_all rs ?A))] \<and>
      a_given A \<le> a_given (snd (serve_all rs ?A))"
  proof (cases "creates (fst (serve r A))")
    case True
    then have a: "fst (serve r A) = created_answer (a_given A)" "a_given ?A = Suc (a_given A)" using st(2) by simp_all
    then have "[a_given A..<a_given (snd (serve_all rs ?A))] = a_given A # [a_given ?A..<a_given (snd (serve_all rs ?A))]"
      using g(2) by (simp add: upt_conv_Cons)
    then show ?thesis unfolding e using g a by (simp del: upt_Suc)
  next
    case False
    then show ?thesis unfolding e using g st(2) by simp
  qed
  moreover have "card (dom (a_users A)) + length (filter registers (fst (serve_all (r # rs) A))) =
      card (dom (a_users (snd (serve_all rs ?A))))"
    unfolding e using IH st(3) by auto
  ultimately show ?case unfolding group_slots_Cons [of r rs] user_slots_Cons [of r rs]
    using IH serve_slots [of r A] unfolding e by (simp add: Un_assoc del: serve.simps)
qed simp

text \<open>A group, once created, keeps its name and its address.\<close>

lemma serve_group:
  assumes "a_groups A i = Some G"
  shows "\<exists>n. a_groups (snd (serve r A)) i = Some (G\<lparr>g_count := n\<rparr>)"
proof (cases r)
  case (JoinGroup g u)
  then show ?thesis using assms
    by (cases "slot g = i"; cases "a_groups A (slot g)") (auto simp: spec_join_def, (metis chat_group.surjective chat_group.update_convs(3))+)
qed (use assms in \<open>auto simp: spec_register_def spec_create_def split: option.splits,
      (metis chat_group.surjective chat_group.update_convs(3))+\<close>)

lemma run_group:
  assumes "a_groups A i = Some G"
  shows "\<exists>n. a_groups (snd (serve_all rs A)) i = Some (G\<lparr>g_count := n\<rparr>)"
  using assms
proof (induction rs arbitrary: A G)
  case Nil
  then show ?case by simp (metis chat_group.surjective chat_group.update_convs(3))
next
  case (Cons r rs)
  obtain n where "a_groups (snd (serve r A)) i = Some (G\<lparr>g_count := n\<rparr>)" using serve_group [OF Cons.prems] by blast
  from Cons.IH [OF this] show ?case by (simp add: Let_def split_def)
qed

text \<open>No request so far names a group in slot \<open>i\<close>.\<close>

lemma run_no_group:
  assumes "\<forall>g u. CreateGroup g u \<in> set rs \<longrightarrow> slot g \<noteq> i" and "a_groups A i = None"
  shows "a_groups (snd (serve_all rs A)) i = None"
  using assms
proof (induction rs arbitrary: A)
  case (Cons r rs)
  have "a_groups (snd (serve r A)) i = None"
    using Cons.prems by (cases r) (auto simp: spec_register_def spec_create_def spec_join_def Let_def split: option.splits prod.splits)
  from Cons.IH [OF _ this] Cons.prems(1) show ?case by (auto simp: Let_def split_def)
qed simp

section \<open>Runs of the code\<close>

lemma length_serve_all: "length (fst (serve_all rs A)) = length rs"
  by (induction rs arbitrary: A) (simp_all add: Let_def split_def)

lemma serve_all_nth:
  "i < length rs \<Longrightarrow> fst (serve_all rs A) ! i = fst (serve (rs ! i) (snd (serve_all (take i rs) A)))"
  by (induction rs arbitrary: A i) (auto simp: Let_def split_def nth_Cons split: nat.splits)

text \<open>\<open>chat_session s buf rs as\<close>: the data base is created in \<open>s\<close>, and the requests \<open>rs\<close> get the answers \<open>as\<close>.\<close>

definition chat_session :: "'a db_mem_scheme \<Rightarrow> addr \<Rightarrow> request list \<Rightarrow> answer list \<Rightarrow> bool" where
  "chat_session s buf rs as \<longleftrightarrow> (\<exists>db s1 s2. CreateMainDataBase s = Inr (db, s1) \<and> session buf db s1 rs as s2)"

lemma chat_session_runs:
  fixes s :: "'a db_mem_scheme"
  assumes "booted s buf" and "\<forall>r \<in> set rs. valid_request r" and "length rs < 2 ^ 31"
  shows "chat_session s buf rs (fst (serve_all rs chat_empty))"
  using booted_refines [OF assms] unfolding chat_session_def by blast

section \<open>Properties\<close>

text \<open>C9: In any run of the application from \<open>CreateMainDataBase\<close> on, a login succeeds exactly if its password is the one registered first under a name of the same slot (character sum mod 53), under whatever name of the slot the user logs in.\<close>

theorem login_outcome:
  fixes s :: "'a db_mem_scheme"
  assumes "booted s buf" and "\<forall>r \<in> set rs. valid_request r" and "valid_request (Login name pw)"
    and "length rs + 1 < 2 ^ 31"
  shows "\<exists>as. chat_session s buf (rs @ [Login name pw]) (as @ [UserAnswer LOGIN_ANS
    (case first_password (slot name) rs of None \<Rightarrow> LOGIN_USER_NAME_NOT_EXIST
     | Some pw' \<Rightarrow> if pw = pw' then LOGIN_USER_SUCCESSFULLY_CONNECTED else LOGIN_WRONG_PSW)])"
  using chat_session_runs [OF assms(1), of "rs @ [Login name pw]"] assms(2-)
  by (auto simp: serve_all_append spec_login_def run_users chat_empty_def split: option.splits)

theorem login_outcome_witness:
  "\<exists>as. chat_session start_state 1 [Register [97, 98] [120], Login [98, 97] [120]]
    (as @ [UserAnswer LOGIN_ANS LOGIN_USER_SUCCESSFULLY_CONNECTED])"
proof -
  have "slot [98, 97] = slot [97, 98]" by (simp add: slot_def char_hash_def char_sum_def)
  then show ?thesis using login_outcome [OF start_state_booted, of "[Register [97, 98] [120]]" "[98, 97]" "[120]"] by simp
qed

text \<open>C12: Two users whose names have the same slot cannot both register: the second is told that the name exists.\<close>

theorem slots_collide:
  fixes s :: "'a db_mem_scheme"
  assumes "booted s buf" and "\<forall>r \<in> set rs. valid_request r" and "valid_request (Register name pw)"
    and "length rs + 1 < 2 ^ 31" and "first_password (slot name) rs = Some pw'"
  shows "\<exists>as. chat_session s buf (rs @ [Register name pw]) (as @ [UserAnswer REGISTER_ANS REGISTER_USER_NAME_ALLREADY_EXIST])"
  using chat_session_runs [OF assms(1), of "rs @ [Register name pw]"] assms(2-)
  by (auto simp: serve_all_append spec_register_def run_users chat_empty_def UNIQE_def ALREADY_EXIST_def split: option.splits)

theorem slots_collide_witness:
  "\<exists>as. chat_session start_state 1 [Register [97, 98] [120], Register [98, 97] [121]]
    (as @ [UserAnswer REGISTER_ANS REGISTER_USER_NAME_ALLREADY_EXIST])"
proof -
  have "slot [98, 97] = slot [97, 98]" by (simp add: slot_def char_hash_def char_sum_def)
  then show ?thesis
    using slots_collide [OF start_state_booted, of "[Register [97, 98] [120]]" "[98, 97]" "[121]" "[120]"] by simp
qed

text \<open>C11: The answers that report a new group are, in order, those with the addresses of the pool from its first one on, so that the first 50 groups have different addresses. There are as many of them as there are different slots among the names of the create requests, and as many successful registrations as there are slots among the registered names: at most 53 of each, however many requests arrive.\<close>

theorem addresses_in_order:
  fixes s :: "'a db_mem_scheme"
  assumes "booted s buf" and "\<forall>r \<in> set rs. valid_request r" and "length rs < 2 ^ 31"
  shows "\<exists>as. chat_session s buf rs as \<and>
    filter creates as = map (\<lambda>i. GroupAnswer CREATE_GROUP_CONVERSATION_ANS GROUP_SUCCESSFULLY_INSERT (Some (pool_address i)))
      [0..<card (group_slots rs)] \<and>
    inj_on pool_address {..<50} \<and> card (group_slots rs) \<le> 53 \<and>
    length (filter registers as) = card (user_slots rs) \<and> card (user_slots rs) \<le> 53"
proof -
  let ?A = "snd (serve_all rs chat_empty)"
  note run = run_created [OF chat_slots_empty, of rs]
  have d: "dom (a_groups ?A) = group_slots rs" "dom (a_users ?A) = user_slots rs"
    using run by (simp_all add: chat_empty_def)
  moreover have "dom (a_groups ?A) \<subseteq> {..<53}" "dom (a_users ?A) \<subseteq> {..<53}" and n: "a_given ?A = card (dom (a_groups ?A))"
    using conjunct1 [OF run] by (simp_all add: chat_slots_def)
  ultimately have "card (group_slots rs) \<le> 53" "card (user_slots rs) \<le> 53"
    using card_mono [of "{..<53 :: nat}"] by auto
  moreover have "inj_on pool_address {..<50}" using pool_address_inject by (auto simp: inj_on_def)
  moreover have "filter creates (fst (serve_all rs chat_empty)) = map created_answer [0..<card (group_slots rs)]"
    "length (filter registers (fst (serve_all rs chat_empty))) = card (user_slots rs)"
    using run n unfolding d by (simp_all add: chat_empty_def)
  ultimately show ?thesis using chat_session_runs [OF assms] by blast
qed

theorem addresses_in_order_witness:
  "\<exists>as. chat_session start_state 1 [CreateGroup [103] [97], CreateGroup [104] [97]] as \<and>
    filter creates as = [GroupAnswer CREATE_GROUP_CONVERSATION_ANS GROUP_SUCCESSFULLY_INSERT (Some (pool_address 0)),
      GroupAnswer CREATE_GROUP_CONVERSATION_ANS GROUP_SUCCESSFULLY_INSERT (Some (pool_address 1))]"
proof -
  have "slot [103] \<noteq> slot [104]" by (simp add: slot_def char_hash_def char_sum_def)
  then have "card (group_slots [CreateGroup [103] [97], CreateGroup [104] [97]]) = Suc (Suc 0)" by simp
  note two = this
  show ?thesis
    using addresses_in_order [OF start_state_booted, of "[CreateGroup [103] [97], CreateGroup [104] [97]]"]
    unfolding two by auto
qed

text \<open>C10: Whoever joins a group later gets the address that its creator got, whatever happens in between, provided the name has at most 16 characters and no group of the same slot was there before.\<close>

theorem join_gets_created_address:
  fixes s :: "'a db_mem_scheme"
  assumes "booted s buf" and "\<forall>r \<in> set (ps @ qs). valid_request r" and "valid_request (CreateGroup g u)"
    and "valid_request (JoinGroup g u')" and "length ps + length qs + 2 < 2 ^ 31" and len: "length g \<le> 16"
    and new: "\<forall>g' v. CreateGroup g' v \<in> set ps \<longrightarrow> slot g' \<noteq> slot g"
  shows "\<exists>ip as bs. length as = length ps \<and> length bs = length qs \<and>
    chat_session s buf (ps @ CreateGroup g u # qs @ [JoinGroup g u'])
      (as @ GroupAnswer CREATE_GROUP_CONVERSATION_ANS GROUP_SUCCESSFULLY_INSERT (Some ip) # bs @
        [GroupAnswer JOIN_CONVERSATION_ANS GROUP_SUCCESSFULLY_JOIN (Some ip)])"
proof -
  let ?A = "snd (serve_all ps chat_empty)"
  let ?ip = "next_ip ?A" and ?B = "snd (spec_create g ?A)"
  have "a_groups ?A (slot g) = None" by (rule run_no_group [OF new]) (simp add: chat_empty_def)
  then have c: "fst (spec_create g ?A) = DB_GROUP_SUCCESSFULLY_INSERT"
    "a_groups ?B (slot g) = Some \<lparr>g_name = g, g_ip = ?ip, g_count = 1\<rparr>"
    using len by (simp_all add: spec_create_def stored_name_def)
  obtain n where "a_groups (snd (serve_all qs ?B)) (slot g) = Some \<lparr>g_name = g, g_ip = ?ip, g_count = n\<rparr>"
    using run_group [OF c(2), of qs] by auto
  then have "fst (serve (JoinGroup g u') (snd (serve_all qs ?B))) =
      GroupAnswer JOIN_CONVERSATION_ANS GROUP_SUCCESSFULLY_JOIN (Some ?ip)"
    by (simp add: spec_join_def)
  then have "fst (serve_all (ps @ CreateGroup g u # qs @ [JoinGroup g u']) chat_empty) =
      fst (serve_all ps chat_empty) @ GroupAnswer CREATE_GROUP_CONVERSATION_ANS GROUP_SUCCESSFULLY_INSERT (Some ?ip) #
      fst (serve_all qs ?B) @ [GroupAnswer JOIN_CONVERSATION_ANS GROUP_SUCCESSFULLY_JOIN (Some ?ip)]"
    using c(1) by (simp add: serve_all_append Let_def split_def del: serve.simps(4))
  moreover have "chat_session s buf (ps @ CreateGroup g u # qs @ [JoinGroup g u'])
      (fst (serve_all (ps @ CreateGroup g u # qs @ [JoinGroup g u']) chat_empty))"
    by (rule chat_session_runs [OF assms(1)]) (use assms(2-5) in auto)
  ultimately show ?thesis using length_serve_all by metis
qed

theorem join_gets_created_address_witness:
  "\<exists>ip a b. chat_session start_state 1
    [Register [97] [98], CreateGroup [103] [97], LeaveGroup [103] [97], JoinGroup [103] [99]]
    [a, GroupAnswer CREATE_GROUP_CONVERSATION_ANS GROUP_SUCCESSFULLY_INSERT (Some ip), b,
      GroupAnswer JOIN_CONVERSATION_ANS GROUP_SUCCESSFULLY_JOIN (Some ip)]"
  using join_gets_created_address [OF start_state_booted, of "[Register [97] [98]]" "[LeaveGroup [103] [97]]" "[103]" "[97]" "[99]"]
  by (fastforce simp: length_Suc_conv)

text \<open>C14: A group whose name has 17 characters, which the field and the user interface allow, can be created but never joined: the address is stored over the terminator of the name.\<close>

theorem long_name_cannot_be_joined:
  fixes s :: "'a db_mem_scheme"
  assumes "booted s buf" and "\<forall>r \<in> set qs. valid_request r" and "valid_request (CreateGroup g u)"
    and "valid_request (JoinGroup g u')" and "length qs + 2 < 2 ^ 31" and len: "length g = 17"
  shows "\<exists>ip bs. chat_session s buf (CreateGroup g u # qs @ [JoinGroup g u'])
      (GroupAnswer CREATE_GROUP_CONVERSATION_ANS GROUP_SUCCESSFULLY_INSERT (Some ip) # bs @
        [GroupAnswer JOIN_CONVERSATION_ANS GROUP_SUCCESSFULLY_INSERT (Some [])])"
proof -
  let ?ip = "next_ip chat_empty" and ?B = "snd (spec_create g chat_empty)"
  have c: "fst (spec_create g chat_empty) = DB_GROUP_SUCCESSFULLY_INSERT"
    "a_groups ?B (slot g) = Some \<lparr>g_name = g @ ?ip, g_ip = ?ip, g_count = 1\<rparr>"
    using len by (simp_all add: spec_create_def stored_name_def chat_empty_def)
  obtain n where "a_groups (snd (serve_all qs ?B)) (slot g) = Some \<lparr>g_name = g @ ?ip, g_ip = ?ip, g_count = n\<rparr>"
    using run_group [OF c(2), of qs] by auto
  moreover have "?ip \<noteq> []" by (simp add: next_ip_def ip_string_def)
  ultimately have "fst (serve (JoinGroup g u') (snd (serve_all qs ?B))) =
      GroupAnswer JOIN_CONVERSATION_ANS GROUP_SUCCESSFULLY_INSERT (Some [])"
    by (simp add: spec_join_def)
  then have "fst (serve_all (CreateGroup g u # qs @ [JoinGroup g u']) chat_empty) =
      GroupAnswer CREATE_GROUP_CONVERSATION_ANS GROUP_SUCCESSFULLY_INSERT (Some ?ip) #
      fst (serve_all qs ?B) @ [GroupAnswer JOIN_CONVERSATION_ANS GROUP_SUCCESSFULLY_INSERT (Some [])]"
    using c(1) by (simp add: serve_all_append Let_def split_def del: serve.simps(4))
  moreover have "chat_session s buf (CreateGroup g u # qs @ [JoinGroup g u'])
      (fst (serve_all (CreateGroup g u # qs @ [JoinGroup g u']) chat_empty))"
    by (rule chat_session_runs [OF assms(1)]) (use assms(2-5) in auto)
  ultimately show ?thesis by metis
qed

theorem long_name_cannot_be_joined_witness:
  "\<exists>ip. chat_session start_state 1 [CreateGroup (replicate 17 103) [97], JoinGroup (replicate 17 103) [97]]
    [GroupAnswer CREATE_GROUP_CONVERSATION_ANS GROUP_SUCCESSFULLY_INSERT (Some ip),
     GroupAnswer JOIN_CONVERSATION_ANS GROUP_SUCCESSFULLY_INSERT (Some [])]"
proof -
  have l: "length bs = 0" if "chat_session s buf [r, q] (a # bs @ [b])" for s :: db_mem and buf r q a bs b
    using that by (auto simp: chat_session_def append_eq_Cons_conv Cons_eq_append_conv)
  show ?thesis
    using long_name_cannot_be_joined [OF start_state_booted, of "[]" "replicate 17 103" "[97]" "[97]"] l by fastforce
qed

text \<open>C13: Nobody can leave a group, not even its creator: in every run, every request to leave is answered by "group name does not exist".\<close>

theorem nobody_leaves:
  fixes s :: "'a db_mem_scheme"
  assumes "booted s buf" and "\<forall>r \<in> set rs. valid_request r" and "length rs < 2 ^ 31"
  shows "\<exists>as. chat_session s buf rs as \<and> (\<forall>i < length rs. \<forall>g u. rs ! i = LeaveGroup g u \<longrightarrow>
    as ! i = GroupAnswer LEAVE_CONVERSATION_ANS GROUP_NAME_NOT_EXIST (Some []))"
  by (rule exI [of _ "fst (serve_all rs chat_empty)"]) (simp add: chat_session_runs [OF assms] serve_all_nth)

theorem nobody_leaves_witness:
  "\<exists>as. chat_session start_state 1 [Register [97] [98], CreateGroup [103] [97], LeaveGroup [103] [97]] as \<and>
    as ! 2 = GroupAnswer LEAVE_CONVERSATION_ANS GROUP_NAME_NOT_EXIST (Some [])"
proof -
  let ?rs = "[Register [97] [98], CreateGroup [103] [97], LeaveGroup [103] [97]]"
  have "\<forall>r \<in> set ?rs. valid_request r" "length ?rs < 2 ^ 31" "2 < length ?rs" "?rs ! 2 = LeaveGroup [103] [97]"
    by simp_all
  with nobody_leaves [OF start_state_booted, of ?rs] show ?thesis by blast
qed

section \<open>Types of the answers\<close>

text \<open>Which answers a request can get.\<close>

fun answers_to :: "request \<Rightarrow> answer \<Rightarrow> bool" where
  "answers_to (Register _ _) (UserAnswer t a) \<longleftrightarrow>
     t = REGISTER_ANS \<and> a \<in> {REGISTER_SUCCESS, REGISTER_USER_NAME_ALLREADY_EXIST}"
| "answers_to (Login _ _) (UserAnswer t a) \<longleftrightarrow>
     t = LOGIN_ANS \<and> a \<in> {LOGIN_USER_SUCCESSFULLY_CONNECTED, LOGIN_USER_NAME_NOT_EXIST, LOGIN_WRONG_PSW}"
| "answers_to (CreateGroup _ _) (GroupAnswer t a ip) \<longleftrightarrow>
     t = CREATE_GROUP_CONVERSATION_ANS \<and>
     (a = GROUP_SUCCESSFULLY_INSERT \<and> ip \<noteq> None \<or> a = GROUP_NAME_ALREADY_EXIST \<and> ip = None)"
| "answers_to (JoinGroup _ _) (GroupAnswer t a ip) \<longleftrightarrow>
     t = JOIN_CONVERSATION_ANS \<and> ip \<noteq> None \<and>
     (a = GROUP_SUCCESSFULLY_JOIN \<or> a \<in> {GROUP_NAME_NOT_EXIST, GROUP_SUCCESSFULLY_INSERT} \<and> ip = Some [])"
| "answers_to (LeaveGroup _ _) (GroupAnswer t a ip) \<longleftrightarrow>
     t = LEAVE_CONVERSATION_ANS \<and> a = GROUP_NAME_NOT_EXIST \<and> ip = Some []"
| "answers_to _ _ \<longleftrightarrow> False"

lemma serve_typed: "answers_to r (fst (serve r A))"
  by (cases r) (auto simp: Let_def split_def)

lemma serve_all_typed: "list_all2 answers_to rs (fst (serve_all rs A))"
  by (induction rs arbitrary: A) (simp_all add: Let_def split_def serve_typed del: serve.simps)

text \<open>C8: In every run of the application each request is answered by a struct of the type that belongs to it, with a code of that type: no login is ever refused because the user is connected, and no request to leave is granted.\<close>

theorem answers_are_typed:
  fixes s :: "'a db_mem_scheme"
  assumes "booted s buf" and "\<forall>r \<in> set rs. valid_request r" and "length rs < 2 ^ 31"
  shows "\<exists>as. chat_session s buf rs as \<and> list_all2 answers_to rs as"
  using chat_session_runs [OF assms] serve_all_typed by blast

theorem answers_are_typed_witness:
  "\<exists>a b. chat_session start_state 1 [Login [97] [120], LeaveGroup [103] [97]] [a, b] \<and>
    answers_to (Login [97] [120]) a \<and> b = GroupAnswer LEAVE_CONVERSATION_ANS GROUP_NAME_NOT_EXIST (Some [])"
proof -
  obtain as where as: "chat_session start_state 1 [Login [97] [120], LeaveGroup [103] [97]] as"
    "list_all2 answers_to [Login [97] [120], LeaveGroup [103] [97]] as"
    using answers_are_typed [OF start_state_booted, of "[Login [97] [120], LeaveGroup [103] [97]]"] by auto
  then obtain a b where ab: "as = [a, b]" "answers_to (Login [97] [120]) a" "answers_to (LeaveGroup [103] [97]) b"
    by (auto simp: list_all2_Cons1)
  then show ?thesis using as(1) by (cases b) auto
qed

end
