(* ===== verification/ServerProperties.thy ===== *)
theory ServerProperties
  imports ServerLife ChatRuns
begin

text \<open>
  The properties of the TCP server: its whole life, the invariant of its reachable states, the
  refinement of its passes, and what single events do. The program faults when a client disconnects
  or sends a message of an unknown type, and stops serving when a client is overdue; the properties of
  whole runs exclude these inputs (\<open>feeds\<close>), and each has a property of its own. The witnesses run the server against
  small operating systems.
\<close>

section \<open>A day of the server\<close>

text \<open>Memory as \<open>start_state\<close>, with the operating system \<open>w\<close>.\<close>

definition machine :: "os \<Rightarrow> tcp_mem" where
  "machine w = db_mem.extend start_state (tcp_mem.fields (\<lambda>_. None) (\<lambda>_. None) w 0 [] 0)"

lemma machine_simps [simp]:
  "io (machine w) = w" "calls (machine w) = 0" "trace (machine w) = []" "stop (machine w) = 0"
  "clients (machine w) = (\<lambda>_. None)" "brk (machine w) = 1100"
  by (simp_all add: machine_def db_mem.defs tcp_mem.defs start_state_def)

lemma machine_env: "env (machine w)"
  using start_state_booted
  by (simp add: booted_def machine_def env_def wf_hash_mem_def wf_list_mem_def wf_bytes_def enough_mem_def zeroed_def
    db_mem.defs)

text \<open>
  A client connects, registers, is silent for too long and is disconnected; a signal arrives with the
  time-out. The calls are numbered as the server makes them.
\<close>

definition at_sec :: "int \<Rightarrow> timeval" where
  "at_sec n = \<lparr>tv_sec = n, tv_usec = 0\<rparr>"

definition day :: os where
  "day = \<lparr>os_socket = (\<lambda>_. 3), os_setsockopt = (\<lambda>_. 0), os_bind = (\<lambda>_. 0), os_listen = (\<lambda>_. 0),
     os_select = (\<lambda>n. if n = 4 then Some {3} else if n = 8 then Some {4} else Some {}),
     os_accept = (\<lambda>_. (4, 0)), os_recv = (\<lambda>_. Some (request_bytes (Register [97] [98]))), os_send = (\<lambda>_. 1024),
     os_time = (\<lambda>n. (0, at_sec (if n < 14 then int n else 1000))), os_signal = (\<lambda>n. n = 14)\<rparr>"

definition day_inputs :: "request input list" where
  "day_inputs = [Connect 4 (at_sec 6) {} [], Requests {4} [(Register [97] [98], at_sec 11)], Timeout (at_sec 1000)]"

lemmas timeval_defs = at_sec_def max_wait_def timeradd_def timersub_def timer_later_def expired_def

lemma day_booting: "booting (machine day) 3"
  using machine_env by (simp add: booting_def listening_def day_def fd_ok_def FD_SETSIZE_def)

lemma day_feeds:
  "feeds_all request_bytes chat_allowed serve max_wait day 4 3 [] chat_empty day_inputs"
  "signalled serve max_wait day 4 [] chat_empty day_inputs"
  "apasses serve max_wait day_inputs [] chat_empty =
    ([], [([], []), ([], [(4, Register [97] [98], UserAnswer REGISTER_ANS REGISTER_SUCCESS)]), ([4], [])],
     chat_empty\<lparr>a_users := [slot [97] \<mapsto> [98]]\<rparr>)"
proof -
  have nosig: "\<not> interrupted day a b" if "b \<le> 14" for a b using that by (auto simp: interrupted_def day_def)
  have sig: "interrupted day 12 15" unfolding interrupted_def day_def by (intro exI [of _ 14]) simp
  show "feeds_all request_bytes chat_allowed serve max_wait day 4 3 [] chat_empty day_inputs"
    by (simp add: day_inputs_def sel_def ttl_ok_def fd_ok_def FD_SETSIZE_def Let_def chat_allowed_def timeval_defs)
      (simp add: day_def timeval_defs)
  show "signalled serve max_wait day 4 [] chat_empty day_inputs"
    using nosig sig by (simp add: day_inputs_def sel_def Let_def)
  show "apasses serve max_wait day_inputs [] chat_empty =
    ([], [([], []), ([], [(4, Register [97] [98], UserAnswer REGISTER_ANS REGISTER_SUCCESS)]), ([4], [])],
     chat_empty\<lparr>a_users := [slot [97] \<mapsto> [98]]\<rparr>)"
    by (simp add: day_inputs_def Let_def timeval_defs spec_register_def chat_empty_def UNIQE_def)
qed

section \<open>The life of the server\<close>

text \<open>C2: The whole program of the server, under the conditions it needs: a port of at least 1024, a socket that can be set up (\<open>booting\<close>, which also says that memory does not run out and is zero when it is allocated), no signal before the loop, and until the signal that ends the loop only whole well-formed requests, connections and time-outs, no client that disconnects, and calls of accept and send that succeed (\<open>feeds_all\<close>, \<open>signalled\<close>). Then \<open>main\<close> returns without a fault; what was sent and closed on the sockets is what the abstract chat server does for these inputs, and at the end the sockets of all clients and the listening socket are closed. That \<open>send\<close> reads past the answer is not counted as a fault.\<close>

theorem server_life:
  fixes s :: "'a tcp_mem_scheme"
  assumes "booting s m" and "1024 \<le> port" and "stop s = 0" and "\<not> interrupted (io s) (calls s) (calls s + 4)"
    and "length inps \<le> k"
    and "feeds_all request_bytes chat_allowed serve max_wait (io s) (calls s + 4) m [] chat_empty inps"
    and "signalled serve max_wait (io s) (calls s + 4) [] chat_empty inps"
  shows "\<exists>s' es. server_main k port s = Inr (0, s') \<and>
    trace s' = trace s @ es @ map (Closed \<circ> fst) (fst (apasses serve max_wait inps [] chat_empty)) @ [Closed m] \<and>
    observed request_bytes wire (fst (snd (apasses serve max_wait inps [] chat_empty))) es"
  using server_program [OF assms] by (simp add: server_main_def chain_eq_Inr)

theorem server_life_witness:
  "\<exists>s' xs. server_main 3 5555 (machine day) = Inr (0, s') \<and>
    trace s' = [Received 4 (request_bytes (Register [97] [98])), Sent 4 xs, Closed 4, Closed 3] \<and>
    wire (UserAnswer REGISTER_ANS REGISTER_SUCCESS) xs"
proof -
  have "\<not> interrupted day 0 4" by (auto simp: interrupted_def day_def)
  moreover have "length day_inputs \<le> 3" by (simp add: day_inputs_def)
  ultimately obtain s' es where "server_main 3 5555 (machine day) = Inr (0, s')" "trace s' = es @ [Closed 3]"
    "observed request_bytes wire [([], []), ([], [(4, Register [97] [98], UserAnswer REGISTER_ANS REGISTER_SUCCESS)]), ([4], [])] es"
    using server_life [OF day_booting, of 5555 day_inputs 3] day_feeds(1,2) unfolding day_feeds(3) by auto
  then show ?thesis by (auto simp del: wire.simps request_bytes.simps)
qed

section \<open>Reachable states\<close>

text \<open>
  The states of the loop: \<open>reaches m s p conns A\<close>: the server at \<open>p\<close> with the listening socket \<open>m\<close> was
  started and has made any number of passes on well-formed input; \<open>conns\<close> and \<open>A\<close> record the clients and the chat of the
  abstract server.
\<close>

inductive reaches :: "int \<Rightarrow> 'a tcp_mem_scheme \<Rightarrow> addr \<Rightarrow> conn list \<Rightarrow> chat \<Rightarrow> bool" for m where
  start: "reaches m s p [] chat_empty"
    if "booting s0 m" and "1024 \<le> port" and "boot port s0 = Inr (p, s)"
| pass: "reaches m s' p conns' A'"
    if "reaches m s p conns A" and "feeds request_bytes (io s) (calls s) m conns inp"
      and "all_allowed chat_allowed serve (requests inp) A"
      and "apass serve max_wait inp conns A = (conns', out, A')"
      and "server_pass chat_callbacks p s = Inr ((), s')"

lemma reaches_loop:
  fixes s :: "'a tcp_mem_scheme"
  assumes "reaches m s p conns A"
  shows "chat_loop s p m conns A"
  using assms
proof (induction rule: reaches.induct)
  case (start s0 port p s)
  then show ?case using boot_ok [OF start(1,2)] by auto
next
  case (pass s p conns A inp conns' out A' s')
  obtain cl ex where "out = (cl, ex)" by (cases out)
  with pass show ?case using chat_pass [OF pass.IH pass.hyps(2,3), of conns' cl ex A'] by auto
qed

lemma serve_slots_round:
  "round serve R mx us vs rs A = (conns', ex, A') \<Longrightarrow> chat_slots A \<Longrightarrow> chat_slots A'"
proof (induction serve R mx us vs rs A arbitrary: ex rule: round.induct)
qed (auto simp: Let_def serve_step(1) split: if_splits prod.splits list.splits)

lemma apass_slots: "apass serve mx inp conns A = (conns', out, A') \<Longrightarrow> chat_slots A \<Longrightarrow> chat_slots A'"
  by (cases inp) (auto simp: Let_def dest: serve_slots_round split: prod.splits)

lemma reaches_slots: "reaches m s p conns A \<Longrightarrow> chat_slots A"
  by (induction rule: reaches.induct) (auto simp: chat_slots_empty dest: apass_slots)

text \<open>The state after the start, for the witnesses.\<close>

lemma booted_machine:
  assumes l: "listening w 0 3" and q: "\<not> interrupted w 0 4"
  obtains p s where "boot 5555 (machine w) = Inr (p, s)" "chat_loop s p 3 [] chat_empty" "calls s = 4" "io s = w"
    "trace s = []" "stop s = 0" "reaches 3 s p [] chat_empty"
proof -
  have b: "booting (machine w) 3" using machine_env l by (simp add: booting_def)
  obtain p s where s: "boot 5555 (machine w) = Inr (p, s)" "chat_loop s p 3 [] chat_empty" "trace s = []" "calls s = 4" "io s = w"
    using boot_ok [OF b, of 5555] by auto
  have "stop s = 0" using tracksD [OF tracks_boot s(1)] q s(4) by simp
  then show thesis using that s reaches.start [OF b _ s(1)] by simp
qed

lemma reaches_pass:
  fixes s :: "'a tcp_mem_scheme"
  assumes "reaches m s p conns A" and "feeds request_bytes (io s) (calls s) m conns inp"
    and "all_allowed chat_allowed serve (requests inp) A"
    and "apass serve max_wait inp conns A = (conns', (cl, ex), A')"
  shows "\<exists>s' es. server_pass chat_callbacks p s = Inr ((), s') \<and> reaches m s' p conns' A' \<and>
    trace s' = trace s @ map Closed cl @ es \<and> exchanged request_bytes wire ex es"
  using chat_pass [OF reaches_loop [OF assms(1)] assms(2-)] reaches.pass [OF assms] by blast

text \<open>C3: In every state the server reaches, its memory represents the clients and the chat of the abstract server; \<open>select\<close> watches exactly the listening socket and the sockets of the clients, which are all different and at most 1001; at most 53 users and groups exist, and the pool has given out one address per group.\<close>

theorem reachable_invariant:
  fixes s :: "'a tcp_mem_scheme"
  assumes "reaches m s p conns A"
  shows "chat_loop s p m conns A \<and> chat_slots A \<and> distinct (m # map fst conns) \<and> length conns \<le> 1001 \<and>
    (\<forall>v \<in> set conns. fd_ok (fst v)) \<and>
    (\<exists>srv. servers s p = Some srv \<and> m_masterSocket srv = m \<and> m_master_fds srv = insert m (fst ` set conns) \<and>
      (\<forall>fd \<in> m_master_fds srv. fd \<le> m_max_socket srv))"
  using reaches_loop [OF assms] reaches_slots [OF assms]
  by (auto simp: chat_loop_def fds_inv_def server_at_def)

text \<open>C4: In every state the server reaches, a pass on well-formed requests, connections or time-outs does not fault: it does what the abstract server does, and the server is again in a reachable state.\<close>

theorem reachable_pass:
  fixes s :: "'a tcp_mem_scheme"
  assumes "reaches m s p conns A" and "feeds request_bytes (io s) (calls s) m conns inp"
    and "all_allowed chat_allowed serve (requests inp) A"
    and "apass serve max_wait inp conns A = (conns', (cl, ex), A')"
  shows "\<exists>s' es. server_pass chat_callbacks p s = Inr ((), s') \<and> reaches m s' p conns' A' \<and>
    trace s' = trace s @ map Closed cl @ es \<and> exchanged request_bytes wire ex es"
  by (rule reaches_pass [OF assms])

lemma day_listening: "listening day 0 3" "\<not> interrupted day 0 4"
  by (auto simp: listening_def day_def fd_ok_def FD_SETSIZE_def interrupted_def)

theorem reachable_pass_witness:
  "\<exists>p s s'. boot 5555 (machine day) = Inr (p, s) \<and> server_pass chat_callbacks p s = Inr ((), s') \<and>
    reaches 3 s' p [(4, at_sec 306)] chat_empty"
proof -
  obtain p s where s: "boot 5555 (machine day) = Inr (p, s)" "calls s = 4" "io s = day" "reaches 3 s p [] chat_empty"
    using booted_machine [OF day_listening] by metis
  have "feeds request_bytes day 4 3 [] (Connect 4 (at_sec 6) {} [])"
    using day_feeds(1) by (simp add: day_inputs_def)
  moreover have "apass serve max_wait (Connect 4 (at_sec 6) {} []) [] chat_empty = ([(4, at_sec 306)], ([], []), chat_empty)"
    by (simp add: timeval_defs)
  ultimately show ?thesis using reachable_pass [OF s(4), of "Connect 4 (at_sec 6) {} []"] s by fastforce
qed

theorem reachable_invariant_witness:
  "\<exists>p s. reaches 3 s p [] chat_empty \<and> chat_loop (s :: tcp_mem) p 3 [] chat_empty"
proof -
  obtain p s where "reaches 3 (s :: tcp_mem) p [] chat_empty"
    using booted_machine [OF day_listening] by metis
  from reachable_invariant [OF this] this show ?thesis by blast
qed

section \<open>Single events\<close>

lemma hangup_pass:
  fixes s :: "'a tcp_mem_scheme"
  assumes loop: "chat_loop s p m (ws @ v # vs) A" and ttl: "ttl_ok (io s) (calls s) (ws @ v # vs)"
    and w: "os_select (io s) (sel (calls s) (ws @ v # vs)) = Some R" "fst v \<in> R" "m \<notin> R" "\<forall>u \<in> set ws. fst u \<notin> R"
    and eof: "hung_up (io s) (sel (calls s) (ws @ v # vs) + 1)"
  shows "server_pass chat_callbacks p s = Inl BadAddress"
proof -
  let ?conns = "ws @ v # vs"
  obtain srv cs where i: "tcp.server_inv s p srv cs ?conns A" "fds_inv srv ?conns" "length ?conns \<le> 1001" "m_masterSocket srv = m"
    using loop unfolding chat_loop_tcp [symmetric] tcp.loop_inv_def by blast
  let ?F = "m_master_fds srv \<inter> R"
  have r: "select_result (io s) (calls s) srv ?conns = (int (card ?F), ?F)"
    using ttl w(1) by (simp add: select_result_def)
  have F: "fst v \<in> ?F" "finite ?F" using i(2) w(2) by (auto simp: fds_inv_def)
  then have pos: "0 < int (card ?F)" by (auto simp: card_gt_0_iff)
  let ?srv = "\<lambda>to. srv\<lparr>m_timeout := to, m_activity := int (card ?F), m_forSelect_fds := ?F\<rparr>"
  obtain s1 to where s1: "select_part p s = Inr (int (card ?F), s1)" "tcp.server_inv s1 p (?srv to) cs ?conns A"
    "calls s1 = sel (calls s) ?conns + 1" "io s1 = io s"
    using tcp.select_inv [OF i(1-3)] unfolding r by auto
  note at = tcp.server_invD(1) [OF s1(2)]
  have "ReceiveAndSend chat_callbacks p s1 = Inl BadAddress"
    by (rule ReceiveAndSend_hangup [OF at]) (use F pos w(4) eof s1(3,4) chat_callbacks_simps in auto)
  then show ?thesis
    using s1(1) pos server_atD(1,2) [OF at] w(3) i(4) by (simp add: server_pass_split c_step)
qed

text \<open>C15: The first client that disconnects brings the server down: when a client of a reachable state is ready and \<open>recv\<close> reports the end of its connection, the pass goes on with the list node it has just freed.\<close>

theorem disconnect_crashes:
  fixes s :: "'a tcp_mem_scheme"
  assumes "reaches m s p (ws @ v # vs) A" and "ttl_ok (io s) (calls s) (ws @ v # vs)"
    and "os_select (io s) (sel (calls s) (ws @ v # vs)) = Some R" and "fst v \<in> R" and "m \<notin> R"
    and "\<forall>u \<in> set ws. fst u \<notin> R" and "hung_up (io s) (sel (calls s) (ws @ v # vs) + 1)"
  shows "server_pass chat_callbacks p s = Inl BadAddress"
  by (rule hangup_pass [OF reaches_loop [OF assms(1)] assms(2-)])

text \<open>A server with one client, which was accepted at second 6.\<close>

lemma one_client:
  assumes "listening w 0 3" and "\<not> interrupted w 0 7" and "os_select w 4 = Some {3}"
    and "os_accept w 5 = (4, 0)" and "os_time w 6 = (0, at_sec 6)"
  obtains p s where "reaches 3 (s :: tcp_mem) p [(4, at_sec 306)] chat_empty" "calls s = 7" "io s = w" "stop s = 0"
proof -
  have q: "\<not> interrupted w 0 4" using assms(2) by (auto simp: interrupted_def)
  obtain p s where s: "calls s = 4" "io (s :: tcp_mem) = w" "stop s = 0" "reaches 3 s p [] chat_empty"
    using booted_machine [OF assms(1) q] by metis
  let ?in = "Connect 4 (at_sec 6) {} []"
  have f: "feeds request_bytes (io s) (calls s) 3 [] ?in"
    using assms(3-5) s(1,2) by (simp add: sel_def ttl_ok_def fd_ok_def FD_SETSIZE_def)
  have ap: "apass serve max_wait ?in [] chat_empty = ([(4, at_sec 306)], ([], []), chat_empty)"
    by (simp add: timeval_defs)
  obtain s' where s': "server_pass chat_callbacks p s = Inr ((), s')" "calls s' = 7" "io s' = w"
    "stop s' = (if interrupted w 4 7 then 1 else 0)"
    using chat_pass [OF reaches_loop [OF s(4)] f _ ap] s(1-3) by (auto simp: sel_def)
  have "\<not> interrupted w 4 7" using assms(2) by (auto simp: interrupted_def)
  with s' that reaches.pass [OF s(4) f _ ap s'(1)] show ?thesis by auto
qed

definition dropped :: os where
  "dropped = day\<lparr>os_recv := \<lambda>_. Some []\<rparr>"

theorem disconnect_crashes_witness:
  "\<exists>p s. reaches 3 (s :: tcp_mem) p [(4, at_sec 306)] chat_empty \<and> server_pass chat_callbacks p s = Inl BadAddress"
proof -
  have "listening dropped 0 3" "\<not> interrupted dropped 0 7"
    by (auto simp: listening_def dropped_def day_def fd_ok_def FD_SETSIZE_def interrupted_def)
  then obtain p s where s: "reaches 3 (s :: tcp_mem) p [(4, at_sec 306)] chat_empty" "calls s = 7" "io s = dropped"
    by (rule one_client) (simp_all add: dropped_def day_def)
  have "server_pass chat_callbacks p s = Inl BadAddress"
    by (rule disconnect_crashes [of 3 s p "[]" "(4, at_sec 306)" "[]" chat_empty "{4}"])
      (use s in \<open>simp_all add: ttl_ok_def sel_def Let_def timeval_defs hung_up_def\<close>,
        simp_all add: dropped_def day_def timeval_defs)
  with s(1) show ?thesis by blast
qed

text \<open>C16: A client that is overdue when the server computes its time-out is never removed, and nobody is served any more. From that state on, while no signal arrives, the run is an infinite sequence of passes, whatever the other clients send: in each of them \<open>select\<close> fails (its time-out is negative), nothing is received, sent, accepted or closed, and the clients, their list and the memory stay as they were.\<close>

theorem overdue_client_livelock:
  fixes s :: "'a tcp_mem_scheme"
  assumes "reaches m s p (v # vs) A" and "stop s = 0" and "normal (snd v)"
    and "\<forall>n \<ge> calls s. expired (snd (os_time (io s) n)) v \<and> normal (snd (os_time (io s) n)) \<and> \<not> os_signal (io s) n"
  shows "\<exists>t. t 0 = s \<and>
    (\<forall>k. server_pass chat_callbacks p (t k) = Inr ((), t (Suc k)) \<and> stop (t k) = 0 \<and>
      map_option m_activity (servers (t (Suc k)) p) = Some (- 1) \<and>
      trace (t (Suc k)) = trace (t k) \<and> clients (t (Suc k)) = clients (t k) \<and>
      nodes (t (Suc k)) = nodes (t k) \<and> bytes (t (Suc k)) = bytes (t k)) \<and>
    (\<forall>k. run_loop k chat_callbacks p s = Inl Diverges)"
proof -
  obtain srv cs where "server_at s p srv cs (v # vs)" "length (v # vs) \<le> 1001"
    using reaches_loop [OF assms(1)] unfolding chat_loop_def by blast
  then have at: "server_at s p srv cs (v # vs)" "length vs + 1 < 2 ^ 31" by simp_all
  obtain t where t: "t 0 = s" "spinning chat_callbacks p t"
    using overdue_livelock [OF at assms(4,3,2)] by blast
  then show ?thesis using spinning_diverges [OF t(2), of _ 0] unfolding spinning_def by auto
qed

definition late :: os where
  "late = day\<lparr>os_time := \<lambda>n. (0, at_sec (if n < 7 then int n else 1000)), os_signal := \<lambda>_. False\<rparr>"

theorem overdue_client_livelock_witness:
  "\<exists>p s t. reaches 3 (s :: tcp_mem) p [(4, at_sec 306)] chat_empty \<and> t 0 = s \<and>
    (\<forall>k. server_pass chat_callbacks p (t k) = Inr ((), t (Suc k)) \<and> trace (t (Suc k)) = trace (t k))"
proof -
  have "listening late 0 3" "\<not> interrupted late 0 7"
    by (auto simp: listening_def late_def day_def fd_ok_def FD_SETSIZE_def interrupted_def)
  then obtain p s where s: "reaches 3 (s :: tcp_mem) p [(4, at_sec 306)] chat_empty" "calls s = 7" "io s = late" "stop s = 0"
    by (rule one_client) (simp_all add: late_def day_def)
  have "normal (snd (4 :: int, at_sec 306))"
    "\<forall>n \<ge> calls s. expired (snd (os_time (io s) n)) (4, at_sec 306) \<and> normal (snd (os_time (io s) n)) \<and> \<not> os_signal (io s) n"
    using s by (simp_all add: normal_def late_def timeval_defs)
  from overdue_client_livelock [OF s(1,4) this] s(1) show ?thesis by blast
qed

text \<open>C17: A connection is accepted while at most 1000 clients are connected, so that 1001 can be (the limit of the documentation is 1000); the next one is closed at once, and nothing else changes.\<close>

theorem accept_limit:
  fixes s :: "'a tcp_mem_scheme"
  assumes "reaches m s p conns A" and "fst (os_accept (io s) (calls s)) = fd" and "fd_ok fd"
    and "os_time (io s) (Suc (calls s)) = (0, now)"
  shows "\<exists>s'. AddClientToTheList chat_callbacks p s = Inr (0, s') \<and>
    (if length conns \<le> 1000
     then trace s' = trace s \<and> (\<exists>srv' cs'. server_at s' p srv' cs' (conns @ [(fd, timeradd now max_wait)]))
     else s' = (ticked s)\<lparr>trace := trace s @ [Closed fd]\<rparr>)"
proof -
  obtain srv cs where i: "tcp.server_inv s p srv cs conns A" "length conns \<le> 1001" "m_maxWaitTime srv = max_wait"
    using reaches_loop [OF assms(1)] unfolding chat_loop_tcp [symmetric] tcp.loop_inv_def by blast
  note at = tcp.server_invD(1) [OF i(1)]
  show ?thesis
  proof (cases "length conns \<le> 1000")
    case True
    then show ?thesis
      using accept_ok [OF at True assms(2,3) chat_callbacks_simps(2) tcp.server_invD(4) [OF i(1)] assms(4)] i(3) by auto
  next
    case False
    then show ?thesis
      using accept_refused [OF at, of fd chat_callbacks] i(2) assms(2,3) by (simp add: fd_ok_def)
  qed
qed

theorem accept_limit_witness:
  "\<exists>p s s'. reaches 3 (s :: tcp_mem) p [] chat_empty \<and> AddClientToTheList chat_callbacks p s = Inr (0, s') \<and>
    (\<exists>srv' cs'. server_at s' p srv' cs' [(4, at_sec 305)])"
proof -
  obtain p s where s: "calls s = 4" "io (s :: tcp_mem) = day" "reaches 3 s p [] chat_empty"
    using booted_machine [OF day_listening] by metis
  have "fst (os_accept (io s) (calls s)) = 4" "fd_ok 4" "os_time (io s) (Suc (calls s)) = (0, at_sec 5)"
    using s(1,2) by (simp_all add: day_def fd_ok_def FD_SETSIZE_def)
  from accept_limit [OF s(3) this] s(3) show ?thesis by (fastforce simp: timeval_defs)
qed

text \<open>C18: A message whose type is none of the types that \<open>UnPack\<close> knows makes the application dereference the null pointer: any client can stop the server with one byte.\<close>

theorem unknown_message_crashes:
  fixes s :: "'a db_mem_scheme"
  assumes "buf \<noteq> NULL" and "bytes s buf = Some t"
    and "t \<notin> type_code ` {REGISTER_REQ, LOGIN_REQ, CREATE_GROUP_CONVERSATION_REQ, JOIN_CONVERSATION_REQ,
      LEAVE_CONVERSATION_REQ, REGISTER_ANS, LOGIN_ANS, CREATE_GROUP_CONVERSATION_ANS, JOIN_CONVERSATION_ANS,
      LEAVE_CONVERSATION_ANS}"
  shows "GetFromClientAndSendToServer buf db s = Inl NullDeref"
proof -
  have "UnPack buf s = Inr ((0, t), s)" using assms by (simp add: UnPack_def rd_byte_step)
  then show ?thesis using assms(3) by (simp add: GetFromClientAndSendToServer_def rd_byte_def)
qed

theorem unknown_message_crashes_witness:
  "GetFromClientAndSendToServer 1 2 (start_state\<lparr>bytes := (bytes start_state)(1 \<mapsto> 99)\<rparr>) = Inl NullDeref"
  by (rule unknown_message_crashes [where t = 99]) simp_all

text \<open>C19: That the port cannot be bound goes unnoticed: \<open>InitMasterSocket\<close> returns the unbound socket.\<close>

theorem bind_failure_ignored:
  fixes s :: "'a tcp_mem_scheme"
  assumes "listening (io s) (calls s) m" and "os_bind (io s) (calls s + 2) < 0"
  shows "\<exists>s'. InitMasterSocket port backlog s = Inr (m, s') \<and> trace s' = trace s"
  using InitMasterSocket_ok [OF assms(1)] by simp

theorem bind_failure_ignored_witness:
  "\<exists>s'. InitMasterSocket 5555 11 (machine (day\<lparr>os_bind := \<lambda>_. - 1\<rparr>)) = Inr (3, s')"
  using bind_failure_ignored [of "machine (day\<lparr>os_bind := \<lambda>_. - 1\<rparr>)" 3] day_listening
  by (auto simp: listening_def day_def)

text \<open>C26: Every answer that the server sends runs past the block it lies in: a message of 1024 bytes is taken from a block of 8 or 24 bytes, so that \<open>send\<close> reads memory that was not allocated, and every client is sent what lies there. (The model lets \<open>send\<close> read such bytes, as \<open>None\<close>.)\<close>

theorem reply_over_read:
  fixes s :: "'a tcp_mem_scheme"
  assumes "reaches m s p conns A" and "feeds request_bytes (io s) (calls s) m conns inp"
    and "all_allowed chat_allowed serve (requests inp) A"
    and "apass serve max_wait inp conns A = (conns', (cl, ex), A')"
  shows "\<exists>s' es. server_pass chat_callbacks p s = Inr ((), s') \<and> trace s' = trace s @ map Closed cl @ es \<and>
    exchanged request_bytes (\<lambda>a xs. wire a xs \<and> length xs = BUFF_SIZE \<and> xs ! answer_size a = None) ex es"
proof -
  obtain s' es where s': "server_pass chat_callbacks p s = Inr ((), s')" "trace s' = trace s @ map Closed cl @ es"
    "exchanged request_bytes spilled ex es"
    using chat_pass_spilled [OF reaches_loop [OF assms(1)] assms(2-)] by blast
  have "exchanged request_bytes (\<lambda>a xs. wire a xs \<and> length xs = BUFF_SIZE \<and> xs ! answer_size a = None) ex es"
  proof (rule exchanged_mono [OF s'(3)])
    show "wire a xs \<and> length xs = BUFF_SIZE \<and> xs ! answer_size a = None" if "spilled a xs" for a xs
      using that by (cases a) (simp_all add: spilled_def BUFF_SIZE_def)
  qed
  with s'(1,2) show ?thesis by blast
qed

theorem reply_over_read_witness:
  "\<exists>p s s' xs. server_pass chat_callbacks p (s :: tcp_mem) = Inr ((), s') \<and>
    trace s' = trace s @ [Received 4 (request_bytes (Register [97] [98])), Sent 4 xs] \<and>
    length xs = BUFF_SIZE \<and> xs ! 8 = None"
proof -
  have "listening day 0 3" "\<not> interrupted day 0 7"
    by (auto simp: listening_def day_def fd_ok_def FD_SETSIZE_def interrupted_def)
  then obtain p s where s: "reaches 3 (s :: tcp_mem) p [(4, at_sec 306)] chat_empty" "calls s = 7" "io s = day"
    by (rule one_client) (simp_all add: day_def)
  let ?in = "Requests {4} [(Register [97] [98], at_sec 11)]"
  have f: "feeds request_bytes (io s) (calls s) 3 [(4, at_sec 306)] ?in"
    using s(2,3) by (simp add: sel_def ttl_ok_def Let_def timeval_defs) (simp add: day_def timeval_defs)
  have al: "all_allowed chat_allowed serve (requests ?in) chat_empty" by (simp add: chat_allowed_def)
  obtain conns' A' where ap: "apass serve max_wait ?in [(4, at_sec 306)] chat_empty =
      (conns', ([], [(4, Register [97] [98], UserAnswer REGISTER_ANS REGISTER_SUCCESS)]), A')"
    by (simp add: Let_def timeval_defs spec_register_def chat_empty_def UNIQE_def)
  from reply_over_read [OF s(1) f al ap] show ?thesis by (auto simp del: request_bytes.simps wire.simps)
qed

end
