(* ===== verification/ChatOverTCP.thy ===== *)
theory ChatOverTCP
  imports EndToEnd ServerProperties
begin

text \<open>
  The whole chat over its sockets: the program of the server with any number of clients connected,
  and the calls of one of them, made one after the other (\<open>client_run\<close>). The requests of all clients
  interleave as the server reads them; \<open>exchanges fd inps\<close> are those of the client at the socket \<open>fd\<close>,
  with their answers. The network carries bytes: what the server receives on the socket are the
  messages of the calls, in their order, and the client receives what the server sends.
\<close>

section \<open>One socket of the server\<close>

definition received_on :: "int \<Rightarrow> io_event list \<Rightarrow> u8 list list" where
  "received_on fd es = concat (map (\<lambda>e. case e of Received f bs \<Rightarrow> if f = fd then [bs] else [] | _ \<Rightarrow> []) es)"

definition sent_on :: "int \<Rightarrow> io_event list \<Rightarrow> u8 option list list" where
  "sent_on fd es = concat (map (\<lambda>e. case e of Sent f bs \<Rightarrow> if f = fd then [bs] else [] | _ \<Rightarrow> []) es)"

lemma on_socket_simps [simp]:
  "received_on fd [] = []" "sent_on fd [] = []"
  "received_on fd (Received f bs # es) = (if f = fd then bs # received_on fd es else received_on fd es)"
  "received_on fd (Sent f xs # es) = received_on fd es" "received_on fd (Closed f # es) = received_on fd es"
  "sent_on fd (Sent f xs # es) = (if f = fd then xs # sent_on fd es else sent_on fd es)"
  "sent_on fd (Received f bs # es) = sent_on fd es" "sent_on fd (Closed f # es) = sent_on fd es"
  "received_on fd (es @ es') = received_on fd es @ received_on fd es'" "sent_on fd (es @ es') = sent_on fd es @ sent_on fd es'"
  by (simp_all add: received_on_def sent_on_def)

lemma on_socket_closed [simp]:
  "received_on fd (map Closed cl) = []" "sent_on fd (map Closed cl) = []"
  "received_on fd (map (Closed \<circ> f) cs) = []" "sent_on fd (map (Closed \<circ> f) cs) = []"
proof -
  show "received_on fd (map Closed cl) = []" "sent_on fd (map Closed cl) = []" by (induction cl) simp_all
  show "received_on fd (map (Closed \<circ> f) cs) = []" "sent_on fd (map (Closed \<circ> f) cs) = []" by (induction cs) simp_all
qed

type_synonym exchange = "int \<times> request \<times> answer"

definition of_socket :: "int \<Rightarrow> exchange list \<Rightarrow> exchange list" where
  "of_socket fd = filter (\<lambda>q. fst q = fd)"

definition exchanges :: "int \<Rightarrow> request input list \<Rightarrow> exchange list" where
  "exchanges fd inps = of_socket fd (concat (map snd (fst (snd (apasses serve max_wait inps [] chat_empty)))))"

lemma exchanged_on:
  "exchanged request_bytes wire ex es \<Longrightarrow>
   received_on fd es = map (request_bytes \<circ> fst \<circ> snd) (of_socket fd ex) \<and>
   list_all2 (wire \<circ> snd \<circ> snd) (of_socket fd ex) (sent_on fd es)"
  by (induction ex arbitrary: es) (auto simp: of_socket_def simp del: request_bytes.simps wire.simps)

lemma observed_on:
  "observed request_bytes wire outs es \<Longrightarrow>
   received_on fd es = map (request_bytes \<circ> fst \<circ> snd) (of_socket fd (concat (map snd outs))) \<and>
   list_all2 (wire \<circ> snd \<circ> snd) (of_socket fd (concat (map snd outs))) (sent_on fd es)"
proof (induction outs arbitrary: es)
  case (Cons out outs)
  obtain cl ex where out: "out = (cl, ex)" by (cases out)
  then obtain es1 es2 where es: "es = map Closed cl @ es1 @ es2" "exchanged request_bytes wire ex es1"
    "observed request_bytes wire outs es2" using Cons.prems by auto
  have "list_all2 (wire \<circ> snd \<circ> snd) (of_socket fd ex @ of_socket fd (concat (map snd outs))) (sent_on fd es1 @ sent_on fd es2)"
    using exchanged_on [OF es(2), of fd] Cons.IH [OF es(3)] by (blast intro: list_all2_appendI)
  then show ?case using exchanged_on [OF es(2), of fd] Cons.IH [OF es(3)]
    by (simp add: out es(1) of_socket_def comp_def)
qed (simp add: of_socket_def)

section \<open>The answers of the passes\<close>

abbreviation answered_well :: "exchange list \<Rightarrow> bool" where
  "answered_well ex \<equiv> list_all (\<lambda>q. answer_for (fst (snd q)) (snd (snd q))) ex"

lemma round_answers:
  "round serve R mx us vs rs A = (conns', ex, A') \<Longrightarrow> addresses_fit A \<Longrightarrow> answered_well ex \<and> addresses_fit A'"
proof (induction serve R mx us vs rs A arbitrary: ex rule: round.induct)
qed (auto simp: Let_def served_answer(2) answer_for_def simp del: serve.simps split: if_splits prod.splits list.splits)

lemma apass_answers:
  assumes "apass serve mx inp conns A = (conns', (cl, ex), A')" and "addresses_fit A"
  shows "answered_well ex \<and> addresses_fit A'"
  using assms round_answers by (cases inp) (auto simp: Let_def split: prod.splits)

lemma apasses_answers:
  "addresses_fit A \<Longrightarrow> answered_well (concat (map snd (fst (snd (apasses serve mx inps conns A)))))"
proof (induction inps arbitrary: conns A)
  case (Cons inp inps)
  obtain conns1 cl ex A1 where p: "apass serve mx inp conns A = (conns1, (cl, ex), A1)" by (metis prod.collapse)
  show ?case using apass_answers [OF p Cons.prems] Cons.IH [of A1 conns1] by (simp add: p Let_def split_def)
qed simp

lemma exchanges_answered: "answered_well (exchanges fd inps)"
  using apasses_answers [OF addresses_fit_empty, of max_wait inps "[]"]
  by (fastforce simp: exchanges_def of_socket_def list_all_iff)

section \<open>The requests behind the bytes\<close>

lemma round_allowed:
  "round sv R mx us vs rs A = (conns', ex, A') \<Longrightarrow> all_allowed allowed sv rs A \<Longrightarrow> q \<in> set ex \<Longrightarrow>
   \<exists>B. allowed (fst (snd q)) B"
proof (induction vs arbitrary: us rs A ex)
  case (Cons v vs)
  show ?case
  proof (cases "fst v \<in> R \<and> rs \<noteq> []")
    case True
    then obtain r now rs' where rs: "rs = (r, now) # rs'" by (cases rs) auto
    obtain conns1 xs A1 where rd: "round sv R mx ((fst v, timeradd now mx) # us) vs rs' (snd (sv r A)) = (conns1, xs, A1)"
      by (metis prod.collapse)
    have ex: "ex = (fst v, r, fst (sv r A)) # xs" and a: "conns1 = conns'" "A1 = A'" using Cons.prems(1) True rs rd by simp_all
    have ok: "allowed r A" "all_allowed allowed sv rs' (snd (sv r A))" using Cons.prems(2) rs by simp_all
    from Cons.IH [OF rd [unfolded a] ok(2)] Cons.prems(3) ok(1) show ?thesis unfolding ex by auto
  next
    case False
    then show ?thesis using Cons by (cases rs) (auto split: if_splits)
  qed
qed simp

lemma apass_allowed:
  assumes "apass sv mx inp conns A = (conns1, (cl, ex), A1)" and "all_allowed allowed sv (requests inp) A" and "q \<in> set ex"
  shows "\<exists>B. allowed (fst (snd q)) B"
proof (cases inp)
  case (Requests R rs)
  then have "round sv R mx [] conns rs A = (conns1, ex, A1)" using assms(1) by (simp add: Let_def split: prod.splits)
  from round_allowed [OF this] assms(2,3) Requests show ?thesis by simp
next
  case (Connect fd now R rs)
  then have "round sv R mx [] (conns @ [(fd, timeradd now mx)]) rs A = (conns1, ex, A1)"
    using assms(1) by (simp add: Let_def split: prod.splits)
  from round_allowed [OF this] assms(2,3) Connect show ?thesis by simp
qed (use assms in simp_all)

lemma apasses_allowed:
  "feeds_all enc allowed sv mx w n m conns A inps \<Longrightarrow> q \<in> set (concat (map snd (fst (snd (apasses sv mx inps conns A))))) \<Longrightarrow>
   \<exists>B. allowed (fst (snd q)) B"
proof (induction inps arbitrary: n conns A)
  case (Cons inp inps)
  obtain conns1 cl ex A1 where p: "apass sv mx inp conns A = (conns1, (cl, ex), A1)" by (metis prod.collapse)
  have "all_allowed allowed sv (requests inp) A" "feeds_all enc allowed sv mx w (after n conns inp) m conns1 A1 inps"
    using Cons.prems(1) by (simp_all add: p)
  moreover have "q \<in> set ex \<or> q \<in> set (concat (map snd (fst (snd (apasses sv mx inps conns1 A1)))))"
    using Cons.prems(2) by (simp add: p Let_def split_def)
  ultimately show ?case using apass_allowed [OF p] Cons.IH by blast
qed simp

lemma pad_inject:
  assumes "pad n xs @ ys = pad n xs' @ ys'" and "0 \<notin> set xs" "0 \<notin> set xs'" "length xs \<le> n" "length xs' \<le> n"
  shows "xs = xs' \<and> ys = ys'"
proof -
  have "pad n xs = pad n xs' \<and> ys = ys'" using assms(1,4,5) by (simp add: length_pad append_eq_append_conv)
  moreover have "takeWhile (\<lambda>c. c \<noteq> 0) (pad n zs) = zs" if "0 \<notin> set zs" for zs
    using that by (auto simp: pad_def takeWhile_append)
  ultimately show ?thesis using assms(2,3) by metis
qed

lemmas pad_inject_end = pad_inject [where ys = "[]" and ys' = "[]", simplified]

lemma request_bytes_inject:
  assumes "request_bytes r = request_bytes r'" and "valid_request r" and "valid_request r'"
  shows "r = r'"
  using assms by (cases r; cases r') (auto simp: user_struct_def group_struct_def dest!: pad_inject pad_inject_end)

text \<open>What the server takes a message of the client for: a request to leave arrives garbled.\<close>

lemma message_request:
  assumes "bytes_sent r = request_bytes r'" and "valid_request r" and "valid_request r'"
  shows "if is_leave r then is_leave r' else r' = r"
proof (cases r)
  case (LeaveGroup g u)
  then have "hd (request_bytes r') = type_code LEAVE_CONVERSATION_REQ"
    using arg_cong [OF assms(1), of hd] by (simp add: garbled_def group_struct_def)
  then show ?thesis using LeaveGroup by (cases r') (simp_all add: user_struct_def group_struct_def)
qed (use assms request_bytes_inject [of r r'] in \<open>auto simp: sent_as_requested\<close>)

lemma answer_for_message: "answer_for r' a \<Longrightarrow> (if is_leave r then is_leave r' else r' = r) \<Longrightarrow> answer_for r a"
  by (cases r; cases r') (auto simp: answer_for_def split: if_splits)

section \<open>The network\<close>

text \<open>
  \<open>relays w n qs bss\<close>: from its call number \<open>n\<close> on, the client can send and receives, for each
  request with its answer, what the server has sent (bytes the server did not set may be anything).
  \<open>answers_on fd inps\<close>: the answers the abstract server gives on a socket.
\<close>

fun relays :: "client_os \<Rightarrow> nat \<Rightarrow> (request \<times> answer) list \<Rightarrow> u8 option list list \<Rightarrow> bool" where
  "relays w n [] bss \<longleftrightarrow> True"
| "relays w n (q # qs) [] \<longleftrightarrow> False"
| "relays w n (q # qs) (bs # bss) \<longleftrightarrow>
     0 \<le> net_send w n \<and> (case net_recv w (n + 1) of None \<Rightarrow> False | Some ys \<Rightarrow> agrees ys bs) \<and>
     relays w (n + call_count w n (fst q) (snd q)) qs bss"

lemma relays_answered:
  "relays w n qs bss \<Longrightarrow> list_all2 (wire \<circ> snd) qs bss \<Longrightarrow> answered w n qs"
proof (induction w n qs bss rule: relays.induct)
  case (3 w n q qs bs bss)
  then show ?case
    by (cases q) (auto simp: agrees_answer simp del: wire.simps split: option.splits)
qed simp_all

definition answers_on :: "int \<Rightarrow> request input list \<Rightarrow> answer list" where
  "answers_on fd inps = map (snd \<circ> snd) (exchanges fd inps)"

lemma exchange_valid:
  assumes "feeds_all request_bytes chat_allowed serve max_wait w n m [] chat_empty inps" and "q \<in> set (exchanges fd inps)"
  shows "valid_request (fst (snd q))"
proof -
  have "q \<in> set (concat (map snd (fst (snd (apasses serve max_wait inps [] chat_empty)))))"
    using assms(2) by (auto simp: exchanges_def of_socket_def)
  then show ?thesis using apasses_allowed [OF assms(1)] by (auto simp: chat_allowed_def)
qed

text \<open>When the messages received on a socket are those of calls, the answers given there are answers for the calls.\<close>

lemma answers_for_calls:
  fixes rs :: "(request \<times> addr \<times> addr) list"
  assumes msgs: "map (bytes_sent \<circ> fst) rs = map (request_bytes \<circ> fst \<circ> snd) (exchanges fd inps)"
    and feeds: "feeds_all request_bytes chat_allowed serve max_wait w n m [] chat_empty inps"
    and v: "\<forall>q \<in> set rs. valid_request (fst q)"
  shows "list_all2 answer_for (map fst rs) (answers_on fd inps)"
proof -
  have len: "length rs = length (exchanges fd inps)" using arg_cong [OF msgs, of length] by simp
  have "answer_for (fst (rs ! i)) (snd (snd (exchanges fd inps ! i)))" if i: "i < length rs" for i
  proof (rule answer_for_message)
    let ?q = "exchanges fd inps ! i"
    have q: "?q \<in> set (exchanges fd inps)" using i len by simp
    show "answer_for (fst (snd ?q)) (snd (snd ?q))"
      using exchanges_answered [of fd inps] q by (simp add: list_all_iff)
    have "bytes_sent (fst (rs ! i)) = request_bytes (fst (snd ?q))"
      using arg_cong [OF msgs, of "\<lambda>l. l ! i"] i len by simp
    then show "if is_leave (fst (rs ! i)) then is_leave (fst (snd ?q)) else fst (snd ?q) = fst (rs ! i)"
      by (rule message_request) (use v i exchange_valid [OF feeds q] in auto)
  qed
  then show ?thesis using len by (simp add: list_all2_conv_all_nth answers_on_def)
qed

section \<open>The chat\<close>

text \<open>C1: The server program, with any number of clients connected and any interleaving of their requests, connections and time-outs, and a client that connects and makes any sequence of the calls of Client.c (not through the user interface, which overflows on the first name that is typed), over a network that carries the messages of both. Provided that every message arrives whole and well-formed, no client disconnects, memory does not run out and is zero when it is allocated, and reading behind the answer in send is harmless: the server runs to its end and the calls run without a fault; the client really sends the messages that the server receives on its socket; and every call returns what the abstract chat server answers, run on the requests of all clients in the order in which the server reads them.\<close>

theorem chat_over_tcp:
  fixes s :: "'a tcp_mem_scheme" and c :: "'b client_mem_scheme"
  assumes "booting s m" and "1024 \<le> port" and "stop s = 0" and "trace s = []" and "\<not> interrupted (io s) (calls s) (calls s + 4)"
    and feeds: "feeds_all request_bytes chat_allowed serve max_wait (io s) (calls s + 4) m [] chat_empty inps"
    and "signalled serve max_wait (io s) (calls s + 4) [] chat_empty inps"
    and "env c" and "str_at c ip ipn" and "net_socket (cos c) (asked c) = sock" "0 \<le> sock" and "int_ok port" and "events c = []"
    and rs: "\<forall>(r, x, y) \<in> set rs. valid_request r \<and> arguments (brk c) c r x y"
    and net: "\<forall>s'. server_main (length inps) port s = Inr (0, s') \<longrightarrow>
      received_on fd (trace s') = map (bytes_sent \<circ> fst) rs \<and>
      relays (cos c) (asked c + 2) (zip (map fst rs) (answers_on fd inps)) (sent_on fd (trace s'))"
  shows "\<exists>s' c1 c2. server_main (length inps) port s = Inr (0, s') \<and>
    Connect_User ip port c = Inr (brk c, c1) \<and> length (answers_on fd inps) = length rs \<and>
    client_run rs (brk c) c1 = Inr (map2 outcome (map fst rs) (answers_on fd inps), c2) \<and>
    sent_by (events c2) = map (map Some) (received_on fd (trace s'))"
proof -
  let ?ex = "exchanges fd inps" and ?run = "apasses serve max_wait inps [] chat_empty" and ?as = "answers_on fd inps"
  obtain s' es where s': "RunServerSide (length inps) port s = Inr ((), s')"
    "trace s' = trace s @ es @ map (Closed \<circ> fst) (fst ?run) @ [Closed m]" "observed request_bytes wire (fst (snd ?run)) es"
    using server_program [OF assms(1-3,5) order_refl assms(6,7)] by blast
  have main: "server_main (length inps) port s = Inr (0, s')" using s'(1) by (simp add: server_main_def)
  have seen: "received_on fd (trace s') = map (request_bytes \<circ> fst \<circ> snd) ?ex" "list_all2 (wire \<circ> snd \<circ> snd) ?ex (sent_on fd (trace s'))"
    using observed_on [OF s'(3), of fd] s'(2) assms(4) by (simp_all add: exchanges_def)
  have msgs: "map (bytes_sent \<circ> fst) rs = map (request_bytes \<circ> fst \<circ> snd) ?ex" using net main seen(1) by simp
  have len: "length ?as = length rs" using arg_cong [OF msgs, of length] by (simp add: answers_on_def)
  have for_rs: "list_all2 answer_for (map fst rs) ?as"
    by (rule answers_for_calls [OF msgs feeds]) (use rs in auto)
  have "list_all2 (wire \<circ> snd) (zip (map fst rs) ?as) (sent_on fd (trace s'))"
    using seen(2) len by (simp add: answers_on_def list_all2_conv_all_nth)
  then have ans: "answered (cos c) (asked c + 2) (zip (map fst rs) ?as)" using relays_answered net main by blast
  obtain c1 where c1: "Connect_User ip port c = Inr (brk c, c1)"
    "client_rep (brk c) c1 (brk c) (brk c + 2) sock port Map.empty"
    "events c1 = events c @ (if net_connect (cos c) (asked c + 1) < 0 then [] else [Opened sock ipn (word_of_int port)])"
    "asked c1 = asked c + 2" "cos c1 = cos c" "bytes c1 = bytes c" "brk c \<le> brk c1"
    by (rule Connect_User_ok [OF assms(8-11)])
  have v: "\<forall>(r, x, y) \<in> set rs. valid_request r \<and> arguments (brk c) c1 r x y"
    using rs c1(6,7) by (auto intro: arguments_later)
  obtain c2 where c2: "client_run rs (brk c) c1 = Inr (map2 outcome (map fst rs) ?as, c2)"
    "sent_by (events c2) = sent_by (events c1) @ map (\<lambda>r. map Some (bytes_sent (fst r))) rs"
    using client_run_ok [OF c1(2) assms(12) v for_rs] ans c1(4,5) by auto
  have "sent_by (events c1) = []" using c1(3) assms(13) by (auto simp: sent_by_def)
  then have "sent_by (events c2) = map (map Some) (received_on fd (trace s'))"
    unfolding c2(2) seen(1) msgs [symmetric] by simp
  with main c1(1) len c2(1) show ?thesis by blast
qed

text \<open>The day of the server, and the client that registers on it.\<close>

lemma day_exchanges: "exchanges 4 day_inputs = [(4, Register [97] [98], UserAnswer REGISTER_ANS REGISTER_SUCCESS)]"
  unfolding exchanges_def day_feeds(3) by (simp add: of_socket_def)

theorem chat_over_tcp_witness:
  "\<exists>w s' c1 c2. server_main 3 5555 (machine day) = Inr (0, s') \<and>
    Connect_User 10 5555 (client_start w) = Inr (20, c1) \<and>
    client_run [(Register [97] [98], 1, 4)] 20 c1 = Inr ([Some CLIENT_SUCCESS], c2) \<and>
    sent_by (events c2) = map (map Some) (received_on 4 (trace s'))"
proof -
  let ?qs = "[(Register [97] [98], UserAnswer REGISTER_ANS REGISTER_SUCCESS)]"
  have q: "\<not> interrupted day 0 4" by (auto simp: interrupted_def day_def)
  have three: "length day_inputs = 3" by (simp add: day_inputs_def)
  obtain t es where t: "server_main 3 5555 (machine day) = Inr (0, t)" "trace t = es @ [Closed 3]"
    "observed request_bytes wire [([], []), ([], [(4, Register [97] [98], UserAnswer REGISTER_ANS REGISTER_SUCCESS)]), ([4], [])] es"
    using server_program [OF day_booting, of 5555 day_inputs 3] q three day_feeds(1,2)
    unfolding day_feeds(3) by (auto simp: server_main_def)
  obtain xs where xs: "sent_on 4 (trace t) = [xs]" "received_on 4 (trace t) = [request_bytes (Register [97] [98])]" using t(2,3) by (auto simp del: wire.simps request_bytes.simps)
  let ?w = "answering (map (\<lambda>b. case b of None \<Rightarrow> 0 | Some x \<Rightarrow> x) xs)"
  have w: "net_socket ?w 0 = 3" "relays ?w 2 ?qs [xs]"
    by (simp_all add: answering_def quiet_net_def agrees_def)
  have as: "answers_on 4 day_inputs = [UserAnswer REGISTER_ANS REGISTER_SUCCESS]" by (simp add: answers_on_def day_exchanges)
  let ?rs = "[(Register [97] [98], 1, 4)] :: (request \<times> addr \<times> addr) list"
  have net: "\<forall>s'. server_main (length day_inputs) 5555 (machine day) = Inr (0, s') \<longrightarrow>
      received_on 4 (trace s') = map (bytes_sent \<circ> fst) ?rs \<and>
      relays (cos (client_start ?w)) (asked (client_start ?w) + 2) (zip (map fst ?rs) (answers_on 4 day_inputs)) (sent_on 4 (trace s'))"
    using t(1) xs w(2) unfolding three as client_start_simps add_0_left by (simp del: relays.simps request_bytes.simps)
  have rs: "\<forall>(r, x, y) \<in> set ?rs. valid_request r \<and> arguments (brk (client_start ?w)) (client_start ?w) r x y"
    using client_start_strings by (simp add: arguments_def)
  have sock: "net_socket (cos (client_start ?w)) (asked (client_start ?w)) = 3" "(0 :: int) \<le> 3" using w(1) by simp_all
  have server: "stop (machine day) = 0" "trace (machine day) = []" "\<not> interrupted (io (machine day)) (calls (machine day)) (calls (machine day) + 4)"
    "feeds_all request_bytes chat_allowed serve max_wait (io (machine day)) (calls (machine day) + 4) 3 [] chat_empty day_inputs"
    "signalled serve max_wait (io (machine day)) (calls (machine day) + 4) [] chat_empty day_inputs"
    using q day_feeds(1,2) by (simp_all del: feeds_all.simps signalled.simps)
  have port: "(1024 :: int) \<le> 5555" by simp
  have "map2 outcome (map fst ?rs) (answers_on 4 day_inputs) = [Some CLIENT_SUCCESS]" by (simp add: as code_of_def)
  note out = this
  from chat_over_tcp [OF day_booting port server client_start_env client_start_strings(4) sock port_ok client_start_simps(3) rs net]
  show ?thesis unfolding three out client_start_simps by blast
qed

end
