(* ===== verification/ChatWindows.thy ===== *)
theory ChatWindows
  imports ClientWindows
begin

text \<open>
  The two programs that the client opens in windows: \<^verbatim>\<open>src/senderChat/SenderProgram.c\<close> sends
  each line that is typed as a datagram to the address of the group,
  \<^verbatim>\<open>src/ListenChat/ListenerProgram.c\<close> prints the datagrams that arrive there.

  The operating system is the record \<open>window_os\<close>: the result of each call as a function of the
  number of calls made before; \<open>typed_line\<close> is what \<open>fgets\<close> finds (\<open>None\<close> at the end of the
  input). \<open>window_log\<close> records what the process does to the outside; messages of \<open>perror\<close> and
  \<open>sleep\<close> are left out. Both loops run until a call fails, so they take fuel \<open>k\<close>; with no fuel
  left a run is \<open>Diverges\<close>.
\<close>

section \<open>State\<close>

record window_os =
  pid_file_opens :: bool
  own_pid :: int
  udp_socket :: "nat \<Rightarrow> int"
  set_option :: "nat \<Rightarrow> int"
  bind_address :: "nat \<Rightarrow> int"
  typed_line :: "nat \<Rightarrow> u8 list option"
  send_datagram :: "nat \<Rightarrow> int"
  receive_datagram :: "nat \<Rightarrow> u8 list option"

datatype window_event =
  PidWritten "u8 list" "u8 list" | Printed "u8 list" | BoundTo int "u8 list" "16 word"
| Joined int "u8 list" | Datagram int "u8 list" "16 word" "u8 option list"

record window_mem = bmem +
  wos :: window_os
  calls :: nat
  window_log :: "window_event list"

definition ask_window :: "(window_os \<Rightarrow> nat \<Rightarrow> 'r) \<Rightarrow> ('a window_mem_scheme, 'r) prog" where
  "ask_window f = (\<lambda>s. Inr (f (wos s) (calls s), s\<lparr>calls := calls s + 1\<rparr>))"

definition log_window :: "window_event \<Rightarrow> ('a window_mem_scheme, unit) prog" where
  "log_window e = modify (\<lambda>s. s\<lparr>window_log := window_log s @ [e]\<rparr>)"

section \<open>Functions of the C library\<close>

text \<open>
  \<open>argv\<close> has a null pointer behind its last element. \<open>atoi\<close> skips white space and reads an
  optional sign and digits; a number that is no \<open>int\<close> has no defined result.
\<close>

definition MSG_BUFF_SIZE :: nat where "MSG_BUFF_SIZE = 4096"
definition ARGIP :: nat where "ARGIP = 1"
definition ARGPORT :: nat where "ARGPORT = 2"
definition ARG_USER_NAME :: nat where "ARG_USER_NAME = 3"
definition ARG_GROUP_NAME :: nat where "ARG_GROUP_NAME = 4"

definition argument :: "addr list \<Rightarrow> nat \<Rightarrow> ('a bmem_scheme, u8 list) prog" where
  "argument argv i =
     (if i < length argv then reads (\<lambda>s. c_str s (argv ! i))
      else if i = length argv then fail NullDeref
      else fail BadAddress)"

definition is_space :: "u8 \<Rightarrow> bool" where
  "is_space c \<longleftrightarrow> c = 32 \<or> (9 \<le> c \<and> c \<le> 13)"

definition is_digit :: "u8 \<Rightarrow> bool" where
  "is_digit c \<longleftrightarrow> 48 \<le> c \<and> c \<le> 57"

definition atoi :: "u8 list \<Rightarrow> int" where
  "atoi cs =
     (case dropWhile is_space cs of
        [] \<Rightarrow> 0
      | c # ds \<Rightarrow>
          if c = 45 then - int (undec (takeWhile is_digit ds) 0)
          else if c = 43 then int (undec (takeWhile is_digit ds) 0)
          else int (undec (takeWhile is_digit (c # ds)) 0))"

definition htons_atoi :: "u8 list \<Rightarrow> ('a bmem_scheme, 16 word) prog" where
  "htons_atoi cs = chain (reads (\<lambda>_. int_val (atoi cs))) (\<lambda>i. ret (word_of_int i))"

text \<open>\<open>fgets(p, n, stdin)\<close>: at the end of the input it leaves the buffer as it is.\<close>

definition fgets :: "addr \<Rightarrow> nat \<Rightarrow> ('a window_mem_scheme, unit) prog" where
  "fgets p n =
     chain (ask_window typed_line) (\<lambda>r.
     case r of None \<Rightarrow> ret () | Some cs \<Rightarrow> put_bytes p (take (n - 1) cs @ [0]))"

text \<open>\<open>fopen\<close>, \<open>fprintf\<close> of the process id and \<open>fclose\<close>; the result of \<open>fopen\<close> is not tested.\<close>

definition write_pid :: "u8 list \<Rightarrow> ('a window_mem_scheme, unit) prog" where
  "write_pid file = (\<lambda>s.
     if pid_file_opens (wos s) then log_window (PidWritten file (dec_int (own_pid (wos s)))) s
     else Inl NullDeref)"

text \<open>Colours: the escape character and a code.\<close>

definition escape :: "string \<Rightarrow> u8 list" where
  "escape code = 27 # ascii code"

section \<open>The sender\<close>

definition message_text :: "u8 list \<Rightarrow> u8 list \<Rightarrow> u8 list" where
  "message_text user line = escape ''[36m'' @ user @ [58] @ escape ''[0m'' @ [32] @ line"

definition sprintf_message :: "addr \<Rightarrow> u8 list \<Rightarrow> addr \<Rightarrow> ('a bmem_scheme, unit) prog" where
  "sprintf_message dst user message =
     chain (reads (\<lambda>s. c_str s message)) (\<lambda>line.
     put_bytes dst (message_text user line @ [0]))"

definition frame_line :: "u8 list" where
  "frame_line = ascii ''++++++++++++++++++++++++''"

definition sender_banner :: "u8 list \<Rightarrow> u8 list" where
  "sender_banner user =
     escape ''[36m'' @ frame_line @ [10] @ frame_line @ escape ''[0m'' @ [10] @
     ascii ''Welcome '' @ user @ [10] @ ascii ''Write here...: '' @ [10] @
     escape ''[36m'' @ frame_line @ [10] @ frame_line @ escape ''[0m'' @ [10, 10]"

text \<open>\<open>sendto\<close> takes the whole array, whatever the length of the message in it.\<close>

fun sender_loop ::
  "nat \<Rightarrow> int \<Rightarrow> u8 list \<Rightarrow> 16 word \<Rightarrow> addr list \<Rightarrow> addr \<Rightarrow> addr \<Rightarrow> ('a window_mem_scheme, int) prog" where
  "sender_loop 0 sock ip port argv message messageToSnd = fail Diverges"
| "sender_loop (Suc k) sock ip port argv message messageToSnd =
     chain (fgets message MSG_BUFF_SIZE) (\<lambda>_.
     chain (argument argv ARG_USER_NAME) (\<lambda>user.
     chain (sprintf_message messageToSnd user message) (\<lambda>_.
     chain (ask_window send_datagram) (\<lambda>r.
     if r < 0 then ret 1
     else
       chain (reads (\<lambda>s. Inr (map (\<lambda>i. bytes s (messageToSnd + i)) [0..<MSG_BUFF_SIZE]))) (\<lambda>xs.
       chain (log_window (Datagram sock ip port xs)) (\<lambda>_.
       sender_loop k sock ip port argv message messageToSnd))))))"

definition sender_main :: "nat \<Rightarrow> addr list \<Rightarrow> ('a window_mem_scheme, int) prog" where
  "sender_main k argv =
     with_array MSG_BUFF_SIZE (\<lambda>message.
     with_array MSG_BUFF_SIZE (\<lambda>messageToSnd.
     with_array MSG_BUFF_SIZE (\<lambda>wholeMessage.
     chain (write_pid (ascii ''./fileForSender'')) (\<lambda>_.
     chain (ask_window udp_socket) (\<lambda>sock.
     if sock < 0 then ret 0
     else
       chain (argument argv ARGIP) (\<lambda>ip.
       chain (argument argv ARGPORT) (\<lambda>digits.
       chain (htons_atoi digits) (\<lambda>port.
       chain (argument argv ARG_USER_NAME) (\<lambda>user.
       chain (strcpy wholeMessage (argv ! ARG_USER_NAME)) (\<lambda>_.
       chain (log_window (Printed (sender_banner user))) (\<lambda>_.
       sender_loop k sock ip port argv message messageToSnd)))))))))))"

section \<open>The listener\<close>

definition listener_banner :: "u8 list \<Rightarrow> u8 list \<Rightarrow> u8 list" where
  "listener_banner user grp =
     escape ''[36m'' @ frame_line @ [10] @ frame_line @ escape ''[0m'' @ [10] @
     ascii ''Welcome '' @ user @ [10] @ ascii ''This group name is: '' @ grp @ [10] @
     escape ''[36m'' @ frame_line @ [10] @ frame_line @ escape ''[0m'' @ [10, 10]"

fun listener_loop :: "nat \<Rightarrow> addr \<Rightarrow> ('a window_mem_scheme, int) prog" where
  "listener_loop 0 msgbuf = fail Diverges"
| "listener_loop (Suc k) msgbuf =
     chain (ask_window receive_datagram) (\<lambda>r.
     case r of
       None \<Rightarrow> ret 0
     | Some xs \<Rightarrow>
         chain (put_bytes msgbuf (take MSG_BUFF_SIZE xs)) (\<lambda>_.
         chain (reads (\<lambda>s. c_str s msgbuf)) (\<lambda>text.
         chain (log_window (Printed text)) (\<lambda>_.
         listener_loop k msgbuf))))"

definition listener_main :: "nat \<Rightarrow> addr list \<Rightarrow> ('a window_mem_scheme, int) prog" where
  "listener_main k argv =
     with_array MSG_BUFF_SIZE (\<lambda>msgbuf.
     chain (write_pid (ascii ''./fileForListen'')) (\<lambda>_.
     chain (ask_window udp_socket) (\<lambda>sock.
     if sock < 0 then ret 0
     else
       chain (ask_window set_option) (\<lambda>reuse.
       if reuse < 0 then ret 0
       else
         chain (argument argv ARGIP) (\<lambda>ip.
         chain (argument argv ARGPORT) (\<lambda>digits.
         chain (htons_atoi digits) (\<lambda>port.
         chain (ask_window bind_address) (\<lambda>bound.
         if bound < 0 then ret 0
         else
           chain (log_window (BoundTo sock ip port)) (\<lambda>_.
           chain (ask_window set_option) (\<lambda>member.
           if member < 0 then ret 0
           else
             chain (log_window (Joined sock ip)) (\<lambda>_.
             chain (argument argv ARG_USER_NAME) (\<lambda>user.
             chain (argument argv ARG_GROUP_NAME) (\<lambda>grp.
             chain (log_window (Printed (listener_banner user grp))) (\<lambda>_.
             listener_loop k msgbuf))))))))))))))"

end
