(* ===== verification/WindowRuns.thy ===== *)
theory WindowRuns
  imports ChatWindows
begin

text \<open>
  What runs of the two window programs do. \<open>datagrams\<close> gives the payloads of the sender exactly:
  each is the whole array, so behind the new message it still holds the end of older ones.
  \<open>shown\<close> gives what the listener prints.
\<close>

section \<open>Specification\<close>

text \<open>The messages sent: at the end of the input, the last line again.\<close>

fun said :: "u8 list \<Rightarrow> u8 list option list \<Rightarrow> u8 list list" where
  "said m [] = []"
| "said m (None # xs) = m # said m xs"
| "said m (Some l # xs) = l # said l xs"

definition overlay :: "u8 list \<Rightarrow> u8 list \<Rightarrow> u8 list" where
  "overlay old new = new @ drop (length new) old"

fun datagrams :: "u8 list \<Rightarrow> u8 list \<Rightarrow> u8 list list \<Rightarrow> u8 list list" where
  "datagrams c user [] = []"
| "datagrams c user (l # ls) =
     (let d = overlay c (message_text user l @ [0]) in d # datagrams d user ls)"

fun shown :: "u8 list \<Rightarrow> u8 list list \<Rightarrow> u8 list list" where
  "shown c [] = []"
| "shown c (d # ds) =
     (let c' = overlay c (take MSG_BUFF_SIZE d) in takeWhile (\<lambda>b. b \<noteq> 0) c' # shown c' ds)"

text \<open>A line that fits, with the name and the colours, into the array of the sender.\<close>

definition line_fits :: "u8 list \<Rightarrow> u8 list \<Rightarrow> bool" where
  "line_fits user l \<longleftrightarrow> 0 \<notin> set l \<and> length user + length l \<le> 4084"

lemma length_said [simp]: "length (said m xs) = length xs"
  by (induction m xs rule: said.induct) simp_all

lemma length_overlay [simp]: "length new \<le> length old \<Longrightarrow> length (overlay old new) = length old"
  by (simp add: overlay_def)

lemma length_message_text: "length (message_text user l) = 11 + length user + length l"
  by (simp add: message_text_def escape_def ascii_def)

lemma message_text_zero: "0 \<notin> set user \<Longrightarrow> 0 \<notin> set l \<Longrightarrow> 0 \<notin> set (message_text user l)"
  by (simp add: message_text_def escape_def ascii_def)

lemma length_datagrams [simp]: "length (datagrams c user ls) = length ls"
  by (induction ls arbitrary: c) (simp_all add: Let_def)

section \<open>Memory\<close>

lemma ask_window_step [c_step, simp]: "ask_window f s = Inr (f (wos s) (calls s), s\<lparr>calls := calls s + 1\<rparr>)"
  by (simp add: ask_window_def)

lemma log_window_step [c_step, simp]: "log_window e s = Inr ((), s\<lparr>window_log := window_log s @ [e]\<rparr>)"
  by (simp add: log_window_def)

lemma argument_step [c_step]: "i < length argv \<Longrightarrow> str_at s (argv ! i) xs \<Longrightarrow> argument argv i s = Inr (xs, s)"
  by (simp add: argument_def str_at_c_str)

lemma overlay_at:
  assumes "bytes_at s p c" and "length xs \<le> length c"
  shows "bytes_at (stored p xs s) p (overlay c xs)"
proof -
  have "bytes s (p + i) = Some (c ! i)" if "i < length c" for i using assms(1) that by (simp add: bytes_at_def)
  then show ?thesis using assms by (auto simp: bytes_at_def overlay_def stored_def map_bytes_def nth_append)
qed

lemma bytes_at_is_mapped: "bytes_at s p c \<Longrightarrow> n \<le> length c \<Longrightarrow> mapped s p n"
  by (auto simp: bytes_at_def mapped_def)

lemma block_read: "bytes_at s p c \<Longrightarrow> map (\<lambda>i. bytes s (p + i)) [0..<length c] = map Some c"
  by (auto simp: bytes_at_def intro: nth_equalityI)

text \<open>Changes of the counter and the log only.\<close>

lemma window_io_simps [simp]:
  fixes s :: "'a window_mem_scheme"
  shows "str_at (s\<lparr>calls := n\<rparr>) a xs = str_at s a xs" "str_at (s\<lparr>window_log := es\<rparr>) a xs = str_at s a xs"
    "bytes_at (s\<lparr>calls := n\<rparr>) a ys = bytes_at s a ys" "bytes_at (s\<lparr>window_log := es\<rparr>) a ys = bytes_at s a ys"
    "mapped (s\<lparr>calls := n\<rparr>) a k = mapped s a k" "mapped (s\<lparr>window_log := es\<rparr>) a k = mapped s a k"
  by (simp_all add: str_at_def bytes_at_def mapped_def)

lemma stored_rest [simp]:
  fixes s :: "'a window_mem_scheme"
  shows "wos (stored p xs s) = wos s" "calls (stored p xs s) = calls s" "window_log (stored p xs s) = window_log s"
    "brk (stored p xs s) = brk s"
  by (simp_all add: stored_def)

section \<open>The loop of the sender\<close>

text \<open>
  The state of the loop: the line \<open>m\<close> lies in the first array at \<open>M\<close>, the contents \<open>c\<close> of the
  second at \<open>T\<close>, and the name of the user below both.
\<close>

definition sending ::
  "'a window_mem_scheme \<Rightarrow> addr list \<Rightarrow> addr \<Rightarrow> addr \<Rightarrow> u8 list \<Rightarrow> u8 list \<Rightarrow> u8 list \<Rightarrow> bool" where
  "sending s argv M T user m c \<longleftrightarrow>
     mapped s M MSG_BUFF_SIZE \<and> str_at s M m \<and> length m < MSG_BUFF_SIZE \<and> M + MSG_BUFF_SIZE < T \<and>
     T + MSG_BUFF_SIZE < brk s \<and> bytes_at s T c \<and> length c = MSG_BUFF_SIZE \<and>
     ARG_USER_NAME < length argv \<and> str_at s (argv ! ARG_USER_NAME) user \<and>
     argv ! ARG_USER_NAME + length user < M"

lemma sending_io:
  "sending (s\<lparr>calls := n\<rparr>) argv M T user m c = sending s argv M T user m c"
  "sending (s\<lparr>window_log := es\<rparr>) argv M T user m c = sending s argv M T user m c"
  by (simp_all add: sending_def)

lemma fgets_ok:
  assumes "sending s argv M T user m c" and "\<forall>l. typed_line (wos s) (calls s) = Some l \<longrightarrow> line_fits user l"
  obtains s' where "fgets M MSG_BUFF_SIZE s = Inr ((), s')"
    "sending s' argv M T user (case typed_line (wos s) (calls s) of None \<Rightarrow> m | Some l \<Rightarrow> l) c"
    "wos s' = wos s" "calls s' = calls s + 1" "window_log s' = window_log s" "brk s' = brk s"
proof (cases "typed_line (wos s) (calls s)")
  case None
  then show ?thesis using assms(1)
    by (intro that [of "s\<lparr>calls := calls s + 1\<rparr>"]) (simp_all add: fgets_def sending_io)
next
  case (Some l)
  let ?s = "s\<lparr>calls := calls s + 1\<rparr>"
  let ?s' = "stored M (l @ [0]) ?s"
  have l: "0 \<notin> set l" "length l \<le> 4084" using assms(2) Some by (simp_all add: line_fits_def)
  have s: "sending ?s argv M T user m c" using assms(1) by (simp add: sending_io)
  then have "put_bytes M (l @ [0]) ?s = Inr ((), ?s')"
    by (intro put_stored [where n = MSG_BUFF_SIZE]) (use l in \<open>auto simp: sending_def MSG_BUFF_SIZE_def\<close>)
  moreover have "str_at ?s' M l"
    by (rule str_at_stored_new) (use s l in \<open>auto simp: sending_def mapped_def MSG_BUFF_SIZE_def\<close>)
  moreover have "bytes_at ?s' T c"
    by (rule bytes_at_stored_old) (use s l in \<open>auto simp: sending_def MSG_BUFF_SIZE_def\<close>)
  moreover have "str_at ?s' (argv ! ARG_USER_NAME) user"
    by (rule str_at_stored_old) (use s in \<open>auto simp: sending_def\<close>)
  ultimately show ?thesis using Some s l
    by (intro that [of ?s']) (simp_all add: fgets_def sending_def mapped_stored MSG_BUFF_SIZE_def)
qed

lemma sprintf_message_ok:
  assumes s: "sending s argv M T user l c" and l: "line_fits user l"
  obtains s' where "sprintf_message T user M s = Inr ((), s')"
    "sending s' argv M T user l (overlay c (message_text user l @ [0]))"
    "wos s' = wos s" "calls s' = calls s" "window_log s' = window_log s" "brk s' = brk s"
proof (rule that [of "stored T (message_text user l @ [0]) s"])
  let ?x = "message_text user l @ [0]"
  let ?s' = "stored T ?x s"
  have len: "length ?x \<le> MSG_BUFF_SIZE" using l by (simp add: length_message_text line_fits_def MSG_BUFF_SIZE_def)
  have "put_bytes T ?x s = Inr ((), ?s')"
    by (rule put_stored [OF bytes_at_is_mapped, where n = MSG_BUFF_SIZE]) (use s len in \<open>auto simp: sending_def\<close>)
  moreover have "c_str s M = Inr l" using s by (simp add: sending_def str_at_c_str)
  ultimately show "sprintf_message T user M s = Inr ((), ?s')" by (simp add: sprintf_message_def)
  have "bytes_at ?s' T (overlay c ?x)" by (rule overlay_at) (use s len in \<open>auto simp: sending_def\<close>)
  moreover have "str_at ?s' M l" "str_at ?s' (argv ! ARG_USER_NAME) user"
    by (rule str_at_stored_old; use s in \<open>auto simp: sending_def\<close>)+
  ultimately show "sending ?s' argv M T user l (overlay c ?x)"
    using s len by (simp add: sending_def mapped_stored)
qed simp_all

text \<open>Messages are sent until \<open>sendto\<close> fails, at the message after the \<open>n\<close>-th.\<close>

lemma sender_loop_ok:
  fixes s :: "'a window_mem_scheme"
  assumes "sending s argv M T user m c" and "n < k"
    and "\<forall>i \<le> n. typed_line (wos s) (calls s + 2 * i) = xs i"
    and "\<forall>i < n. 0 \<le> send_datagram (wos s) (calls s + 2 * i + 1)"
    and "send_datagram (wos s) (calls s + 2 * n + 1) < 0"
    and "\<forall>i \<le> n. \<forall>l. xs i = Some l \<longrightarrow> line_fits user l" and "line_fits user m"
  shows "\<exists>s'. sender_loop k sock ip port argv M T s = Inr (1, s') \<and>
    window_log s' = window_log s @ map (\<lambda>d. Datagram sock ip port (map Some d))
      (datagrams c user (said m (map xs [0..<n])))"
  using assms
proof (induction n arbitrary: k s m c xs)
  case 0
  then obtain j where k: "k = Suc j" by (cases k) auto
  obtain s1 where s1: "fgets M MSG_BUFF_SIZE s = Inr ((), s1)"
    "sending s1 argv M T user (case typed_line (wos s) (calls s) of None \<Rightarrow> m | Some l \<Rightarrow> l) c"
    "wos s1 = wos s" "calls s1 = calls s + 1" "window_log s1 = window_log s" "brk s1 = brk s"
    by (rule fgets_ok [OF "0.prems"(1)]) (use "0.prems" in auto)
  have fit: "line_fits user (case typed_line (wos s) (calls s) of None \<Rightarrow> m | Some l \<Rightarrow> l)"
    using "0.prems"(3,6,7) by (auto split: option.splits)
  obtain s2 where s2: "sprintf_message T user M s1 = Inr ((), s2)"
    "wos s2 = wos s1" "calls s2 = calls s1" "window_log s2 = window_log s1"
    by (rule sprintf_message_ok [OF s1(2) fit])
  have u: "argument argv ARG_USER_NAME s1 = Inr (user, s1)"
    by (rule argument_step) (use s1(2) in \<open>simp_all add: sending_def\<close>)
  show ?case using "0.prems"(5) s1 s2 u by (simp add: k)
next
  case (Suc n)
  then obtain j where k: "k = Suc j" "n < j" by (cases k) auto
  have x0: "typed_line (wos s) (calls s) = xs 0" using Suc.prems(3) by auto
  let ?l = "case typed_line (wos s) (calls s) of None \<Rightarrow> m | Some l \<Rightarrow> l"
  let ?d = "overlay c (message_text user ?l @ [0])"
  obtain s1 where s1: "fgets M MSG_BUFF_SIZE s = Inr ((), s1)" "sending s1 argv M T user ?l c"
    "wos s1 = wos s" "calls s1 = calls s + 1" "window_log s1 = window_log s" "brk s1 = brk s"
    by (rule fgets_ok [OF Suc.prems(1)]) (use x0 Suc.prems(6) in auto)
  have fit: "line_fits user ?l" using Suc.prems(6,7) by (auto simp: x0 split: option.splits)
  obtain s2 where s2: "sprintf_message T user M s1 = Inr ((), s2)" "sending s2 argv M T user ?l ?d"
    "wos s2 = wos s1" "calls s2 = calls s1" "window_log s2 = window_log s1"
    by (rule sprintf_message_ok [OF s1(2) fit])
  have u: "argument argv ARG_USER_NAME s1 = Inr (user, s1)"
    by (rule argument_step) (use s1(2) in \<open>simp_all add: sending_def\<close>)
  define s3 where "s3 = s2\<lparr>calls := calls s2 + 1,
    window_log := window_log s2 @ [Datagram sock ip port (map Some ?d)]\<rparr>"
  have sent: "0 \<le> send_datagram (wos s2) (calls s2)" using Suc.prems(4) s1 s2 by auto
  have read: "map (\<lambda>i. bytes s2 (T + i)) [0..<MSG_BUFF_SIZE] = map Some ?d"
    using block_read [of s2 T ?d] s2(2) by (simp add: sending_def)
  have step: "sender_loop k sock ip port argv M T s = sender_loop j sock ip port argv M T s3"
    using s1(1) u s2(1) sent read by (simp add: k s3_def)
  have s3: "sending s3 argv M T user ?l ?d" using s2(2) by (simp add: s3_def sending_def)
  have c3: "wos s3 = wos s" "calls s3 = calls s + 2" using s1 s2 by (simp_all add: s3_def)
  have "\<exists>s'. sender_loop j sock ip port argv M T s3 = Inr (1, s') \<and>
    window_log s' = window_log s3 @ map (\<lambda>d. Datagram sock ip port (map Some d))
      (datagrams ?d user (said ?l (map (\<lambda>i. xs (Suc i)) [0..<n])))"
  proof (rule Suc.IH [OF s3 k(2)])
    show "\<forall>i \<le> n. typed_line (wos s3) (calls s3 + 2 * i) = xs (Suc i)"
      using Suc.prems(3) c3 by (metis Suc_le_mono add.assoc add_2_eq_Suc mult_2 add_Suc_shift add_Suc)
    show "\<forall>i < n. 0 \<le> send_datagram (wos s3) (calls s3 + 2 * i + 1)"
    proof (intro allI impI)
      fix i assume "i < n"
      then show "0 \<le> send_datagram (wos s3) (calls s3 + 2 * i + 1)"
        using Suc.prems(4) [rule_format, of "Suc i"] c3 by simp
    qed
  qed (use Suc.prems(5,6) c3 fit in auto)
  moreover have "window_log s3 = window_log s @ [Datagram sock ip port (map Some ?d)]"
    using s1 s2 by (simp add: s3_def)
  moreover have "said m (map xs [0..<Suc n]) = ?l # said ?l (map (\<lambda>i. xs (Suc i)) [0..<n])"
    by (simp add: map_upt_Suc x0 split: option.split del: upt_Suc)
  ultimately show ?case using step by (auto simp: Let_def)
qed

section \<open>Local arrays\<close>

lemma scope_rest [simp]:
  fixes s :: "'a window_mem_scheme"
  shows "wos (in_scope n s) = wos s" "calls (in_scope n s) = calls s" "window_log (in_scope n s) = window_log s"
    "brk (in_scope n s) = brk s + n + 1" "window_log (out_of_scope p n s) = window_log s"
  by (simp_all add: in_scope_def out_of_scope_def)

lemma scope_str: "str_at s a xs \<Longrightarrow> str_at (in_scope n s) a xs"
  by (rule str_at_cong) (auto simp: in_scope_def str_at_def map_bytes_def)

lemma scope_block: "bytes_at s a c \<Longrightarrow> a + length c \<le> brk s \<Longrightarrow> bytes_at (in_scope n s) a c"
  by (rule bytes_at_cong) (auto simp: in_scope_def map_bytes_def)

lemma scope_new: "0 < brk s \<Longrightarrow> bytes_at (in_scope n s) (brk s) (replicate n 0)"
  by (rule bytes_at_map_bytes [where h = "bytes s"]) (simp_all add: in_scope_def)

lemma zeros_empty: "bytes_at s p (replicate n 0) \<Longrightarrow> 0 < n \<Longrightarrow> p < brk s \<Longrightarrow> str_at s p []"
  by (cases n) (auto simp: bytes_at_def str_at_Nil)

lemma write_pid_ok [c_step]:
  "pid_file_opens (wos s) \<Longrightarrow>
   write_pid f s = Inr ((), s\<lparr>window_log := window_log s @ [PidWritten f (dec_int (own_pid (wos s)))]\<rparr>)"
  by (simp add: write_pid_def)

lemma htons_atoi_ok [c_step]: "int_ok (atoi ds) \<Longrightarrow> htons_atoi ds s = Inr (word_of_int (atoi ds), s)"
  by (simp add: htons_atoi_def int_val_def)

text \<open>The arguments of a window: its name, an address, a port in decimal, a user and a group.\<close>

definition window_args ::
  "'a bmem_scheme \<Rightarrow> addr list \<Rightarrow> u8 list \<Rightarrow> u8 list \<Rightarrow> u8 list \<Rightarrow> u8 list \<Rightarrow> bool" where
  "window_args s argv ip digits user grp \<longleftrightarrow>
     (\<exists>name. list_all2 (str_at s) argv [name, ip, digits, user, grp])"

lemma window_argsD:
  assumes "window_args s argv ip digits user grp"
  shows "length argv = 5" "str_at s (argv ! ARGIP) ip" "str_at s (argv ! ARGPORT) digits"
    "str_at s (argv ! ARG_USER_NAME) user" "str_at s (argv ! ARG_GROUP_NAME) grp"
proof -
  obtain w where w: "list_all2 (str_at s) argv [w, ip, digits, user, grp]"
    using assms unfolding window_args_def by blast
  show "length argv = 5" using list_all2_lengthD [OF w] by simp
  show "str_at s (argv ! ARGIP) ip" "str_at s (argv ! ARGPORT) digits"
    "str_at s (argv ! ARG_USER_NAME) user" "str_at s (argv ! ARG_GROUP_NAME) grp"
    using list_all2_nthD2 [OF w, of 1] list_all2_nthD2 [OF w, of 2] list_all2_nthD2 [OF w, of 3]
      list_all2_nthD2 [OF w, of 4]
    by (simp_all add: ARGIP_def ARGPORT_def ARG_USER_NAME_def ARG_GROUP_NAME_def)
qed

lemma window_args_scope: "window_args s argv ip ds u g \<Longrightarrow> window_args (in_scope n s) argv ip ds u g"
  unfolding window_args_def by (blast intro: list_all2_mono scope_str)

lemma window_args_io [simp]:
  fixes s :: "'a window_mem_scheme"
  shows "window_args (s\<lparr>calls := n\<rparr>) argv ip ds u g = window_args s argv ip ds u g"
    "window_args (s\<lparr>window_log := es\<rparr>) argv ip ds u g = window_args s argv ip ds u g"
proof -
  have "str_at (s\<lparr>calls := n\<rparr>) = str_at s" "str_at (s\<lparr>window_log := es\<rparr>) = str_at s" by (simp_all add: fun_eq_iff)
  then show "window_args (s\<lparr>calls := n\<rparr>) argv ip ds u g = window_args s argv ip ds u g"
    "window_args (s\<lparr>window_log := es\<rparr>) argv ip ds u g = window_args s argv ip ds u g"
    by (simp_all add: window_args_def)
qed

text \<open>Reading the arguments that both programs read.\<close>

lemma arguments_read:
  assumes "window_args s argv ip ds u g"
  shows "argument argv ARGIP s = Inr (ip, s)" "argument argv ARGPORT s = Inr (ds, s)"
    "argument argv ARG_USER_NAME s = Inr (u, s)" "argument argv ARG_GROUP_NAME s = Inr (g, s)"
  using window_argsD [OF assms]
  by (auto intro!: argument_step simp: ARGIP_def ARGPORT_def ARG_USER_NAME_def ARG_GROUP_NAME_def)

section \<open>The sender\<close>

text \<open>The three arrays of the sender, the third with the name of the user.\<close>

lemma sender_setup:
  fixes s s4 :: "'a window_mem_scheme"
  defines "s3 \<equiv> in_scope MSG_BUFF_SIZE (in_scope MSG_BUFF_SIZE (in_scope MSG_BUFF_SIZE s))"
    and "T \<equiv> brk s + MSG_BUFF_SIZE + 1" and "W \<equiv> brk s + MSG_BUFF_SIZE + 1 + MSG_BUFF_SIZE + 1"
  assumes b: "0 < brk s" and args: "window_args s argv ip digits user grp" and fit: "length user \<le> 4084"
    and s4: "bytes s4 = bytes s3" "brk s4 = brk s3"
  shows "window_args s4 argv ip digits user grp"
    "strcpy W (argv ! ARG_USER_NAME) s4 = Inr ((), stored W (user @ [0]) s4)"
    "sending (stored W (user @ [0]) s4) argv (brk s) T user [] (replicate MSG_BUFF_SIZE 0)"
    "bytes s (T + MSG_BUFF_SIZE) = None \<Longrightarrow> bytes (stored W (user @ [0]) s4) (T + MSG_BUFF_SIZE) = None"
proof -
  let ?N = MSG_BUFF_SIZE and ?M = "brk s"
  let ?s1 = "in_scope ?N s"
  let ?s2 = "in_scope ?N ?s1"
  have N: "?N = 4096" by (simp add: MSG_BUFF_SIZE_def)
  have same: "str_at s4 p xs = str_at s3 p xs" "bytes_at s4 p ys = bytes_at s3 p ys" for p xs ys
    using s4 by (simp_all add: str_at_def bytes_at_def)
  then have "str_at s4 = str_at s3" by (simp add: fun_eq_iff)
  then show a4: "window_args s4 argv ip digits user grp"
    unfolding window_args_def using window_args_scope [OF window_args_scope [OF window_args_scope [OF args]], of ?N ?N ?N]
    by (simp add: s3_def window_args_def)
  have M: "bytes_at s3 ?M (replicate ?N 0)"
    unfolding s3_def by (intro scope_block scope_new b) (simp_all add: N)
  have T: "bytes_at s3 T (replicate ?N 0)"
    unfolding s3_def T_def by (rule scope_block) (use scope_new [of ?s1 ?N] in simp_all)
  have W: "bytes_at s3 W (replicate ?N 0)" using scope_new [of ?s2 ?N] by (simp add: s3_def W_def)
  have below: "argv ! ARG_USER_NAME + length user < ?M" using window_argsD(4) [OF args] by (simp add: str_at_def)
  have u4: "str_at s4 (argv ! ARG_USER_NAME) user" by (rule window_argsD(4) [OF a4])
  have "bytes_at s4 W (replicate ?N 0)" using W same by simp
  then have "mapped s4 W ?N" by (rule bytes_at_is_mapped) simp
  then show "strcpy W (argv ! ARG_USER_NAME) s4 = Inr ((), stored W (user @ [0]) s4)"
    by (rule strcpy_stored [OF u4]) (use fit in \<open>simp add: N\<close>)
  have "bytes_at (stored W (user @ [0]) s4) ?M (replicate ?N 0)" "bytes_at (stored W (user @ [0]) s4) T (replicate ?N 0)"
    by (rule bytes_at_stored_old; use M T same in \<open>simp add: N T_def W_def\<close>)+
  moreover have "str_at (stored W (user @ [0]) s4) (argv ! ARG_USER_NAME) user"
    by (rule str_at_stored_old [OF u4]) (use below in \<open>simp add: W_def\<close>)
  moreover have "brk s4 = brk s + 3 * (?N + 1)" by (simp add: s4 s3_def)
  ultimately show "sending (stored W (user @ [0]) s4) argv ?M T user [] (replicate ?N 0)"
    using window_argsD(1) [OF args] below
    by (auto simp: sending_def N ARG_USER_NAME_def T_def intro: zeros_empty bytes_at_is_mapped)
  show "bytes s (T + ?N) = None \<Longrightarrow> bytes (stored W (user @ [0]) s4) (T + ?N) = None"
    by (simp add: stored_def s4(1) s3_def in_scope_def map_bytes_def T_def W_def N)
qed

text \<open>From the start of the program to the loop.\<close>

lemma sender_main_start:
  fixes s :: "'a window_mem_scheme"
  assumes b: "0 < brk s" and args: "window_args s argv ip digits user grp" and port: "int_ok (atoi digits)"
    and os: "pid_file_opens (wos s)" "0 \<le> udp_socket (wos s) (calls s)" and fit: "length user \<le> 4084"
  obtains s6 :: "'a window_mem_scheme" and M T where "sending s6 argv M T user [] (replicate MSG_BUFF_SIZE 0)"
    "wos s6 = wos s" "calls s6 = calls s + 1" "window_log s6 = window_log s @
      [PidWritten (ascii ''./fileForSender'') (dec_int (own_pid (wos s))), Printed (sender_banner user)]"
    "\<And>k r s7. sender_loop k (udp_socket (wos s) (calls s)) ip (word_of_int (atoi digits)) argv M T s6 = Inr (r, s7) \<Longrightarrow>
      \<exists>s'. sender_main k argv s = Inr (r, s') \<and> window_log s' = window_log s7"
    "\<And>k e. sender_loop k (udp_socket (wos s) (calls s)) ip (word_of_int (atoi digits)) argv M T s6 = Inl e \<Longrightarrow>
      sender_main k argv s = Inl e"
    "bytes s (T + MSG_BUFF_SIZE) = None \<Longrightarrow> bytes s6 (T + MSG_BUFF_SIZE) = None" "brk s \<le> T"
proof -
  let ?N = MSG_BUFF_SIZE and ?sock = "udp_socket (wos s) (calls s)" and ?port = "word_of_int (atoi digits) :: 16 word"
  let ?M = "brk s" and ?T = "brk s + ?N + 1" and ?W = "brk s + ?N + 1 + ?N + 1"
  let ?s3 = "in_scope ?N (in_scope ?N (in_scope ?N s))"
  define s4 where "s4 = ?s3\<lparr>window_log := window_log s @ [PidWritten (ascii ''./fileForSender'') (dec_int (own_pid (wos s)))],
    calls := calls s + 1\<rparr>"
  define s5 where "s5 = stored ?W (user @ [0]) s4"
  define s6 where "s6 = s5\<lparr>window_log := window_log s5 @ [Printed (sender_banner user)]\<rparr>"
  have s4: "bytes s4 = bytes ?s3" "brk s4 = brk ?s3" by (simp_all add: s4_def)
  note arr = sender_setup [OF b args fit s4]
  have copy: "strcpy ?W (argv ! ARG_USER_NAME) s4 = Inr ((), s5)" unfolding s5_def by (rule arr(2))
  have s6: "sending s6 argv ?M ?T user [] (replicate ?N 0)"
    using arr(3) by (simp add: s6_def s5_def sending_io)
  have c6: "wos s6 = wos s" "calls s6 = calls s + 1" "window_log s6 = window_log s @
      [PidWritten (ascii ''./fileForSender'') (dec_int (own_pid (wos s))), Printed (sender_banner user)]"
    by (simp_all add: s6_def s5_def s4_def)
  have gap: "bytes s (?T + ?N) = None \<Longrightarrow> bytes s6 (?T + ?N) = None" using arr(4) by (simp add: s6_def s5_def)
  define body :: "nat \<Rightarrow> addr \<Rightarrow> addr \<Rightarrow> addr \<Rightarrow> ('a window_mem_scheme, int) prog" where
    "body k M T W = chain (write_pid (ascii ''./fileForSender'')) (\<lambda>_. chain (ask_window udp_socket) (\<lambda>sock.
      if sock < 0 then ret 0 else chain (argument argv ARGIP) (\<lambda>ip. chain (argument argv ARGPORT) (\<lambda>digits.
      chain (htons_atoi digits) (\<lambda>port. chain (argument argv ARG_USER_NAME) (\<lambda>user.
      chain (strcpy W (argv ! ARG_USER_NAME)) (\<lambda>_. chain (log_window (Printed (sender_banner user))) (\<lambda>_.
      sender_loop k sock ip port argv M T))))))))" for k M T W
  have w4: "chain (write_pid (ascii ''./fileForSender'')) (\<lambda>_. chain (ask_window udp_socket) f) ?s3 = f ?sock s4"
    for f :: "int \<Rightarrow> ('a window_mem_scheme, int) prog"
    using os by (simp add: write_pid_def s4_def)
  have "body k ?M ?T ?W ?s3 = sender_loop k ?sock ip ?port argv ?M ?T s6" for k
    using os(2) arguments_read [OF arr(1)] copy
    by (simp add: body_def w4 s6_def if_apply htons_atoi_ok [OF port])
  moreover have "sender_main k argv = with_array ?N (\<lambda>M. with_array ?N (\<lambda>T. with_array ?N (body k M T)))" for k
    by (simp add: sender_main_def body_def [symmetric])
  ultimately have "sender_main k argv s = (case sender_loop k ?sock ip ?port argv ?M ?T s6 of Inl e \<Rightarrow> Inl e
      | Inr (r, s7) \<Rightarrow> Inr (r, out_of_scope ?M ?N (out_of_scope ?T ?N (out_of_scope ?W ?N s7))))" for k
    by (simp add: with_array_exec split: sum.split)
  then show ?thesis using gap by (intro that [OF s6 c6]) auto
qed

lemma sender_main_ok:
  fixes s :: "'a window_mem_scheme"
  assumes "0 < brk s" and "window_args s argv ip digits user grp" and "int_ok (atoi digits)"
    and "pid_file_opens (wos s)" "0 \<le> udp_socket (wos s) (calls s)" and k: "n < k"
    and typed: "\<forall>i \<le> n. typed_line (wos s) (calls s + 1 + 2 * i) = xs i"
    and sent: "\<forall>i < n. 0 \<le> send_datagram (wos s) (calls s + 1 + 2 * i + 1)"
      "send_datagram (wos s) (calls s + 1 + 2 * n + 1) < 0"
    and fit: "\<forall>i \<le> n. \<forall>l. xs i = Some l \<longrightarrow> line_fits user l" "length user \<le> 4084"
  shows "\<exists>s'. sender_main k argv s = Inr (1, s') \<and>
    window_log s' = window_log s @ [PidWritten (ascii ''./fileForSender'') (dec_int (own_pid (wos s))),
        Printed (sender_banner user)] @
      map (\<lambda>d. Datagram (udp_socket (wos s) (calls s)) ip (word_of_int (atoi digits)) (map Some d))
        (datagrams (replicate MSG_BUFF_SIZE 0) user (said [] (map xs [0..<n])))"
proof -
  let ?sock = "udp_socket (wos s) (calls s)" and ?port = "word_of_int (atoi digits) :: 16 word"
  obtain s6 :: "'a window_mem_scheme" and M T where s6: "sending s6 argv M T user [] (replicate MSG_BUFF_SIZE 0)" and
    c6: "wos s6 = wos s" "calls s6 = calls s + 1" "window_log s6 = window_log s @
      [PidWritten (ascii ''./fileForSender'') (dec_int (own_pid (wos s))), Printed (sender_banner user)]" and
    run: "\<And>k r s7. sender_loop k ?sock ip ?port argv M T s6 = Inr (r, s7) \<Longrightarrow>
      \<exists>s'. sender_main k argv s = Inr (r, s') \<and> window_log s' = window_log s7"
    by (rule sender_main_start [OF assms(1-5) fit(2)]) (rule that; assumption)
  have "\<exists>s'. sender_loop k ?sock ip ?port argv M T s6 = Inr (1, s') \<and>
    window_log s' = window_log s6 @ map (\<lambda>d. Datagram ?sock ip ?port (map Some d))
      (datagrams (replicate MSG_BUFF_SIZE 0) user (said [] (map xs [0..<n])))"
    by (rule sender_loop_ok [OF s6 k]) (use typed sent fit c6 in \<open>simp_all add: line_fits_def\<close>)
  then show ?thesis using run c6(3) by fastforce
qed

text \<open>A line that does not fit, as soon as it is read, is written past the end of the array.\<close>

lemma sender_loop_overflows:
  fixes s :: "'a window_mem_scheme"
  assumes s: "sending s argv M T user m c" and gap: "bytes s (T + MSG_BUFF_SIZE) = None"
    and l: "typed_line (wos s) (calls s) = Some l" "0 \<notin> set l" "length l < MSG_BUFF_SIZE"
    and long: "4085 \<le> length user + length l" and k: "0 < k"
  shows "sender_loop k sock ip port argv M T s = Inl BadAddress"
proof -
  obtain j where j: "k = Suc j" using k by (cases k) auto
  let ?s = "stored M (l @ [0]) (s\<lparr>calls := calls s + 1\<rparr>)"
  have m: "mapped (s\<lparr>calls := calls s + 1\<rparr>) M MSG_BUFF_SIZE" using s by (simp add: sending_def)
  have read: "fgets M MSG_BUFF_SIZE s = Inr ((), ?s)"
    using l put_stored [OF m, of "l @ [0]"] by (simp add: fgets_def MSG_BUFF_SIZE_def)
  have line: "str_at ?s M l"
    by (rule str_at_stored_new) (use s l in \<open>auto simp: sending_def mapped_def MSG_BUFF_SIZE_def\<close>)
  have "str_at ?s (argv ! ARG_USER_NAME) user"
    by (rule str_at_stored_old) (use s in \<open>auto simp: sending_def\<close>)
  then have u: "argument argv ARG_USER_NAME ?s = Inr (user, ?s)"
    by (intro argument_step) (use s in \<open>simp_all add: sending_def\<close>)
  have "put_bytes T (message_text user l @ [0]) ?s = Inl BadAddress"
    by (rule put_bytes_fault [where i = MSG_BUFF_SIZE])
      (use s gap l long in \<open>auto simp: sending_def stored_def map_bytes_def length_message_text MSG_BUFF_SIZE_def bytes_at_def\<close>)
  moreover have "c_str ?s M = Inr l" using line by (rule str_at_c_str)
  ultimately have "sprintf_message T user M ?s = Inl BadAddress" by (simp add: sprintf_message_def)
  then show ?thesis using read u by (simp add: j)
qed

lemma sender_main_overflows:
  fixes s :: "'a window_mem_scheme"
  assumes "0 < brk s" and "\<forall>a \<ge> brk s. bytes s a = None" and "window_args s argv ip digits user grp" and "int_ok (atoi digits)"
    and "pid_file_opens (wos s)" "0 \<le> udp_socket (wos s) (calls s)" and "length user \<le> 4084" and k: "0 < k"
    and l: "typed_line (wos s) (calls s + 1) = Some l" "0 \<notin> set l" "length l < MSG_BUFF_SIZE" "4085 \<le> length user + length l"
  shows "sender_main k argv s = Inl BadAddress"
proof -
  obtain s6 :: "'a window_mem_scheme" and M T where s6: "sending s6 argv M T user [] (replicate MSG_BUFF_SIZE 0)"
    "wos s6 = wos s" "calls s6 = calls s + 1" and
    run: "\<And>k e. sender_loop k (udp_socket (wos s) (calls s)) ip (word_of_int (atoi digits)) argv M T s6 = Inl e \<Longrightarrow>
      sender_main k argv s = Inl e" and
    gap: "bytes s (T + MSG_BUFF_SIZE) = None \<Longrightarrow> bytes s6 (T + MSG_BUFF_SIZE) = None" "brk s \<le> T"
    by (rule sender_main_start [OF assms(1,3-7)]) (rule that; assumption)
  have "bytes s6 (T + MSG_BUFF_SIZE) = None" using gap assms(2) by simp
  then show ?thesis by (intro run sender_loop_overflows [OF s6(1)]) (use s6 l k in simp_all)
qed

section \<open>The listener\<close>

lemma overlay_text:
  assumes "bytes_at s p c" and "0 \<in> set c" and "p + length c < brk s"
  shows "str_at s p (takeWhile (\<lambda>b. b \<noteq> 0) c)"
proof -
  let ?t = "takeWhile (\<lambda>b. b \<noteq> 0) c"
  have len: "length ?t < length c" using assms(2) by (induction c) auto
  have "c ! length ?t = 0" using nth_length_takeWhile [OF len] by simp
  moreover have "\<forall>i < length ?t. ?t ! i = c ! i" by (simp add: takeWhile_nth)
  moreover have "0 \<notin> set ?t" by (auto dest: set_takeWhileD)
  ultimately show ?thesis using assms(1,3) len by (auto simp: str_at_def bytes_at_def)
qed

text \<open>Every datagram leaves a terminated text in the array.\<close>

fun terminated :: "u8 list \<Rightarrow> u8 list list \<Rightarrow> bool" where
  "terminated c [] = True"
| "terminated c (d # ds) =
     (let c' = overlay c (take MSG_BUFF_SIZE d) in 0 \<in> set c' \<and> terminated c' ds)"

lemma listener_loop_ok:
  fixes s :: "'a window_mem_scheme"
  assumes "bytes_at s p c" and "length c = MSG_BUFF_SIZE" and "p + MSG_BUFF_SIZE < brk s" and "length ds < k"
    and "\<forall>i < length ds. receive_datagram (wos s) (calls s + i) = Some (ds ! i)"
    and "receive_datagram (wos s) (calls s + length ds) = None" and "terminated c ds"
  shows "\<exists>s'. listener_loop k p s = Inr (0, s') \<and> window_log s' = window_log s @ map Printed (shown c ds)"
  using assms
proof (induction ds arbitrary: k s c)
  case Nil
  then show ?case by (cases k) auto
next
  case (Cons d ds)
  then obtain j where k: "k = Suc j" "length ds < j" by (cases k) auto
  let ?d = "take MSG_BUFF_SIZE d" and ?s1 = "s\<lparr>calls := calls s + 1\<rparr>"
  let ?c = "overlay c ?d" and ?s2 = "stored p ?d ?s1"
  define s3 where "s3 = ?s2\<lparr>window_log := window_log s @ [Printed (takeWhile (\<lambda>b. b \<noteq> 0) ?c)]\<rparr>"
  have first: "receive_datagram (wos s) (calls s) = Some d" using Cons.prems(5) by force
  have put: "put_bytes p ?d ?s1 = Inr ((), ?s2)"
    by (rule put_stored [OF bytes_at_is_mapped, where n = MSG_BUFF_SIZE]) (use Cons.prems(1,2) in auto)
  have c: "bytes_at ?s2 p ?c" by (rule overlay_at) (use Cons.prems(1,2) in auto)
  have len: "length ?c = MSG_BUFF_SIZE" using Cons.prems(2) by simp
  have "str_at ?s2 p (takeWhile (\<lambda>b. b \<noteq> 0) ?c)"
    by (rule overlay_text [OF c]) (use Cons.prems(3,7) len in \<open>simp_all add: Let_def\<close>)
  then have "c_str ?s2 p = Inr (takeWhile (\<lambda>b. b \<noteq> 0) ?c)" by (rule str_at_c_str)
  then have step: "listener_loop k p s = listener_loop j p s3"
    using first put by (simp add: k(1) s3_def)
  have "\<exists>s'. listener_loop j p s3 = Inr (0, s') \<and> window_log s' = window_log s3 @ map Printed (shown ?c ds)"
  proof (rule Cons.IH)
    show "\<forall>i < length ds. receive_datagram (wos s3) (calls s3 + i) = Some (ds ! i)"
      using Cons.prems(5) by (force simp: s3_def)
  qed (use c len Cons.prems(3,6,7) k(2) in \<open>simp_all add: s3_def Let_def\<close>)
  then show ?case using step by (auto simp: s3_def Let_def)
qed

lemma listener_overreads:
  fixes s :: "'a window_mem_scheme"
  assumes "bytes_at s p c" and "length c = MSG_BUFF_SIZE" and "bytes s (p + MSG_BUFF_SIZE) = None" and "0 < k"
    and "receive_datagram (wos s) (calls s) = Some d" and "length d = MSG_BUFF_SIZE" "0 \<notin> set d"
  shows "listener_loop k p s = Inl BadAddress"
proof -
  obtain j where j: "k = Suc j" using assms(4) by (cases k) auto
  let ?s = "stored p d (s\<lparr>calls := calls s + 1\<rparr>)"
  have put: "put_bytes p d (s\<lparr>calls := calls s + 1\<rparr>) = Inr ((), ?s)"
    by (rule put_stored [OF bytes_at_is_mapped, where n = MSG_BUFF_SIZE]) (use assms(1,2,6) in auto)
  have run: "c_str t q = Inl BadAddress" if "bytes_at t q xs" "0 \<notin> set xs" "bytes t (q + length xs) = None" "q \<noteq> NULL"
    for t :: "'a window_mem_scheme" and q xs
    using that
  proof (induction xs arbitrary: q)
    case Nil
    then show ?case by (subst c_str.simps) simp
  next
    case (Cons x xs)
    then have "c_str t (Suc q) = Inl BadAddress" by (intro Cons.IH) (auto simp: bytes_at_Cons)
    then show ?case using Cons.prems by (subst c_str.simps) (auto simp: bytes_at_Cons)
  qed
  have "p \<noteq> NULL" using assms(1) by (simp add: bytes_at_def)
  then have "c_str ?s p = Inl BadAddress"
    by (intro run [where xs = d] bytes_at_stored_new)
      (use assms(3,6,7) in \<open>simp_all add: stored_def map_bytes_def\<close>)
  then show ?thesis using assms(5,6) put by (simp add: j)
qed

lemma listener_main_ok:
  fixes s :: "'a window_mem_scheme"
  assumes b: "0 < brk s" and args: "window_args s argv ip digits user grp" and port: "int_ok (atoi digits)"
    and os: "pid_file_opens (wos s)" "0 \<le> udp_socket (wos s) (calls s)" "0 \<le> set_option (wos s) (calls s + 1)"
      "0 \<le> bind_address (wos s) (calls s + 2)" "0 \<le> set_option (wos s) (calls s + 3)"
    and k: "length ds < k"
    and heard: "\<forall>i < length ds. receive_datagram (wos s) (calls s + 4 + i) = Some (ds ! i)"
      "receive_datagram (wos s) (calls s + 4 + length ds) = None"
    and zero: "terminated (replicate MSG_BUFF_SIZE 0) ds"
  shows "\<exists>s'. listener_main k argv s = Inr (0, s') \<and>
    window_log s' = window_log s @ [PidWritten (ascii ''./fileForListen'') (dec_int (own_pid (wos s))),
        BoundTo (udp_socket (wos s) (calls s)) ip (word_of_int (atoi digits)), Joined (udp_socket (wos s) (calls s)) ip,
        Printed (listener_banner user grp)] @
      map Printed (shown (replicate MSG_BUFF_SIZE 0) ds)"
proof -
  let ?N = MSG_BUFF_SIZE and ?p = "brk s" and ?sock = "udp_socket (wos s) (calls s)"
    and ?port = "word_of_int (atoi digits) :: 16 word"
  let ?s1 = "in_scope ?N s"
  define log where "log = window_log s @ [PidWritten (ascii ''./fileForListen'') (dec_int (own_pid (wos s)))]"
  define at where "at n es = ?s1\<lparr>calls := calls s + n, window_log := log @ es\<rparr>" for n es
  have a: "window_args (at n es) argv ip digits user grp" for n es
    using window_args_scope [OF args] by (simp add: at_def)
  have zeros: "bytes_at (at n es) ?p (replicate ?N 0)" for n es using scope_new [OF b, of ?N] by (simp add: at_def)
  have at: "wos (at n es) = wos s" "calls (at n es) = calls s + n" "window_log (at n es) = log @ es"
    "brk (at n es) = brk s + ?N + 1" "(at n es)\<lparr>calls := calls s + n'\<rparr> = at n' es"
    "(at n es)\<lparr>window_log := log @ es'\<rparr> = at n es'" for n n' es es'
    by (simp_all add: at_def)
  have pid: "write_pid (ascii ''./fileForListen'') ?s1 = Inr ((), at 0 [])"
    using os(1) by (simp add: write_pid_def at_def log_def)
  have asks: "ask_window f (at 0 es) = Inr (f (wos s) (calls s), at 1 es)"
    "ask_window f (at 1 es) = Inr (f (wos s) (calls s + 1), at 2 es)"
    "ask_window f (at 2 es) = Inr (f (wos s) (calls s + 2), at 3 es)"
    "ask_window f (at 3 es) = Inr (f (wos s) (calls s + 3), at 4 es)" for f :: "window_os \<Rightarrow> nat \<Rightarrow> int" and es
    by (simp_all add: at_def)
  have logs: "log_window e (at n es) = Inr ((), at n (es @ [e]))" for e n es by (simp add: at_def)
  let ?es = "[BoundTo ?sock ip ?port, Joined ?sock ip, Printed (listener_banner user grp)]"
  obtain s2 where s2: "listener_loop k ?p (at 4 ?es) = Inr (0, s2)"
    "window_log s2 = log @ ?es @ map Printed (shown (replicate ?N 0) ds)"
    using listener_loop_ok [OF zeros _ _ k, of 4 ?es] heard zero by (auto simp: at)
  have "listener_main k argv s = Inr (0, out_of_scope ?p ?N s2)"
    using os s2(1) by (simp add: listener_main_def with_array_exec pid asks logs arguments_read [OF a]
      htons_atoi_ok [OF port] if_apply del: ask_window_step log_window_step One_nat_def)
  then show ?thesis using s2(2) by (simp add: log_def)
qed

end
