(* ===== verification/WindowProperties.thy ===== *)
theory WindowProperties
  imports WindowRuns
begin

text \<open>
  The chat itself: from the commands by which the client opens the two windows of a group to the
  lines that the members of the group see.
\<close>

section \<open>Commands and arguments\<close>

text \<open>
  \<open>splits_words shell\<close>: what the shell does with a command of plain words (letters, digits and
  \<open>+ - . / _\<close>): it splits the command at its spaces. Names with other characters have a meaning
  for the shell and are not covered.
\<close>

definition plain_char :: "u8 \<Rightarrow> bool" where
  "plain_char c \<longleftrightarrow> (48 \<le> c \<and> c \<le> 57) \<or> (65 \<le> c \<and> c \<le> 90) \<or> (97 \<le> c \<and> c \<le> 122) \<or> c \<in> {43, 45, 46, 47, 95}"

definition plain_word :: "u8 list \<Rightarrow> bool" where
  "plain_word w \<longleftrightarrow> w \<noteq> [] \<and> list_all plain_char w"

fun join_words :: "u8 list list \<Rightarrow> u8 list" where
  "join_words [] = []"
| "join_words [w] = w"
| "join_words (w # v # ws) = w @ 32 # join_words (v # ws)"

definition splits_words :: "(u8 list \<Rightarrow> u8 list list) \<Rightarrow> bool" where
  "splits_words shell \<longleftrightarrow> (\<forall>ws. list_all plain_word ws \<longrightarrow> shell (join_words ws) = ws)"

text \<open>The arguments of the program that \<open>gnome-terminal --geometry ... -x\<close> starts.\<close>

definition started :: "(u8 list \<Rightarrow> u8 list list) \<Rightarrow> u8 list \<Rightarrow> u8 list list" where
  "started shell cmd = drop 4 (shell cmd)"

text \<open>A shell that does just this, for the witnesses.\<close>

fun split_spaces :: "u8 list \<Rightarrow> u8 list \<Rightarrow> u8 list list" where
  "split_spaces w [] = (if w = [] then [] else [w])"
| "split_spaces w (c # cs) = (if c = 32 then w # split_spaces [] cs else split_spaces (w @ [c]) cs)"

lemma split_spaces_word: "32 \<notin> set v \<Longrightarrow> split_spaces w (v @ 32 # cs) = (w @ v) # split_spaces [] cs"
  by (induction v arbitrary: w) auto

lemma split_spaces_last: "32 \<notin> set v \<Longrightarrow> w @ v \<noteq> [] \<Longrightarrow> split_spaces w v = [w @ v]"
  by (induction v arbitrary: w) auto

lemma split_spaces_splits: "splits_words (split_spaces [])"
proof -
  have space: "32 \<notin> set w" "w \<noteq> []" if "plain_word w" for w
    using that by (auto simp: plain_word_def list_all_iff plain_char_def)
  have "split_spaces [] (join_words ws) = ws" if "list_all plain_word ws" for ws
    using that by (induction ws rule: join_words.induct) (auto simp: split_spaces_word split_spaces_last space)
  then show ?thesis by (simp add: splits_words_def)
qed

lemma windows_start:
  assumes "splits_words shell" and "plain_word ip" "plain_word un" "plain_word gn"
  shows "started shell (window_command listen_window ip port un gn) = [ascii ''./listen.out'', ip, dec_int port, un, gn]"
    "started shell (window_command sender_window ip port un gn) = [ascii ''./sender.out'', ip, dec_int port, un, gn]"
proof -
  have "plain_char c" if "c \<in> set (dec n)" for c n
    using dec_digits [OF that] by (simp add: plain_char_def word_le_nat_alt)
  moreover have "dec n \<noteq> []" for n by (subst dec.simps) simp
  ultimately have port: "plain_word (dec_int port)"
    by (auto simp: plain_word_def dec_int_def list_all_iff plain_char_def)
  let ?l = "[ascii ''gnome-terminal'', ascii ''--geometry'', ascii ''60x60+50+10'', ascii ''-x'', ascii ''./listen.out'',
    ip, dec_int port, un, gn]"
  let ?s = "[ascii ''gnome-terminal'', ascii ''--geometry'', ascii ''60x60+110+10'', ascii ''-x'', ascii ''./sender.out'',
    ip, dec_int port, un, gn]"
  have "window_command listen_window ip port un gn = join_words ?l"
    "window_command sender_window ip port un gn = join_words ?s"
    by (simp_all add: window_command_def listen_window_def sender_window_def ascii_def)
  moreover have plain: "list_all plain_word ?l" "list_all plain_word ?s"
    using assms(2-4) port by (simp_all add: plain_word_def ascii_def plain_char_def)
  moreover have four: "drop 4 (a # b # c # d # xs) = xs" for a b c d and xs :: "u8 list list"
    by (simp add: numeral_eq_Suc)
  moreover have "shell (join_words ?l) = ?l" "shell (join_words ?s) = ?s"
    using assms(1) plain unfolding splits_words_def by blast+
  ultimately show "started shell (window_command listen_window ip port un gn) = [ascii ''./listen.out'', ip, dec_int port, un, gn]"
    "started shell (window_command sender_window ip port un gn) = [ascii ''./sender.out'', ip, dec_int port, un, gn]"
    unfolding started_def by (simp_all only: four)
qed

lemma atoi_dec_int: "atoi (dec_int i) = i"
proof -
  have digits: "is_digit c" if "c \<in> set (dec n)" for c n
    using dec_digits [OF that] by (simp add: is_digit_def word_le_nat_alt)
  have all: "takeWhile is_digit (dec n) = dec n" for n using digits by (simp add: takeWhile_eq_all_conv)
  have other: "\<not> is_space c \<and> c \<noteq> 43 \<and> c \<noteq> 45" if "is_digit c" for c
    using that by (auto simp: is_digit_def is_space_def word_le_nat_alt)
  have "atoi (dec n) = int n" for n
  proof -
    have "dec n \<noteq> []" by (subst dec.simps) simp
    then obtain c cs where d: "dec n = c # cs" by (cases "dec n") auto
    have c: "is_digit c" using digits [of c n] d by simp
    show ?thesis using other [OF c] c all [of n] undec_dec [of n] unfolding d by (simp add: atoi_def takeWhile_eq_all_conv [THEN iffD2])
  qed
  moreover have "atoi (45 # dec n) = - int n" for n
    using all [of n] undec_dec [of n] digits
    by (simp add: atoi_def is_space_def takeWhile_eq_all_conv [THEN iffD2])
  ultimately show ?thesis by (simp add: dec_int_def)
qed

section \<open>Texts in datagrams\<close>

lemma datagram_text:
  assumes "j < length ls" and "length c = MSG_BUFF_SIZE" and "\<forall>l \<in> set ls. line_fits user l"
  shows "\<exists>rest. datagrams c user ls ! j = message_text user (ls ! j) @ 0 # rest \<and>
    length (datagrams c user ls ! j) = MSG_BUFF_SIZE"
  using assms
proof (induction ls arbitrary: c j)
  case (Cons l ls)
  let ?d = "overlay c (message_text user l @ [0])"
  have "length (message_text user l @ [0]) \<le> length c"
    using Cons.prems(2,3) by (simp add: length_message_text line_fits_def MSG_BUFF_SIZE_def)
  then have len: "length ?d = MSG_BUFF_SIZE" using Cons.prems(2) by simp
  show ?case
  proof (cases j)
    case 0
    then show ?thesis using len by (auto simp: Let_def overlay_def)
  next
    case (Suc i)
    then show ?thesis using Cons.IH [OF _ len, of i] Cons.prems(1,3) by (simp add: Let_def)
  qed
qed simp

lemma said_fits: "\<forall>l. Some l \<in> set xs \<longrightarrow> line_fits user l \<Longrightarrow> line_fits user m \<Longrightarrow> \<forall>l \<in> set (said m xs). line_fits user l"
  by (induction m xs rule: said.induct) auto

lemma shown_texts:
  assumes "length c = MSG_BUFF_SIZE" and "length ds = length ts"
    and "\<forall>i < length ts. 0 \<notin> set (ts ! i) \<and> length (ds ! i) = MSG_BUFF_SIZE \<and> (\<exists>rest. ds ! i = ts ! i @ 0 # rest)"
  shows "shown c ds = ts \<and> terminated c ds"
  using assms(2,1,3)
proof (induction ds ts arbitrary: c rule: list_induct2)
  case (Cons d ds t ts)
  then have d: "0 \<notin> set t" "length d = MSG_BUFF_SIZE" "\<exists>rest. d = t @ 0 # rest" by fastforce+
  then have o: "overlay c (take MSG_BUFF_SIZE d) = d" using Cons.prems(1) by (simp add: overlay_def)
  have "takeWhile (\<lambda>b. b \<noteq> 0) d = t" "0 \<in> set d" using d by (auto simp: takeWhile_append)
  moreover have "shown d ds = ts \<and> terminated d ds" by (rule Cons.IH [OF d(2)]) (use Cons.prems(2) in fastforce)
  ultimately show ?case by (simp add: o)
qed simp

section \<open>The conversation\<close>

text \<open>
  \<open>typing s user xs n\<close>: the sender in \<open>s\<close> starts, \<open>fgets\<close> finds \<open>xs 0, ..., xs n\<close>, and \<open>sendto\<close>
  succeeds \<open>n\<close> times and then fails. \<open>listening t ds\<close>: the listener in \<open>t\<close> starts, and the
  datagrams \<open>ds\<close> arrive before \<open>recvfrom\<close> fails.
\<close>

definition typing :: "'a window_mem_scheme \<Rightarrow> u8 list \<Rightarrow> (nat \<Rightarrow> u8 list option) \<Rightarrow> nat \<Rightarrow> bool" where
  "typing s user xs n \<longleftrightarrow> 0 < brk s \<and> pid_file_opens (wos s) \<and> 0 \<le> udp_socket (wos s) (calls s) \<and>
     (\<forall>i \<le> n. typed_line (wos s) (calls s + 1 + 2 * i) = xs i) \<and>
     (\<forall>i < n. 0 \<le> send_datagram (wos s) (calls s + 1 + 2 * i + 1)) \<and>
     send_datagram (wos s) (calls s + 1 + 2 * n + 1) < 0 \<and>
     (\<forall>i \<le> n. \<forall>l. xs i = Some l \<longrightarrow> line_fits user l) \<and> line_fits user []"

definition listening :: "'a window_mem_scheme \<Rightarrow> u8 list list \<Rightarrow> bool" where
  "listening t ds \<longleftrightarrow> 0 < brk t \<and> pid_file_opens (wos t) \<and> 0 \<le> udp_socket (wos t) (calls t) \<and>
     0 \<le> set_option (wos t) (calls t + 1) \<and> 0 \<le> bind_address (wos t) (calls t + 2) \<and>
     0 \<le> set_option (wos t) (calls t + 3) \<and>
     (\<forall>i < length ds. receive_datagram (wos t) (calls t + 4 + i) = Some (ds ! i)) \<and>
     receive_datagram (wos t) (calls t + 4 + length ds) = None"

text \<open>The lines that are sent, and the payloads.\<close>

definition lines_of :: "(nat \<Rightarrow> u8 list option) \<Rightarrow> nat \<Rightarrow> u8 list list" where
  "lines_of xs n = said [] (map xs [0..<n])"

definition payloads :: "u8 list \<Rightarrow> (nat \<Rightarrow> u8 list option) \<Rightarrow> nat \<Rightarrow> u8 list list" where
  "payloads user xs n = datagrams (replicate MSG_BUFF_SIZE 0) user (lines_of xs n)"

lemma payload_text:
  assumes "typing s user xs n" and "j < n"
  shows "\<exists>rest. payloads user xs n ! j = message_text user (lines_of xs n ! j) @ 0 # rest"
    "length (payloads user xs n ! j) = MSG_BUFF_SIZE" "0 \<notin> set (lines_of xs n ! j)"
proof -
  have "line_fits user l" if "i < n" "Some l = xs i" for i l
    using assms(1) that by (metis typing_def less_imp_le)
  moreover have "line_fits user []" using assms(1) by (simp add: typing_def)
  ultimately have "\<forall>l. Some l \<in> set (map xs [0..<n]) \<longrightarrow> line_fits user l" "line_fits user []" by auto
  then have fit: "\<forall>l \<in> set (lines_of xs n). line_fits user l" unfolding lines_of_def by (rule said_fits)
  have j: "j < length (lines_of xs n)" using assms(2) by (simp add: lines_of_def)
  from datagram_text [OF j _ fit, of "replicate MSG_BUFF_SIZE 0"]
  show "\<exists>rest. payloads user xs n ! j = message_text user (lines_of xs n ! j) @ 0 # rest"
    "length (payloads user xs n ! j) = MSG_BUFF_SIZE" by (auto simp: payloads_def)
  show "0 \<notin> set (lines_of xs n ! j)" using fit j by (auto simp: line_fits_def)
qed

lemma sender_run:
  fixes s :: "'a window_mem_scheme"
  assumes "typing s un xs n" and "list_all2 (str_at s) argv [name, ip, dec_int port, un, gn]" and "int_ok port"
  shows "\<exists>s'. sender_main (Suc n) argv s = Inr (1, s') \<and>
    window_log s' = window_log s @ [PidWritten (ascii ''./fileForSender'') (dec_int (own_pid (wos s))),
        Printed (sender_banner un)] @
      map (\<lambda>d. Datagram (udp_socket (wos s) (calls s)) ip (word_of_int port) (map Some d)) (payloads un xs n)"
proof -
  have "window_args s argv ip (dec_int port) un gn" using assms(2) unfolding window_args_def by blast
  from sender_main_ok [OF _ this, of n "Suc n" xs] show ?thesis
    using assms(1,3) by (simp add: typing_def atoi_dec_int payloads_def lines_of_def line_fits_def)
qed

lemma listener_run:
  fixes t :: "'a window_mem_scheme"
  assumes "listening t ds" and "list_all2 (str_at t) argv [name, ip, dec_int port, un, gn]" and "int_ok port"
    and "terminated (replicate MSG_BUFF_SIZE 0) ds"
  shows "\<exists>t'. listener_main (Suc (length ds)) argv t = Inr (0, t') \<and>
    window_log t' = window_log t @ [PidWritten (ascii ''./fileForListen'') (dec_int (own_pid (wos t))),
        BoundTo (udp_socket (wos t) (calls t)) ip (word_of_int port), Joined (udp_socket (wos t) (calls t)) ip,
        Printed (listener_banner un gn)] @ map Printed (shown (replicate MSG_BUFF_SIZE 0) ds)"
proof -
  have "window_args t argv ip (dec_int port) un gn" using assms(2) unfolding window_args_def by blast
  from listener_main_ok [OF _ this, of ds "Suc (length ds)"] show ?thesis
    using assms(1,3,4) by (simp add: listening_def atoi_dec_int)
qed

text \<open>C7: A member of a group types lines into the sender window that the client opened; another member has the listener window open. Every datagram goes to the address and port the listener is bound to; whichever of them arrive, in whatever order and how often, the listener prints the name of the sender and the line that was typed, and nothing else. After the end of the input the last line is sent again and again.\<close>

theorem conversation:
  fixes s :: "'a window_mem_scheme" and t :: "'b window_mem_scheme"
  assumes "splits_words shell" and "plain_word ip" "plain_word un" "plain_word un2" "plain_word gn" and "int_ok port"
    and "list_all2 (str_at s) argv (started shell (window_command sender_window ip port un gn))"
    and "list_all2 (str_at t) argv2 (started shell (window_command listen_window ip port un2 gn))"
    and "typing s un xs n" and "\<forall>j \<in> set js. j < n" and "listening t (map (\<lambda>j. payloads un xs n ! j) js)"
  shows "\<exists>s' t'. sender_main (Suc n) argv s = Inr (1, s') \<and> listener_main (Suc (length js)) argv2 t = Inr (0, t') \<and>
    window_log s' = window_log s @ [PidWritten (ascii ''./fileForSender'') (dec_int (own_pid (wos s))),
        Printed (sender_banner un)] @
      map (\<lambda>d. Datagram (udp_socket (wos s) (calls s)) ip (word_of_int port) (map Some d)) (payloads un xs n) \<and>
    window_log t' = window_log t @ [PidWritten (ascii ''./fileForListen'') (dec_int (own_pid (wos t))),
        BoundTo (udp_socket (wos t) (calls t)) ip (word_of_int port), Joined (udp_socket (wos t) (calls t)) ip,
        Printed (listener_banner un2 gn)] @
      map (\<lambda>j. Printed (message_text un (lines_of xs n ! j))) js"
proof -
  let ?ds = "map (\<lambda>j. payloads un xs n ! j) js" and ?ts = "map (\<lambda>j. message_text un (lines_of xs n ! j)) js"
  have un: "0 \<notin> set un" using assms(3) by (auto simp: plain_word_def list_all_iff plain_char_def)
  have clean: "0 \<notin> set (message_text un (lines_of xs n ! j))" if "j < n" for j
    by (rule message_text_zero [OF un payload_text(3) [OF assms(9) that]])
  have "shown (replicate MSG_BUFF_SIZE 0) ?ds = ?ts \<and> terminated (replicate MSG_BUFF_SIZE 0) ?ds"
    using payload_text(1,2) [OF assms(9)] assms(10) clean by (intro shown_texts) auto
  then show ?thesis
    using sender_run [OF assms(9) assms(7) [unfolded windows_start(2) [OF assms(1,2,3,5)]] assms(6)]
      listener_run [OF assms(11) assms(8) [unfolded windows_start(1) [OF assms(1,2,4,5)]] assms(6)]
    by (auto simp: comp_def)
qed

text \<open>Two processes: the strings lie one after the other, the arguments are one character long.\<close>

definition window_start :: "string \<Rightarrow> window_os \<Rightarrow> window_mem" where
  "window_start name w = \<lparr>brk = 22,
     bytes = map_bytes 1 (ascii name @ [0, 50, 0, 55, 0, 97, 0, 103, 0]) (\<lambda>_. None),
     wos = w, calls = 0, window_log = []\<rparr>"

definition idle_os :: window_os where
  "idle_os = \<lparr>pid_file_opens = True, own_pid = 70, udp_socket = (\<lambda>_. 3), set_option = (\<lambda>_. 0), bind_address = (\<lambda>_. 0),
     typed_line = (\<lambda>_. Some [104, 105, 10]), send_datagram = (\<lambda>i. if i < 3 then 4096 else - 1), receive_datagram = (\<lambda>_. None)\<rparr>"

lemma window_start_args:
  assumes "length name = 12" and "0 \<notin> set (ascii name)"
  shows "list_all2 (str_at (window_start name w)) [1, 14, 16, 18, 20] [ascii name, [50], [55], [97], [103]]"
proof -
  have len: "length (ascii name) = 12" using assms(1) by (simp add: ascii_def)
  have "str_at (window_start name w) 1 (ascii name)"
    using assms(2) len by (auto simp: str_at_def window_start_def map_bytes_def nth_append)
  moreover have "str_at (window_start name w) p [c]"
    if "(p, c) \<in> {(14, 50), (16, 55), (18, 97), (20, 103)}" for p c
    using that len by (auto simp: str_at_Cons str_at_Nil window_start_def map_bytes_def nth_append)
  ultimately show ?thesis by simp
qed

lemma small_port: "dec_int 7 = [55]" "int_ok 7"
  by (simp_all add: dec_int_def dec.simps int_ok_def)

lemma window_words: "plain_word [50]" "plain_word [97]" "plain_word [103]"
  by (simp_all add: plain_word_def plain_char_def)

theorem conversation_witness:
  "\<exists>w s' t'. sender_main 2 [1, 14, 16, 18, 20] (window_start ''./sender.out'' idle_os) = Inr (1, s') \<and>
    listener_main 2 [1, 14, 16, 18, 20] (window_start ''./listen.out'' w) = Inr (0, t') \<and>
    last (window_log t') = Printed (message_text [97] [104, 105, 10])"
proof -
  let ?shell = "split_spaces []" and ?xs = "\<lambda>_ :: nat. Some [104, 105, 10 :: u8]"
  let ?s = "window_start ''./sender.out'' idle_os"
  define w where "w = idle_os\<lparr>receive_datagram := (\<lambda>i. if i = 4 then Some (payloads [97] ?xs 1 ! 0) else None)\<rparr>"
  let ?t = "window_start ''./listen.out'' w"
  have sa: "list_all2 (str_at ?s) [1, 14, 16, 18, 20] (started ?shell (window_command sender_window [50] 7 [97] [103]))"
    unfolding windows_start(2) [OF split_spaces_splits window_words] small_port by (rule window_start_args) (simp_all add: ascii_def)
  have ta: "list_all2 (str_at ?t) [1, 14, 16, 18, 20] (started ?shell (window_command listen_window [50] 7 [97] [103]))"
    unfolding windows_start(1) [OF split_spaces_splits window_words] small_port by (rule window_start_args) (simp_all add: ascii_def)
  have typed: "typing ?s [97] ?xs 1"
    by (simp add: typing_def window_start_def idle_os_def line_fits_def)
  have heard: "listening ?t (map (\<lambda>j. payloads [97] ?xs 1 ! j) [0])"
    by (simp add: listening_def window_start_def w_def idle_os_def)
  have js: "\<forall>j \<in> set [0 :: nat]. j < 1" by simp
  have line: "lines_of ?xs 1 ! 0 = [104, 105, 10]" by (simp add: lines_of_def)
  have two: "Suc 1 = 2" "Suc (length [0 :: nat]) = 2" by simp_all
  obtain s' t' where st: "sender_main 2 [1, 14, 16, 18, 20] ?s = Inr (1, s')" "listener_main 2 [1, 14, 16, 18, 20] ?t = Inr (0, t')"
    "\<exists>es. window_log t' = es @ map (\<lambda>j. Printed (message_text [97] (lines_of ?xs 1 ! j))) [0]"
    using conversation [OF split_spaces_splits window_words(1,2,2,3) small_port(2) sa ta typed js heard]
    unfolding two append_assoc [symmetric] by blast
  then have "last (window_log t') = Printed (message_text [97] [104, 105, 10])" using line by auto
  with st show ?thesis by blast
qed

text \<open>C25: A line that does not fit into the array together with the name and the colours, although it fits into the buffer it is read into, makes the sender write past the end of the array.\<close>

theorem long_line_overflows:
  fixes s :: "'a window_mem_scheme"
  assumes "0 < brk s" and "\<forall>a \<ge> brk s. bytes s a = None" and "list_all2 (str_at s) argv [name, ip, dec_int port, un, gn]"
    and "int_ok port" and "pid_file_opens (wos s)" "0 \<le> udp_socket (wos s) (calls s)" and "length un \<le> 16" and "0 < k"
    and "typed_line (wos s) (calls s + 1) = Some l" "0 \<notin> set l" "length l = 4095 \<or> length l = 4085 - length un"
  shows "sender_main k argv s = Inl BadAddress"
proof -
  have "window_args s argv ip (dec_int port) un gn" using assms(3) unfolding window_args_def by blast
  from sender_main_overflows [OF assms(1,2) this, of k l] show ?thesis
    using assms(4-) by (auto simp: atoi_dec_int MSG_BUFF_SIZE_def)
qed

theorem long_line_overflows_witness:
  "sender_main 1 [1, 14, 16, 18, 20]
     (window_start ''./sender.out'' (idle_os\<lparr>typed_line := (\<lambda>_. Some (replicate 4084 120))\<rparr>)) = Inl BadAddress"
proof -
  have args: "list_all2 (str_at (window_start ''./sender.out'' w)) [1, 14, 16, 18, 20] [ascii ''./sender.out'', [50], dec_int 7, [97], [103]]" for w
    unfolding small_port by (rule window_start_args) (simp_all add: ascii_def)
  have line: "0 \<notin> set (replicate 4084 (120 :: u8))" "length (replicate 4084 (120 :: u8)) = 4084"
    by (simp_all only: set_replicate_conv_if length_replicate) simp
  show ?thesis
    by (rule long_line_overflows [OF _ _ args small_port(2) _ _ _ _ _ line(1)])
      (simp_all add: window_start_def idle_os_def map_bytes_def ascii_def line(2))
qed

end
