(* ===== verification/Spec2Isabelle.thy ===== *)
theory Spec2Isabelle
  imports ContainerProperties ChatOverTCP WindowProperties
begin

text \<open>
  A verification development for the chat program under \<^verbatim>\<open>src/\<close>: a server that registers users and
  hands out multicast groups, a client with a terminal interface, and the two programs of a chat
  window, one that sends lines to a group and one that prints what arrives.

  \<^bold>\<open>The program and its model.\<close> A C function is a program step: a function from the state of its
  process to a fault or a value and a new state (\<open>CMem\<close>: \<open>prog\<close>, \<open>ret\<close>, \<open>fail\<close>, \<open>chain\<close>). The state
  is a record that grows with the components: bytes (strings, buffers, character arrays in
  structs), then typed heaps for list nodes, map items, queues, pools, the values of the data base, the
  objects of the server or of the client, and what the process has done to the outside. \<open>malloc\<close>
  never reuses an address, every block is followed by an unmapped one, and a field that the code does
  not set holds \<open>junk\<close>; so use after free, writes past a block and null dereferences are faults.
  \<open>int\<close> values are integers whose overflow is a fault, \<open>size_t\<close> is \<open>64 word\<close>, characters are \<open>8 word\<close>.
  Calls of the operating system are answered by a record of functions of the number of the call, and
  what is sent, closed, run or printed goes to a log.

  \<^bold>\<open>Containers.\<close>
  \<^item> \<open>LinkedList\<close> models \<^verbatim>\<open>GenericDLinkedList/LinkedListGeneric.c\<close>; \<open>dlist\<close> is its invariant, and
    \<open>ListDeque\<close> shows that any sequence of operations is that of a deque. \<open>ListIter\<close> is
    \<^verbatim>\<open>GeneticListIter/LinkedListGenericIter.c\<close>, \<open>ListFun\<close> is \<^verbatim>\<open>ListFunction/ListFunctionGen.c\<close>.
  \<^item> \<open>HashPrime\<close>, \<open>GenericHash\<close>, \<open>HashDestroy\<close> model \<^verbatim>\<open>GenericHash/GenericHash.c\<close>; the
    functions of the caller are program steps, with the contract \<open>key_functions\<close>. \<open>HashRun\<close>: any
    sequence of operations is that of a dictionary.
  \<^item> \<open>GenericQueue\<close> models \<^verbatim>\<open>GenericQueue/GenericQueue.c\<close>, with the contract \<open>bounded_fifo\<close> on which
    \<open>PoolAddr\<close> (\<^verbatim>\<open>PoolAddr/PoolMultyCastAdd.c\<close>) rests; \<open>QueueRun\<close> is about sequences of operations.
  \<^item> \<open>ContainerProperties\<close> states the properties of these and of the protocol, with witnesses.

  \<^bold>\<open>Protocol.\<close> \<open>Protocol\<close> models \<open>Pack\<close> and \<open>UnPack\<close> of \<^verbatim>\<open>Protocol/Protocol.c\<close> byte by byte; structs are
  offsets into the byte memory.

  \<^bold>\<open>Server.\<close>
  \<^item> \<open>DataBase\<close> models \<^verbatim>\<open>ServerDB/DataBase.c\<close>. The keys of its maps are pointers into the
    receive buffer, so that users and groups are told apart by the character sum of their names
    alone (\<open>DataBaseKeys\<close>). \<open>DataBaseSpec\<close> is the abstract state \<open>chat\<close> and the relation
    \<open>db_rep\<close>; \<open>DataBaseOps\<close> and \<open>DataBaseCreate\<close> show that every operation refines its abstract one.
  \<^item> \<open>ServerApp\<close> models \<^verbatim>\<open>ServerApp/ServerApp.c\<close>; \<open>serve\<close> is what it should do with a request.
    \<open>ServerAppSpec\<close>, \<open>ServerGroups\<close>, \<open>ServerSession\<close> show that it does, for any sequence of requests;
    \<open>ChatRuns\<close> says what this means for the users.
  \<^item> \<open>ServerTCP\<close> models \<^verbatim>\<open>ServerTCP/server_tcp.c\<close>, \<^verbatim>\<open>ServerMain/ServerSide.c\<close> and \<^verbatim>\<open>createChat.c\<close>.
    \<open>ServerConns\<close>, \<open>ServerEvents\<close>, \<open>ServerAccept\<close> treat the list of clients, receiving, expiry and
    accepting; \<open>ServerLoop\<close> and \<open>ServerPasses\<close> the passes of the loop, in the locale
    \<open>server_application\<close>, which states what the TCP server relies on. \<open>Locality\<close> shows that the
    application touches only its own memory. \<open>ChatServer\<close> interprets the locale on the chat
    application; \<open>ServerLife\<close> is the whole run, and \<open>ServerProperties\<close> has the reachable states
    (\<open>reaches\<close>), their invariant and the ways in which a server dies.

  \<^bold>\<open>Client.\<close>
  \<^item> \<open>ClientNet\<close> models \<^verbatim>\<open>ClientServerComm/ClientServerComm.c\<close>, \<open>Client\<close> models \<^verbatim>\<open>Client/Client.c\<close>.
    \<open>ClientRun\<close> and \<open>ClientExchange\<close> follow a request from its strings to the answer in the local
    buffer; \<open>ClientWindows\<close> interprets the contract of the map on the map of window processes and
    treats the windows; \<open>ClientSession\<close> and \<open>ClientStart\<close> have a theorem for every call;
    \<open>ClientCalls\<close> composes calls.
  \<^item> \<open>UI\<close> models \<^verbatim>\<open>UI/UI.c\<close> and \<^verbatim>\<open>Main/ClientMain.c\<close>; \<open>ClientProperties\<close> states the properties.
  \<^item> \<open>EndToEnd\<close> runs the client against the application of the server, \<open>ChatOverTCP\<close> runs it against
    the whole server, with other clients, over the sockets.

  \<^bold>\<open>Chat windows.\<close> \<open>ChatWindows\<close> models \<^verbatim>\<open>senderChat/SenderProgram.c\<close> and
  \<^verbatim>\<open>ListenChat/ListenerProgram.c\<close>; \<open>WindowRuns\<close> gives their runs exactly, and \<open>WindowProperties\<close> joins
  them to the commands that the client gives to the shell, which is a parameter.

  \<^bold>\<open>Bounds and fuel.\<close> Loops over a heap that may be cyclic take \<open>brk\<close>, the number of addresses in
  use, as fuel, which suffices for every well-formed list. The loop of the server takes the number of passes, one
  per input; the loops of the user interface and of the windows take any number of rounds, and
  the theorems say that enough fuel gives the result or that no fuel does. Runs have fewer than
  \<open>2 ^ 31\<close> requests (the participant counts are \<open>int\<close>); maps and queues are smaller than \<open>2 ^ 62\<close>.

  \<^bold>\<open>Hypotheses.\<close> \<open>env\<close> says that \<open>malloc\<close> succeeds and that new memory is zero (\<open>zeroed\<close>): the program
  reads fields that it never sets (those of a new queue, the data of the last node of a list, the rest of a request
  behind its strings), and \<open>queue_lifetime\<close> shows what happens where they hold something else. Inputs of
  the server are whole messages of well-formed requests, and no client disconnects (\<open>feeds\<close>); the
  error properties show how the server fails on others. \<open>send\<close> may read past the block of an answer,
  as it does for every answer (\<open>reply_over_read\<close>). No signal arrives before its handler is installed.
  \<open>chat_over_tcp\<close> makes the calls of the client by \<open>client_run\<close>, not by \<open>RunUI\<close>, which writes out of
  bounds on the first name (\<open>run_ui\<close>).

  \<^bold>\<open>Not modelled.\<close> What is printed, other than by the listener; \<open>perror\<close> and \<open>sleep\<close>; signals
  other than the flag that ends the loop of the server. \<^verbatim>\<open>RunChat/RunChat.c\<close> does not compile. The unit tests
  are not part of the program. \<^verbatim>\<open>GeneticListIter/LinkedListGeneric.c\<close> and \<^verbatim>\<open>ListFunctionGen.c\<close> are
  copies of files that are modelled, and are not built.
\<close>

section \<open>The application as a whole\<close>

text \<open>C5: From a memory with a receive buffer, creating the data base and handling any list of well-formed requests never faults, and every answer is the one of the abstract chat server that starts empty; the memory reached represents the abstract state reached.\<close>

theorem server_run_refines:
  fixes s :: "'a db_mem_scheme"
  assumes "booted s buf" and "\<forall>r \<in> set rs. valid_request r" and "length rs < 2 ^ 31"
  shows "\<exists>db s1 s2. CreateMainDataBase s = Inr (db, s1) \<and>
    session buf db s1 rs (fst (serve_all rs chat_empty)) s2 \<and>
    db_rep s2 db buf {buf..<buf + 36} (snd (serve_all rs chat_empty))"
  by (rule booted_refines [OF assms])

theorem server_run_refines_witness:
  "\<exists>db s1 s2. CreateMainDataBase start_state = Inr (db, s1) \<and>
    session 1 db s1 [Register [97] [98], Login [97] [98], CreateGroup [103] [97], JoinGroup [103] [97]]
      (fst (serve_all [Register [97] [98], Login [97] [98], CreateGroup [103] [97], JoinGroup [103] [97]] chat_empty)) s2"
  using server_run_refines [OF start_state_booted, of
    "[Register [97] [98], Login [97] [98], CreateGroup [103] [97], JoinGroup [103] [97]]"] by fastforce

end
